(* ===== verification/Prelude.thy ===== *)
theory Prelude
  imports Main "HOL-Library.Word"
begin

text \<open>
  The shared base of the development: the names of the machine types, facts about
  power-of-two index masks and ring positions, schedules of atomic steps and the
  interfaces every concurrent component is proved through: \<open>inv_system\<close> (an inductive
  invariant of all interleavings), \<open>refinement\<close> and \<open>simulation\<close> (every interleaving is a
  run of an abstract, sequential specification, given by a function or a relation).
\<close>

unbundle bit_operations_syntax

section \<open>Machine types\<close>

text \<open>The target is LP64: \<open>std::size_t\<close> has 64 bits, \<open>int\<close> and \<open>uint32_t\<close> 32.\<close>

type_synonym size_t = "64 word"
type_synonym uint32 = "32 word"
type_synonym int32 = "32 word"

section \<open>Collections of facts\<close>

named_theorems ring_simps \<open>positions of a power-of-two ring buffer\<close>
named_theorems step_defs \<open>definitions unfolded to execute one atomic step\<close>

section \<open>Powers of two and masks\<close>

definition pow2_size :: "size_t \<Rightarrow> bool" where
  "pow2_size n \<longleftrightarrow> (\<exists>k<64. n = 2 ^ k)"

lemma unat_pow2:
  assumes "k < 64"
  shows "unat ((2::size_t) ^ k) = 2 ^ k"
proof -
  have "(2::nat) ^ k < 2 ^ 64" using assms by (intro power_strict_increasing) auto
  then have "unat (of_nat (2 ^ k) :: size_t) = 2 ^ k" by (simp only: unat_of_nat) simp
  then show ?thesis by simp
qed

lemma unat_lt64: "unat (w::size_t) < 2 ^ 64"
proof -
  have "unat w < 2 ^ LENGTH(64)" by (rule unsigned_less)
  then show ?thesis by simp
qed

lemma unat_lt32: "unat (w::uint32) < 2 ^ 32"
proof -
  have "unat w < 2 ^ LENGTH(32)" by (rule unsigned_less)
  then show ?thesis by simp
qed

lemma bit_iff_odd_unat: "bit (w::size_t) n \<longleftrightarrow> odd (unat w div 2 ^ n)"
proof -
  have "bit (unat w) n \<longleftrightarrow> bit w n" by (simp add: bit_unsigned_iff)
  then show ?thesis by (simp add: bit_iff_odd)
qed

lemma sint_neg_iff: "sint (w::size_t) < 0 \<longleftrightarrow> 2 ^ 63 \<le> unat w"
proof -
  have "sint w < 0 \<longleftrightarrow> odd (unat w div 2 ^ 63)"
    by (simp add: sint_uint bit_uint_iff bit_iff_odd_unat)
  also have "\<dots> \<longleftrightarrow> 2 ^ 63 \<le> unat w"
    using unat_lt64 [of w] by (auto simp: odd_iff_mod_2_eq_one intro: Suc_lessI)
  finally show ?thesis .
qed

lemma unat_sub_wrap:
  assumes "unat (x::size_t) < unat y"
  shows "unat (x - y) = 2 ^ 64 + unat x - unat y"
  using assms unat_sub_if_size [of x y] by (simp only: word_size) simp

lemma pow2_sizeE:
  assumes "pow2_size n"
  obtains k where "k < 64" "n = 2 ^ k" "unat n = 2 ^ k"
  using assms unat_pow2 by (auto simp: pow2_size_def)

lemma pow2_sizeI: "k < 64 \<Longrightarrow> pow2_size (2 ^ k)"
  by (auto simp: pow2_size_def)

lemma unat_and_pow2_mask: "unat ((w::size_t) AND (2 ^ k - 1)) = unat w mod 2 ^ k"
proof -
  have "w AND (2 ^ k - 1) = take_bit k w"
    by (simp add: take_bit_eq_mask mask_eq_exp_minus_1)
  then have "unat (w AND (2 ^ k - 1)) = take_bit k (unat w)"
    by (simp only: unsigned_take_bit_eq)
  then show ?thesis by (simp only: take_bit_eq_mod)
qed

lemma unat_and_ring_mask:
  assumes "pow2_size n"
  shows "unat ((w::size_t) AND (n - 1)) = unat w mod unat n"
  using assms by (auto elim!: pow2_sizeE simp: unat_and_pow2_mask)

lemma pow2_size_pos [intro]: "pow2_size n \<Longrightarrow> 0 < unat n"
  by (auto elim!: pow2_sizeE)

lemma unat_Suc_mod:
  assumes "pow2_size n"
  shows "unat ((w::size_t) + 1) mod unat n = Suc (unat w) mod unat n"
proof -
  from assms obtain k where k: "k < 64" "unat n = 2 ^ k" by (rule pow2_sizeE)
  then have "unat n dvd 2 ^ 64" using le_imp_power_dvd [of k 64 "2::nat"] by simp
  then show ?thesis by (simp add: unat_word_ariths mod_mod_cancel)
qed

text \<open>The next position of a ring: what \<open>(i + 1) & mask\<close> computes.\<close>

lemma unat_next_index [ring_simps]:
  assumes "pow2_size n"
  shows "unat (((w::size_t) + 1) AND (n - 1)) = Suc (unat w) mod unat n"
  using assms by (simp add: unat_and_ring_mask unat_Suc_mod)

lemma takeWhile_upt_first:
  assumes "m < n" "\<forall>i<m. P i" "\<not> P m"
  shows "length (takeWhile P [0..<n]) = m"
proof -
  have "[0..<n] = [0..<m] @ m # [Suc m..<n]"
    using assms(1) upt_add_eq_append [of 0 m "n - m"] by (simp add: upt_conv_Cons)
  moreover have "takeWhile P ([0..<m] @ m # [Suc m..<n]) = [0..<m] @ takeWhile P (m # [Suc m..<n])"
    using assms(2) by (intro takeWhile_append2) auto
  ultimately show ?thesis using assms(3) by simp
qed

section \<open>Ring positions counted without wrap-around\<close>

lemma mod_window_eq:
  assumes "(a::nat) \<le> b" "b - a < n"
  shows "a mod n = b mod n \<longleftrightarrow> a = b"
proof
  assume "a mod n = b mod n"
  then have "n dvd b - a"
    using assms(1) by (metis mod_eq_dvd_iff_nat)
  with assms show "a = b" by (auto dest: dvd_imp_le)
qed simp

lemma mod_window_eq_full:
  assumes "(a::nat) < b" "b - a \<le> n"
  shows "a mod n = b mod n \<longleftrightarrow> b = a + n"
proof
  assume "a mod n = b mod n"
  then have "n dvd b - a"
    using assms(1) by (metis mod_eq_dvd_iff_nat less_imp_le)
  with assms have "n \<le> b - a" by (auto dest: dvd_imp_le)
  with assms show "b = a + n" by simp
qed simp

lemma mod_window_inj:
  assumes "a \<le> i" "i < b" "a \<le> j" "j < b" "b \<le> a + (n::nat)" "i mod n = j mod n"
  shows "i = j"
proof (cases "i \<le> j")
  case True
  with assms mod_window_eq [of i j n] show ?thesis by simp
next
  case False
  then have "j \<le> i" "i - j < n" using assms by linarith+
  with assms(6) mod_window_eq [of j i n] show ?thesis by simp
qed

lemma ring_distance:
  assumes "h \<le> t" "t - h < (n::nat)"
  shows "(t mod n + n - h mod n) mod n = t - h"
proof -
  have "h mod n \<le> n" using assms by (intro less_imp_le mod_less_divisor) auto
  then have "(t mod n + n - h mod n) mod n = (t mod n + (n - h mod n)) mod n" by simp
  also have "\<dots> = (t + (n - h mod n)) mod n" by (simp add: mod_add_left_eq)
  also have "t + (n - h mod n) = (t - h) + (h div n + 1) * n"
    using assms \<open>h mod n \<le> n\<close> div_mult_mod_eq [of h n]
    by (simp only: distrib_right mult_1)
  also have "((t - h) + (h div n + 1) * n) mod n = t - h"
    using assms by (simp only: mod_mult_self1) simp
  finally show ?thesis .
qed

section \<open>Schedules of atomic steps\<close>

text \<open>
  A concurrent component is a function \<open>step c s\<close>: the choice \<open>c\<close> names the thread
  that moves (and resolves what the environment decides, such as a spurious failure of a
  weak compare-exchange), \<open>None\<close> says that the choice is not enabled, and
  \<open>Some (es, t)\<close> gives the events that the step makes visible and the next state.
  Every step holds one access to shared memory, so the list of choices is the interleaving.
\<close>

inductive reaches :: "('c \<Rightarrow> 's \<Rightarrow> ('e list \<times> 's) option) \<Rightarrow> 's \<Rightarrow> 'e list \<Rightarrow> 's \<Rightarrow> bool"
  for step :: "'c \<Rightarrow> 's \<Rightarrow> ('e list \<times> 's) option" where
  reaches_start: "reaches step s [] s"
| reaches_step: "reaches step s es t \<Longrightarrow> step c t = Some (e, u) \<Longrightarrow> reaches step s (es @ e) u"

fun run :: "('c \<Rightarrow> 's \<Rightarrow> ('e list \<times> 's) option) \<Rightarrow> 'c list \<Rightarrow> 's \<Rightarrow> ('e list \<times> 's) option" where
  "run step [] s = Some ([], s)"
| "run step (c # cs) s =
     (case step c s of
        None \<Rightarrow> None
      | Some (e, t) \<Rightarrow> (case run step cs t of None \<Rightarrow> None | Some (es, u) \<Rightarrow> Some (e @ es, u)))"

lemma reaches_trans:
  "reaches step t fs u \<Longrightarrow> reaches step s es t \<Longrightarrow> reaches step s (es @ fs) u"
proof (induction rule: reaches.induct)
  case (reaches_step s' es' t' c e u')
  then show ?case
    using reaches.reaches_step [of step s "es @ es'" t' c e u'] by simp
qed simp

lemma reaches_one: "step c s = Some (e, t) \<Longrightarrow> reaches step s e t"
  using reaches_step [OF reaches_start, of step c s e t] by simp

lemma run_reaches: "run step cs s = Some (es, t) \<Longrightarrow> reaches step s es t"
proof (induction cs arbitrary: s es)
  case Nil
  then show ?case by (simp add: reaches_start)
next
  case (Cons c cs)
  then obtain e u fs where "step c s = Some (e, u)" "run step cs u = Some (fs, t)" "es = e @ fs"
    by (auto split: option.splits)
  then show ?case
    using Cons.IH reaches_one reaches_trans by metis
qed

lemma run_append:
  "run step (cs @ ds) s =
     (case run step cs s of
        None \<Rightarrow> None
      | Some (e, t) \<Rightarrow> (case run step ds t of None \<Rightarrow> None | Some (f, u) \<Rightarrow> Some (e @ f, u)))"
  by (induction cs arbitrary: s) (auto split: option.splits)

text \<open>The steps of a system that stay in \<open>P\<close>, a bound on how long it has been running.\<close>

definition within :: "('s \<Rightarrow> bool) \<Rightarrow> ('c \<Rightarrow> 's \<Rightarrow> ('e list \<times> 's) option) \<Rightarrow> 'c \<Rightarrow> 's \<Rightarrow> ('e list \<times> 's) option" where
  "within P step c s = (case step c s of None \<Rightarrow> None | Some (e, t) \<Rightarrow> if P t then Some (e, t) else None)"

lemma within_Some: "within P step c s = Some (e, t) \<longleftrightarrow> step c s = Some (e, t) \<and> P t"
  by (auto simp: within_def split: option.splits if_splits)

lemma reaches_within:
  assumes "reaches step s es t" "P t" "\<And>c s e t. step c s = Some (e, t) \<Longrightarrow> P t \<Longrightarrow> P s"
  shows "reaches (within P step) s es t"
  using assms(1,2)
proof (induction rule: reaches.induct)
  case (reaches_step s es t c e u)
  then show ?case using assms(3) reaches.reaches_step [of "within P step" s es t c e u] by (simp add: within_Some)
qed (rule reaches_start)

section \<open>Sequential specifications\<close>

text \<open>
  A specification maps each event to its effect on an abstract state, \<open>None\<close> where the
  event cannot happen; \<open>accepts\<close> replays a list of events on it.
\<close>

fun accepts :: "('e \<Rightarrow> 'a \<Rightarrow> 'a option) \<Rightarrow> 'e list \<Rightarrow> 'a \<Rightarrow> 'a option" where
  "accepts spec [] a = Some a"
| "accepts spec (e # es) a = (case spec e a of None \<Rightarrow> None | Some b \<Rightarrow> accepts spec es b)"

lemma accepts_append:
  "accepts spec (es @ fs) a =
     (case accepts spec es a of None \<Rightarrow> None | Some b \<Rightarrow> accepts spec fs b)"
  by (induction es arbitrary: a) (auto split: option.splits)

section \<open>The interfaces of a concurrent component\<close>

locale inv_system =
  fixes step :: "'c \<Rightarrow> 's \<Rightarrow> ('e list \<times> 's) option"
    and init :: "'s \<Rightarrow> bool"
    and inv :: "'s \<Rightarrow> bool"
  assumes inv_init: "init s \<Longrightarrow> inv s"
    and inv_step: "inv s \<Longrightarrow> step c s = Some (e, t) \<Longrightarrow> inv t"
begin

lemma inv_reaches_from: "reaches step s es t \<Longrightarrow> inv s \<Longrightarrow> inv t"
  by (induction rule: reaches.induct) (auto intro: inv_step)

lemma inv_reaches: "init s \<Longrightarrow> reaches step s es t \<Longrightarrow> inv t"
  by (blast intro: inv_init inv_reaches_from)

end

locale refinement = inv_system step init inv
  for step :: "'c \<Rightarrow> 's \<Rightarrow> ('e list \<times> 's) option"
    and init :: "'s \<Rightarrow> bool"
    and inv :: "'s \<Rightarrow> bool" +
  fixes abs :: "'s \<Rightarrow> 'a"
    and spec :: "'e \<Rightarrow> 'a \<Rightarrow> 'a option"
  assumes refines: "inv s \<Longrightarrow> step c s = Some (e, t) \<Longrightarrow> accepts spec e (abs s) = Some (abs t)"
begin

lemma refines_reaches:
  "reaches step s es t \<Longrightarrow> inv s \<Longrightarrow> accepts spec es (abs s) = Some (abs t)"
proof (induction rule: reaches.induct)
  case (reaches_step s es t c e u)
  then show ?case
    using inv_reaches_from [of s es t] refines [of t c e u]
    by (simp add: accepts_append)
qed simp

lemma refines_run:
  assumes "init s" "reaches step s es t"
  shows "accepts spec es (abs s) = Some (abs t)"
  using assms by (blast intro: refines_reaches inv_init)

end

text \<open>The relational form: concrete and abstract states are related, not computed from each other.\<close>

locale simulation =
  fixes step :: "'c \<Rightarrow> 's \<Rightarrow> ('e list \<times> 's) option"
    and init :: "'s \<Rightarrow> 'a \<Rightarrow> bool"
    and rel :: "'s \<Rightarrow> 'a \<Rightarrow> bool"
    and spec :: "'e \<Rightarrow> 'a \<Rightarrow> 'a option"
  assumes rel_init: "init s a \<Longrightarrow> rel s a"
    and rel_step: "rel s a \<Longrightarrow> step c s = Some (e, t) \<Longrightarrow> \<exists>b. accepts spec e a = Some b \<and> rel t b"
begin

lemma simulates_from: "reaches step s es t \<Longrightarrow> rel s a \<Longrightarrow> \<exists>b. accepts spec es a = Some b \<and> rel t b"
proof (induction rule: reaches.induct)
  case (reaches_step s es t c e u)
  then obtain b where b: "accepts spec es a = Some b" "rel t b" by blast
  with rel_step [OF b(2) reaches_step.hyps(2)] show ?case by (auto simp: accepts_append)
qed simp

lemma simulates: "init s a \<Longrightarrow> reaches step s es t \<Longrightarrow> \<exists>b. accepts spec es a = Some b \<and> rel t b"
  by (blast intro: rel_init simulates_from)

end

end
