(* ===== verification/Ring_Capacity.thy ===== *)
theory Ring_Capacity
  imports Prelude
begin

text \<open>
  The compile-time size of the ring buffers. \<open>BoundedSPSCQueue\<close>, \<open>BoundedMPMCQueue\<close> and
  \<open>BatchedBoundedSPSCQueue\<close> (queue/) each hold a copy of the same constexpr function
  \<open>GetBufferSize\<close>: it rounds \<open>Capacity + 1\<close> up to a power of two with a count of leading
  zeros and a shift of the \<open>int\<close> literal 1. The model keeps the widths (the shift is one of
  32 bits, its result is converted to 64 bits with its sign) and the two ways in which the
  constant evaluation fails: a shift out of range and the failed assertion.
\<close>

section \<open>Builtins of the language\<close>

text \<open>\<open>__builtin_clzll\<close>: the number of leading zero bits of a 64-bit value.\<close>

definition clzll :: "size_t \<Rightarrow> int" where
  "clzll w = int (length (takeWhile (\<lambda>i. \<not> bit w (63 - i)) [0..<64]))"

text \<open>
  \<open>a << n\<close> on \<open>int\<close> (C++20): reduced modulo \<open>2 ^ 32\<close>, and undefined (not a constant
  expression) when \<open>n\<close> is negative or at least 32.
\<close>

definition int_shl :: "int32 \<Rightarrow> int \<Rightarrow> int32 option" where
  "int_shl a n = (if 0 \<le> n \<and> n < 32 then Some (push_bit (nat n) a) else None)"

datatype const_error = ShiftOutOfRange | AssertionFailed

section \<open>The three copies of GetBufferSize\<close>

definition spsc_GetBufferSize :: "size_t \<Rightarrow> const_error + size_t" where
  "spsc_GetBufferSize Capacity =
     (let capacity = Capacity + 1;
          capacity = (if capacity < 4 then 4 else capacity);
          max_bits_number = 8 * 8 - 1
      in case int_shl 1 (max_bits_number - clzll capacity + 1) of
           None \<Rightarrow> Inl ShiftOutOfRange
         | Some c \<Rightarrow>
             (let capacity = scast c :: size_t
              in if capacity AND (capacity - 1) = 0 then Inr capacity
                 else Inl AssertionFailed))"

definition mpmc_GetBufferSize :: "size_t \<Rightarrow> const_error + size_t" where
  "mpmc_GetBufferSize Capacity =
     (let capacity = Capacity + 1;
          capacity = (if capacity < 4 then 4 else capacity);
          max_bits_number = 8 * 8 - 1
      in case int_shl 1 (max_bits_number - clzll capacity + 1) of
           None \<Rightarrow> Inl ShiftOutOfRange
         | Some c \<Rightarrow>
             (let capacity = scast c :: size_t
              in if capacity AND (capacity - 1) = 0 then Inr capacity
                 else Inl AssertionFailed))"

definition batched_GetBufferSize :: "size_t \<Rightarrow> const_error + size_t" where
  "batched_GetBufferSize Capacity =
     (let capacity = Capacity + 1;
          capacity = (if capacity < 4 then 4 else capacity);
          max_bits_number = 8 * 8 - 1
      in case int_shl 1 (max_bits_number - clzll capacity + 1) of
           None \<Rightarrow> Inl ShiftOutOfRange
         | Some c \<Rightarrow>
             (let capacity = scast c :: size_t
              in if capacity AND (capacity - 1) = 0 then Inr capacity
                 else Inl AssertionFailed))"

lemma GetBufferSize_copies:
  "mpmc_GetBufferSize = spsc_GetBufferSize" "batched_GetBufferSize = spsc_GetBufferSize"
  by (simp_all add: fun_eq_iff spsc_GetBufferSize_def mpmc_GetBufferSize_def
      batched_GetBufferSize_def)

section \<open>Leading zeros and the shift\<close>

lemma clzll_eq:
  assumes "2 ^ k \<le> unat w" "unat w < 2 ^ Suc k" "k < 64"
  shows "clzll w = 63 - int k"
proof -
  have "bit w k"
  proof -
    have "unat w div 2 ^ k = 1"
      using assms by (intro div_nat_eqI) auto
    then show ?thesis by (simp add: bit_iff_odd_unat)
  qed
  moreover have "\<not> bit w n" if "k < n" for n
  proof -
    have "(2::nat) ^ Suc k \<le> 2 ^ n" using that by (intro power_increasing) auto
    then have "unat w div 2 ^ n = 0" using assms by simp
    then show ?thesis by (simp add: bit_iff_odd_unat)
  qed
  ultimately have "length (takeWhile (\<lambda>i. \<not> bit w (63 - i)) [0..<64]) = 63 - k"
    using assms(3) by (intro takeWhile_upt_first) auto
  then show ?thesis using assms(3) by (simp add: clzll_def of_nat_diff)
qed

lemma scast_int_pow2:
  assumes "m < 31"
  shows "(scast (push_bit m 1 :: int32) :: size_t) = 2 ^ m"
  using assms
  by (intro bit_word_eqI) (auto simp: bit_signed_iff bit_push_bit_iff bit_exp_iff bit_1_iff)

lemma pow2_and_pred: "m < 64 \<Longrightarrow> (2::size_t) ^ m AND (2 ^ m - 1) = 0"
  by (simp flip: unat_eq_zero add: unat_and_pow2_mask unat_pow2)

section \<open>What GetBufferSize computes\<close>

lemma GetBufferSize_by_log:
  assumes k: "2 ^ k \<le> unat c" "unat c < 2 ^ Suc k" "k < 64"
    and c: "c = (if Capacity + 1 < 4 then 4 else Capacity + 1)"
  shows "spsc_GetBufferSize Capacity =
    (if k < 30 then Inr (2 ^ Suc k)
     else if k = 30 then Inl AssertionFailed else Inl ShiftOutOfRange)"
proof -
  have sh: "8 * 8 - 1 - clzll c + 1 = int (Suc k)" using clzll_eq [OF k] by simp
  have "spsc_GetBufferSize Capacity =
     (case int_shl 1 (int (Suc k)) of
           None \<Rightarrow> Inl ShiftOutOfRange
         | Some c \<Rightarrow>
             (let capacity = scast c :: size_t
              in if capacity AND (capacity - 1) = 0 then Inr capacity
                 else Inl AssertionFailed))"
    unfolding spsc_GetBufferSize_def Let_def c [symmetric] sh ..
  also have "\<dots> = (if k < 30 then Inr (2 ^ Suc k)
     else if k = 30 then Inl AssertionFailed else Inl ShiftOutOfRange)"
  proof (cases "k < 30")
    case True
    then show ?thesis
      using scast_int_pow2 [of "Suc k"] pow2_and_pred [of "Suc k"]
      by (simp add: int_shl_def nat_add_distrib del: power_Suc push_bit_Suc)
  next
    case False
    show ?thesis
    proof (cases "k = 30")
      case True
      then show ?thesis by (simp add: int_shl_def)
    next
      case False
      with \<open>\<not> k < 30\<close> show ?thesis by (simp add: int_shl_def)
    qed
  qed
  finally show ?thesis .
qed

text \<open>The value that is rounded up has a binary logarithm, and rounding doubles that power.\<close>

definition requested_slots :: "size_t \<Rightarrow> size_t" where
  "requested_slots Capacity = (if Capacity + 1 < 4 then 4 else Capacity + 1)"

lemma requested_slots_ge: "4 \<le> unat (requested_slots Capacity)"
proof -
  have "4 \<le> requested_slots Capacity" by (simp add: requested_slots_def not_less)
  then show ?thesis by (simp add: word_le_nat_alt)
qed

lemma unat_requested_slots:
  "unat (requested_slots Capacity) =
    (if unat Capacity = 2 ^ 64 - 1 then 4 else max 4 (unat Capacity + 1))"
proof (cases "unat Capacity = 2 ^ 64 - 1")
  case True
  then have "unat (Capacity + 1) = 0" by (simp add: unat_word_ariths)
  then have "Capacity + 1 = 0" by (simp add: unat_eq_zero)
  with True show ?thesis by (simp add: requested_slots_def)
next
  case False
  moreover have "unat Capacity < 2 ^ 64" using unsigned_less [of Capacity] by simp
  ultimately have "unat (Capacity + 1) = unat Capacity + 1"
    by (simp add: unat_word_ariths)
  with False show ?thesis
    by (auto simp: requested_slots_def word_less_nat_alt max_def)
qed

lemma GetBufferSize_cases:
  obtains k where "2 \<le> k" "k < 64" "2 ^ k \<le> unat (requested_slots Capacity)"
    "unat (requested_slots Capacity) < 2 ^ Suc k"
    "spsc_GetBufferSize Capacity =
      (if k < 30 then Inr (2 ^ Suc k)
       else if k = 30 then Inl AssertionFailed else Inl ShiftOutOfRange)"
proof -
  let ?c = "unat (requested_slots Capacity)"
  obtain k where k: "2 ^ k \<le> ?c" "?c < 2 ^ (k + 1)"
    using ex_power_ivl1 [of 2 ?c] requested_slots_ge [of Capacity] by auto
  have "(2::nat) ^ k < 2 ^ 64"
    using k(1) unat_lt64 by (rule le_less_trans)
  then have "k < 64" by (simp only: power_strict_increasing_iff)
  moreover have "(2::nat) ^ 2 < 2 ^ (k + 1)" using k(2) requested_slots_ge [of Capacity] by simp
  then have "2 < k + 1" by (simp only: power_strict_increasing_iff)
  ultimately show thesis
    using that [of k] k GetBufferSize_by_log [of k "requested_slots Capacity" Capacity]
    by (simp add: requested_slots_def)
qed

lemma GetBufferSize_Inr:
  assumes "spsc_GetBufferSize Capacity = Inr N"
  shows "pow2_size N" "8 \<le> unat N" "unat N \<le> 2 ^ 30"
    "unat (requested_slots Capacity) < unat N" "unat N \<le> 2 * unat (requested_slots Capacity)"
proof -
  obtain k where k: "2 \<le> k" "k < 30" "2 ^ k \<le> unat (requested_slots Capacity)"
    "unat (requested_slots Capacity) < 2 ^ Suc k" "N = 2 ^ Suc k"
    using assms by (cases rule: GetBufferSize_cases [of Capacity]) (auto split: if_splits)
  then have N: "unat N = 2 ^ Suc k" using unat_pow2 [of "Suc k"] by simp
  show "pow2_size N" using k pow2_sizeI [of "Suc k"] by simp
  have "(2::nat) ^ 3 \<le> 2 ^ Suc k" using k(1) by (intro power_increasing) auto
  then show "8 \<le> unat N" using N by simp
  have "(2::nat) ^ Suc k \<le> 2 ^ 30" using k(2) by (intro power_increasing) auto
  then show "unat N \<le> 2 ^ 30" using N by simp
  show "unat (requested_slots Capacity) < unat N" "unat N \<le> 2 * unat (requested_slots Capacity)"
    using k N by simp_all
qed

text \<open>
  The three queues' \<open>GetBufferSize\<close> is total up to a documented limit: for every
  capacity below \<open>2 ^ 30 - 1\<close> (and for the wrapped maximum of \<open>size_t\<close>) it gives a power of
  two that exceeds \<open>Capacity + 1\<close> and is at most the larger of 8 and twice \<open>Capacity + 1\<close>;
  every other capacity fails to compile, by the assertion or by the shift.
\<close>

theorem GetBufferSize_correct:
  "if unat Capacity < 2 ^ 30 - 1
   then (\<exists>N. spsc_GetBufferSize Capacity = Inr N \<and> mpmc_GetBufferSize Capacity = Inr N
           \<and> batched_GetBufferSize Capacity = Inr N
           \<and> pow2_size N \<and> unat Capacity + 1 < unat N \<and> unat N \<le> max 8 (2 * (unat Capacity + 1)))
   else if unat Capacity = 2 ^ 64 - 1 then spsc_GetBufferSize Capacity = Inr 8
   else if unat Capacity < 2 ^ 31 - 1 then spsc_GetBufferSize Capacity = Inl AssertionFailed
   else spsc_GetBufferSize Capacity = Inl ShiftOutOfRange"
proof -
  let ?n = "unat Capacity" and ?c = "unat (requested_slots Capacity)"
  obtain k where k: "2 \<le> k" "2 ^ k \<le> ?c" "?c < 2 ^ Suc k"
    and v: "spsc_GetBufferSize Capacity =
      (if k < 30 then Inr (2 ^ Suc k)
       else if k = 30 then Inl AssertionFailed else Inl ShiftOutOfRange)"
    by (rule GetBufferSize_cases)
  have c: "?c = (if ?n = 2 ^ 64 - 1 then 4 else max 4 (?n + 1))"
    by (rule unat_requested_slots)
  have log: "k < m \<longleftrightarrow> ?c < 2 ^ m" for m
  proof
    assume "k < m"
    then have "(2::nat) ^ Suc k \<le> 2 ^ m" by (intro power_increasing) auto
    with k(3) show "?c < 2 ^ m" by simp
  next
    assume "?c < 2 ^ m"
    with k(2) have "(2::nat) ^ k < 2 ^ m" by (rule le_less_trans)
    then show "k < m" by (simp only: power_strict_increasing_iff)
  qed
  consider "?n < 2 ^ 30 - 1" | "?n = 2 ^ 64 - 1" | "2 ^ 30 - 1 \<le> ?n" "?n < 2 ^ 31 - 1"
    | "2 ^ 31 - 1 \<le> ?n" "?n \<noteq> 2 ^ 64 - 1" by linarith
  then show ?thesis
  proof cases
    case 1
    then have "k < 30" using c log [of 30] by simp
    then have N: "spsc_GetBufferSize Capacity = Inr (2 ^ Suc k)" using v by simp
    then show ?thesis
      using 1 c GetBufferSize_Inr [OF N] by (auto simp: GetBufferSize_copies max_def simp del: power_Suc split: if_splits)
  next
    case 2
    then have "k < 3" using c log [of 3] by simp
    with k(1) have "k = 2" by simp
    with 2 v show ?thesis by simp
  next
    case 3
    then have "k = 30" using c log [of 30] log [of 31] by simp
    with 3 v show ?thesis by simp
  next
    case 4
    then have "\<not> k < 31" using c log [of 31] by simp
    with 4 v show ?thesis by simp
  qed
qed

end
