(* ===== verification/SPSC_Queue.thy ===== *)
theory SPSC_Queue
  imports Ring_Capacity
begin

text \<open>
  \<open>BoundedSPSCQueue\<close> (queue/bounded_sp_sc_queue.h), operation by operation, as it behaves
  when no other thread runs in the middle of the call. \<open>SPSC_Concurrent\<close> splits the same
  operations into their accesses to shared memory.
\<close>

section \<open>State\<close>

text \<open>
  The member variables, and \<open>spsc_size\<close>, the value of the constexpr \<open>GetBufferSize()\<close> of
  the instantiated template (no operation writes it). \<open>T* \<close> results are indices into the
  buffer, \<open>None\<close> for \<open>nullptr\<close>. \<open>moved\<close> is the value that moving out of an element leaves
  in it: the move operation of the element type, which is not part of this code.
\<close>

record 'a spsc =
  spsc_size :: size_t
  spsc_buffer :: "'a list"
  spsc_tail :: size_t
  spsc_cached_head :: size_t
  spsc_head :: size_t
  spsc_cached_tail :: size_t

definition spsc_new :: "'a \<Rightarrow> size_t \<Rightarrow> const_error + 'a spsc" where
  "spsc_new dflt Capacity =
     (case spsc_GetBufferSize Capacity of
        Inl e \<Rightarrow> Inl e
      | Inr n \<Rightarrow> Inr \<lparr>spsc_size = n, spsc_buffer = replicate (unat n) dflt,
                     spsc_tail = 0, spsc_cached_head = 0, spsc_head = 0, spsc_cached_tail = 0\<rparr>)"

definition spsc_GetIndexMask :: "'a spsc \<Rightarrow> size_t" where
  "spsc_GetIndexMask q = spsc_size q - 1"

section \<open>Operations\<close>

definition spsc_Front :: "'a spsc \<Rightarrow> size_t option \<times> 'a spsc" where
  "spsc_Front q =
     (let head = spsc_head q in
      if head = spsc_cached_tail q then
        (let q = q\<lparr>spsc_cached_tail := spsc_tail q\<rparr> in
         if head = spsc_cached_tail q then (None, q) else (Some head, q))
      else (Some head, q))"

definition spsc_Emplace :: "'a \<Rightarrow> 'a spsc \<Rightarrow> bool \<times> 'a spsc" where
  "spsc_Emplace x q =
     (let tail = spsc_tail q;
          next_tail = (tail + 1) AND spsc_GetIndexMask q;
          construct = (\<lambda>q. (True, q\<lparr>spsc_buffer := (spsc_buffer q)[unat tail := x],
                                    spsc_tail := next_tail\<rparr>))
      in if next_tail = spsc_cached_head q then
           (let q = q\<lparr>spsc_cached_head := spsc_head q\<rparr> in
            if next_tail = spsc_cached_head q then (False, q) else construct q)
         else construct q)"

definition spsc_Enqueue_copy :: "'a \<Rightarrow> 'a spsc \<Rightarrow> bool \<times> 'a spsc" where
  "spsc_Enqueue_copy element q = spsc_Emplace element q"

definition spsc_Enqueue_move :: "'a \<Rightarrow> 'a spsc \<Rightarrow> bool \<times> 'a spsc" where
  "spsc_Enqueue_move element q = spsc_Emplace element q"

definition spsc_Dequeue :: "'a spsc \<Rightarrow> bool \<times> 'a spsc" where
  "spsc_Dequeue q =
     (let head = spsc_head q;
          advance = (\<lambda>q. (True, q\<lparr>spsc_head := (head + 1) AND spsc_GetIndexMask q\<rparr>))
      in if head = spsc_cached_tail q then
           (let q = q\<lparr>spsc_cached_tail := spsc_tail q\<rparr> in
            if head = spsc_cached_tail q then (False, q) else advance q)
         else advance q)"

definition spsc_Dequeue_to :: "('a \<Rightarrow> 'a) \<Rightarrow> 'a spsc \<Rightarrow> 'a option \<times> 'a spsc" where
  "spsc_Dequeue_to moved q =
     (let head = spsc_head q;
          take_out = (\<lambda>q. let element = spsc_buffer q ! unat head in
            (Some element,
             q\<lparr>spsc_buffer := (spsc_buffer q)[unat head := moved element],
               spsc_head := (head + 1) AND spsc_GetIndexMask q\<rparr>))
      in if head = spsc_cached_tail q then
           (let q = q\<lparr>spsc_cached_tail := spsc_tail q\<rparr> in
            if head = spsc_cached_tail q then (None, q) else take_out q)
         else take_out q)"

definition spsc_IsEmptyConsumer :: "'a spsc \<Rightarrow> bool \<times> 'a spsc" where
  "spsc_IsEmptyConsumer q = (let (front, q) = spsc_Front q in (front = None, q))"

definition spsc_IsEmptyProducer :: "'a spsc \<Rightarrow> bool" where
  "spsc_IsEmptyProducer q \<longleftrightarrow> spsc_tail q = spsc_head q"

text \<open>The difference is converted to \<open>std::ptrdiff_t\<close>, so its sign is that of \<open>sint\<close>.\<close>

definition spsc_GetSize :: "'a spsc \<Rightarrow> size_t" where
  "spsc_GetSize q =
     (let size = spsc_tail q - spsc_head q
      in if sint size < 0 then size + spsc_size q else size)"

definition spsc_GetCapacity :: "'a spsc \<Rightarrow> size_t" where
  "spsc_GetCapacity q = spsc_size q"

section \<open>Positions without wrap-around and the queue's contents\<close>

text \<open>
  The invariant behind every operation: head, tail and their cached copies are the
  remainders of counters that never wrap, the producer's copy of the head lags behind the
  head, the consumer's copy of the tail behind the tail, and fewer than \<open>size\<close> positions
  separate the oldest of them from the tail.
\<close>

definition spsc_pos :: "'a spsc \<Rightarrow> nat \<Rightarrow> nat \<Rightarrow> nat \<Rightarrow> nat \<Rightarrow> bool" where
  "spsc_pos q ch h ct t \<longleftrightarrow>
     pow2_size (spsc_size q) \<and> unat (spsc_size q) \<le> 2 ^ 30 \<and>
     length (spsc_buffer q) = unat (spsc_size q) \<and>
     unat (spsc_cached_head q) = ch mod unat (spsc_size q) \<and>
     unat (spsc_head q) = h mod unat (spsc_size q) \<and>
     unat (spsc_cached_tail q) = ct mod unat (spsc_size q) \<and>
     unat (spsc_tail q) = t mod unat (spsc_size q) \<and>
     ch \<le> h \<and> h \<le> ct \<and> ct \<le> t \<and> t - ch < unat (spsc_size q)"

definition spsc_wf :: "'a spsc \<Rightarrow> bool" where
  "spsc_wf q \<longleftrightarrow> (\<exists>ch h ct t. spsc_pos q ch h ct t)"

definition spsc_contents :: "'a spsc \<Rightarrow> 'a list" where
  "spsc_contents q =
     (let n = unat (spsc_size q); h = unat (spsc_head q); t = unat (spsc_tail q)
      in map (\<lambda>i. spsc_buffer q ! ((h + i) mod n)) [0..<(t + n - h) mod n])"

lemma spsc_contents_pos:
  assumes "spsc_pos q ch h ct t"
  shows "spsc_contents q = map (\<lambda>i. spsc_buffer q ! (i mod unat (spsc_size q))) [h..<t]"
proof -
  let ?n = "unat (spsc_size q)"
  have d: "(t mod ?n + ?n - h mod ?n) mod ?n = t - h"
    using assms by (intro ring_distance) (auto simp: spsc_pos_def)
  have "spsc_contents q = map (\<lambda>i. spsc_buffer q ! ((h mod ?n + i) mod ?n)) [0..<t - h]"
    using assms d by (simp add: spsc_contents_def spsc_pos_def Let_def)
  also have "\<dots> = map (\<lambda>i. spsc_buffer q ! (i mod ?n)) (map (\<lambda>i. i + h) [0..<t - h])"
    by (simp add: mod_add_right_eq add.commute)
  also have "map (\<lambda>i. i + h) [0..<t - h] = [h..<t]"
    using assms by (simp add: map_add_upt spsc_pos_def)
  finally show ?thesis .
qed

lemma spsc_contents_cong:
  assumes "spsc_size q = spsc_size p" "spsc_buffer q = spsc_buffer p"
    "spsc_head q = spsc_head p" "spsc_tail q = spsc_tail p"
  shows "spsc_contents q = spsc_contents p"
  using assms by (simp add: spsc_contents_def)

lemma spsc_length_contents: "spsc_pos q ch h ct t \<Longrightarrow> length (spsc_contents q) = t - h"
  by (simp add: spsc_contents_pos)

section \<open>The elementary updates the operations are made of\<close>

lemma spsc_pos_facts:
  assumes "spsc_pos q ch h ct t"
  shows "pow2_size (spsc_size q)" "0 < unat (spsc_size q)" "h \<le> t" "t - h < unat (spsc_size q)"
    "unat (spsc_head q) < unat (spsc_size q)" "unat (spsc_tail q) < unat (spsc_size q)"
  using assms pow2_size_pos [of "spsc_size q"] by (auto simp: spsc_pos_def)

lemma spsc_pos_reload_head:
  "spsc_pos q ch h ct t \<Longrightarrow> spsc_pos (q\<lparr>spsc_cached_head := spsc_head q\<rparr>) h h ct t"
  by (auto simp: spsc_pos_def)

lemma spsc_pos_reload_tail:
  "spsc_pos q ch h ct t \<Longrightarrow> spsc_pos (q\<lparr>spsc_cached_tail := spsc_tail q\<rparr>) ch h t t"
  by (auto simp: spsc_pos_def)

lemma spsc_pos_buffer:
  "spsc_pos q ch h ct t \<Longrightarrow> spsc_pos (q\<lparr>spsc_buffer := (spsc_buffer q)[j := x]\<rparr>) ch h ct t"
  by (auto simp: spsc_pos_def)

lemma spsc_pos_publish:
  assumes "spsc_pos q ch h ct t" "t + 1 - ch < unat (spsc_size q)"
  shows "spsc_pos (q\<lparr>spsc_tail := (spsc_tail q + 1) AND spsc_GetIndexMask q\<rparr>) ch h ct (t + 1)"
  using assms by (auto simp: spsc_pos_def spsc_GetIndexMask_def ring_simps mod_Suc_eq)

lemma spsc_pos_advance:
  assumes "spsc_pos q ch h ct t" "h < ct"
  shows "spsc_pos (q\<lparr>spsc_head := (spsc_head q + 1) AND spsc_GetIndexMask q\<rparr>) ch (h + 1) ct t"
  using assms by (auto simp: spsc_pos_def spsc_GetIndexMask_def ring_simps mod_Suc_eq)

text \<open>The two tests, in terms of the counters.\<close>

lemma spsc_full_test:
  assumes "spsc_pos q ch h ct t"
  shows "(spsc_tail q + 1) AND spsc_GetIndexMask q = spsc_cached_head q
    \<longleftrightarrow> t + 1 - ch = unat (spsc_size q)"
proof -
  let ?n = "unat (spsc_size q)"
  have "(spsc_tail q + 1) AND spsc_GetIndexMask q = spsc_cached_head q \<longleftrightarrow>
      ch mod ?n = (t + 1) mod ?n"
    using assms
    by (auto simp: word_unat_eq_iff spsc_pos_def spsc_GetIndexMask_def ring_simps mod_Suc_eq)
  also have "\<dots> \<longleftrightarrow> t + 1 = ch + ?n"
    using assms by (intro mod_window_eq_full) (auto simp: spsc_pos_def)
  finally show ?thesis using assms by (auto simp: spsc_pos_def)
qed

lemma spsc_empty_test:
  assumes "spsc_pos q ch h ct t"
  shows "spsc_head q = spsc_cached_tail q \<longleftrightarrow> h = ct"
proof -
  have "h mod unat (spsc_size q) = ct mod unat (spsc_size q) \<longleftrightarrow> h = ct"
    using assms by (intro mod_window_eq) (auto simp: spsc_pos_def)
  then show ?thesis using assms by (auto simp: word_unat_eq_iff spsc_pos_def)
qed

text \<open>What they do to the contents.\<close>

lemma spsc_contents_buffer:
  assumes "spsc_pos q ch h ct t"
  shows "spsc_contents (q\<lparr>spsc_buffer := (spsc_buffer q)[j := x]\<rparr>) =
    map (\<lambda>i. (spsc_buffer q)[j := x] ! (i mod unat (spsc_size q))) [h..<t]"
  using spsc_contents_pos [OF spsc_pos_buffer [OF assms]] by simp

lemma spsc_contents_construct:
  assumes "spsc_pos q ch h ct t"
  shows "spsc_contents (q\<lparr>spsc_buffer := (spsc_buffer q)[unat (spsc_tail q) := x]\<rparr>) = spsc_contents q"
proof -
  let ?n = "unat (spsc_size q)"
  have "i mod ?n \<noteq> t mod ?n" if "i \<in> {h..<t}" for i
  proof -
    have "i \<le> t" "t - i < ?n" using that spsc_pos_facts(4) [OF assms] by auto
    with that show ?thesis using mod_window_eq [of i t ?n] by simp
  qed
  moreover have "unat (spsc_tail q) = t mod ?n" using assms by (simp add: spsc_pos_def)
  ultimately show ?thesis
    by (simp add: spsc_contents_buffer [OF assms] spsc_contents_pos [OF assms] eq_commute)
qed

lemma spsc_contents_publish:
  assumes "spsc_pos q ch h ct t" "t + 1 - ch < unat (spsc_size q)"
  shows "spsc_contents (q\<lparr>spsc_tail := (spsc_tail q + 1) AND spsc_GetIndexMask q\<rparr>) =
    spsc_contents q @ [spsc_buffer q ! unat (spsc_tail q)]"
  using spsc_contents_pos [OF spsc_pos_publish [OF assms]] spsc_contents_pos [OF assms(1)] assms(1)
  by (simp add: spsc_pos_def)

lemma spsc_contents_nonempty:
  assumes "spsc_pos q ch h ct t" "h < ct"
  shows "spsc_contents q = spsc_buffer q ! unat (spsc_head q) # tl (spsc_contents q)"
proof -
  have "[h..<t] = h # [Suc h..<t]" using assms by (intro upt_conv_Cons) (auto simp: spsc_pos_def)
  then show ?thesis using assms by (simp add: spsc_contents_pos) (simp add: spsc_pos_def)
qed

lemma spsc_contents_advance:
  assumes "spsc_pos q ch h ct t" "h < ct"
  shows "spsc_contents (q\<lparr>spsc_head := (spsc_head q + 1) AND spsc_GetIndexMask q\<rparr>) =
    tl (spsc_contents q)"
proof -
  have "[h..<t] = h # [Suc h..<t]" using assms by (intro upt_conv_Cons) (auto simp: spsc_pos_def)
  then show ?thesis
    using assms(1) spsc_pos_advance [OF assms] by (simp add: spsc_contents_pos)
qed

lemma spsc_contents_move:
  assumes "spsc_pos q ch h ct t" "h < ct"
  shows "tl (spsc_contents (q\<lparr>spsc_buffer := (spsc_buffer q)[unat (spsc_head q) := x]\<rparr>)) =
    tl (spsc_contents q)"
proof -
  let ?n = "unat (spsc_size q)"
  have "h mod ?n \<noteq> i mod ?n" if "i \<in> {Suc h..<t}" for i
  proof -
    have "h \<le> i" "i - h < ?n" using that spsc_pos_facts(4) [OF assms(1)] by auto
    with that show ?thesis using mod_window_eq [of h i ?n] by simp
  qed
  moreover have "[h..<t] = h # [Suc h..<t]"
    using assms by (intro upt_conv_Cons) (auto simp: spsc_pos_def)
  moreover have "unat (spsc_head q) = h mod ?n" using assms by (simp add: spsc_pos_def)
  ultimately show ?thesis
    by (simp add: spsc_contents_buffer [OF assms(1)] spsc_contents_pos [OF assms(1)])
qed

section \<open>The operations as operations on the contents\<close>

lemma spsc_GetSize_contents:
  assumes "spsc_pos q ch h ct t"
  shows "unat (spsc_GetSize q) = t - h"
proof -
  let ?n = "unat (spsc_size q)" and ?d = "spsc_tail q - spsc_head q"
  let ?t = "unat (spsc_tail q)" and ?h = "unat (spsc_head q)"
  have lt: "?t < ?n" "?h < ?n" "?n \<le> 2 ^ 30" and th: "h \<le> t" "t - h < ?n"
    using spsc_pos_facts [OF assms] assms by (auto simp: spsc_pos_def)
  have dist: "(?t + ?n - ?h) mod ?n = t - h"
    using ring_distance [OF th] assms by (simp add: spsc_pos_def)
  show ?thesis
  proof (cases "?h \<le> ?t")
    case True
    then have d: "unat ?d = ?t - ?h" by (simp add: unat_sub word_le_nat_alt)
    then have "\<not> sint ?d < 0" using lt by (simp add: sint_neg_iff)
    moreover have "?t - ?h = t - h"
    proof -
      have "?t + ?n - ?h = ?t - ?h + ?n" using True by simp
      then have "(?t - ?h + ?n) mod ?n = t - h" using dist by (simp only:)
      then show ?thesis using lt by simp
    qed
    ultimately show ?thesis using d by (simp add: spsc_GetSize_def)
  next
    case False
    then have d: "unat ?d = 2 ^ 64 + ?t - ?h" by (intro unat_sub_wrap) simp
    then have "sint ?d < 0" using lt by (simp add: sint_neg_iff)
    moreover have "unat (?d + spsc_size q) = ?t + ?n - ?h"
      using d lt False by (simp add: unat_word_ariths mod_if)
    moreover have "?t + ?n - ?h = t - h"
      using dist mod_less [of "?t + ?n - ?h" ?n] False lt by linarith
    ultimately show ?thesis by (simp add: spsc_GetSize_def)
  qed
qed

lemma spsc_new_pos:
  assumes "spsc_new dflt Capacity = Inr q"
  shows "spsc_pos q 0 0 0 0" "spsc_contents q = []" "spsc_GetBufferSize Capacity = Inr (spsc_size q)"
proof -
  from assms obtain n where n: "spsc_GetBufferSize Capacity = Inr n" "spsc_size q = n"
    "q = \<lparr>spsc_size = n, spsc_buffer = replicate (unat n) dflt,
          spsc_tail = 0, spsc_cached_head = 0, spsc_head = 0, spsc_cached_tail = 0\<rparr>"
    by (auto simp: spsc_new_def split: sum.splits)
  then show pos: "spsc_pos q 0 0 0 0"
    using GetBufferSize_Inr [OF n(1)] by (auto simp: spsc_pos_def)
  show "spsc_contents q = []" using spsc_contents_pos [OF pos] by simp
  show "spsc_GetBufferSize Capacity = Inr (spsc_size q)" using n by simp
qed

text \<open>The two paths of \<open>Emplace\<close> that construct an element end in the same state.\<close>

lemma spsc_construct_publish:
  assumes "spsc_pos q ch h ct t" "t + 1 - ch < unat (spsc_size q)"
    "p = q\<lparr>spsc_buffer := (spsc_buffer q)[unat (spsc_tail q) := x],
           spsc_tail := (spsc_tail q + 1) AND spsc_GetIndexMask q\<rparr>"
  shows "spsc_pos p ch h ct (t + 1)" "spsc_contents p = spsc_contents q @ [x]"
proof -
  let ?r = "q\<lparr>spsc_buffer := (spsc_buffer q)[unat (spsc_tail q) := x]\<rparr>"
  have r: "spsc_pos ?r ch h ct t" using assms(1) by (rule spsc_pos_buffer)
  have p: "p = ?r\<lparr>spsc_tail := (spsc_tail ?r + 1) AND spsc_GetIndexMask ?r\<rparr>"
    using assms(3) by (simp add: spsc_GetIndexMask_def)
  have sz: "t + 1 - ch < unat (spsc_size ?r)" using assms(2) by simp
  show "spsc_pos p ch h ct (t + 1)" unfolding p by (rule spsc_pos_publish [OF r sz])
  have "unat (spsc_tail q) < length (spsc_buffer q)"
    using spsc_pos_facts(6) [OF assms(1)] assms(1) by (simp add: spsc_pos_def)
  then show "spsc_contents p = spsc_contents q @ [x]"
    unfolding p spsc_contents_publish [OF r sz]
    by (simp add: spsc_contents_construct [OF assms(1)])
qed

lemma spsc_take_out:
  assumes "spsc_pos q ch h ct t" "h < ct"
    "p = q\<lparr>spsc_buffer := (spsc_buffer q)[unat (spsc_head q) := y],
           spsc_head := (spsc_head q + 1) AND spsc_GetIndexMask q\<rparr>"
  shows "spsc_pos p ch (h + 1) ct t" "spsc_contents p = tl (spsc_contents q)"
proof -
  let ?r = "q\<lparr>spsc_buffer := (spsc_buffer q)[unat (spsc_head q) := y]\<rparr>"
  have r: "spsc_pos ?r ch h ct t" using assms(1) by (rule spsc_pos_buffer)
  have p: "p = ?r\<lparr>spsc_head := (spsc_head ?r + 1) AND spsc_GetIndexMask ?r\<rparr>"
    using assms(3) by (simp add: spsc_GetIndexMask_def)
  show "spsc_pos p ch (h + 1) ct t" unfolding p by (rule spsc_pos_advance [OF r assms(2)])
  show "spsc_contents p = tl (spsc_contents q)"
    unfolding p spsc_contents_advance [OF r assms(2)] spsc_contents_move [OF assms(1,2)] ..
qed

lemma spsc_Emplace_cases:
  assumes "spsc_pos q ch h ct t" "spsc_Emplace x q = (ok, p)"
  obtains ch' where "ok" "t + 1 - h < unat (spsc_size q)" "spsc_pos p ch' h ct (t + 1)"
      "spsc_contents p = spsc_contents q @ [x]" "spsc_size p = spsc_size q"
  | "\<not> ok" "t + 1 - h = unat (spsc_size q)" "spsc_pos p h h ct t"
      "spsc_contents p = spsc_contents q" "spsc_size p = spsc_size q"
proof -
  let ?n = "unat (spsc_size q)" and ?q' = "q\<lparr>spsc_cached_head := spsc_head q\<rparr>"
  let ?full = "\<lambda>q. (spsc_tail q + 1) AND spsc_GetIndexMask q = spsc_cached_head q"
  let ?put = "\<lambda>q. q\<lparr>spsc_buffer := (spsc_buffer q)[unat (spsc_tail q) := x],
                     spsc_tail := (spsc_tail q + 1) AND spsc_GetIndexMask q\<rparr>"
  have q': "spsc_pos ?q' h h ct t" using assms(1) by (rule spsc_pos_reload_head)
  have same: "spsc_contents ?q' = spsc_contents q" by (rule spsc_contents_cong) simp_all
  have le: "ch \<le> h" "h \<le> t" "t - ch < ?n" using assms(1) by (auto simp: spsc_pos_def)
  consider "\<not> ?full q" | "?full q" "\<not> ?full ?q'" | "?full q" "?full ?q'" by blast
  then show thesis
  proof cases
    case 1
    then have "t + 1 - ch < ?n" using spsc_full_test [OF assms(1)] le by simp
    moreover from 1 assms(2) have "ok" "p = ?put q" by (auto simp: spsc_Emplace_def Let_def)
    ultimately show thesis
      using that(1) [of ch] spsc_construct_publish [OF assms(1), of p x] le by simp
  next
    case 2
    then have lt: "t + 1 - h < ?n" using spsc_full_test [OF q'] le by simp
    moreover from 2 assms(2) have "ok" "p = ?put ?q'"
      by (auto simp: spsc_Emplace_def Let_def spsc_GetIndexMask_def)
    ultimately show thesis
      using that(1) [of h] spsc_construct_publish [OF q', of p x] same by simp
  next
    case 3
    then have "t + 1 - h = ?n" using spsc_full_test [OF q'] by simp
    moreover from 3 assms(2) have "\<not> ok" "p = ?q'"
      by (auto simp: spsc_Emplace_def Let_def spsc_GetIndexMask_def)
    ultimately show thesis using that(2) q' same by simp
  qed
qed

text \<open>
  Every consumer operation starts with the same test, which reloads the copy of the tail
  when the copy says that the queue is empty.
\<close>

definition spsc_refill :: "'a spsc \<Rightarrow> 'a spsc" where
  "spsc_refill q =
     (if spsc_head q = spsc_cached_tail q then q\<lparr>spsc_cached_tail := spsc_tail q\<rparr> else q)"

lemma spsc_refill_pos:
  assumes "spsc_pos q ch h ct t"
  obtains ct' where "spsc_pos (spsc_refill q) ch h ct' t" "h = ct' \<longleftrightarrow> spsc_contents q = []"
    "spsc_head (spsc_refill q) = spsc_cached_tail (spsc_refill q) \<longleftrightarrow> spsc_contents q = []"
    "spsc_contents (spsc_refill q) = spsc_contents q" "spsc_size (spsc_refill q) = spsc_size q"
    "spsc_head (spsc_refill q) = spsc_head q" "spsc_buffer (spsc_refill q) = spsc_buffer q"
proof -
  have same: "spsc_contents (spsc_refill q) = spsc_contents q"
    by (rule spsc_contents_cong) (simp_all add: spsc_refill_def)
  have "length (spsc_contents q) = t - h" by (rule spsc_length_contents [OF assms])
  moreover have le: "h \<le> ct" "ct \<le> t" using assms by (auto simp: spsc_pos_def)
  ultimately have len: "spsc_contents q = [] \<longleftrightarrow> h = t" by (auto simp flip: length_0_conv)
  obtain ct' where p: "spsc_pos (spsc_refill q) ch h ct' t" and e: "h = ct' \<longleftrightarrow> spsc_contents q = []"
  proof (cases "h = ct")
    case True
    then have "spsc_refill q = q\<lparr>spsc_cached_tail := spsc_tail q\<rparr>"
      using spsc_empty_test [OF assms] by (simp add: spsc_refill_def)
    then show thesis using that [of t] spsc_pos_reload_tail [OF assms] len by simp
  next
    case False
    then have "spsc_refill q = q" using spsc_empty_test [OF assms] by (simp add: spsc_refill_def)
    moreover have "h \<noteq> t" using False le by simp
    ultimately show thesis using that [of ct] assms len False by simp
  qed
  show thesis
    using p e spsc_empty_test [OF p] same by (intro that) (simp_all add: spsc_refill_def)
qed

lemma spsc_Front_refill:
  "spsc_Front q =
     (if spsc_head (spsc_refill q) = spsc_cached_tail (spsc_refill q) then (None, spsc_refill q)
      else (Some (spsc_head (spsc_refill q)), spsc_refill q))"
  by (simp add: spsc_Front_def spsc_refill_def Let_def)

lemma spsc_Dequeue_refill:
  "spsc_Dequeue q =
     (let r = spsc_refill q in
      if spsc_head r = spsc_cached_tail r then (False, r)
      else (True, r\<lparr>spsc_head := (spsc_head r + 1) AND spsc_GetIndexMask r\<rparr>))"
  by (simp add: spsc_Dequeue_def spsc_refill_def spsc_GetIndexMask_def Let_def)

lemma spsc_Dequeue_to_refill:
  "spsc_Dequeue_to moved q =
     (let r = spsc_refill q; element = spsc_buffer r ! unat (spsc_head r) in
      if spsc_head r = spsc_cached_tail r then (None, r)
      else (Some element,
            r\<lparr>spsc_buffer := (spsc_buffer r)[unat (spsc_head r) := moved element],
              spsc_head := (spsc_head r + 1) AND spsc_GetIndexMask r\<rparr>))"
  by (simp add: spsc_Dequeue_to_def spsc_refill_def spsc_GetIndexMask_def Let_def)

section \<open>Properties of the sequential operations\<close>

text \<open>
  Property C35. \<open>Emplace\<close> and both \<open>Enqueue\<close> overloads, on a well-formed queue, append exactly their element when fewer than
  \<open>size - 1\<close> elements are stored and otherwise fail and change nothing that a consumer can
  see; the stale copy of the head never makes them fail early or overwrite an element.
\<close>

theorem spsc_Emplace_fifo:
  assumes "spsc_wf q" "put \<in> {spsc_Emplace, spsc_Enqueue_copy, spsc_Enqueue_move}" "put x q = (ok, p)"
  shows "spsc_wf p \<and> spsc_size p = spsc_size q \<and>
    (ok \<longleftrightarrow> length (spsc_contents q) < unat (spsc_size q) - 1) \<and>
    spsc_contents p = (if ok then spsc_contents q @ [x] else spsc_contents q)"
proof -
  have put: "spsc_Emplace x q = (ok, p)"
    using assms(2,3) by (auto simp: spsc_Enqueue_copy_def spsc_Enqueue_move_def)
  obtain ch h ct t where pos: "spsc_pos q ch h ct t" using assms(1) by (auto simp: spsc_wf_def)
  then have len: "length (spsc_contents q) = t - h" by (rule spsc_length_contents)
  have le: "h \<le> t" "0 < unat (spsc_size q)" using spsc_pos_facts [OF pos] by auto
  show ?thesis
  proof (cases rule: spsc_Emplace_cases [OF pos put])
    case (1 ch')
    then show ?thesis using len le by (auto simp: spsc_wf_def)
  next
    case 2
    then show ?thesis using len le by (auto simp: spsc_wf_def)
  qed
qed

text \<open>
  Both \<open>Dequeue\<close> overloads and \<open>Front\<close> act on the oldest element: they report
  an empty queue exactly when it is empty, \<open>Front\<close> points at the oldest element and removes
  nothing, \<open>Dequeue(T&)\<close> hands it out, and both \<open>Dequeue\<close>s remove exactly it, whatever moving
  out of an element leaves behind.
\<close>

theorem spsc_consumer_fifo:
  assumes "spsc_wf q" "spsc_Front q = (front, p1)" "spsc_Dequeue q = (ok, p2)"
    "spsc_Dequeue_to moved q = (element, p3)"
  shows "(case spsc_contents q of
       [] \<Rightarrow> front = None \<and> \<not> ok \<and> element = None
     | x # xs \<Rightarrow> (\<exists>i. front = Some i \<and> spsc_buffer q ! unat i = x) \<and> ok \<and> element = Some x) \<and>
    spsc_contents p1 = spsc_contents q \<and> spsc_contents p2 = tl (spsc_contents q) \<and>
    spsc_contents p3 = tl (spsc_contents q) \<and> spsc_wf p1 \<and> spsc_wf p2 \<and> spsc_wf p3"
proof -
  obtain ch h ct t where pos: "spsc_pos q ch h ct t" using assms(1) by (auto simp: spsc_wf_def)
  let ?r = "spsc_refill q"
  obtain ct' where r: "spsc_pos ?r ch h ct' t" "h = ct' \<longleftrightarrow> spsc_contents q = []"
    "spsc_head ?r = spsc_cached_tail ?r \<longleftrightarrow> spsc_contents q = []"
    "spsc_contents ?r = spsc_contents q" "spsc_size ?r = spsc_size q"
    "spsc_head ?r = spsc_head q" "spsc_buffer ?r = spsc_buffer q"
    by (rule spsc_refill_pos [OF pos]) blast
  note wf = spsc_wf_def [THEN iffD2, OF exI, OF exI, OF exI, OF exI]
  show ?thesis
  proof (cases "spsc_contents q")
    case Nil
    then have e: "spsc_head ?r = spsc_cached_tail ?r" using r(3) by simp
    have "p1 = ?r \<and> p2 = ?r \<and> p3 = ?r \<and> front = None \<and> \<not> ok \<and> element = None"
      using assms(2-4) unfolding spsc_Front_refill spsc_Dequeue_refill spsc_Dequeue_to_refill Let_def
        if_P [OF e] by simp
    with Nil r(4) wf [OF r(1)] show ?thesis by simp
  next
    case (Cons x xs)
    then have lt: "h < ct'" and e: "spsc_head ?r \<noteq> spsc_cached_tail ?r"
      using r(1,2,3) by (auto simp: spsc_pos_def)
    have x: "spsc_buffer ?r ! unat (spsc_head ?r) = x"
      using spsc_contents_nonempty [OF r(1) lt] Cons r(4) by simp
    have p: "p1 = ?r" "front = Some (spsc_head ?r)" "ok" "element = Some x"
      "p2 = ?r\<lparr>spsc_head := (spsc_head ?r + 1) AND spsc_GetIndexMask ?r\<rparr>"
      "p3 = ?r\<lparr>spsc_buffer := (spsc_buffer ?r)[unat (spsc_head ?r) := moved x],
              spsc_head := (spsc_head ?r + 1) AND spsc_GetIndexMask ?r\<rparr>"
      using assms(2-4) unfolding spsc_Front_refill spsc_Dequeue_refill spsc_Dequeue_to_refill Let_def
        if_not_P [OF e] x by auto
    have "spsc_wf p2" "spsc_contents p2 = tl (spsc_contents q)"
      using wf [OF spsc_pos_advance [OF r(1) lt]] spsc_contents_advance [OF r(1) lt] r(4)
      unfolding p(5) by simp_all
    moreover have "spsc_wf p3" "spsc_contents p3 = tl (spsc_contents q)"
      using wf [OF spsc_take_out(1) [OF r(1) lt p(6)]] spsc_take_out(2) [OF r(1) lt p(6)] r(4)
      by simp_all
    ultimately show ?thesis using Cons p(1-4) r(4,7) wf [OF r(1)] x by simp
  qed
qed

text \<open>
  The size queries agree with the contents: \<open>GetSize\<close> counts the elements even
  when the tail has wrapped below the head, and both emptiness tests are exact.
\<close>

theorem spsc_size_queries:
  assumes "spsc_wf q"
  shows "unat (spsc_GetSize q) = length (spsc_contents q) \<and>
    (spsc_IsEmptyProducer q \<longleftrightarrow> spsc_contents q = []) \<and>
    (fst (spsc_IsEmptyConsumer q) \<longleftrightarrow> spsc_contents q = []) \<and>
    length (spsc_contents q) < unat (spsc_GetCapacity q)"
proof -
  obtain ch h ct t where pos: "spsc_pos q ch h ct t" using assms by (auto simp: spsc_wf_def)
  have len: "length (spsc_contents q) = t - h" "h \<le> t" "t - h < unat (spsc_size q)"
    using spsc_length_contents [OF pos] spsc_pos_facts [OF pos] by auto
  have "spsc_IsEmptyProducer q \<longleftrightarrow> h mod unat (spsc_size q) = t mod unat (spsc_size q)"
    using pos by (auto simp: spsc_IsEmptyProducer_def word_unat_eq_iff spsc_pos_def)
  also have "\<dots> \<longleftrightarrow> spsc_contents q = []"
    using mod_window_eq [OF len(2,3)] len by auto
  finally have "spsc_IsEmptyProducer q \<longleftrightarrow> spsc_contents q = []" .
  moreover have "fst (spsc_IsEmptyConsumer q) \<longleftrightarrow> spsc_contents q = []"
    by (rule spsc_refill_pos [OF pos]) (simp add: spsc_IsEmptyConsumer_def spsc_Front_refill)
  ultimately show ?thesis
    using spsc_GetSize_contents [OF pos] len by (simp add: spsc_GetCapacity_def)
qed

section \<open>Concrete runs\<close>

text \<open>A queue of capacity 5 (eight slots) as constructed, and after one element went in.\<close>

definition spsc_example :: "nat spsc" where
  "spsc_example = \<lparr>spsc_size = 8, spsc_buffer = replicate 8 0,
     spsc_tail = 0, spsc_cached_head = 0, spsc_head = 0, spsc_cached_tail = 0\<rparr>"

definition spsc_example1 :: "nat spsc" where
  "spsc_example1 = spsc_example\<lparr>spsc_buffer := [7, 0, 0, 0, 0, 0, 0, 0], spsc_tail := 1\<rparr>"

lemma spsc_example_new: "spsc_new 0 5 = Inr spsc_example"
  by code_simp

lemma spsc_example_wf: "spsc_wf spsc_example"
  using spsc_new_pos(1) [OF spsc_example_new] by (auto simp: spsc_wf_def)

lemma spsc_example1_Emplace: "spsc_Emplace 7 spsc_example = (True, spsc_example1)"
  by code_simp

lemma spsc_example1_wf: "spsc_wf spsc_example1"
  by (rule spsc_Emplace_cases [OF spsc_new_pos(1) [OF spsc_example_new] spsc_example1_Emplace])
    (auto simp: spsc_wf_def)

lemma spsc_Emplace_fifo_witness:
  "spsc_contents spsc_example1 = [7] \<and> spsc_contents (snd (spsc_Enqueue_move 7 spsc_example)) = [7]"
proof -
  have "spsc_contents spsc_example = []" by code_simp
  then show ?thesis
    using spsc_Emplace_fifo [OF spsc_example_wf, of spsc_Emplace 7 True spsc_example1]
      spsc_Emplace_fifo [OF spsc_example_wf, of spsc_Enqueue_move 7 True spsc_example1]
      spsc_example1_Emplace by (simp add: spsc_Enqueue_move_def)
qed

lemma spsc_consumer_fifo_witness:
  "\<exists>p. spsc_Dequeue_to (\<lambda>_. 0) spsc_example1 = (Some 7, p) \<and> spsc_wf p \<and> spsc_contents p = []"
proof -
  have "spsc_contents spsc_example1 = [7]" by code_simp
  then show ?thesis
    using spsc_consumer_fifo [OF spsc_example1_wf, of _ _ _ _ "\<lambda>_. 0"]
    by (cases "spsc_Front spsc_example1"; cases "spsc_Dequeue spsc_example1";
        cases "spsc_Dequeue_to (\<lambda>_. 0) spsc_example1") auto
qed

lemma spsc_size_queries_witness: "unat (spsc_GetSize spsc_example1) = 1"
proof -
  have "spsc_contents spsc_example1 = [7]" by code_simp
  then show ?thesis using spsc_size_queries [OF spsc_example1_wf] by simp
qed

end
