(* ===== verification/Bounded_Fifo.thy ===== *)
theory Bounded_Fifo
  imports Prelude
begin

text \<open>
  What a bounded FIFO queue promises, as a sequential specification over visible events,
  and the interface \<open>fifo_implementation\<close>: a concurrent component whose interleavings are
  all runs of that specification. The history lemmas are proved once, in the locale.
\<close>

record 'a fifo =
  fifo_cap :: nat
  fifo_items :: "'a list"

datatype 'a fifo_event = Enq 'a | EnqFull | Deq 'a | DeqEmpty | Peek 'a

fun fifo_spec :: "'a fifo_event \<Rightarrow> 'a fifo \<Rightarrow> 'a fifo option" where
  "fifo_spec (Enq x) q =
     (if length (fifo_items q) < fifo_cap q then Some (q\<lparr>fifo_items := fifo_items q @ [x]\<rparr>) else None)"
| "fifo_spec EnqFull q = (if length (fifo_items q) = fifo_cap q then Some q else None)"
| "fifo_spec (Deq x) q =
     (case fifo_items q of
        [] \<Rightarrow> None
      | y # ys \<Rightarrow> (if x = y then Some (q\<lparr>fifo_items := ys\<rparr>) else None))"
| "fifo_spec DeqEmpty q = (if fifo_items q = [] then Some q else None)"
| "fifo_spec (Peek x) q =
     (case fifo_items q of [] \<Rightarrow> None | y # ys \<Rightarrow> (if x = y then Some q else None))"

fun enqs :: "'a fifo_event list \<Rightarrow> 'a list" where
  "enqs [] = []"
| "enqs (Enq x # es) = x # enqs es"
| "enqs (_ # es) = enqs es"

fun deqs :: "'a fifo_event list \<Rightarrow> 'a list" where
  "deqs [] = []"
| "deqs (Deq x # es) = x # deqs es"
| "deqs (_ # es) = deqs es"

lemma enqs_Cons: "enqs (e # es) = enqs [e] @ enqs es"
  by (cases e) simp_all

lemma deqs_Cons: "deqs (e # es) = deqs [e] @ deqs es"
  by (cases e) simp_all

lemma fifo_spec_step:
  assumes "fifo_spec e q = Some r"
  shows "fifo_items q @ enqs [e] = deqs [e] @ fifo_items r \<and> fifo_cap r = fifo_cap q \<and>
    (length (fifo_items q) \<le> fifo_cap q \<longrightarrow> length (fifo_items r) \<le> fifo_cap r)"
  using assms by (cases e) (auto split: if_splits list.splits)

lemma fifo_history:
  assumes "accepts fifo_spec es q = Some r"
  shows "fifo_items q @ enqs es = deqs es @ fifo_items r \<and> fifo_cap r = fifo_cap q \<and>
    (length (fifo_items q) \<le> fifo_cap q \<longrightarrow> length (fifo_items r) \<le> fifo_cap r)"
  using assms
proof (induction es arbitrary: q)
  case (Cons e es)
  then obtain p where p: "fifo_spec e q = Some p" "accepts fifo_spec es p = Some r"
    by (auto split: option.splits)
  have s: "fifo_items q @ enqs [e] = deqs [e] @ fifo_items p" using fifo_spec_step [OF p(1)] by blast
  have "fifo_items q @ enqs (e # es) = (fifo_items q @ enqs [e]) @ enqs es"
    by (subst enqs_Cons) simp
  also have "\<dots> = deqs [e] @ fifo_items p @ enqs es" by (simp only: s append_assoc)
  also have "fifo_items p @ enqs es = deqs es @ fifo_items r" using Cons.IH [OF p(2)] by blast
  also have "deqs [e] @ deqs es @ fifo_items r = deqs (e # es) @ fifo_items r"
    by (subst deqs_Cons) simp
  finally show ?case using Cons.IH [OF p(2)] fifo_spec_step [OF p(1)] by auto
qed simp

locale fifo_implementation = refinement step init inv abs fifo_spec
  for step :: "'c \<Rightarrow> 's \<Rightarrow> ('a fifo_event list \<times> 's) option"
    and init :: "'s \<Rightarrow> bool"
    and inv :: "'s \<Rightarrow> bool"
    and abs :: "'s \<Rightarrow> 'a fifo" +
  assumes init_empty: "init s \<Longrightarrow> fifo_items (abs s) = []"
begin

lemma fifo_order:
  assumes "init s" "reaches step s es t"
  shows "enqs es = deqs es @ fifo_items (abs t)"
  using fifo_history [OF refines_run [OF assms]] init_empty [OF assms(1)] by simp

lemma fifo_bounded:
  assumes "init s" "reaches step s es t"
  shows "length (fifo_items (abs t)) \<le> fifo_cap (abs s)"
  using fifo_history [OF refines_run [OF assms]] init_empty [OF assms(1)] by simp

end

end
