(* ===== verification/SPSC_Concurrent.thy ===== *)
theory SPSC_Concurrent
  imports SPSC_Queue Bounded_Fifo
begin

text \<open>
  \<open>BoundedSPSCQueue\<close> with one producer thread and one consumer thread, interleaved access by
  access. Every step performs one access to a location the other thread may touch (an
  atomic load or store, or the plain access to a buffer element), together with the local
  tests that follow it; the cached indices belong to one thread and are updated with the
  load that fills them. Atomics are sequentially consistent in this model.
\<close>

section \<open>Program counters\<close>

text \<open>The producer inside \<open>Emplace\<close>, with its local variables \<open>tail\<close> and the new element.\<close>

datatype 'a producer_pc =
    P_Idle
  | P_LoadTail 'a
  | P_LoadHead size_t 'a
  | P_Construct size_t 'a
  | P_StoreTail size_t 'a

text \<open>
  The consumer inside \<open>Front\<close>, \<open>Dequeue()\<close> or \<open>Dequeue(T&)\<close>, with its local \<open>head\<close> and,
  once it was moved out, the element.
\<close>

datatype consumer_op = Op_Front | Op_Dequeue | Op_Dequeue_to

datatype 'a consumer_pc =
    C_Idle
  | C_LoadHead consumer_op
  | C_LoadTail consumer_op size_t
  | C_Peek size_t
  | C_Move size_t
  | C_StoreHead size_t "'a option"

record 'a spsc_sys =
  sys_queue :: "'a spsc"
  sys_producer :: "'a producer_pc"
  sys_consumer :: "'a consumer_pc"

datatype 'a spsc_choice = Call_Emplace 'a | Call_Consumer consumer_op | Step_Producer | Step_Consumer

section \<open>Steps\<close>

fun producer_step :: "'a producer_pc \<Rightarrow> 'a spsc \<Rightarrow> ('a fifo_event list \<times> 'a producer_pc \<times> 'a spsc) option" where
  "producer_step P_Idle q = None"
| "producer_step (P_LoadTail x) q =
     (let tail = spsc_tail q; next_tail = (tail + 1) AND spsc_GetIndexMask q
      in Some ([], if next_tail = spsc_cached_head q then P_LoadHead tail x else P_Construct tail x, q))"
| "producer_step (P_LoadHead tail x) q =
     (let next_tail = (tail + 1) AND spsc_GetIndexMask q;
          q = q\<lparr>spsc_cached_head := spsc_head q\<rparr>
      in if next_tail = spsc_cached_head q then Some ([EnqFull], P_Idle, q)
         else Some ([], P_Construct tail x, q))"
| "producer_step (P_Construct tail x) q =
     Some ([], P_StoreTail tail x, q\<lparr>spsc_buffer := (spsc_buffer q)[unat tail := x]\<rparr>)"
| "producer_step (P_StoreTail tail x) q =
     Some ([Enq x], P_Idle, q\<lparr>spsc_tail := (tail + 1) AND spsc_GetIndexMask q\<rparr>)"

text \<open>What follows the emptiness test of the three consumer operations.\<close>

fun consumer_access :: "consumer_op \<Rightarrow> size_t \<Rightarrow> 'a consumer_pc" where
  "consumer_access Op_Front head = C_Peek head"
| "consumer_access Op_Dequeue head = C_StoreHead head None"
| "consumer_access Op_Dequeue_to head = C_Move head"

text \<open>
  \<open>Front\<close> returns a pointer; \<open>C_Peek\<close> is the caller's read through it. \<open>Dequeue()\<close> discards
  the element, its event names it all the same.
\<close>

fun consumer_step :: "('a \<Rightarrow> 'a) \<Rightarrow> 'a consumer_pc \<Rightarrow> 'a spsc \<Rightarrow>
    ('a fifo_event list \<times> 'a consumer_pc \<times> 'a spsc) option" where
  "consumer_step moved C_Idle q = None"
| "consumer_step moved (C_LoadHead cop) q =
     (let head = spsc_head q
      in Some ([], if head = spsc_cached_tail q then C_LoadTail cop head else consumer_access cop head, q))"
| "consumer_step moved (C_LoadTail cop head) q =
     (let q = q\<lparr>spsc_cached_tail := spsc_tail q\<rparr>
      in if head = spsc_cached_tail q then Some ([DeqEmpty], C_Idle, q)
         else Some ([], consumer_access cop head, q))"
| "consumer_step moved (C_Peek head) q = Some ([Peek (spsc_buffer q ! unat head)], C_Idle, q)"
| "consumer_step moved (C_Move head) q =
     (let element = spsc_buffer q ! unat head
      in Some ([], C_StoreHead head (Some element),
               q\<lparr>spsc_buffer := (spsc_buffer q)[unat head := moved element]\<rparr>))"
| "consumer_step moved (C_StoreHead head element) q =
     Some ([Deq (case element of None \<Rightarrow> spsc_buffer q ! unat head | Some x \<Rightarrow> x)], C_Idle,
           q\<lparr>spsc_head := (head + 1) AND spsc_GetIndexMask q\<rparr>)"

fun spsc_step :: "('a \<Rightarrow> 'a) \<Rightarrow> 'a spsc_choice \<Rightarrow> 'a spsc_sys \<Rightarrow>
    ('a fifo_event list \<times> 'a spsc_sys) option" where
  "spsc_step moved (Call_Emplace x) s =
     (if sys_producer s = P_Idle then Some ([], s\<lparr>sys_producer := P_LoadTail x\<rparr>) else None)"
| "spsc_step moved (Call_Consumer cop) s =
     (if sys_consumer s = C_Idle then Some ([], s\<lparr>sys_consumer := C_LoadHead cop\<rparr>) else None)"
| "spsc_step moved Step_Producer s =
     (case producer_step (sys_producer s) (sys_queue s) of
        None \<Rightarrow> None
      | Some (es, pc, q) \<Rightarrow> Some (es, s\<lparr>sys_queue := q, sys_producer := pc\<rparr>))"
| "spsc_step moved Step_Consumer s =
     (case consumer_step moved (sys_consumer s) (sys_queue s) of
        None \<Rightarrow> None
      | Some (es, pc, q) \<Rightarrow> Some (es, s\<lparr>sys_queue := q, sys_consumer := pc\<rparr>))"

definition spsc_init :: "'a spsc_sys \<Rightarrow> bool" where
  "spsc_init s \<longleftrightarrow> (\<exists>dflt Capacity. spsc_new dflt Capacity = Inr (sys_queue s)) \<and>
     sys_producer s = P_Idle \<and> sys_consumer s = C_Idle"

section \<open>The invariant\<close>

fun producer_ok :: "'a producer_pc \<Rightarrow> nat \<Rightarrow> nat \<Rightarrow> 'a spsc \<Rightarrow> bool" where
  "producer_ok P_Idle ch t q \<longleftrightarrow> True"
| "producer_ok (P_LoadTail x) ch t q \<longleftrightarrow> True"
| "producer_ok (P_LoadHead tail x) ch t q \<longleftrightarrow> tail = spsc_tail q"
| "producer_ok (P_Construct tail x) ch t q \<longleftrightarrow>
     tail = spsc_tail q \<and> t + 1 - ch < unat (spsc_size q)"
| "producer_ok (P_StoreTail tail x) ch t q \<longleftrightarrow>
     tail = spsc_tail q \<and> t + 1 - ch < unat (spsc_size q) \<and> spsc_buffer q ! unat tail = x"

fun consumer_ok :: "'a consumer_pc \<Rightarrow> nat \<Rightarrow> nat \<Rightarrow> 'a spsc \<Rightarrow> bool" where
  "consumer_ok C_Idle h ct q \<longleftrightarrow> True"
| "consumer_ok (C_LoadHead cop) h ct q \<longleftrightarrow> True"
| "consumer_ok (C_LoadTail cop head) h ct q \<longleftrightarrow> head = spsc_head q"
| "consumer_ok (C_Peek head) h ct q \<longleftrightarrow> head = spsc_head q \<and> h < ct"
| "consumer_ok (C_Move head) h ct q \<longleftrightarrow> head = spsc_head q \<and> h < ct"
| "consumer_ok (C_StoreHead head e) h ct q \<longleftrightarrow> head = spsc_head q \<and> h < ct"

definition spsc_inv :: "'a spsc_sys \<Rightarrow> bool" where
  "spsc_inv s \<longleftrightarrow> (\<exists>ch h ct t. spsc_pos (sys_queue s) ch h ct t \<and>
     producer_ok (sys_producer s) ch t (sys_queue s) \<and>
     consumer_ok (sys_consumer s) h ct (sys_queue s))"

text \<open>
  The abstract queue: the contents, where the element that a \<open>Dequeue(T&)\<close> has moved out and
  not yet released still counts as the oldest one.
\<close>

fun spsc_items :: "'a consumer_pc \<Rightarrow> 'a spsc \<Rightarrow> 'a list" where
  "spsc_items (C_StoreHead head (Some x)) q = x # tl (spsc_contents q)"
| "spsc_items _ q = spsc_contents q"

definition spsc_abs :: "'a spsc_sys \<Rightarrow> 'a fifo" where
  "spsc_abs s = \<lparr>fifo_cap = unat (spsc_size (sys_queue s)) - 1,
     fifo_items = spsc_items (sys_consumer s) (sys_queue s)\<rparr>"

lemma consumer_ok_access [simp]:
  "consumer_ok (consumer_access cop head) h ct q \<longleftrightarrow> head = spsc_head q \<and> h < ct"
  "spsc_items (consumer_access cop head) q = spsc_contents q"
  by (cases cop; simp)+

lemma consumer_ok_cong:
  "consumer_ok pc h ct q \<Longrightarrow> spsc_head p = spsc_head q \<Longrightarrow> consumer_ok pc h ct p"
  by (cases pc) auto

lemma producer_ok_cong:
  assumes "producer_ok pc ch t q" "spsc_tail p = spsc_tail q" "spsc_size p = spsc_size q"
    "\<And>tail x. pc = P_StoreTail tail x \<Longrightarrow> spsc_buffer p ! unat tail = spsc_buffer q ! unat tail"
  shows "producer_ok pc ch t p"
  using assms by (cases pc) auto

lemma spsc_items_cong: "spsc_contents p = spsc_contents q \<Longrightarrow> spsc_items pc p = spsc_items pc q"
  by (cases "(pc, q)" rule: spsc_items.cases) auto

lemma spsc_items_length:
  assumes "spsc_pos q ch h ct t" "consumer_ok pc h ct q"
  shows "length (spsc_items pc q) = t - h"
proof (cases "(pc, q)" rule: spsc_items.cases)
  case (1 head x p)
  with assms have "h < ct" "ct \<le> t" by (auto simp: spsc_pos_def)
  with 1 spsc_length_contents [OF assms(1)] show ?thesis by simp
qed (use spsc_length_contents [OF assms(1)] in auto)

lemma spsc_items_snoc:
  assumes "spsc_pos q ch h ct t" "consumer_ok pc h ct q"
    "spsc_contents p = spsc_contents q @ [x]"
  shows "spsc_items pc p = spsc_items pc q @ [x]"
proof (cases "(pc, q)" rule: spsc_items.cases)
  case (1 head y p)
  with assms have "h < ct" by simp
  then have "spsc_contents q \<noteq> []" using spsc_contents_nonempty [OF assms(1)] by auto
  with 1 assms(3) show ?thesis by simp
qed (use assms(3) in auto)

text \<open>
  The counters after a step: a load of the other thread's index renews the cached one, a store of its
  own moves it on.
\<close>

fun producer_cached :: "'a producer_pc \<Rightarrow> nat \<Rightarrow> nat \<Rightarrow> nat" where
  "producer_cached (P_LoadHead tail x) ch h = h"
| "producer_cached _ ch h = ch"

fun producer_moves :: "'a producer_pc \<Rightarrow> nat \<Rightarrow> nat" where
  "producer_moves (P_StoreTail tail x) t = t + 1"
| "producer_moves _ t = t"

fun consumer_cached :: "'a consumer_pc \<Rightarrow> nat \<Rightarrow> nat \<Rightarrow> nat" where
  "consumer_cached (C_LoadTail cop head) ct t = t"
| "consumer_cached _ ct t = ct"

fun consumer_moves :: "'a consumer_pc \<Rightarrow> nat \<Rightarrow> nat" where
  "consumer_moves (C_StoreHead head e) h = h + 1"
| "consumer_moves _ h = h"

lemma producer_step_ok:
  assumes "producer_step pc q = Some (es, pc', q')"
    and pos: "spsc_pos q ch h ct t" and pok: "producer_ok pc ch t q" and cok: "consumer_ok cpc h ct q"
  shows "spsc_pos q' (producer_cached pc ch h) h ct (producer_moves pc t) \<and>
    producer_ok pc' (producer_cached pc ch h) (producer_moves pc t) q' \<and> consumer_ok cpc h ct q' \<and>
    accepts fifo_spec es \<lparr>fifo_cap = unat (spsc_size q) - 1, fifo_items = spsc_items cpc q\<rparr> =
      Some \<lparr>fifo_cap = unat (spsc_size q') - 1, fifo_items = spsc_items cpc q'\<rparr>"
proof -
  let ?n = "unat (spsc_size q)"
  have le: "ch \<le> h" "h \<le> t" "t - ch < ?n" using pos by (auto simp: spsc_pos_def)
  have len: "length (spsc_items cpc q) = t - h" by (rule spsc_items_length [OF pos cok])
  show ?thesis
  proof (cases pc)
    case P_Idle
    then show ?thesis using assms(1) by simp
  next
    case (P_LoadTail x)
    then show ?thesis
      using assms(1) pos cok spsc_full_test [OF pos] le
      by (auto simp: Let_def)
  next
    case (P_LoadHead tail x)
    let ?r = "q\<lparr>spsc_cached_head := spsc_head q\<rparr>"
    have r: "spsc_pos ?r h h ct t" using pos by (rule spsc_pos_reload_head)
    have it: "spsc_items cpc ?r = spsc_items cpc q"
      by (intro spsc_items_cong spsc_contents_cong) simp_all
    have full: "(spsc_tail q + 1) AND spsc_GetIndexMask q = spsc_head q \<longleftrightarrow> t + 1 - h = ?n"
      using spsc_full_test [OF r] by (simp add: spsc_GetIndexMask_def)
    show ?thesis
      using P_LoadHead assms(1) r pok it full le len consumer_ok_cong [OF cok, of ?r]
      by (auto simp: Let_def spsc_GetIndexMask_def split: if_splits)
  next
    case (P_Construct tail x)
    let ?r = "q\<lparr>spsc_buffer := (spsc_buffer q)[unat tail := x]\<rparr>"
    have tail: "tail = spsc_tail q" and lt: "t + 1 - ch < ?n" using pok P_Construct by auto
    have it: "spsc_items cpc ?r = spsc_items cpc q"
      unfolding tail by (intro spsc_items_cong spsc_contents_construct [OF pos])
    have "unat tail < length (spsc_buffer q)"
      using spsc_pos_facts(6) [OF pos] pos tail by (simp add: spsc_pos_def)
    then show ?thesis
      using P_Construct assms(1) spsc_pos_buffer [OF pos, of "unat tail" x] tail lt it
        consumer_ok_cong [OF cok, of ?r]
      by auto
  next
    case (P_StoreTail tail x)
    let ?r = "q\<lparr>spsc_tail := (spsc_tail q + 1) AND spsc_GetIndexMask q\<rparr>"
    have tail: "tail = spsc_tail q" and lt: "t + 1 - ch < ?n" and x: "spsc_buffer q ! unat tail = x"
      using pok P_StoreTail by auto
    have it: "spsc_items cpc ?r = spsc_items cpc q @ [x]"
      using spsc_items_snoc [OF pos cok spsc_contents_publish [OF pos lt]] x tail by simp
    show ?thesis
      using P_StoreTail assms(1) spsc_pos_publish [OF pos lt] tail it len le lt
        consumer_ok_cong [OF cok, of ?r]
      by auto
  qed
qed

lemma consumer_step_ok:
  assumes "consumer_step moved pc q = Some (es, pc', q')"
    and pos: "spsc_pos q ch h ct t" and pok: "producer_ok ppc ch t q" and cok: "consumer_ok pc h ct q"
  shows "spsc_pos q' ch (consumer_moves pc h) (consumer_cached pc ct t) t \<and> producer_ok ppc ch t q' \<and>
    consumer_ok pc' (consumer_moves pc h) (consumer_cached pc ct t) q' \<and>
    accepts fifo_spec es \<lparr>fifo_cap = unat (spsc_size q) - 1, fifo_items = spsc_items pc q\<rparr> =
      Some \<lparr>fifo_cap = unat (spsc_size q') - 1, fifo_items = spsc_items pc' q'\<rparr>"
proof -
  let ?n = "unat (spsc_size q)"
  have le: "h \<le> ct" "ct \<le> t" "t - h < ?n" "t - ch < ?n" using pos by (auto simp: spsc_pos_def)
  have head: "unat (spsc_head q) < length (spsc_buffer q)"
    using spsc_pos_facts(5) [OF pos] pos by (simp add: spsc_pos_def)
  show ?thesis
  proof (cases pc)
    case C_Idle
    then show ?thesis using assms(1) by simp
  next
    case (C_LoadHead cop)
    then show ?thesis
      using assms(1) pos pok spsc_empty_test [OF pos] le
      by (auto simp: Let_def)
  next
    case (C_LoadTail cop hd)
    let ?r = "q\<lparr>spsc_cached_tail := spsc_tail q\<rparr>"
    have r: "spsc_pos ?r ch h t t" using pos by (rule spsc_pos_reload_tail)
    have same: "spsc_contents ?r = spsc_contents q" by (rule spsc_contents_cong) simp_all
    have "spsc_head q = spsc_tail q \<longleftrightarrow> h = t" using spsc_empty_test [OF r] by simp
    moreover have "spsc_contents q = [] \<longleftrightarrow> h = t"
      using spsc_length_contents [OF pos] le by (auto simp flip: length_0_conv)
    ultimately show ?thesis
      using C_LoadTail assms(1) r cok same le producer_ok_cong [OF pok, of ?r]
      by (auto simp: Let_def split: if_splits)
  next
    case (C_Peek hd)
    then have "spsc_contents q = spsc_buffer q ! unat (spsc_head q) # tl (spsc_contents q)"
      using spsc_contents_nonempty [OF pos] cok by simp
    then show ?thesis
      using C_Peek assms(1) pos pok cok
      by (auto split: list.splits)
  next
    case (C_Move hd)
    let ?e = "spsc_buffer q ! unat (spsc_head q)"
    let ?r = "q\<lparr>spsc_buffer := (spsc_buffer q)[unat (spsc_head q) := moved ?e]\<rparr>"
    have hd: "hd = spsc_head q" and lt: "h < ct" using cok C_Move by auto
    have it: "?e # tl (spsc_contents ?r) = spsc_contents q"
      using spsc_contents_nonempty [OF pos lt] spsc_contents_move [OF pos lt] by simp
    have "t mod ?n \<noteq> h mod ?n" using mod_window_eq [of h t ?n] lt le by auto
    then have "spsc_tail q \<noteq> spsc_head q" using pos by (auto simp: spsc_pos_def word_unat_eq_iff)
    then have "unat (spsc_tail q) \<noteq> unat (spsc_head q)" by (simp add: word_unat_eq_iff)
    then have "producer_ok ppc ch t ?r" using pok by (cases ppc) auto
    then show ?thesis
      using C_Move assms(1) spsc_pos_buffer [OF pos, of "unat (spsc_head q)" "moved ?e"] hd lt it
      by (auto simp: Let_def)
  next
    case (C_StoreHead hd e)
    let ?r = "q\<lparr>spsc_head := (spsc_head q + 1) AND spsc_GetIndexMask q\<rparr>"
    have hd: "hd = spsc_head q" and lt: "h < ct" using cok C_StoreHead by auto
    have it: "spsc_items pc q = (case e of None \<Rightarrow> spsc_buffer q ! unat (spsc_head q) | Some x \<Rightarrow> x)
        # tl (spsc_contents q)"
      using C_StoreHead spsc_contents_nonempty [OF pos lt] by (cases e) auto
    show ?thesis
      using C_StoreHead assms(1) spsc_pos_advance [OF pos lt] hd it spsc_contents_advance [OF pos lt]
        producer_ok_cong [OF pok, of ?r]
      by auto
  qed
qed

section \<open>The concurrent queue implements a bounded FIFO\<close>

lemma spsc_init_inv:
  assumes "spsc_init s"
  shows "spsc_inv s" "fifo_items (spsc_abs s) = []"
proof -
  from assms obtain dflt Capacity where n: "spsc_new dflt Capacity = Inr (sys_queue s)"
    and pcs: "sys_producer s = P_Idle" "sys_consumer s = C_Idle"
    by (auto simp: spsc_init_def)
  show "spsc_inv s" using spsc_new_pos(1) [OF n] pcs by (auto simp: spsc_inv_def)
  show "fifo_items (spsc_abs s) = []" using spsc_new_pos(2) [OF n] pcs by (simp add: spsc_abs_def)
qed

lemma spsc_step_ok:
  assumes inv: "spsc_inv s" and step: "spsc_step moved c s = Some (es, s')"
  shows "spsc_inv s' \<and> accepts fifo_spec es (spsc_abs s) = Some (spsc_abs s')"
proof -
  obtain ch h ct t where pos: "spsc_pos (sys_queue s) ch h ct t"
    and pok: "producer_ok (sys_producer s) ch t (sys_queue s)"
    and cok: "consumer_ok (sys_consumer s) h ct (sys_queue s)"
    using inv by (auto simp: spsc_inv_def)
  show ?thesis
  proof (cases c)
    case (Call_Emplace x)
    then have s': "s' = s\<lparr>sys_producer := P_LoadTail x\<rparr>" "es = []" using step by (auto split: if_splits)
    have "producer_ok (P_LoadTail x) ch t (sys_queue s)" by simp
    with pos cok show ?thesis unfolding s' spsc_inv_def spsc_abs_def by auto
  next
    case (Call_Consumer cop)
    then have s': "s' = s\<lparr>sys_consumer := C_LoadHead cop\<rparr>" "es = []" and idle: "sys_consumer s = C_Idle"
      using step by (auto split: if_splits)
    have "consumer_ok (C_LoadHead cop) h ct (sys_queue s)" by simp
    with pos pok idle show ?thesis unfolding s' spsc_inv_def spsc_abs_def by auto
  next
    case Step_Producer
    then obtain pc q where st: "producer_step (sys_producer s) (sys_queue s) = Some (es, pc, q)"
      and s': "s' = s\<lparr>sys_queue := q, sys_producer := pc\<rparr>"
      using step by (auto split: option.splits prod.splits)
    show ?thesis
      using producer_step_ok [OF st pos pok cok] unfolding s' spsc_inv_def spsc_abs_def by auto
  next
    case Step_Consumer
    then obtain pc q where st: "consumer_step moved (sys_consumer s) (sys_queue s) = Some (es, pc, q)"
      and s': "s' = s\<lparr>sys_queue := q, sys_consumer := pc\<rparr>"
      using step by (auto split: option.splits prod.splits)
    show ?thesis
      using consumer_step_ok [OF st pos pok cok] unfolding s' spsc_inv_def spsc_abs_def by auto
  qed
qed

interpretation spsc_fifo: fifo_implementation "spsc_step moved" spsc_init spsc_inv spsc_abs
  for moved :: "'a \<Rightarrow> 'a"
  by unfold_locales (auto simp: spsc_init_inv dest: spsc_step_ok)

text \<open>
  Property C16. Linearizability: whatever the interleaving of the producer's and the consumer's
  accesses, the visible events replay on the sequential bounded FIFO and end in the queue's
  contents; so the elements handed out are, in order, a prefix of those put in, what is in
  between is the contents, and a full or empty answer is given only in a moment when the
  queue is full (\<open>size - 1\<close> elements) or empty.
\<close>

theorem spsc_linearizable:
  assumes "spsc_init s" "reaches (spsc_step moved) s es t"
  shows "accepts fifo_spec es (spsc_abs s) = Some (spsc_abs t) \<and>
    enqs es = deqs es @ fifo_items (spsc_abs t) \<and>
    length (fifo_items (spsc_abs t)) \<le> unat (spsc_size (sys_queue s)) - 1"
  using spsc_fifo.refines_run [OF assms] spsc_fifo.fifo_order [OF assms]
    spsc_fifo.fifo_bounded [OF assms]
  by (simp add: spsc_abs_def)

section \<open>No data race on the buffer\<close>

text \<open>The buffer index of the plain access a thread performs next.\<close>

fun producer_touches :: "'a producer_pc \<Rightarrow> size_t option" where
  "producer_touches (P_Construct tail x) = Some tail"
| "producer_touches _ = None"

fun consumer_touches :: "'a consumer_pc \<Rightarrow> size_t option" where
  "consumer_touches (C_Peek head) = Some head"
| "consumer_touches (C_Move head) = Some head"
| "consumer_touches _ = None"

lemma spsc_touches_apart:
  assumes "spsc_pos q ch h ct t" "producer_ok ppc ch t q" "consumer_ok cpc h ct q"
    "producer_touches ppc = Some i" "consumer_touches cpc = Some j"
  shows "i \<noteq> j \<and> unat i < length (spsc_buffer q) \<and> unat j < length (spsc_buffer q)"
proof -
  have ij: "i = spsc_tail q" "j = spsc_head q" "h < ct"
    using assms by (cases ppc; cases cpc; auto)+
  then have "h < t" "t - h < unat (spsc_size q)" using assms(1) by (auto simp: spsc_pos_def)
  then have "h mod unat (spsc_size q) \<noteq> t mod unat (spsc_size q)"
    using mod_window_eq [of h t "unat (spsc_size q)"] by simp
  then show ?thesis
    using assms(1) spsc_pos_facts [OF assms(1)] ij by (auto simp: spsc_pos_def)
qed

text \<open>
  Absence of data races: the plain accesses to buffer elements (the producer's
  placement new; the consumer's move and the read through the pointer that \<open>Front\<close>
  returned) never concern the same slot at the same time, and never leave the buffer.
\<close>

theorem spsc_race_free:
  assumes "spsc_init s" "reaches (spsc_step moved) s es t"
    "producer_touches (sys_producer t) = Some i" "consumer_touches (sys_consumer t) = Some j"
  shows "i \<noteq> j \<and> unat i < length (spsc_buffer (sys_queue t)) \<and> unat j < length (spsc_buffer (sys_queue t))"
proof -
  have "spsc_inv t" using spsc_fifo.inv_reaches [OF assms(1,2)] .
  then obtain ch h ct n where "spsc_pos (sys_queue t) ch h ct n"
    "producer_ok (sys_producer t) ch n (sys_queue t)" "consumer_ok (sys_consumer t) h ct (sys_queue t)"
    by (auto simp: spsc_inv_def)
  then show ?thesis using spsc_touches_apart assms(3,4) by blast
qed

section \<open>Wait-freedom\<close>

text \<open>An upper bound on the steps a thread still takes before its call returns.\<close>

fun producer_left :: "'a producer_pc \<Rightarrow> nat" where
  "producer_left P_Idle = 0"
| "producer_left (P_LoadTail x) = 4"
| "producer_left (P_LoadHead tail x) = 3"
| "producer_left (P_Construct tail x) = 2"
| "producer_left (P_StoreTail tail x) = 1"

fun consumer_left :: "'a consumer_pc \<Rightarrow> nat" where
  "consumer_left C_Idle = 0"
| "consumer_left (C_LoadHead cop) = 4"
| "consumer_left (C_LoadTail cop head) = 3"
| "consumer_left (C_Peek head) = 1"
| "consumer_left (C_Move head) = 2"
| "consumer_left (C_StoreHead head e) = 1"

lemma producer_step_left:
  "producer_step pc q = Some (es, pc', q') \<Longrightarrow> Suc (producer_left pc') \<le> producer_left pc"
  by (cases pc) (auto simp: Let_def split: if_splits)

lemma consumer_step_left:
  "consumer_step moved pc q = Some (es, pc', q') \<Longrightarrow> Suc (consumer_left pc') \<le> consumer_left pc"
proof (cases pc)
  case (C_LoadHead cop)
  then show "consumer_step moved pc q = Some (es, pc', q') \<Longrightarrow> ?thesis"
    by (cases cop) (auto simp: Let_def split: if_splits)
next
  case (C_LoadTail cop head)
  then show "consumer_step moved pc q = Some (es, pc', q') \<Longrightarrow> ?thesis"
    by (cases cop) (auto simp: Let_def split: if_splits)
qed (auto simp: Let_def)

lemma producer_enabled: "producer_step pc q = None \<longleftrightarrow> pc = P_Idle"
  by (cases pc) (auto simp: Let_def)

lemma consumer_enabled: "consumer_step moved pc q = None \<longleftrightarrow> pc = C_Idle"
  by (cases pc) (auto simp: Let_def)

lemma spsc_left_run:
  assumes "run (spsc_step moved) cs s = Some (es, t)"
  shows "(\<forall>x. Call_Emplace x \<notin> set cs) \<longrightarrow>
      count_list cs Step_Producer + producer_left (sys_producer t) \<le> producer_left (sys_producer s)"
    "(\<forall>cop. Call_Consumer cop \<notin> set cs) \<longrightarrow>
      count_list cs Step_Consumer + consumer_left (sys_consumer t) \<le> consumer_left (sys_consumer s)"
  using assms
proof (induction cs arbitrary: s es)
  case (Cons c cs)
  { case 1
    then obtain e u fs where st: "spsc_step moved c s = Some (e, u)" "run (spsc_step moved) cs u = Some (fs, t)"
      by (auto split: option.splits)
    from Cons.IH(1) [OF st(2)] st(1) show ?case
      by (cases c) (auto split: option.splits if_splits dest: producer_step_left)
  next
    case 2
    then obtain e u fs where st: "spsc_step moved c s = Some (e, u)" "run (spsc_step moved) cs u = Some (fs, t)"
      by (auto split: option.splits)
    from Cons.IH(2) [OF st(2)] st(1) show ?case
      by (cases c) (auto split: option.splits if_splits dest: consumer_step_left) }
qed simp_all

text \<open>
  Property C38. Wait-freedom: in any schedule a call returns after at most four steps of its
  own thread, whatever the other thread does in between, and a thread inside a call can
  always take its next step.
\<close>

theorem spsc_wait_free:
  assumes "run (spsc_step moved) cs s = Some (es, t)"
  shows "((\<forall>x. Call_Emplace x \<notin> set cs) \<and> sys_producer t \<noteq> P_Idle \<longrightarrow> count_list cs Step_Producer < 4) \<and>
    ((\<forall>cop. Call_Consumer cop \<notin> set cs) \<and> sys_consumer t \<noteq> C_Idle \<longrightarrow> count_list cs Step_Consumer < 4) \<and>
    (sys_producer t \<noteq> P_Idle \<longrightarrow> spsc_step moved Step_Producer t \<noteq> None) \<and>
    (sys_consumer t \<noteq> C_Idle \<longrightarrow> spsc_step moved Step_Consumer t \<noteq> None)"
proof -
  have "producer_left (sys_producer s) \<le> 4" "sys_producer t \<noteq> P_Idle \<Longrightarrow> 0 < producer_left (sys_producer t)"
    by (cases "sys_producer s"; simp) (cases "sys_producer t"; simp)
  moreover have "consumer_left (sys_consumer s) \<le> 4" "sys_consumer t \<noteq> C_Idle \<Longrightarrow> 0 < consumer_left (sys_consumer t)"
    by (cases "sys_consumer s"; simp) (cases "sys_consumer t"; simp)
  ultimately show ?thesis
    using spsc_left_run [OF assms] producer_enabled [of "sys_producer t" "sys_queue t"]
      consumer_enabled [of moved "sys_consumer t" "sys_queue t"]
    by (auto split: option.splits)
qed

section \<open>Run alone, the steps are the sequential operations\<close>

lemma spsc_sys_idle:
  "sys_producer s = P_Idle \<Longrightarrow> s\<lparr>sys_queue := q, sys_producer := P_Idle\<rparr> = s\<lparr>sys_queue := q\<rparr>"
  "sys_consumer s = C_Idle \<Longrightarrow> s\<lparr>sys_queue := q, sys_consumer := C_Idle\<rparr> = s\<lparr>sys_queue := q\<rparr>"
  by simp_all

lemma spsc_solo_Emplace:
  assumes "sys_producer s = P_Idle"
  shows "\<exists>n\<le>4. run (spsc_step moved) (Call_Emplace x # replicate n Step_Producer) s =
      Some ([if fst (spsc_Emplace x (sys_queue s)) then Enq x else EnqFull],
        s\<lparr>sys_queue := snd (spsc_Emplace x (sys_queue s))\<rparr>)"
proof -
  let ?q = "sys_queue s"
  let ?next = "(spsc_tail ?q + 1) AND spsc_GetIndexMask ?q"
  consider "?next \<noteq> spsc_cached_head ?q"
    | "?next = spsc_cached_head ?q" "?next \<noteq> spsc_head ?q"
    | "?next = spsc_cached_head ?q" "?next = spsc_head ?q" by blast
  then show ?thesis
  proof cases
    case 1
    with assms show ?thesis
      by (intro exI [of _ "Suc (Suc (Suc 0))"])
        (simp add: spsc_Emplace_def Let_def spsc_GetIndexMask_def)
  next
    case 2
    with assms show ?thesis
      by (intro exI [of _ "Suc (Suc (Suc (Suc 0)))"])
        (simp add: spsc_Emplace_def Let_def spsc_GetIndexMask_def)
  next
    case 3
    with assms show ?thesis
      by (intro exI [of _ "Suc (Suc 0)"])
        (simp add: spsc_Emplace_def Let_def spsc_GetIndexMask_def)
  qed
qed

lemma spsc_solo_consumer:
  assumes "sys_consumer s = C_Idle"
  shows "\<exists>n\<le>4. run (spsc_step moved) (Call_Consumer Op_Dequeue_to # replicate n Step_Consumer) s =
      Some ([case fst (spsc_Dequeue_to moved (sys_queue s)) of None \<Rightarrow> DeqEmpty | Some y \<Rightarrow> Deq y],
        s\<lparr>sys_queue := snd (spsc_Dequeue_to moved (sys_queue s))\<rparr>)"
    "\<exists>n\<le>4. run (spsc_step moved) (Call_Consumer Op_Front # replicate n Step_Consumer) s =
      Some ([case fst (spsc_Front (sys_queue s)) of
               None \<Rightarrow> DeqEmpty | Some i \<Rightarrow> Peek (spsc_buffer (sys_queue s) ! unat i)],
        s\<lparr>sys_queue := snd (spsc_Front (sys_queue s))\<rparr>)"
    "\<exists>n\<le>4. run (spsc_step moved) (Call_Consumer Op_Dequeue # replicate n Step_Consumer) s =
      Some ([if fst (spsc_Dequeue (sys_queue s))
             then Deq (spsc_buffer (sys_queue s) ! unat (spsc_head (sys_queue s))) else DeqEmpty],
        s\<lparr>sys_queue := snd (spsc_Dequeue (sys_queue s))\<rparr>)"
proof -
  let ?q = "sys_queue s"
  consider "spsc_head ?q \<noteq> spsc_cached_tail ?q"
    | "spsc_head ?q = spsc_cached_tail ?q" "spsc_head ?q \<noteq> spsc_tail ?q"
    | "spsc_head ?q = spsc_cached_tail ?q" "spsc_head ?q = spsc_tail ?q" by blast
  note cs = this
  show "\<exists>n\<le>4. run (spsc_step moved) (Call_Consumer Op_Dequeue_to # replicate n Step_Consumer) s =
      Some ([case fst (spsc_Dequeue_to moved (sys_queue s)) of None \<Rightarrow> DeqEmpty | Some y \<Rightarrow> Deq y],
        s\<lparr>sys_queue := snd (spsc_Dequeue_to moved (sys_queue s))\<rparr>)"
  proof (cases rule: cs)
    case 1
    with assms show ?thesis
      by (intro exI [of _ "Suc (Suc (Suc 0))"])
        (simp add: spsc_Dequeue_to_def Let_def spsc_GetIndexMask_def)
  next
    case 2
    with assms show ?thesis
      by (intro exI [of _ "Suc (Suc (Suc (Suc 0)))"])
        (simp add: spsc_Dequeue_to_def Let_def spsc_GetIndexMask_def)
  next
    case 3
    with assms show ?thesis
      by (intro exI [of _ "Suc (Suc 0)"])
        (simp add: spsc_Dequeue_to_def Let_def spsc_GetIndexMask_def)
  qed
  show "\<exists>n\<le>4. run (spsc_step moved) (Call_Consumer Op_Front # replicate n Step_Consumer) s =
      Some ([case fst (spsc_Front (sys_queue s)) of
               None \<Rightarrow> DeqEmpty | Some i \<Rightarrow> Peek (spsc_buffer (sys_queue s) ! unat i)],
        s\<lparr>sys_queue := snd (spsc_Front (sys_queue s))\<rparr>)"
  proof (cases rule: cs)
    case 1
    with assms show ?thesis
      by (intro exI [of _ "Suc (Suc 0)"]) (simp add: spsc_Front_def Let_def)
  next
    case 2
    with assms show ?thesis
      by (intro exI [of _ "Suc (Suc (Suc 0))"]) (simp add: spsc_Front_def Let_def)
  next
    case 3
    with assms show ?thesis
      by (intro exI [of _ "Suc (Suc 0)"]) (simp add: spsc_Front_def Let_def)
  qed
  show "\<exists>n\<le>4. run (spsc_step moved) (Call_Consumer Op_Dequeue # replicate n Step_Consumer) s =
      Some ([if fst (spsc_Dequeue (sys_queue s))
             then Deq (spsc_buffer (sys_queue s) ! unat (spsc_head (sys_queue s))) else DeqEmpty],
        s\<lparr>sys_queue := snd (spsc_Dequeue (sys_queue s))\<rparr>)"
  proof (cases rule: cs)
    case 1
    with assms show ?thesis
      by (intro exI [of _ "Suc (Suc 0)"]) (simp add: spsc_Dequeue_def Let_def spsc_GetIndexMask_def)
  next
    case 2
    with assms show ?thesis
      by (intro exI [of _ "Suc (Suc (Suc 0))"])
        (simp add: spsc_Dequeue_def Let_def spsc_GetIndexMask_def)
  next
    case 3
    with assms show ?thesis
      by (intro exI [of _ "Suc (Suc 0)"]) (simp add: spsc_Dequeue_def Let_def spsc_GetIndexMask_def)
  qed
qed

text \<open>
  The access-by-access operations and the operations of \<open>SPSC_Queue\<close> are the same
  code: a call of \<open>Emplace\<close>, \<open>Dequeue(T&)\<close>, \<open>Dequeue()\<close> or \<open>Front\<close> whose thread runs without interruption
  finishes within four steps, in the state and with the answer of the sequential operation.
\<close>

theorem spsc_solo_runs:
  assumes "sys_producer s = P_Idle" "sys_consumer s = C_Idle"
  shows "(\<exists>n\<le>4. run (spsc_step moved) (Call_Emplace x # replicate n Step_Producer) s =
      Some ([if fst (spsc_Emplace x (sys_queue s)) then Enq x else EnqFull],
        s\<lparr>sys_queue := snd (spsc_Emplace x (sys_queue s))\<rparr>)) \<and>
    (\<exists>n\<le>4. run (spsc_step moved) (Call_Consumer Op_Dequeue_to # replicate n Step_Consumer) s =
      Some ([case fst (spsc_Dequeue_to moved (sys_queue s)) of None \<Rightarrow> DeqEmpty | Some y \<Rightarrow> Deq y],
        s\<lparr>sys_queue := snd (spsc_Dequeue_to moved (sys_queue s))\<rparr>)) \<and>
    (\<exists>n\<le>4. run (spsc_step moved) (Call_Consumer Op_Front # replicate n Step_Consumer) s =
      Some ([case fst (spsc_Front (sys_queue s)) of
               None \<Rightarrow> DeqEmpty | Some i \<Rightarrow> Peek (spsc_buffer (sys_queue s) ! unat i)],
        s\<lparr>sys_queue := snd (spsc_Front (sys_queue s))\<rparr>)) \<and>
    (\<exists>n\<le>4. run (spsc_step moved) (Call_Consumer Op_Dequeue # replicate n Step_Consumer) s =
      Some ([if fst (spsc_Dequeue (sys_queue s))
             then Deq (spsc_buffer (sys_queue s) ! unat (spsc_head (sys_queue s))) else DeqEmpty],
        s\<lparr>sys_queue := snd (spsc_Dequeue (sys_queue s))\<rparr>))"
  using spsc_solo_Emplace [OF assms(1)] spsc_solo_consumer [OF assms(2)] by blast

section \<open>Concrete runs\<close>

definition spsc_sys_example :: "nat spsc_sys" where
  "spsc_sys_example = \<lparr>sys_queue = spsc_example, sys_producer = P_Idle, sys_consumer = C_Idle\<rparr>"

lemma spsc_sys_example_init: "spsc_init spsc_sys_example"
  using spsc_example_new by (auto simp: spsc_init_def spsc_sys_example_def)

text \<open>
  The producer publishes 7 and is about to construct 8 while the consumer, called before the
  first element was there, is about to move the 7 out; then both calls finish.
\<close>

definition spsc_schedule :: "nat spsc_choice list" where
  "spsc_schedule =
     [Call_Emplace 7, Step_Producer, Call_Consumer Op_Dequeue_to, Step_Consumer, Step_Producer,
      Step_Producer, Step_Consumer, Call_Emplace 8, Step_Producer]"

definition spsc_finish :: "nat spsc_choice list" where
  "spsc_finish = [Step_Consumer, Step_Producer, Step_Consumer]"

lemma spsc_linearizable_witness:
  "\<exists>es t. run (spsc_step id) (spsc_schedule @ spsc_finish) spsc_sys_example = Some (es, t) \<and>
     es = [Enq 7, Deq 7] \<and> enqs es = deqs es @ fifo_items (spsc_abs t)"
proof -
  have "map_option fst (run (spsc_step id) (spsc_schedule @ spsc_finish) spsc_sys_example) =
    Some [Enq 7, Deq 7]" by code_simp
  then obtain t where t: "run (spsc_step id) (spsc_schedule @ spsc_finish) spsc_sys_example =
    Some ([Enq 7, Deq 7], t)" by auto
  show ?thesis
    using t spsc_linearizable [OF spsc_sys_example_init run_reaches [OF t]] by blast
qed

lemma spsc_race_free_witness:
  "\<exists>es t. run (spsc_step id) spsc_schedule spsc_sys_example = Some (es, t) \<and>
     producer_touches (sys_producer t) = Some 1 \<and> consumer_touches (sys_consumer t) = Some 0 \<and>
     unat (1::size_t) < length (spsc_buffer (sys_queue t))"
proof -
  have "map_option (\<lambda>(es, t). (producer_touches (sys_producer t), consumer_touches (sys_consumer t)))
      (run (spsc_step id) spsc_schedule spsc_sys_example) = Some (Some 1, Some 0)" by code_simp
  then obtain es t where t: "run (spsc_step id) spsc_schedule spsc_sys_example = Some (es, t)"
    "producer_touches (sys_producer t) = Some 1" "consumer_touches (sys_consumer t) = Some 0"
    by auto
  show ?thesis
    using t spsc_race_free [OF spsc_sys_example_init run_reaches [OF t(1)] t(2,3)] by auto
qed

lemma spsc_wait_free_witness:
  "\<exists>es t. run (spsc_step id) spsc_schedule spsc_sys_example = Some (es, t) \<and>
     spsc_step id Step_Producer t \<noteq> None"
proof -
  have "map_option (\<lambda>(es, t). sys_producer t) (run (spsc_step id) spsc_schedule spsc_sys_example) =
    Some (P_Construct 1 8)" by code_simp
  then obtain es t where t: "run (spsc_step id) spsc_schedule spsc_sys_example = Some (es, t)"
    "sys_producer t = P_Construct 1 8" by auto
  show ?thesis using t spsc_wait_free [OF t(1)] by auto
qed

lemma spsc_solo_runs_witness:
  "\<exists>n\<le>4. run (spsc_step id) (Call_Emplace 7 # replicate n Step_Producer) spsc_sys_example =
      Some ([Enq 7], spsc_sys_example\<lparr>sys_queue := spsc_example1\<rparr>)"
proof -
  have idle: "sys_producer spsc_sys_example = P_Idle" "sys_consumer spsc_sys_example = C_Idle"
    and q: "sys_queue spsc_sys_example = spsc_example" by (simp_all add: spsc_sys_example_def)
  show ?thesis
    using spsc_solo_runs [OF idle, of id 7] by (simp add: q spsc_example1_Emplace)
qed

end
