(* ===== verification/MPMC_Queue.thy ===== *)
theory MPMC_Queue
  imports Ring_Capacity
begin

text \<open>
  \<open>BoundedMPMCQueue\<close> (queue/bounded_mp_mc_queue.h): slots with a generation number, a ticket
  counter for producers and one for consumers, and the four operations as programs of
  atomic accesses that any number of threads run.
\<close>

section \<open>Slots\<close>

text \<open>
  The storage of a slot: raw bytes, a live object, or the shell that moving out of an
  object leaves until its destructor runs.
\<close>

datatype 'a storage = Raw | Live 'a | Moved

record 'a slot =
  slot_generation :: uint32
  slot_data :: "'a storage"

definition slot_new :: "'a slot" where
  "slot_new = \<lparr>slot_generation = 0, slot_data = Raw\<rparr>"

definition slot_Construct :: "'a \<Rightarrow> 'a slot \<Rightarrow> 'a slot" where
  "slot_Construct x s = s\<lparr>slot_data := Live x\<rparr>"

text \<open>\<open>Move\<close> reads the object, so there has to be one; the caller's assignment empties it.\<close>

definition slot_Move :: "'a slot \<Rightarrow> ('a \<times> 'a slot) option" where
  "slot_Move s = (case slot_data s of Live x \<Rightarrow> Some (x, s\<lparr>slot_data := Moved\<rparr>) | _ \<Rightarrow> None)"

definition slot_Destroy :: "'a slot \<Rightarrow> 'a slot option" where
  "slot_Destroy s = (case slot_data s of Raw \<Rightarrow> None | _ \<Rightarrow> Some (s\<lparr>slot_data := Raw\<rparr>))"

definition slot_LoadGeneration :: "'a slot \<Rightarrow> uint32" where
  "slot_LoadGeneration s = slot_generation s"

definition slot_StoreGeneration :: "uint32 \<Rightarrow> 'a slot \<Rightarrow> 'a slot" where
  "slot_StoreGeneration g s = s\<lparr>slot_generation := g\<rparr>"

text \<open>The destructor: \<open>None\<close> if it destroys an object that is not there.\<close>

definition slot_destructor :: "'a slot \<Rightarrow> 'a slot option" where
  "slot_destructor s = (if slot_generation s AND 1 \<noteq> 0 then slot_Destroy s else Some s)"

section \<open>The queue\<close>

record 'a mpmc =
  mpmc_size :: size_t
  mpmc_buffer :: "'a slot list"
  mpmc_head :: size_t
  mpmc_tail :: size_t

definition mpmc_new :: "size_t \<Rightarrow> const_error + 'a mpmc" where
  "mpmc_new Capacity =
     (case mpmc_GetBufferSize Capacity of
        Inl e \<Rightarrow> Inl e
      | Inr n \<Rightarrow> Inr \<lparr>mpmc_size = n, mpmc_buffer = replicate (unat n) slot_new,
                     mpmc_head = 0, mpmc_tail = 0\<rparr>)"

definition mpmc_GetIndexMask :: "'a mpmc \<Rightarrow> size_t" where
  "mpmc_GetIndexMask q = mpmc_size q - 1"

definition mpmc_GetGenerationMask :: "'a mpmc \<Rightarrow> size_t" where
  "mpmc_GetGenerationMask q = NOT (mpmc_GetIndexMask q)"

definition mpmc_GetIndex :: "'a mpmc \<Rightarrow> size_t \<Rightarrow> size_t" where
  "mpmc_GetIndex q i = i AND mpmc_GetIndexMask q"

text \<open>The 64-bit value is returned as a 32-bit \<open>Generation\<close>.\<close>

definition mpmc_GetGeneration :: "'a mpmc \<Rightarrow> size_t \<Rightarrow> uint32" where
  "mpmc_GetGeneration q i = ucast (i AND mpmc_GetGenerationMask q)"

definition mpmc_GetSize :: "'a mpmc \<Rightarrow> size_t" where
  "mpmc_GetSize q = mpmc_tail q - mpmc_head q"

definition mpmc_IsEmpty :: "'a mpmc \<Rightarrow> bool" where
  "mpmc_IsEmpty q \<longleftrightarrow> mpmc_GetSize q = 0"

definition mpmc_GetCapacity :: "'a mpmc \<Rightarrow> size_t" where
  "mpmc_GetCapacity q = mpmc_size q"

abbreviation mpmc_slot :: "'a mpmc \<Rightarrow> size_t \<Rightarrow> 'a slot" where
  "mpmc_slot q i \<equiv> mpmc_buffer q ! unat (mpmc_GetIndex q i)"

definition mpmc_set_slot :: "size_t \<Rightarrow> 'a slot \<Rightarrow> 'a mpmc \<Rightarrow> 'a mpmc" where
  "mpmc_set_slot i s q = q\<lparr>mpmc_buffer := (mpmc_buffer q)[unat (mpmc_GetIndex q i) := s]\<rparr>"

section \<open>The operations as programs\<close>

text \<open>
  A thread's program counter with its local variables: the ticket (\<open>tail\<close> or \<open>head\<close>, from
  which the code computes index and generation) and the element.
\<close>

datatype 'a mpmc_pc =
    M_Idle
  | E_FetchAdd 'a | E_Spin size_t 'a
  | TE_LoadTail 'a | TE_LoadGen size_t 'a | TE_Cas size_t 'a | TE_Reload size_t 'a
  | E_Construct size_t 'a | E_StoreGen size_t 'a
  | D_FetchAdd | D_Spin size_t
  | TD_LoadHead | TD_LoadGen size_t | TD_Cas size_t | TD_Reload size_t
  | D_Move size_t | D_Destroy size_t 'a | D_StoreGen size_t 'a

datatype 'a mpmc_request =
    Emplace 'a | Enqueue_copy 'a | Enqueue_move 'a
  | TryEmplace 'a | TryEnqueue_copy 'a | TryEnqueue_move 'a
  | Dequeue | TryDequeue

text \<open>All the \<open>Enqueue\<close> overloads forward to \<open>Emplace\<close>, the \<open>TryEnqueue\<close>s to \<open>TryEmplace\<close>.\<close>

fun mpmc_entry :: "'a mpmc_request \<Rightarrow> 'a mpmc_pc" where
  "mpmc_entry (Emplace x) = E_FetchAdd x"
| "mpmc_entry (Enqueue_copy x) = E_FetchAdd x"
| "mpmc_entry (Enqueue_move x) = E_FetchAdd x"
| "mpmc_entry (TryEmplace x) = TE_LoadTail x"
| "mpmc_entry (TryEnqueue_copy x) = TE_LoadTail x"
| "mpmc_entry (TryEnqueue_move x) = TE_LoadTail x"
| "mpmc_entry Dequeue = D_FetchAdd"
| "mpmc_entry TryDequeue = TD_LoadHead"

text \<open>
  What becomes visible: an element enters under a ticket, leaves under a ticket, a
  \<open>Try\<close> operation returns false, or the code touches an object that is not there (or
  constructs over one that is).
\<close>

datatype 'a mpmc_event =
  Enqueued size_t 'a | Dequeued size_t 'a | TryEmplace_false | TryDequeue_false | Fault

fun mpmc_Emplace_step :: "'a mpmc_pc \<Rightarrow> 'a mpmc \<Rightarrow> ('a mpmc_event list \<times> 'a mpmc_pc \<times> 'a mpmc) option" where
  "mpmc_Emplace_step (E_FetchAdd x) q =
     (let tail = mpmc_tail q in Some ([], E_Spin tail x, q\<lparr>mpmc_tail := tail + 1\<rparr>))"
| "mpmc_Emplace_step (E_Spin tail x) q =
     (let generation = 2 * mpmc_GetGeneration q tail
      in Some ([], if generation \<noteq> slot_LoadGeneration (mpmc_slot q tail) then E_Spin tail x
                   else E_Construct tail x, q))"
| "mpmc_Emplace_step (E_Construct tail x) q =
     Some (if slot_data (mpmc_slot q tail) = Raw then [] else [Fault], E_StoreGen tail x,
           mpmc_set_slot tail (slot_Construct x (mpmc_slot q tail)) q)"
| "mpmc_Emplace_step (E_StoreGen tail x) q =
     (let generation = 2 * mpmc_GetGeneration q tail
      in Some ([Enqueued tail x], M_Idle,
               mpmc_set_slot tail (slot_StoreGeneration (generation + 1) (mpmc_slot q tail)) q))"
| "mpmc_Emplace_step pc q = None"

text \<open>
  \<open>TryEmplace\<close> up to its successful compare-exchange, after which it continues as \<open>Emplace\<close>
  does. \<open>weak\<close> makes the weak compare-exchange fail spuriously; a failed one leaves the
  counter's current value in \<open>tail\<close>.
\<close>

fun mpmc_TryEmplace_step :: "bool \<Rightarrow> 'a mpmc_pc \<Rightarrow> 'a mpmc \<Rightarrow>
    ('a mpmc_event list \<times> 'a mpmc_pc \<times> 'a mpmc) option" where
  "mpmc_TryEmplace_step weak (TE_LoadTail x) q = Some ([], TE_LoadGen (mpmc_tail q) x, q)"
| "mpmc_TryEmplace_step weak (TE_LoadGen tail x) q =
     (let generation = 2 * mpmc_GetGeneration q tail
      in Some ([], if generation = slot_LoadGeneration (mpmc_slot q tail) then TE_Cas tail x
                   else TE_Reload tail x, q))"
| "mpmc_TryEmplace_step weak (TE_Cas tail x) q =
     (if mpmc_tail q = tail \<and> \<not> weak then Some ([], E_Construct tail x, q\<lparr>mpmc_tail := tail + 1\<rparr>)
      else Some ([], TE_LoadGen (mpmc_tail q) x, q))"
| "mpmc_TryEmplace_step weak (TE_Reload tail x) q =
     (let new_tail = mpmc_tail q
      in if tail = new_tail then Some ([TryEmplace_false], M_Idle, q)
         else Some ([], TE_LoadGen new_tail x, q))"
| "mpmc_TryEmplace_step weak pc q = None"

fun mpmc_Dequeue_step :: "'a mpmc_pc \<Rightarrow> 'a mpmc \<Rightarrow> ('a mpmc_event list \<times> 'a mpmc_pc \<times> 'a mpmc) option" where
  "mpmc_Dequeue_step D_FetchAdd q =
     (let head = mpmc_head q in Some ([], D_Spin head, q\<lparr>mpmc_head := head + 1\<rparr>))"
| "mpmc_Dequeue_step (D_Spin head) q =
     (let generation = 2 * mpmc_GetGeneration q head + 1
      in Some ([], if generation \<noteq> slot_LoadGeneration (mpmc_slot q head) then D_Spin head
                   else D_Move head, q))"
| "mpmc_Dequeue_step (D_Move head) q =
     (case slot_Move (mpmc_slot q head) of
        None \<Rightarrow> Some ([Fault], M_Idle, q)
      | Some (element, s) \<Rightarrow>
          Some ([Dequeued head element], D_Destroy head element, mpmc_set_slot head s q))"
| "mpmc_Dequeue_step (D_Destroy head element) q =
     (case slot_Destroy (mpmc_slot q head) of
        None \<Rightarrow> Some ([Fault], M_Idle, q)
      | Some s \<Rightarrow> Some ([], D_StoreGen head element, mpmc_set_slot head s q))"
| "mpmc_Dequeue_step (D_StoreGen head element) q =
     (let generation = 2 * mpmc_GetGeneration q head + 1
      in Some ([], M_Idle,
               mpmc_set_slot head (slot_StoreGeneration (generation + 1) (mpmc_slot q head)) q))"
| "mpmc_Dequeue_step pc q = None"

fun mpmc_TryDequeue_step :: "bool \<Rightarrow> 'a mpmc_pc \<Rightarrow> 'a mpmc \<Rightarrow>
    ('a mpmc_event list \<times> 'a mpmc_pc \<times> 'a mpmc) option" where
  "mpmc_TryDequeue_step weak TD_LoadHead q = Some ([], TD_LoadGen (mpmc_head q), q)"
| "mpmc_TryDequeue_step weak (TD_LoadGen head) q =
     (let generation = 2 * mpmc_GetGeneration q head + 1
      in Some ([], if generation = slot_LoadGeneration (mpmc_slot q head) then TD_Cas head
                   else TD_Reload head, q))"
| "mpmc_TryDequeue_step weak (TD_Cas head) q =
     (if mpmc_head q = head \<and> \<not> weak then Some ([], D_Move head, q\<lparr>mpmc_head := head + 1\<rparr>)
      else Some ([], TD_LoadGen (mpmc_head q), q))"
| "mpmc_TryDequeue_step weak (TD_Reload head) q =
     (let new_head = mpmc_head q
      in if new_head = head then Some ([TryDequeue_false], M_Idle, q)
         else Some ([], TD_LoadGen new_head, q))"
| "mpmc_TryDequeue_step weak pc q = None"

text \<open>One step of a thread, whichever operation it is in.\<close>

fun mpmc_thread_step :: "bool \<Rightarrow> 'a mpmc_pc \<Rightarrow> 'a mpmc \<Rightarrow>
    ('a mpmc_event list \<times> 'a mpmc_pc \<times> 'a mpmc) option" where
  "mpmc_thread_step weak pc q =
     (case mpmc_Emplace_step pc q of Some r \<Rightarrow> Some r | None \<Rightarrow>
      (case mpmc_TryEmplace_step weak pc q of Some r \<Rightarrow> Some r | None \<Rightarrow>
       (case mpmc_Dequeue_step pc q of Some r \<Rightarrow> Some r | None \<Rightarrow> mpmc_TryDequeue_step weak pc q)))"

section \<open>Any number of threads\<close>

text \<open>
  The system counts the tickets drawn so far without wrap-around; the code does not have
  these two counters, they only let the statements say how long a run is.
\<close>

record 'a mpmc_sys =
  msys_queue :: "'a mpmc"
  msys_pc :: "nat \<Rightarrow> 'a mpmc_pc"
  msys_tails :: nat
  msys_heads :: nat

datatype 'a mpmc_choice = MCall nat "'a mpmc_request" | MStep nat bool

fun mpmc_step :: "'a mpmc_choice \<Rightarrow> 'a mpmc_sys \<Rightarrow> ('a mpmc_event list \<times> 'a mpmc_sys) option" where
  "mpmc_step (MCall i r) s =
     (if msys_pc s i = M_Idle then Some ([], s\<lparr>msys_pc := (msys_pc s)(i := mpmc_entry r)\<rparr>) else None)"
| "mpmc_step (MStep i weak) s =
     (case mpmc_thread_step weak (msys_pc s i) (msys_queue s) of
        None \<Rightarrow> None
      | Some (es, pc, q) \<Rightarrow> Some (es,
          s\<lparr>msys_queue := q, msys_pc := (msys_pc s)(i := pc),
            msys_tails := msys_tails s + (if mpmc_tail q = mpmc_tail (msys_queue s) then 0 else 1),
            msys_heads := msys_heads s + (if mpmc_head q = mpmc_head (msys_queue s) then 0 else 1)\<rparr>))"

definition mpmc_init :: "'a mpmc_sys \<Rightarrow> bool" where
  "mpmc_init s \<longleftrightarrow> (\<exists>Capacity. mpmc_new Capacity = Inr (msys_queue s)) \<and>
     (\<forall>i. msys_pc s i = M_Idle) \<and> msys_tails s = 0 \<and> msys_heads s = 0"

end
