(* ===== verification/MPMC_Lap.thy ===== *)
theory MPMC_Lap
  imports MPMC_Queue
begin

text \<open>
  Correctness of \<open>BoundedMPMCQueue\<close> for its first pass over the buffer, and the end of that
  pass: the generation that \<open>GetGeneration\<close> computes for a ticket is the ticket with its index
  bits cleared, not the number of the pass, so a slot that was filled and emptied once
  never matches a later ticket.
\<close>

section \<open>Generations of tickets\<close>

lemma unat_and_not_pow2_mask:
  assumes "k < 64"
  shows "unat ((w::size_t) AND NOT (2 ^ k - 1)) = unat w div 2 ^ k * 2 ^ k"
proof -
  have "w AND NOT (2 ^ k - 1) = push_bit k (drop_bit k w)"
    by (intro bit_word_eqI)
      (auto simp: bit_and_iff bit_not_iff bit_push_bit_iff bit_drop_bit_eq bit_mask_iff
        simp flip: mask_eq_exp_minus_1)
  then have "unat (w AND NOT (2 ^ k - 1)) = take_bit 64 (push_bit k (drop_bit k (unat w)))"
    using take_bit_nat_eq_self [OF unat_lt64 [of w]]
    by (simp add: unsigned_push_bit_eq unsigned_drop_bit_eq)
  also have "\<dots> = (unat w div 2 ^ k * 2 ^ k) mod 2 ^ 64"
    by (simp only: push_bit_eq_mult drop_bit_eq_div take_bit_eq_mod)
  also have "\<dots> = unat w div 2 ^ k * 2 ^ k"
    by (intro mod_less le_less_trans [OF div_times_less_eq_dividend unat_lt64])
  finally show ?thesis .
qed

lemma double_generation:
  assumes "pow2_size (mpmc_size q)" "unat t < 2 ^ 31"
  shows "unat (2 * mpmc_GetGeneration q t) = 2 * (unat t div unat (mpmc_size q) * unat (mpmc_size q))"
proof -
  let ?n = "unat (mpmc_size q)"
  from assms(1) obtain k where k: "k < 64" "mpmc_size q = 2 ^ k" "?n = 2 ^ k" by (rule pow2_sizeE)
  have g: "unat (t AND mpmc_GetGenerationMask q) = unat t div ?n * ?n"
    using unat_and_not_pow2_mask [OF k(1), of t] k
    by (simp add: mpmc_GetGenerationMask_def mpmc_GetIndexMask_def)
  have lt: "unat t div ?n * ?n < 2 ^ 31"
    by (intro le_less_trans [OF div_times_less_eq_dividend assms(2)])
  then have u: "unat (mpmc_GetGeneration q t) = unat t div ?n * ?n"
    by (simp add: mpmc_GetGeneration_def unsigned_ucast_eq take_bit_eq_mod g)
  define m where "m = unat t div ?n * ?n"
  have "unat (mpmc_GetGeneration q t) = m" "m < 2 ^ 31" using u lt by (simp_all add: m_def)
  then have "unat (2 * mpmc_GetGeneration q t) = 2 * m" by (simp add: unat_word_ariths)
  then show ?thesis by (simp add: m_def)
qed

lemma unat_GetIndex:
  "pow2_size (mpmc_size q) \<Longrightarrow> unat (mpmc_GetIndex q t) = unat t mod unat (mpmc_size q)"
  by (simp add: mpmc_GetIndex_def mpmc_GetIndexMask_def unat_and_ring_mask)

lemma ticket_generation:
  assumes "pow2_size (mpmc_size q)" "8 \<le> unat (mpmc_size q)" "unat t < 2 ^ 31"
  shows "unat t < unat (mpmc_size q) \<Longrightarrow> 2 * mpmc_GetGeneration q t = 0"
    "\<not> unat t < unat (mpmc_size q) \<Longrightarrow> 16 \<le> unat (2 * mpmc_GetGeneration q t)
       \<and> 16 \<le> unat (2 * mpmc_GetGeneration q t + 1)"
proof -
  let ?n = "unat (mpmc_size q)"
  have g: "unat (2 * mpmc_GetGeneration q t) = 2 * (unat t div ?n * ?n)"
    by (rule double_generation [OF assms(1,3)])
  { assume "unat t < ?n"
    then have "unat (2 * mpmc_GetGeneration q t) = 0" using g by simp
    then show "2 * mpmc_GetGeneration q t = 0" by (simp only: unat_eq_0) }
  { assume "\<not> unat t < ?n"
    then have "1 \<le> unat t div ?n" using assms(2) by (simp add: Suc_le_eq div_greater_zero_iff)
    then have ge: "?n \<le> unat t div ?n * ?n" by simp
    define m where "m = unat t div ?n * ?n"
    have "m \<le> unat t" unfolding m_def by (rule div_times_less_eq_dividend)
    then have "m < 2 ^ 31" using assms(3) by (rule le_less_trans)
    moreover have "?n \<le> m" "unat (2 * mpmc_GetGeneration q t) = 2 * m"
      using ge g by (simp_all only: m_def)
    ultimately have m: "m < 2 ^ 31" "?n \<le> m" "unat (2 * mpmc_GetGeneration q t) = 2 * m"
      by simp_all
    then have "unat (2 * mpmc_GetGeneration q t + 1) = 2 * m + 1"
      by (subst unat_word_ariths) (simp add: m)
    then show "16 \<le> unat (2 * mpmc_GetGeneration q t) \<and> 16 \<le> unat (2 * mpmc_GetGeneration q t + 1)"
      using m assms(2) by simp }
qed

section \<open>The life of a slot\<close>

text \<open>
  Free, constructed, published, moved from, destroyed, released: the phases 0 to 5 of a slot
  in its first pass. Phase 6 stands for every other combination of generation and storage.
\<close>

definition slot_phase :: "'a slot \<Rightarrow> nat" where
  "slot_phase s =
     (if slot_generation s = 0 then (case slot_data s of Raw \<Rightarrow> 0 | Live _ \<Rightarrow> 1 | Moved \<Rightarrow> 6)
      else if slot_generation s = 1 then (case slot_data s of Live _ \<Rightarrow> 2 | Moved \<Rightarrow> 3 | Raw \<Rightarrow> 4)
      else if slot_generation s = 2 then (case slot_data s of Raw \<Rightarrow> 5 | _ \<Rightarrow> 6)
      else 6)"

definition slot_phases :: "'a mpmc \<Rightarrow> nat \<Rightarrow> nat" where
  "slot_phases q k = slot_phase (mpmc_buffer q ! k)"

lemma slot_phase_simps:
  "slot_phase s = 0 \<longleftrightarrow> slot_generation s = 0 \<and> slot_data s = Raw"
  "slot_phase s = Suc 0 \<longleftrightarrow> slot_generation s = 0 \<and> (\<exists>x. slot_data s = Live x)"
  "slot_phase s = 2 \<longleftrightarrow> slot_generation s = 1 \<and> (\<exists>x. slot_data s = Live x)"
  "slot_phase s = 3 \<longleftrightarrow> slot_generation s = 1 \<and> slot_data s = Moved"
  "slot_phase s = 4 \<longleftrightarrow> slot_generation s = 1 \<and> slot_data s = Raw"
  "slot_phase s = 5 \<longleftrightarrow> slot_generation s = 2 \<and> slot_data s = Raw"
  by (auto simp: slot_phase_def split: storage.splits)

lemma slot_phase_generation:
  assumes "slot_phase s \<le> 5"
  shows "slot_generation s = 0 \<longleftrightarrow> slot_phase s \<le> 1"
    "slot_generation s = 1 \<longleftrightarrow> 2 \<le> slot_phase s \<and> slot_phase s \<le> 4"
    "unat (slot_generation s) \<le> 2"
  using assms by (auto simp: slot_phase_def split: if_splits storage.splits)

lemma slot_phase_steps:
  "slot_phase s = 0 \<Longrightarrow> slot_phase (slot_Construct x s) = 1"
  "slot_phase s = 1 \<Longrightarrow> slot_phase (slot_StoreGeneration 1 s) = 2"
  "slot_phase s = 2 \<Longrightarrow> slot_phase (s\<lparr>slot_data := Moved\<rparr>) = 3"
  "slot_phase s = 3 \<Longrightarrow> slot_phase (s\<lparr>slot_data := Raw\<rparr>) = 4"
  "slot_phase s = 4 \<Longrightarrow> slot_phase (slot_StoreGeneration 2 s) = 5"
  by (auto simp: slot_phase_def slot_Construct_def slot_StoreGeneration_def
      split: if_splits storage.splits)

text \<open>Which slots a ticket's generation test accepts.\<close>

lemma generation_test:
  assumes "pow2_size (mpmc_size q)" "8 \<le> unat (mpmc_size q)" "unat t < 2 ^ 31"
    "slot_phase (mpmc_slot q t) \<le> 5"
  shows "2 * mpmc_GetGeneration q t = slot_LoadGeneration (mpmc_slot q t) \<longleftrightarrow>
      unat t < unat (mpmc_size q) \<and> slot_phase (mpmc_slot q t) \<le> 1"
    "2 * mpmc_GetGeneration q t + 1 = slot_LoadGeneration (mpmc_slot q t) \<longleftrightarrow>
      unat t < unat (mpmc_size q) \<and> 2 \<le> slot_phase (mpmc_slot q t) \<and> slot_phase (mpmc_slot q t) \<le> 4"
proof -
  let ?g = "slot_generation (mpmc_slot q t)"
  note ph = slot_phase_generation [OF assms(4)]
  have far: "\<not> unat t < unat (mpmc_size q) \<Longrightarrow> 2 * mpmc_GetGeneration q t \<noteq> ?g \<and>
      2 * mpmc_GetGeneration q t + 1 \<noteq> ?g"
    using ticket_generation(2) [OF assms(1-3)] ph(3) by auto
  have near: "unat t < unat (mpmc_size q) \<Longrightarrow> 2 * mpmc_GetGeneration q t = 0"
    by (rule ticket_generation(1) [OF assms(1-3)])
  show "2 * mpmc_GetGeneration q t = slot_LoadGeneration (mpmc_slot q t) \<longleftrightarrow>
      unat t < unat (mpmc_size q) \<and> slot_phase (mpmc_slot q t) \<le> 1"
  proof (cases "unat t < unat (mpmc_size q)")
    case True
    then show ?thesis using near ph(1) eq_commute [of 0 ?g] by (simp only: slot_LoadGeneration_def) simp
  next
    case False
    then show ?thesis using far by (simp add: slot_LoadGeneration_def)
  qed
  show "2 * mpmc_GetGeneration q t + 1 = slot_LoadGeneration (mpmc_slot q t) \<longleftrightarrow>
      unat t < unat (mpmc_size q) \<and> 2 \<le> slot_phase (mpmc_slot q t) \<and> slot_phase (mpmc_slot q t) \<le> 4"
  proof (cases "unat t < unat (mpmc_size q)")
    case True
    then show ?thesis using near ph(2) eq_commute [of 1 ?g] by (simp only: slot_LoadGeneration_def) simp
  next
    case False
    then show ?thesis using far by (simp add: slot_LoadGeneration_def)
  qed
qed

section \<open>The invariant\<close>

text \<open>The tickets a thread has drawn and not finished, and the slot it is in the middle of changing.\<close>

fun enq_ticket :: "'a mpmc_pc \<Rightarrow> size_t option" where
  "enq_ticket (E_Spin t x) = Some t"
| "enq_ticket (E_Construct t x) = Some t"
| "enq_ticket (E_StoreGen t x) = Some t"
| "enq_ticket pc = None"

fun deq_ticket :: "'a mpmc_pc \<Rightarrow> size_t option" where
  "deq_ticket (D_Spin h) = Some h"
| "deq_ticket (D_Move h) = Some h"
| "deq_ticket (D_Destroy h x) = Some h"
| "deq_ticket (D_StoreGen h x) = Some h"
| "deq_ticket pc = None"

fun busy_slot :: "'a mpmc_pc \<Rightarrow> nat option" where
  "busy_slot (E_StoreGen t x) = Some (unat t)"
| "busy_slot (D_Destroy h x) = Some (unat h)"
| "busy_slot (D_StoreGen h x) = Some (unat h)"
| "busy_slot pc = None"

text \<open>
  What a thread knows at each program point, given the numbers \<open>nt\<close> and \<open>nh\<close> of tickets drawn.
\<close>

fun mpmc_pc_ok :: "'a mpmc \<Rightarrow> nat \<Rightarrow> nat \<Rightarrow> 'a mpmc_pc \<Rightarrow> bool" where
  "mpmc_pc_ok q nt nh (E_Spin t x) \<longleftrightarrow>
     unat t < nt \<and> (unat t < unat (mpmc_size q) \<longrightarrow> slot_phases q (unat t) = 0)"
| "mpmc_pc_ok q nt nh (TE_LoadGen t x) \<longleftrightarrow> unat t \<le> nt"
| "mpmc_pc_ok q nt nh (TE_Reload t x) \<longleftrightarrow> unat t \<le> nt"
| "mpmc_pc_ok q nt nh (TE_Cas t x) \<longleftrightarrow> unat t \<le> nt \<and> unat t < unat (mpmc_size q)"
| "mpmc_pc_ok q nt nh (E_Construct t x) \<longleftrightarrow>
     unat t < nt \<and> unat t < unat (mpmc_size q) \<and> slot_phases q (unat t) = 0"
| "mpmc_pc_ok q nt nh (E_StoreGen t x) \<longleftrightarrow>
     unat t < nt \<and> unat t < unat (mpmc_size q) \<and> slot_phases q (unat t) = 1 \<and>
     slot_data (mpmc_buffer q ! unat t) = Live x"
| "mpmc_pc_ok q nt nh (D_Spin h) \<longleftrightarrow>
     unat h < nh \<and> (unat h < unat (mpmc_size q) \<longrightarrow> slot_phases q (unat h) \<le> 2)"
| "mpmc_pc_ok q nt nh (TD_LoadGen h) \<longleftrightarrow> unat h \<le> nh"
| "mpmc_pc_ok q nt nh (TD_Reload h) \<longleftrightarrow> unat h \<le> nh"
| "mpmc_pc_ok q nt nh (TD_Cas h) \<longleftrightarrow>
     unat h \<le> nh \<and> unat h < unat (mpmc_size q) \<and> 2 \<le> slot_phases q (unat h)"
| "mpmc_pc_ok q nt nh (D_Move h) \<longleftrightarrow>
     unat h < nh \<and> unat h < unat (mpmc_size q) \<and> slot_phases q (unat h) = 2"
| "mpmc_pc_ok q nt nh (D_Destroy h x) \<longleftrightarrow>
     unat h < nh \<and> unat h < unat (mpmc_size q) \<and> slot_phases q (unat h) = 3"
| "mpmc_pc_ok q nt nh (D_StoreGen h x) \<longleftrightarrow>
     unat h < nh \<and> unat h < unat (mpmc_size q) \<and> slot_phases q (unat h) = 4"
| "mpmc_pc_ok q nt nh pc \<longleftrightarrow> True"

definition mpmc_queue_ok :: "'a mpmc \<Rightarrow> nat \<Rightarrow> nat \<Rightarrow> bool" where
  "mpmc_queue_ok q nt nh \<longleftrightarrow>
     pow2_size (mpmc_size q) \<and> 8 \<le> unat (mpmc_size q) \<and> unat (mpmc_size q) \<le> 2 ^ 30 \<and>
     length (mpmc_buffer q) = unat (mpmc_size q) \<and>
     nt < 2 ^ 31 \<and> nh < 2 ^ 31 \<and> unat (mpmc_tail q) = nt \<and> unat (mpmc_head q) = nh \<and>
     (\<forall>k < unat (mpmc_size q). slot_phases q k \<le> 5 \<and>
        (nt \<le> k \<longrightarrow> slot_phases q k = 0) \<and> (nh \<le> k \<longrightarrow> slot_phases q k \<le> 2))"

definition tickets_distinct :: "('a mpmc_pc \<Rightarrow> size_t option) \<Rightarrow> (nat \<Rightarrow> 'a mpmc_pc) \<Rightarrow> bool" where
  "tickets_distinct ticket pcs \<longleftrightarrow>
     (\<forall>i j. i \<noteq> j \<longrightarrow> ticket (pcs i) = None \<or> ticket (pcs i) \<noteq> ticket (pcs j))"

definition slots_owned :: "'a mpmc \<Rightarrow> (nat \<Rightarrow> 'a mpmc_pc) \<Rightarrow> bool" where
  "slots_owned q pcs \<longleftrightarrow>
     (\<forall>k < unat (mpmc_size q). slot_phases q k \<in> {1, 3, 4} \<longrightarrow> (\<exists>i. busy_slot (pcs i) = Some k))"

definition mpmc_inv :: "'a mpmc_sys \<Rightarrow> bool" where
  "mpmc_inv s \<longleftrightarrow>
     mpmc_queue_ok (msys_queue s) (msys_tails s) (msys_heads s) \<and>
     (\<forall>i. mpmc_pc_ok (msys_queue s) (msys_tails s) (msys_heads s) (msys_pc s i)) \<and>
     tickets_distinct enq_ticket (msys_pc s) \<and> tickets_distinct deq_ticket (msys_pc s) \<and>
     slots_owned (msys_queue s) (msys_pc s)"

lemma mpmc_new_Inr:
  assumes "mpmc_new Capacity = Inr q"
  shows "pow2_size (mpmc_size q)" "8 \<le> unat (mpmc_size q)" "unat (mpmc_size q) \<le> 2 ^ 30"
    "mpmc_buffer q = replicate (unat (mpmc_size q)) slot_new" "mpmc_head q = 0" "mpmc_tail q = 0"
proof -
  obtain N where N: "mpmc_GetBufferSize Capacity = Inr N"
    using assms by (cases "mpmc_GetBufferSize Capacity") (auto simp: mpmc_new_def)
  then have q: "q = \<lparr>mpmc_size = N, mpmc_buffer = replicate (unat N) slot_new,
          mpmc_head = 0, mpmc_tail = 0\<rparr>"
    using assms by (simp add: mpmc_new_def)
  show "pow2_size (mpmc_size q)" "8 \<le> unat (mpmc_size q)" "unat (mpmc_size q) \<le> 2 ^ 30"
    "mpmc_buffer q = replicate (unat (mpmc_size q)) slot_new" "mpmc_head q = 0" "mpmc_tail q = 0"
    using GetBufferSize_Inr [OF N [unfolded GetBufferSize_copies]] by (simp_all add: q)
qed

lemma mpmc_inv_init:
  assumes "mpmc_init s"
  shows "mpmc_inv s"
proof -
  from assms obtain Capacity where q: "mpmc_new Capacity = Inr (msys_queue s)"
    by (auto simp: mpmc_init_def)
  show ?thesis
    using assms mpmc_new_Inr [OF q]
    by (auto simp: mpmc_inv_def mpmc_queue_ok_def mpmc_init_def tickets_distinct_def
        slots_owned_def slot_phases_def slot_phase_def slot_new_def)
qed

section \<open>The four kinds of steps\<close>

lemma tickets_distinct_upd:
  assumes "tickets_distinct ticket pcs"
    "ticket pc = None \<or> ticket pc = ticket (pcs i) \<or> (\<forall>j. ticket (pcs j) \<noteq> ticket pc)"
  shows "tickets_distinct ticket (pcs(i := pc))"
  unfolding tickets_distinct_def
proof (intro allI impI)
  fix j k :: nat
  assume "j \<noteq> k"
  moreover have "ticket (pcs j) = None \<or> ticket (pcs j) \<noteq> ticket (pcs k)" if "j \<noteq> k" for j k
    using assms(1) that by (simp add: tickets_distinct_def)
  ultimately show "ticket ((pcs(i := pc)) j) = None \<or> ticket ((pcs(i := pc)) j) \<noteq> ticket ((pcs(i := pc)) k)"
    using assms(2) by (cases "j = i"; cases "k = i") fastforce+
qed

lemma slots_owned_upd:
  assumes "slots_owned q pcs" "busy_slot (pcs i) = None"
    "mpmc_size q' = mpmc_size q" "mpmc_buffer q' = mpmc_buffer q"
  shows "slots_owned q' (pcs(i := pc))"
  unfolding slots_owned_def
proof (intro allI impI)
  fix k
  assume "k < unat (mpmc_size q')" "slot_phases q' k \<in> {1, 3, 4}"
  then obtain j where "busy_slot (pcs j) = Some k"
    using assms(1,3,4) by (auto simp: slots_owned_def slot_phases_def)
  with assms(2) have "busy_slot ((pcs(i := pc)) j) = Some k" by auto
  then show "\<exists>j. busy_slot ((pcs(i := pc)) j) = Some k" ..
qed

text \<open>A step that changes only the thread's program counter.\<close>

lemma mpmc_inv_local:
  assumes "mpmc_inv s" "pc = msys_pc s i"
    "mpmc_pc_ok (msys_queue s) (msys_tails s) (msys_heads s) pc'"
    "enq_ticket pc' = None \<or> enq_ticket pc' = enq_ticket pc"
    "deq_ticket pc' = None \<or> deq_ticket pc' = deq_ticket pc"
    "busy_slot pc = None"
  shows "mpmc_inv (s\<lparr>msys_pc := (msys_pc s)(i := pc')\<rparr>)"
  using assms tickets_distinct_upd [of enq_ticket "msys_pc s" pc' i]
    tickets_distinct_upd [of deq_ticket "msys_pc s" pc' i]
    slots_owned_upd [of "msys_queue s" "msys_pc s" i "msys_queue s" pc']
  by (auto simp: mpmc_inv_def)

lemma mpmc_pc_ok_tickets:
  "mpmc_pc_ok q nt nh pc \<Longrightarrow> enq_ticket pc = Some t \<Longrightarrow> unat t < nt"
  "mpmc_pc_ok q nt nh pc \<Longrightarrow> deq_ticket pc = Some h \<Longrightarrow> unat h < nh"
  by (cases pc; auto)+

lemma mpmc_pc_ok_mono:
  assumes "mpmc_pc_ok q nt nh pc" "nt \<le> nt'" "nh \<le> nh'"
    "mpmc_size q' = mpmc_size q" "mpmc_buffer q' = mpmc_buffer q"
  shows "mpmc_pc_ok q' nt' nh' pc"
  using assms by (cases pc) (auto simp: slot_phases_def)

text \<open>A step that draws a ticket for an element, and one that draws a ticket to dequeue.\<close>

lemma mpmc_inv_tail:
  assumes inv: "mpmc_inv s" and pc: "pc = msys_pc s i" "enq_ticket pc = None" "deq_ticket pc = None"
    "busy_slot pc = None"
    and new: "enq_ticket pc' = Some (mpmc_tail (msys_queue s))" "deq_ticket pc' = None"
    and q': "q' = (msys_queue s)\<lparr>mpmc_tail := mpmc_tail (msys_queue s) + 1\<rparr>"
    and ok: "mpmc_pc_ok q' (Suc (msys_tails s)) (msys_heads s) pc'"
    and bound: "Suc (msys_tails s) < 2 ^ 31"
  shows "mpmc_inv (s\<lparr>msys_queue := q', msys_pc := (msys_pc s)(i := pc'),
    msys_tails := Suc (msys_tails s)\<rparr>)"
proof -
  let ?q = "msys_queue s"
  have qok: "mpmc_queue_ok ?q (msys_tails s) (msys_heads s)"
    and pcs: "\<And>j. mpmc_pc_ok ?q (msys_tails s) (msys_heads s) (msys_pc s j)"
    and dist: "tickets_distinct enq_ticket (msys_pc s)" "tickets_distinct deq_ticket (msys_pc s)"
    and own: "slots_owned ?q (msys_pc s)"
    using inv by (auto simp: mpmc_inv_def)
  have tail: "unat (mpmc_tail ?q + 1) = Suc (msys_tails s)"
    using qok bound by (simp add: mpmc_queue_ok_def unat_word_ariths)
  have fresh: "enq_ticket (msys_pc s j) \<noteq> Some (mpmc_tail ?q)" for j
    using mpmc_pc_ok_tickets(1) [OF pcs [of j]] qok by (auto simp: mpmc_queue_ok_def)
  have "mpmc_queue_ok q' (Suc (msys_tails s)) (msys_heads s)"
    using qok tail bound by (simp add: mpmc_queue_ok_def q' slot_phases_def)
  moreover have "mpmc_pc_ok q' (Suc (msys_tails s)) (msys_heads s) (((msys_pc s)(i := pc')) j)" for j
    using ok mpmc_pc_ok_mono [OF pcs [of j], of "Suc (msys_tails s)" "msys_heads s" q']
    by (simp add: q')
  moreover have "tickets_distinct enq_ticket ((msys_pc s)(i := pc'))"
    "tickets_distinct deq_ticket ((msys_pc s)(i := pc'))"
    using dist new fresh by (auto intro!: tickets_distinct_upd)
  moreover have "slots_owned q' ((msys_pc s)(i := pc'))"
    using own pc q' by (auto intro!: slots_owned_upd)
  ultimately show ?thesis by (simp add: mpmc_inv_def)
qed

lemma mpmc_inv_head:
  assumes inv: "mpmc_inv s" and pc: "pc = msys_pc s i" "enq_ticket pc = None" "deq_ticket pc = None"
    "busy_slot pc = None"
    and new: "deq_ticket pc' = Some (mpmc_head (msys_queue s))" "enq_ticket pc' = None"
    and q': "q' = (msys_queue s)\<lparr>mpmc_head := mpmc_head (msys_queue s) + 1\<rparr>"
    and ok: "mpmc_pc_ok q' (msys_tails s) (Suc (msys_heads s)) pc'"
    and bound: "Suc (msys_heads s) < 2 ^ 31"
  shows "mpmc_inv (s\<lparr>msys_queue := q', msys_pc := (msys_pc s)(i := pc'),
    msys_heads := Suc (msys_heads s)\<rparr>)"
proof -
  let ?q = "msys_queue s"
  have qok: "mpmc_queue_ok ?q (msys_tails s) (msys_heads s)"
    and pcs: "\<And>j. mpmc_pc_ok ?q (msys_tails s) (msys_heads s) (msys_pc s j)"
    and dist: "tickets_distinct enq_ticket (msys_pc s)" "tickets_distinct deq_ticket (msys_pc s)"
    and own: "slots_owned ?q (msys_pc s)"
    using inv by (auto simp: mpmc_inv_def)
  have head: "unat (mpmc_head ?q + 1) = Suc (msys_heads s)"
    using qok bound by (simp add: mpmc_queue_ok_def unat_word_ariths)
  have fresh: "deq_ticket (msys_pc s j) \<noteq> Some (mpmc_head ?q)" for j
    using mpmc_pc_ok_tickets(2) [OF pcs [of j]] qok by (auto simp: mpmc_queue_ok_def)
  have "mpmc_queue_ok q' (msys_tails s) (Suc (msys_heads s))"
    using qok head bound by (simp add: mpmc_queue_ok_def q' slot_phases_def)
  moreover have "mpmc_pc_ok q' (msys_tails s) (Suc (msys_heads s)) (((msys_pc s)(i := pc')) j)" for j
    using ok mpmc_pc_ok_mono [OF pcs [of j], of "msys_tails s" "Suc (msys_heads s)" q']
    by (simp add: q')
  moreover have "tickets_distinct enq_ticket ((msys_pc s)(i := pc'))"
    "tickets_distinct deq_ticket ((msys_pc s)(i := pc'))"
    using dist new fresh by (auto intro!: tickets_distinct_upd)
  moreover have "slots_owned q' ((msys_pc s)(i := pc'))"
    using own pc q' by (auto intro!: slots_owned_upd)
  ultimately show ?thesis by (simp add: mpmc_inv_def)
qed

text \<open>A step that advances the phase of the slot of the thread's own ticket.\<close>

lemma unat_GetIndex_near:
  "pow2_size (mpmc_size q) \<Longrightarrow> unat t < unat (mpmc_size q) \<Longrightarrow> unat (mpmc_GetIndex q t) = unat t"
  by (simp add: unat_GetIndex)

lemma slot_phases_set_slot:
  assumes "pow2_size (mpmc_size q)" "unat t < unat (mpmc_size q)" "length (mpmc_buffer q) = unat (mpmc_size q)"
  shows "slot_phases (mpmc_set_slot t sl q) k = (if k = unat t then slot_phase sl else slot_phases q k)"
  using assms by (auto simp: slot_phases_def mpmc_set_slot_def unat_GetIndex_near nth_list_update)

lemma mpmc_set_slot_nth:
  assumes "pow2_size (mpmc_size q)" "unat t < unat (mpmc_size q)" "length (mpmc_buffer q) = unat (mpmc_size q)"
  shows "mpmc_buffer (mpmc_set_slot t sl q) ! unat t = sl"
  using assms by (simp add: mpmc_set_slot_def unat_GetIndex_near)

lemma mpmc_set_slot_simps [simp]:
  "mpmc_size (mpmc_set_slot t sl q) = mpmc_size q" "mpmc_tail (mpmc_set_slot t sl q) = mpmc_tail q"
  "mpmc_head (mpmc_set_slot t sl q) = mpmc_head q"
  "length (mpmc_buffer (mpmc_set_slot t sl q)) = length (mpmc_buffer q)"
  by (simp_all add: mpmc_set_slot_def)

text \<open>Other threads are not disturbed: they do not hold the ticket.\<close>

lemma mpmc_pc_ok_set_slot:
  assumes q: "pow2_size (mpmc_size q)" "unat t < unat (mpmc_size q)"
      "length (mpmc_buffer q) = unat (mpmc_size q)"
    and ok: "mpmc_pc_ok q nt nh pc" and ph: "slot_phase sl = Suc (slot_phases q (unat t))"
    and kind: "(enq_ticket pc \<noteq> Some t \<and> slot_phase sl \<le> 2) \<or>
      (deq_ticket pc \<noteq> Some t \<and> 3 \<le> slot_phase sl)"
  shows "mpmc_pc_ok (mpmc_set_slot t sl q) nt nh pc"
proof -
  have data: "mpmc_buffer (mpmc_set_slot t sl q) ! unat u = mpmc_buffer q ! unat u" if "u \<noteq> t" for u
    using that q by (simp add: mpmc_set_slot_def unat_GetIndex_near word_unat_eq_iff)
  note up = slot_phases_set_slot [OF q]
  show ?thesis
  proof (cases pc)
    case (E_StoreGen u x)
    then have "u \<noteq> t" using ok ph kind by auto
    with E_StoreGen ok up data show ?thesis by (simp add: word_unat_eq_iff)
  qed (use ok ph kind up in \<open>auto simp: word_unat_eq_iff split: if_splits\<close>)
qed

lemma mpmc_inv_slot:
  assumes inv: "mpmc_inv s" and pc: "pc = msys_pc s i" and t: "unat t < unat (mpmc_size (msys_queue s))"
    and q': "q' = mpmc_set_slot t sl (msys_queue s)"
    and ph: "slot_phase sl = Suc (slot_phases (msys_queue s) (unat t))"
    and kind: "enq_ticket pc = Some t \<and> deq_ticket pc = None \<and> slot_phase sl \<le> 2 \<or>
      deq_ticket pc = Some t \<and> enq_ticket pc = None \<and> 3 \<le> slot_phase sl \<and> slot_phase sl \<le> 5"
    and pc': "enq_ticket pc' = None \<or> enq_ticket pc' = enq_ticket pc"
      "deq_ticket pc' = None \<or> deq_ticket pc' = deq_ticket pc"
      "busy_slot pc = None \<or> busy_slot pc = Some (unat t)"
      "busy_slot pc' = (if slot_phase sl \<in> {1, 3, 4} then Some (unat t) else None)"
    and ok: "mpmc_pc_ok q' (msys_tails s) (msys_heads s) pc'"
  shows "mpmc_inv (s\<lparr>msys_queue := q', msys_pc := (msys_pc s)(i := pc')\<rparr>)"
proof -
  let ?q = "msys_queue s" and ?pcs = "(msys_pc s)(i := pc')"
  have qok: "mpmc_queue_ok ?q (msys_tails s) (msys_heads s)"
    and pcs: "\<And>j. mpmc_pc_ok ?q (msys_tails s) (msys_heads s) (msys_pc s j)"
    and dist: "tickets_distinct enq_ticket (msys_pc s)" "tickets_distinct deq_ticket (msys_pc s)"
    and own: "slots_owned ?q (msys_pc s)"
    using inv by (auto simp: mpmc_inv_def)
  have q: "pow2_size (mpmc_size ?q)" "length (mpmc_buffer ?q) = unat (mpmc_size ?q)"
    using qok by (auto simp: mpmc_queue_ok_def)
  note up = slot_phases_set_slot [OF q(1) t q(2), of sl, folded q']
  have mine: "enq_ticket pc = Some t \<Longrightarrow> unat t < msys_tails s" "deq_ticket pc = Some t \<Longrightarrow> unat t < msys_heads s"
    using mpmc_pc_ok_tickets [OF pcs [of i]] pc by auto
  have "\<not> msys_tails s \<le> unat t"
    using qok t ph kind mine by (auto simp: mpmc_queue_ok_def)
  moreover have "mpmc_size q' = mpmc_size ?q" "mpmc_tail q' = mpmc_tail ?q" "mpmc_head q' = mpmc_head ?q"
    "length (mpmc_buffer q') = length (mpmc_buffer ?q)"
    by (simp_all add: q')
  ultimately have "mpmc_queue_ok q' (msys_tails s) (msys_heads s)"
    using qok up kind mine by (auto simp: mpmc_queue_ok_def)
  moreover have "mpmc_pc_ok q' (msys_tails s) (msys_heads s) (?pcs j)" for j
  proof (cases "j = i")
    case False
    then have "enq_ticket pc \<noteq> None \<longrightarrow> enq_ticket (msys_pc s j) \<noteq> enq_ticket pc"
      "deq_ticket pc \<noteq> None \<longrightarrow> deq_ticket (msys_pc s j) \<noteq> deq_ticket pc"
      using dist pc unfolding tickets_distinct_def by metis+
    then show ?thesis
      using False mpmc_pc_ok_set_slot [OF q(1) t q(2) pcs [of j] ph] kind q' by auto
  qed (use ok in simp)
  moreover have "tickets_distinct enq_ticket ?pcs" "tickets_distinct deq_ticket ?pcs"
    using dist pc' pc by (auto intro!: tickets_distinct_upd)
  moreover have "slots_owned q' ?pcs"
    unfolding slots_owned_def
  proof (intro allI impI)
    fix k
    assume k: "k < unat (mpmc_size q')" "slot_phases q' k \<in> {1, 3, 4}"
    show "\<exists>j. busy_slot (?pcs j) = Some k"
    proof (cases "k = unat t")
      case True
      then have "busy_slot (?pcs i) = Some k" using k(2) up pc'(4) by auto
      then show ?thesis ..
    next
      case False
      then obtain j where j: "busy_slot (msys_pc s j) = Some k"
        using own k up q' by (auto simp: slots_owned_def)
      then have "j \<noteq> i" using False pc pc'(3) by auto
      with j have "busy_slot (?pcs j) = Some k" by simp
      then show ?thesis ..
    qed
  qed
  ultimately show ?thesis by (simp add: mpmc_inv_def)
qed

section \<open>Preservation\<close>

text \<open>The steps of a system whose counters have drawn fewer than \<open>2 ^ 31\<close> tickets.\<close>

definition mpmc_bounded :: "'a mpmc_sys \<Rightarrow> bool" where
  "mpmc_bounded s \<longleftrightarrow> msys_tails s < 2 ^ 31 \<and> msys_heads s < 2 ^ 31"

abbreviation mpmc_bounded_step :: "'a mpmc_choice \<Rightarrow> 'a mpmc_sys \<Rightarrow> ('a mpmc_event list \<times> 'a mpmc_sys) option" where
  "mpmc_bounded_step \<equiv> within mpmc_bounded mpmc_step"

text \<open>The slot of a ticket that passed the generation test, and the generation stored there.\<close>

lemma mpmc_slot_near:
  assumes "mpmc_queue_ok q nt nh" "unat t < unat (mpmc_size q)"
  shows "mpmc_slot q t = mpmc_buffer q ! unat t" "2 * mpmc_GetGeneration q t = 0"
proof -
  have q: "pow2_size (mpmc_size q)" "8 \<le> unat (mpmc_size q)" "unat t < 2 ^ 31"
    using assms by (auto simp: mpmc_queue_ok_def)
  show "mpmc_slot q t = mpmc_buffer q ! unat t" using unat_GetIndex_near [OF q(1) assms(2)] by simp
  show "2 * mpmc_GetGeneration q t = 0" by (rule ticket_generation(1) [OF q assms(2)])
qed

lemma mpmc_generation_tests:
  assumes q: "mpmc_queue_ok q nt nh" and t: "unat t < 2 ^ 31"
  shows "2 * mpmc_GetGeneration q t = slot_LoadGeneration (mpmc_slot q t) \<longleftrightarrow>
      unat t < unat (mpmc_size q) \<and> slot_phases q (unat t) \<le> 1"
    "2 * mpmc_GetGeneration q t + 1 = slot_LoadGeneration (mpmc_slot q t) \<longleftrightarrow>
      unat t < unat (mpmc_size q) \<and> 2 \<le> slot_phases q (unat t) \<and> slot_phases q (unat t) \<le> 4"
proof -
  have p: "pow2_size (mpmc_size q)" "8 \<le> unat (mpmc_size q)"
    using q by (auto simp: mpmc_queue_ok_def)
  then have "unat (mpmc_GetIndex q t) < unat (mpmc_size q)" by (simp add: unat_GetIndex pow2_size_pos)
  then have ph: "slot_phase (mpmc_slot q t) \<le> 5"
    using q by (simp add: mpmc_queue_ok_def slot_phases_def)
  show "2 * mpmc_GetGeneration q t = slot_LoadGeneration (mpmc_slot q t) \<longleftrightarrow>
      unat t < unat (mpmc_size q) \<and> slot_phases q (unat t) \<le> 1"
    "2 * mpmc_GetGeneration q t + 1 = slot_LoadGeneration (mpmc_slot q t) \<longleftrightarrow>
      unat t < unat (mpmc_size q) \<and> 2 \<le> slot_phases q (unat t) \<and> slot_phases q (unat t) \<le> 4"
    using generation_test [OF p t ph] mpmc_slot_near(1) [OF q, of t]
    by (auto simp: slot_phases_def)
qed

lemma mpmc_counter_changes [simp]:
  "q\<lparr>mpmc_tail := mpmc_tail q + 1\<rparr> \<noteq> q" "q\<lparr>mpmc_head := mpmc_head q + 1\<rparr> \<noteq> q"
  by (auto dest: arg_cong [of _ _ mpmc_tail] arg_cong [of _ _ mpmc_head])

lemma mpmc_inv_Emplace_step:
  assumes inv: "mpmc_inv s" and pc: "pc = msys_pc s i"
    and step: "mpmc_Emplace_step pc (msys_queue s) = Some (e, pc', q')"
    and t: "t = s\<lparr>msys_queue := q', msys_pc := (msys_pc s)(i := pc'),
       msys_tails := msys_tails s + (if mpmc_tail q' = mpmc_tail (msys_queue s) then 0 else 1),
       msys_heads := msys_heads s + (if mpmc_head q' = mpmc_head (msys_queue s) then 0 else 1)\<rparr>"
    and bound: "mpmc_bounded t"
  shows "mpmc_inv t"
proof -
  let ?q = "msys_queue s"
  have qok: "mpmc_queue_ok ?q (msys_tails s) (msys_heads s)"
    and ok: "mpmc_pc_ok ?q (msys_tails s) (msys_heads s) pc"
    using inv pc by (auto simp: mpmc_inv_def)
  from step show ?thesis
  proof (cases pc)
    case (E_FetchAdd x)
    with step have r: "pc' = E_Spin (mpmc_tail ?q) x" "q' = ?q\<lparr>mpmc_tail := mpmc_tail ?q + 1\<rparr>"
      by (simp_all add: Let_def)
    have "mpmc_inv (s\<lparr>msys_queue := q', msys_pc := (msys_pc s)(i := pc'), msys_tails := Suc (msys_tails s)\<rparr>)"
      using bound qok by (intro mpmc_inv_tail [OF inv pc])
        (auto simp: E_FetchAdd r t mpmc_bounded_def mpmc_queue_ok_def slot_phases_def)
    then show ?thesis by (simp add: t r)
  next
    case (E_Spin u x)
    have b: "unat u < 2 ^ 31" using ok qok E_Spin by (simp add: mpmc_queue_ok_def)
    have "mpmc_pc_ok ?q (msys_tails s) (msys_heads s) pc'"
      using step ok mpmc_generation_tests(1) [OF qok b] by (auto simp: E_Spin Let_def split: if_splits)
    then have "mpmc_inv (s\<lparr>msys_pc := (msys_pc s)(i := pc')\<rparr>)"
      using step by (intro mpmc_inv_local [OF inv pc]) (auto simp: E_Spin Let_def split: if_splits)
    moreover have "q' = ?q" using step by (simp add: E_Spin Let_def)
    ultimately show ?thesis by (simp add: t)
  next
    case (E_Construct u x)
    have u: "unat u < unat (mpmc_size ?q)" "slot_phases ?q (unat u) = 0" using ok E_Construct by auto
    have r: "pc' = E_StoreGen u x" "q' = mpmc_set_slot u (slot_Construct x (mpmc_slot ?q u)) ?q"
      using step E_Construct by auto
    have ph: "slot_phase (slot_Construct x (mpmc_slot ?q u)) = Suc (slot_phases ?q (unat u))"
      using u mpmc_slot_near(1) [OF qok u(1)] by (simp add: slot_phases_def slot_phase_steps)
    have "mpmc_inv (s\<lparr>msys_queue := q', msys_pc := (msys_pc s)(i := pc')\<rparr>)"
      using ok ph u qok mpmc_slot_near(1) [OF qok u(1)]
      by (intro mpmc_inv_slot [OF inv pc u(1) r(2) ph])
        (auto simp: E_Construct r slot_phases_set_slot mpmc_queue_ok_def mpmc_set_slot_nth
          slot_Construct_def)
    then show ?thesis by (simp add: t r)
  next
    case (E_StoreGen u x)
    have u: "unat u < unat (mpmc_size ?q)" "slot_phases ?q (unat u) = 1" using ok E_StoreGen by auto
    have r: "pc' = M_Idle" "q' = mpmc_set_slot u (slot_StoreGeneration 1 (mpmc_slot ?q u)) ?q"
      using step E_StoreGen mpmc_slot_near(2) [OF qok u(1)] by (auto simp: Let_def)
    have ph: "slot_phase (slot_StoreGeneration 1 (mpmc_slot ?q u)) = Suc (slot_phases ?q (unat u))"
      using u mpmc_slot_near(1) [OF qok u(1)] by (simp add: slot_phases_def slot_phase_steps)
    have "mpmc_inv (s\<lparr>msys_queue := q', msys_pc := (msys_pc s)(i := pc')\<rparr>)"
      using ok ph u by (intro mpmc_inv_slot [OF inv pc u(1) r(2) ph]) (auto simp: E_StoreGen r)
    then show ?thesis by (simp add: t r)
  qed simp_all
qed

lemma mpmc_inv_TryEmplace_step:
  assumes inv: "mpmc_inv s" and pc: "pc = msys_pc s i"
    and step: "mpmc_TryEmplace_step weak pc (msys_queue s) = Some (e, pc', q')"
    and t: "t = s\<lparr>msys_queue := q', msys_pc := (msys_pc s)(i := pc'),
       msys_tails := msys_tails s + (if mpmc_tail q' = mpmc_tail (msys_queue s) then 0 else 1),
       msys_heads := msys_heads s + (if mpmc_head q' = mpmc_head (msys_queue s) then 0 else 1)\<rparr>"
    and bound: "mpmc_bounded t"
  shows "mpmc_inv t"
proof (cases "q' = msys_queue s")
  case True
  let ?q = "msys_queue s"
  have qok: "mpmc_queue_ok ?q (msys_tails s) (msys_heads s)"
    and ok: "mpmc_pc_ok ?q (msys_tails s) (msys_heads s) pc"
    using inv pc by (auto simp: mpmc_inv_def)
  have b: "\<And>u. unat u \<le> msys_tails s \<Longrightarrow> unat u < 2 ^ 31" using qok by (simp add: mpmc_queue_ok_def)
  have "mpmc_pc_ok ?q (msys_tails s) (msys_heads s) pc'"
    using step ok mpmc_generation_tests(1) [OF qok b] True qok
    by (cases pc) (auto simp: Let_def mpmc_queue_ok_def split: if_splits)
  moreover have "enq_ticket pc' = None" "deq_ticket pc' = None" "busy_slot pc = None"
    using step True by (cases pc; auto simp: Let_def split: if_splits)+
  ultimately have "mpmc_inv (s\<lparr>msys_pc := (msys_pc s)(i := pc')\<rparr>)"
    by (intro mpmc_inv_local [OF inv pc]) auto
  then show ?thesis by (simp add: t True)
next
  case False
  let ?q = "msys_queue s"
  have qok: "mpmc_queue_ok ?q (msys_tails s) (msys_heads s)"
    and ok: "mpmc_pc_ok ?q (msys_tails s) (msys_heads s) pc"
    using inv pc by (auto simp: mpmc_inv_def)
  from step False obtain x where x: "pc = TE_Cas (mpmc_tail ?q) x" "pc' = E_Construct (mpmc_tail ?q) x"
    "q' = ?q\<lparr>mpmc_tail := mpmc_tail ?q + 1\<rparr>"
    by (cases pc) (auto simp: Let_def split: if_splits)
  have "mpmc_inv (s\<lparr>msys_queue := q', msys_pc := (msys_pc s)(i := pc'), msys_tails := Suc (msys_tails s)\<rparr>)"
    using bound qok ok by (intro mpmc_inv_tail [OF inv pc])
      (auto simp: x t mpmc_bounded_def mpmc_queue_ok_def slot_phases_def)
  then show ?thesis by (simp add: t x)
qed

lemma mpmc_inv_Dequeue_step:
  assumes inv: "mpmc_inv s" and pc: "pc = msys_pc s i"
    and step: "mpmc_Dequeue_step pc (msys_queue s) = Some (e, pc', q')"
    and t: "t = s\<lparr>msys_queue := q', msys_pc := (msys_pc s)(i := pc'),
       msys_tails := msys_tails s + (if mpmc_tail q' = mpmc_tail (msys_queue s) then 0 else 1),
       msys_heads := msys_heads s + (if mpmc_head q' = mpmc_head (msys_queue s) then 0 else 1)\<rparr>"
    and bound: "mpmc_bounded t"
  shows "mpmc_inv t"
proof -
  let ?q = "msys_queue s"
  have qok: "mpmc_queue_ok ?q (msys_tails s) (msys_heads s)"
    and ok: "mpmc_pc_ok ?q (msys_tails s) (msys_heads s) pc"
    using inv pc by (auto simp: mpmc_inv_def)
  from step show ?thesis
  proof (cases pc)
    case D_FetchAdd
    with step have r: "pc' = D_Spin (mpmc_head ?q)" "q' = ?q\<lparr>mpmc_head := mpmc_head ?q + 1\<rparr>"
      by (simp_all add: Let_def)
    have "mpmc_inv (s\<lparr>msys_queue := q', msys_pc := (msys_pc s)(i := pc'), msys_heads := Suc (msys_heads s)\<rparr>)"
      using bound qok by (intro mpmc_inv_head [OF inv pc])
        (auto simp: D_FetchAdd r t mpmc_bounded_def mpmc_queue_ok_def slot_phases_def)
    then show ?thesis by (simp add: t r)
  next
    case (D_Spin u)
    have b: "unat u < 2 ^ 31" using ok qok D_Spin by (simp add: mpmc_queue_ok_def)
    have "mpmc_pc_ok ?q (msys_tails s) (msys_heads s) pc'"
      using step ok mpmc_generation_tests(2) [OF qok b] by (auto simp: D_Spin Let_def split: if_splits)
    then have "mpmc_inv (s\<lparr>msys_pc := (msys_pc s)(i := pc')\<rparr>)"
      using step by (intro mpmc_inv_local [OF inv pc]) (auto simp: D_Spin Let_def split: if_splits)
    moreover have "q' = ?q" using step by (simp add: D_Spin Let_def)
    ultimately show ?thesis by (simp add: t)
  next
    case (D_Move u)
    have u: "unat u < unat (mpmc_size ?q)" "slot_phases ?q (unat u) = 2" using ok D_Move by auto
    let ?sl = "(mpmc_slot ?q u)\<lparr>slot_data := Moved\<rparr>"
    obtain x where x: "slot_data (mpmc_slot ?q u) = Live x"
      using u mpmc_slot_near(1) [OF qok u(1)] by (auto simp: slot_phases_def slot_phase_simps)
    then have r: "pc' = D_Destroy u x" "q' = mpmc_set_slot u ?sl ?q"
      using step D_Move by (auto simp: slot_Move_def)
    have ph: "slot_phase ?sl = Suc (slot_phases ?q (unat u))"
      using u mpmc_slot_near(1) [OF qok u(1)] by (simp add: slot_phases_def slot_phase_steps)
    have "mpmc_inv (s\<lparr>msys_queue := q', msys_pc := (msys_pc s)(i := pc')\<rparr>)"
      using ok ph u qok by (intro mpmc_inv_slot [OF inv pc u(1) r(2) ph])
        (auto simp: D_Move r slot_phases_set_slot mpmc_queue_ok_def)
    then show ?thesis by (simp add: t r)
  next
    case (D_Destroy u x)
    have u: "unat u < unat (mpmc_size ?q)" "slot_phases ?q (unat u) = 3" using ok D_Destroy by auto
    let ?sl = "(mpmc_slot ?q u)\<lparr>slot_data := Raw\<rparr>"
    have "slot_data (mpmc_slot ?q u) = Moved"
      using u mpmc_slot_near(1) [OF qok u(1)] by (simp add: slot_phases_def slot_phase_simps)
    then have r: "pc' = D_StoreGen u x" "q' = mpmc_set_slot u ?sl ?q"
      using step D_Destroy by (auto simp: slot_Destroy_def)
    have ph: "slot_phase ?sl = Suc (slot_phases ?q (unat u))"
      using u mpmc_slot_near(1) [OF qok u(1)] by (simp add: slot_phases_def slot_phase_steps)
    have "mpmc_inv (s\<lparr>msys_queue := q', msys_pc := (msys_pc s)(i := pc')\<rparr>)"
      using ok ph u qok by (intro mpmc_inv_slot [OF inv pc u(1) r(2) ph])
        (auto simp: D_Destroy r slot_phases_set_slot mpmc_queue_ok_def)
    then show ?thesis by (simp add: t r)
  next
    case (D_StoreGen u x)
    have u: "unat u < unat (mpmc_size ?q)" "slot_phases ?q (unat u) = 4" using ok D_StoreGen by auto
    have r: "pc' = M_Idle" "q' = mpmc_set_slot u (slot_StoreGeneration 2 (mpmc_slot ?q u)) ?q"
      using step D_StoreGen mpmc_slot_near(2) [OF qok u(1)] by (auto simp: Let_def)
    have ph: "slot_phase (slot_StoreGeneration 2 (mpmc_slot ?q u)) = Suc (slot_phases ?q (unat u))"
      using u mpmc_slot_near(1) [OF qok u(1)] by (simp add: slot_phases_def slot_phase_steps)
    have "mpmc_inv (s\<lparr>msys_queue := q', msys_pc := (msys_pc s)(i := pc')\<rparr>)"
      using ok ph u by (intro mpmc_inv_slot [OF inv pc u(1) r(2) ph]) (auto simp: D_StoreGen r)
    then show ?thesis by (simp add: t r)
  qed simp_all
qed

lemma mpmc_inv_TryDequeue_step:
  assumes inv: "mpmc_inv s" and pc: "pc = msys_pc s i"
    and step: "mpmc_TryDequeue_step weak pc (msys_queue s) = Some (e, pc', q')"
    and t: "t = s\<lparr>msys_queue := q', msys_pc := (msys_pc s)(i := pc'),
       msys_tails := msys_tails s + (if mpmc_tail q' = mpmc_tail (msys_queue s) then 0 else 1),
       msys_heads := msys_heads s + (if mpmc_head q' = mpmc_head (msys_queue s) then 0 else 1)\<rparr>"
    and bound: "mpmc_bounded t"
  shows "mpmc_inv t"
proof (cases "q' = msys_queue s")
  case True
  let ?q = "msys_queue s"
  have qok: "mpmc_queue_ok ?q (msys_tails s) (msys_heads s)"
    and ok: "mpmc_pc_ok ?q (msys_tails s) (msys_heads s) pc"
    using inv pc by (auto simp: mpmc_inv_def)
  have b: "\<And>u. unat u \<le> msys_heads s \<Longrightarrow> unat u < 2 ^ 31" using qok by (simp add: mpmc_queue_ok_def)
  have "mpmc_pc_ok ?q (msys_tails s) (msys_heads s) pc'"
    using step ok mpmc_generation_tests(2) [OF qok b] True qok
    by (cases pc) (auto simp: Let_def mpmc_queue_ok_def split: if_splits)
  moreover have "enq_ticket pc' = None" "deq_ticket pc' = None" "busy_slot pc = None"
    using step True by (cases pc; auto simp: Let_def split: if_splits)+
  ultimately have "mpmc_inv (s\<lparr>msys_pc := (msys_pc s)(i := pc')\<rparr>)"
    by (intro mpmc_inv_local [OF inv pc]) auto
  then show ?thesis by (simp add: t True)
next
  case False
  let ?q = "msys_queue s"
  have qok: "mpmc_queue_ok ?q (msys_tails s) (msys_heads s)"
    and ok: "mpmc_pc_ok ?q (msys_tails s) (msys_heads s) pc"
    using inv pc by (auto simp: mpmc_inv_def)
  from step False have x: "pc = TD_Cas (mpmc_head ?q)" "pc' = D_Move (mpmc_head ?q)"
    "q' = ?q\<lparr>mpmc_head := mpmc_head ?q + 1\<rparr>"
    by (cases pc; auto simp: Let_def split: if_splits)+
  have h: "msys_heads s < unat (mpmc_size ?q)" "2 \<le> slot_phases ?q (msys_heads s)"
    using ok qok by (auto simp: x mpmc_queue_ok_def)
  then have "slot_phases ?q (msys_heads s) = 2" using qok by (auto simp: mpmc_queue_ok_def intro: antisym)
  then have "mpmc_inv (s\<lparr>msys_queue := q', msys_pc := (msys_pc s)(i := pc'), msys_heads := Suc (msys_heads s)\<rparr>)"
    using bound qok h by (intro mpmc_inv_head [OF inv pc])
      (auto simp: x t mpmc_bounded_def mpmc_queue_ok_def slot_phases_def)
  then show ?thesis by (simp add: t x)
qed

lemma mpmc_inv_call:
  assumes "mpmc_inv s" "msys_pc s i = M_Idle"
  shows "mpmc_inv (s\<lparr>msys_pc := (msys_pc s)(i := mpmc_entry r)\<rparr>)"
  using assms by (intro mpmc_inv_local [OF assms(1) refl]) (cases r; simp)+

lemma mpmc_bounded_step_mono:
  "mpmc_step c s = Some (e, t) \<Longrightarrow> mpmc_bounded t \<Longrightarrow> mpmc_bounded s"
  by (cases c) (auto simp: mpmc_bounded_def split: if_splits option.splits)

lemma mpmc_inv_step:
  assumes "mpmc_inv s" "mpmc_bounded_step c s = Some (e, t)"
  shows "mpmc_inv t"
proof -
  have step: "mpmc_step c s = Some (e, t)" and bound: "mpmc_bounded t"
    using assms(2) by (simp_all add: within_Some)
  show ?thesis
  proof (cases c)
    case (MCall i r)
    with step assms(1) show ?thesis by (auto simp: mpmc_inv_call split: if_splits)
  next
    case (MStep i weak)
    with step obtain pc' q' where th: "mpmc_thread_step weak (msys_pc s i) (msys_queue s) = Some (e, pc', q')"
      and t: "t = s\<lparr>msys_queue := q', msys_pc := (msys_pc s)(i := pc'),
       msys_tails := msys_tails s + (if mpmc_tail q' = mpmc_tail (msys_queue s) then 0 else 1),
       msys_heads := msys_heads s + (if mpmc_head q' = mpmc_head (msys_queue s) then 0 else 1)\<rparr>"
      by (auto split: option.splits)
    from th consider "mpmc_Emplace_step (msys_pc s i) (msys_queue s) = Some (e, pc', q')"
      | "mpmc_TryEmplace_step weak (msys_pc s i) (msys_queue s) = Some (e, pc', q')"
      | "mpmc_Dequeue_step (msys_pc s i) (msys_queue s) = Some (e, pc', q')"
      | "mpmc_TryDequeue_step weak (msys_pc s i) (msys_queue s) = Some (e, pc', q')"
      by (auto simp del: mpmc_Emplace_step.simps mpmc_TryEmplace_step.simps mpmc_Dequeue_step.simps
          mpmc_TryDequeue_step.simps split: option.splits)
    then show ?thesis
      using mpmc_inv_Emplace_step [OF assms(1) refl _ t bound]
        mpmc_inv_TryEmplace_step [OF assms(1) refl _ t bound]
        mpmc_inv_Dequeue_step [OF assms(1) refl _ t bound]
        mpmc_inv_TryDequeue_step [OF assms(1) refl _ t bound]
      by cases
  qed
qed

end
