(* ===== verification/MPMC_Lifetime.thy ===== *)
theory MPMC_Lifetime
  imports MPMC_Lap
begin

text \<open>
  What \<open>BoundedMPMCQueue\<close> guarantees, proved from the invariant of \<open>MPMC_Lap\<close>: every
  interleaving is a run of a row of one-shot cells, one per buffer slot, so elements are
  exchanged ticket by ticket, never duplicated or lost, and at most as many as the
  buffer has slots in the whole life of the queue.
\<close>

section \<open>The specification: a row of one-shot cells\<close>

datatype 'a cell = Free | Full 'a | Consumed

fun ticket_spec :: "'a mpmc_event \<Rightarrow> 'a cell list \<Rightarrow> 'a cell list option" where
  "ticket_spec (Enqueued t x) cells =
     (if unat t < length cells \<and> cells ! unat t = Free then Some (cells[unat t := Full x]) else None)"
| "ticket_spec (Dequeued h x) cells =
     (if unat h < length cells \<and> cells ! unat h = Full x then Some (cells[unat h := Consumed]) else None)"
| "ticket_spec TryEmplace_false cells = Some cells"
| "ticket_spec TryDequeue_false cells = Some cells"
| "ticket_spec Fault cells = None"

definition cell_of :: "'a slot \<Rightarrow> 'a cell" where
  "cell_of s =
     (if slot_generation s = 0 then Free
      else if slot_generation s = 1 then (case slot_data s of Live x \<Rightarrow> Full x | _ \<Rightarrow> Consumed)
      else Consumed)"

definition mpmc_cells :: "'a mpmc_sys \<Rightarrow> 'a cell list" where
  "mpmc_cells s = map cell_of (mpmc_buffer (msys_queue s))"

text \<open>The elements that entered and left, with their tickets.\<close>

fun enqueued :: "'a mpmc_event list \<Rightarrow> (size_t \<times> 'a) list" where
  "enqueued [] = []"
| "enqueued (Enqueued t x # es) = (t, x) # enqueued es"
| "enqueued (_ # es) = enqueued es"

fun dequeued :: "'a mpmc_event list \<Rightarrow> (size_t \<times> 'a) list" where
  "dequeued [] = []"
| "dequeued (Dequeued t x # es) = (t, x) # dequeued es"
| "dequeued (_ # es) = dequeued es"

section \<open>The refinement\<close>

lemma map_cell_set_slot:
  assumes "mpmc_queue_ok q nt nh" "unat t < unat (mpmc_size q)"
  shows "map cell_of (mpmc_buffer (mpmc_set_slot t sl q)) =
    (map cell_of (mpmc_buffer q))[unat t := cell_of sl]"
  using assms by (simp add: mpmc_set_slot_def map_update mpmc_queue_ok_def unat_GetIndex_near)

lemma same_cell_set_slot:
  assumes "mpmc_queue_ok q nt nh" "unat t < unat (mpmc_size q)" "cell_of sl = cell_of (mpmc_slot q t)"
  shows "map cell_of (mpmc_buffer (mpmc_set_slot t sl q)) = map cell_of (mpmc_buffer q)"
proof -
  have "unat t < length (mpmc_buffer q)" using assms by (simp add: mpmc_queue_ok_def)
  then show ?thesis
    using map_cell_set_slot [OF assms(1,2), of sl] assms(3) mpmc_slot_near(1) [OF assms(1,2)]
    by (simp add: list_update_same_conv)
qed

lemma refines_Emplace:
  assumes q: "mpmc_queue_ok q nt nh" and ok: "mpmc_pc_ok q nt nh pc"
    and step: "mpmc_Emplace_step pc q = Some (e, pc', q')"
  shows "accepts ticket_spec e (map cell_of (mpmc_buffer q)) = Some (map cell_of (mpmc_buffer q'))"
proof -
  from step show ?thesis
  proof (cases pc)
    case (E_Construct u x)
    then have u: "unat u < unat (mpmc_size q)" "slot_phases q (unat u) = 0" using ok by auto
    note near = mpmc_slot_near [OF q u(1)]
    have sl: "slot_generation (mpmc_slot q u) = 0" "slot_data (mpmc_slot q u) = Raw"
      using u near by (auto simp: slot_phases_def slot_phase_simps)
    then show ?thesis
      using step E_Construct same_cell_set_slot [OF q u(1)]
      by (auto simp: cell_of_def slot_Construct_def)
  next
    case (E_StoreGen u x)
    then have u: "unat u < unat (mpmc_size q)" "slot_phases q (unat u) = 1"
      "slot_data (mpmc_buffer q ! unat u) = Live x" using ok by auto
    note near = mpmc_slot_near [OF q u(1)]
    have len: "length (mpmc_buffer q) = unat (mpmc_size q)" using q by (simp add: mpmc_queue_ok_def)
    have "cell_of (mpmc_buffer q ! unat u) = Free"
      using u by (auto simp: slot_phases_def slot_phase_simps cell_of_def)
    moreover have "cell_of (slot_StoreGeneration 1 (mpmc_slot q u)) = Full x"
      using u near by (simp add: cell_of_def slot_StoreGeneration_def)
    ultimately show ?thesis
      using step E_StoreGen near(2) u(1) len map_cell_set_slot [OF q u(1)] by (auto simp: Let_def)
  qed (auto simp: Let_def)
qed

lemma refines_TryEmplace:
  assumes "mpmc_TryEmplace_step weak pc q = Some (e, pc', q')"
  shows "accepts ticket_spec e (map cell_of (mpmc_buffer q)) = Some (map cell_of (mpmc_buffer q'))"
  using assms by (cases pc) (auto simp: Let_def split: if_splits)

lemma refines_TryDequeue:
  assumes "mpmc_TryDequeue_step weak pc q = Some (e, pc', q')"
  shows "accepts ticket_spec e (map cell_of (mpmc_buffer q)) = Some (map cell_of (mpmc_buffer q'))"
  using assms by (cases pc) (auto simp: Let_def split: if_splits)

lemma refines_Dequeue:
  assumes q: "mpmc_queue_ok q nt nh" and ok: "mpmc_pc_ok q nt nh pc"
    and step: "mpmc_Dequeue_step pc q = Some (e, pc', q')"
  shows "accepts ticket_spec e (map cell_of (mpmc_buffer q)) = Some (map cell_of (mpmc_buffer q'))"
proof -
  from step show ?thesis
  proof (cases pc)
    case (D_Move u)
    then have u: "unat u < unat (mpmc_size q)" "slot_phases q (unat u) = 2" using ok by auto
    note near = mpmc_slot_near [OF q u(1)]
    have len: "length (mpmc_buffer q) = unat (mpmc_size q)" using q by (simp add: mpmc_queue_ok_def)
    obtain x where x: "slot_generation (mpmc_slot q u) = 1" "slot_data (mpmc_slot q u) = Live x"
      using u near by (auto simp: slot_phases_def slot_phase_simps)
    have e: "e = [Dequeued u x]" "q' = mpmc_set_slot u ((mpmc_slot q u)\<lparr>slot_data := Moved\<rparr>) q"
      using step D_Move x by (auto simp: slot_Move_def)
    have "cell_of (mpmc_buffer q ! unat u) = Full x" using x near by (simp add: cell_of_def)
    moreover have "cell_of ((mpmc_slot q u)\<lparr>slot_data := Moved\<rparr>) = Consumed"
      using x by (simp add: cell_of_def)
    ultimately show ?thesis using e u(1) len map_cell_set_slot [OF q u(1)] by simp
  next
    case (D_Destroy u x)
    then have u: "unat u < unat (mpmc_size q)" "slot_phases q (unat u) = 3" using ok by auto
    note near = mpmc_slot_near [OF q u(1)]
    have sl: "slot_generation (mpmc_slot q u) = 1" "slot_data (mpmc_slot q u) = Moved"
      using u near by (auto simp: slot_phases_def slot_phase_simps)
    then have "e = []" "q' = mpmc_set_slot u ((mpmc_slot q u)\<lparr>slot_data := Raw\<rparr>) q"
      using step D_Destroy by (auto simp: slot_Destroy_def)
    then show ?thesis using sl same_cell_set_slot [OF q u(1)] by (simp add: cell_of_def)
  next
    case (D_StoreGen u x)
    then have u: "unat u < unat (mpmc_size q)" "slot_phases q (unat u) = 4" using ok by auto
    note near = mpmc_slot_near [OF q u(1)]
    have sl: "slot_generation (mpmc_slot q u) = 1" "slot_data (mpmc_slot q u) = Raw"
      using u near by (auto simp: slot_phases_def slot_phase_simps)
    have "e = []" "q' = mpmc_set_slot u (slot_StoreGeneration 2 (mpmc_slot q u)) q"
      using step D_StoreGen near(2) by (auto simp: Let_def)
    then show ?thesis using sl same_cell_set_slot [OF q u(1)]
      by (simp add: cell_of_def slot_StoreGeneration_def)
  qed (auto simp: Let_def)
qed

lemma mpmc_refines:
  assumes "mpmc_inv s" "mpmc_bounded_step c s = Some (e, t)"
  shows "accepts ticket_spec e (mpmc_cells s) = Some (mpmc_cells t)"
proof -
  have step: "mpmc_step c s = Some (e, t)"
    using assms(2) by (simp add: within_Some)
  have q: "mpmc_queue_ok (msys_queue s) (msys_tails s) (msys_heads s)"
    and ok: "\<And>i. mpmc_pc_ok (msys_queue s) (msys_tails s) (msys_heads s) (msys_pc s i)"
    using assms(1) by (auto simp: mpmc_inv_def)
  show ?thesis
  proof (cases c)
    case (MStep i weak)
    with step obtain pc' q' where th: "mpmc_thread_step weak (msys_pc s i) (msys_queue s) = Some (e, pc', q')"
      and t: "msys_queue t = q'"
      by (auto split: option.splits)
    from th consider "mpmc_Emplace_step (msys_pc s i) (msys_queue s) = Some (e, pc', q')"
      | "mpmc_TryEmplace_step weak (msys_pc s i) (msys_queue s) = Some (e, pc', q')"
      | "mpmc_Dequeue_step (msys_pc s i) (msys_queue s) = Some (e, pc', q')"
      | "mpmc_TryDequeue_step weak (msys_pc s i) (msys_queue s) = Some (e, pc', q')"
      by (auto simp del: mpmc_Emplace_step.simps mpmc_TryEmplace_step.simps mpmc_Dequeue_step.simps
          mpmc_TryDequeue_step.simps split: option.splits)
    then show ?thesis
      unfolding mpmc_cells_def t
      using refines_Emplace [OF q ok] refines_Dequeue [OF q ok] refines_TryEmplace refines_TryDequeue
      by cases blast+
  qed (use step in \<open>auto simp: mpmc_cells_def split: if_splits\<close>)
qed

interpretation mpmc_ref: refinement mpmc_bounded_step mpmc_init mpmc_inv mpmc_cells ticket_spec
  by unfold_locales (fact mpmc_inv_init mpmc_inv_step mpmc_refines)+

lemma reaches_bounded:
  "reaches mpmc_step s es t \<Longrightarrow> mpmc_bounded t \<Longrightarrow> reaches mpmc_bounded_step s es t"
  by (erule (1) reaches_within) (rule mpmc_bounded_step_mono)

lemmas mpmc_reach_inv = mpmc_ref.inv_reaches [OF _ reaches_bounded]
lemmas mpmc_reach_cells = mpmc_ref.refines_run [OF _ reaches_bounded]

lemma mpmc_init_cells:
  "mpmc_init s \<Longrightarrow> mpmc_cells s = replicate (unat (mpmc_size (msys_queue s))) Free"
  by (auto simp: mpmc_init_def mpmc_cells_def cell_of_def slot_new_def mpmc_new_Inr(4) map_replicate_const)

section \<open>Runs of the cells\<close>

definition free_cells :: "'a cell list \<Rightarrow> nat" where
  "free_cells cells = length (List.filter (\<lambda>c. c = Free) cells)"

lemma enqueued_append: "enqueued (es @ fs) = enqueued es @ enqueued fs"
  by (induction es rule: enqueued.induct) auto

lemma dequeued_append: "dequeued (es @ fs) = dequeued es @ dequeued fs"
  by (induction es rule: dequeued.induct) auto

lemma ticket_spec_length:
  "ticket_spec e cells = Some cells' \<Longrightarrow> length cells' = length cells"
  by (cases e) (auto split: if_splits)

lemma free_cells_update:
  "k < length cells \<Longrightarrow> c \<noteq> Free \<Longrightarrow> cells ! k = Free \<Longrightarrow>
     Suc (free_cells (cells[k := c])) = free_cells cells"
  "k < length cells \<Longrightarrow> c \<noteq> Free \<Longrightarrow> cells ! k \<noteq> Free \<Longrightarrow>
     free_cells (cells[k := c]) = free_cells cells"
  by (induction cells arbitrary: k) (auto simp: free_cells_def nth_Cons split: nat.splits)

lemma ticket_spec_free:
  "ticket_spec e cells = Some cells' \<Longrightarrow> free_cells cells' + length (enqueued [e]) = free_cells cells"
  by (cases e) (auto simp: free_cells_update split: if_splits dest: free_cells_update(1))

lemma accepts_free:
  "accepts ticket_spec es cells = Some cells' \<Longrightarrow> free_cells cells' + length (enqueued es) = free_cells cells"
proof (induction es arbitrary: cells)
  case (Cons e es)
  then show ?case
    using ticket_spec_free [of e cells] enqueued_append [of "[e]" es]
    by (fastforce split: option.splits)
qed simp

text \<open>The elements that went through one ticket, and what the ticket's cell says of them.\<close>

definition at_ticket :: "nat \<Rightarrow> (size_t \<times> 'a) list \<Rightarrow> 'a list" where
  "at_ticket k xs = map snd (List.filter (\<lambda>(t, x). unat t = k) xs)"

fun cell_history :: "'a list \<Rightarrow> 'a list \<Rightarrow> 'a cell \<Rightarrow> bool" where
  "cell_history es ds Free \<longleftrightarrow> es = [] \<and> ds = []"
| "cell_history es ds (Full x) \<longleftrightarrow> es = [x] \<and> ds = []"
| "cell_history es ds Consumed \<longleftrightarrow> (\<exists>x. es = [x] \<and> ds = [x])"

lemma at_ticket_simps [simp]:
  "at_ticket k [] = []" "at_ticket k ((t, x) # xs) = (if unat t = k then x # at_ticket k xs else at_ticket k xs)"
  "at_ticket k (xs @ ys) = at_ticket k xs @ at_ticket k ys"
  by (simp_all add: at_ticket_def)

lemma accepts_history:
  assumes "accepts ticket_spec es (replicate n Free) = Some cells"
  shows "length cells = n \<and> (\<forall>k<n. cell_history (at_ticket k (enqueued es)) (at_ticket k (dequeued es)) (cells ! k)) \<and>
    (\<forall>k\<ge>n. at_ticket k (enqueued es) = [] \<and> at_ticket k (dequeued es) = []) \<and> Fault \<notin> set es"
  using assms
proof (induction es arbitrary: cells rule: rev_induct)
  case Nil
  then show ?case by auto
next
  case (snoc e es)
  then obtain cs where cs: "accepts ticket_spec es (replicate n Free) = Some cs" "ticket_spec e cs = Some cells"
    by (auto simp: accepts_append split: option.splits)
  show ?case
    using snoc.IH [OF cs(1)] cs(2)
    by (cases e) (auto simp: enqueued_append dequeued_append nth_list_update split: if_splits)
qed

section \<open>The properties\<close>

lemma mpmc_reach_history:
  assumes "mpmc_init s" "reaches mpmc_step s es t" "mpmc_bounded t"
  shows "accepts ticket_spec es (replicate (unat (mpmc_size (msys_queue s))) Free) = Some (mpmc_cells t)"
  using mpmc_reach_cells [OF assms] mpmc_init_cells [OF assms(1)] by simp

text \<open>
  Property C14. Refinement: every interleaving of any number of threads in \<open>Emplace\<close>,
  \<open>TryEmplace\<close>, \<open>Dequeue\<close> and \<open>TryDequeue\<close>, access by access, is a run of the row of one-shot
  cells: an element is published into the free cell of its ticket, and taken from it by the
  thread that drew the same number to dequeue; no step touches an object that is not there.
\<close>

theorem mpmc_refines_cells:
  assumes "mpmc_init s" "reaches mpmc_step s es t" "mpmc_bounded t"
  shows "accepts ticket_spec es (replicate (unat (mpmc_size (msys_queue s))) Free) = Some (mpmc_cells t)"
  using assms by (rule mpmc_reach_history)

text \<open>
  Exactly-once delivery: under each ticket at most one element enters, at most
  one leaves, and it is the one that entered; no construction, move or destruction is
  misplaced.
\<close>

theorem mpmc_exactly_once:
  assumes "mpmc_init s" "reaches mpmc_step s es t" "mpmc_bounded t"
  shows "Fault \<notin> set es \<and>
    (at_ticket k (enqueued es) = [] \<and> at_ticket k (dequeued es) = [] \<or>
     (\<exists>x. at_ticket k (enqueued es) = [x] \<and>
        (at_ticket k (dequeued es) = [] \<or> at_ticket k (dequeued es) = [x])))"
proof -
  have h: "\<forall>k<unat (mpmc_size (msys_queue s)).
      cell_history (at_ticket k (enqueued es)) (at_ticket k (dequeued es)) (mpmc_cells t ! k)"
    "\<forall>k\<ge>unat (mpmc_size (msys_queue s)). at_ticket k (enqueued es) = [] \<and> at_ticket k (dequeued es) = []"
    "Fault \<notin> set es"
    using accepts_history [OF mpmc_reach_history [OF assms]] by auto
  then show ?thesis
    by (cases "k < unat (mpmc_size (msys_queue s))"; cases "mpmc_cells t ! k")
      (auto dest!: spec [of _ k])
qed

text \<open>
  Property C25. The lifetime bound: however the threads are scheduled and however much is
  dequeued meanwhile, the queue takes in no more elements than its buffer has slots.
\<close>

theorem mpmc_lifetime_bound:
  assumes "mpmc_init s" "reaches mpmc_step s es t" "mpmc_bounded t"
  shows "length (enqueued es) \<le> unat (mpmc_size (msys_queue s))"
  using accepts_free [OF mpmc_reach_history [OF assms]] by (simp add: free_cells_def)

section \<open>After the last slot\<close>

lemma mpmc_thread_step_size:
  "mpmc_thread_step weak pc q = Some (e, pc', q') \<Longrightarrow> mpmc_size q' = mpmc_size q"
  by (cases pc) (auto simp: Let_def split: if_splits option.splits)

lemma mpmc_step_size:
  "mpmc_step c s = Some (e, t) \<Longrightarrow> mpmc_size (msys_queue t) = mpmc_size (msys_queue s)"
  by (cases c)
    (auto simp del: mpmc_thread_step.simps dest!: mpmc_thread_step_size split: if_splits option.splits)

lemma mpmc_reach_size:
  "reaches mpmc_step s es t \<Longrightarrow> mpmc_size (msys_queue t) = mpmc_size (msys_queue s)"
  by (induction rule: reaches.induct) (auto simp: mpmc_step_size)

lemma mpmc_spin_step:
  assumes "mpmc_inv s" "mpmc_step c s = Some (e, t)"
    "msys_pc s i = E_Spin u x" "unat (mpmc_size (msys_queue s)) \<le> unat u"
  shows "msys_pc t i = E_Spin u x"
proof -
  have q: "mpmc_queue_ok (msys_queue s) (msys_tails s) (msys_heads s)"
    and ok: "mpmc_pc_ok (msys_queue s) (msys_tails s) (msys_heads s) (E_Spin u x)"
    using assms(1,3) by (auto simp: mpmc_inv_def dest!: spec [of _ i])
  then have "unat u < 2 ^ 31" by (simp add: mpmc_queue_ok_def)
  then have "2 * mpmc_GetGeneration (msys_queue s) u \<noteq> slot_LoadGeneration (mpmc_slot (msys_queue s) u)"
    using mpmc_generation_tests(1) [OF q] assms(4) by simp
  then have own: "mpmc_thread_step weak (E_Spin u x) (msys_queue s) = Some ([], E_Spin u x, msys_queue s)" for weak
    by simp
  show ?thesis
    using assms(2,3) own
    by (cases c) (auto simp del: mpmc_thread_step.simps split: if_splits option.splits)
qed

text \<open>
  Property C29. A producer beyond the buffer waits forever: once \<open>Emplace\<close> has drawn a ticket
  that is not below the number of slots, no step of any thread ever lets it go on.
\<close>

theorem mpmc_Emplace_stuck:
  assumes "mpmc_init s" "reaches mpmc_step s es t"
    and "msys_pc t i = E_Spin u x" "unat (mpmc_size (msys_queue t)) \<le> unat u"
    and "reaches mpmc_step t fs v" "mpmc_bounded v"
  shows "msys_pc v i = E_Spin u x"
  using assms(5,6,2-4)
proof (induction rule: reaches.induct)
  case (reaches_step t fs v c e w)
  have v: "mpmc_bounded v" using mpmc_bounded_step_mono reaches_step by blast
  have "mpmc_inv v"
    by (rule mpmc_reach_inv [OF assms(1) reaches_trans v]) (use reaches_step in blast)+
  then show ?case
    using reaches_step v mpmc_reach_size [of t fs v] mpmc_spin_step [of v c e w i u x] by auto
qed

text \<open>The state at a counter that has not passed the buffer yet.\<close>

lemma mpmc_at_tail:
  assumes "mpmc_inv s" "msys_tails s < unat (mpmc_size (msys_queue s))"
  shows "2 * mpmc_GetGeneration (msys_queue s) (mpmc_tail (msys_queue s)) = 0"
    "slot_generation (mpmc_slot (msys_queue s) (mpmc_tail (msys_queue s))) = 0"
    "slot_data (mpmc_slot (msys_queue s) (mpmc_tail (msys_queue s))) = Raw"
proof -
  have q: "mpmc_queue_ok (msys_queue s) (msys_tails s) (msys_heads s)"
    using assms(1) by (simp add: mpmc_inv_def)
  then have t: "unat (mpmc_tail (msys_queue s)) = msys_tails s" "slot_phases (msys_queue s) (msys_tails s) = 0"
    using assms(2) by (auto simp: mpmc_queue_ok_def)
  with mpmc_slot_near [OF q, of "mpmc_tail (msys_queue s)"] assms(2)
  show "2 * mpmc_GetGeneration (msys_queue s) (mpmc_tail (msys_queue s)) = 0"
    "slot_generation (mpmc_slot (msys_queue s) (mpmc_tail (msys_queue s))) = 0"
    "slot_data (mpmc_slot (msys_queue s) (mpmc_tail (msys_queue s))) = Raw"
    by (auto simp: slot_phases_def slot_phase_simps)
qed

lemma mpmc_index_same [simp]:
  "mpmc_GetIndex (q\<lparr>mpmc_tail := u\<rparr>) = mpmc_GetIndex q"
  "mpmc_GetIndex (q\<lparr>mpmc_head := u\<rparr>) = mpmc_GetIndex q"
  "mpmc_GetIndex (mpmc_set_slot t sl q) = mpmc_GetIndex q"
  "mpmc_GetGeneration (q\<lparr>mpmc_tail := u\<rparr>) = mpmc_GetGeneration q"
  "mpmc_GetGeneration (q\<lparr>mpmc_head := u\<rparr>) = mpmc_GetGeneration q"
  "mpmc_GetGeneration (mpmc_set_slot t sl q) = mpmc_GetGeneration q"
  by (simp_all add: fun_eq_iff mpmc_GetIndex_def mpmc_GetGeneration_def mpmc_GetGenerationMask_def
      mpmc_GetIndexMask_def mpmc_set_slot_def)

lemma mpmc_set_slot_head:
  "unat (mpmc_GetIndex q t) < length (mpmc_buffer q) \<Longrightarrow>
     mpmc_buffer (mpmc_set_slot t sl (q\<lparr>mpmc_head := u\<rparr>)) ! unat (mpmc_GetIndex q t) = sl"
  by (simp add: mpmc_set_slot_def)

definition alone_TryEmplace :: "nat \<Rightarrow> 'a \<Rightarrow> nat \<Rightarrow> 'a mpmc_choice list" where
  "alone_TryEmplace i x n = MCall i (TryEmplace x) # replicate n (MStep i False)"

definition alone_TryDequeue :: "nat \<Rightarrow> nat \<Rightarrow> 'a mpmc_choice list" where
  "alone_TryDequeue i n = MCall i TryDequeue # replicate n (MStep i False)"

text \<open>
  What \<open>TryEmplace\<close> answers to a thread that runs alone: while fewer tickets were
  drawn than the buffer has slots it enqueues under the next one, in five steps; from then
  on it returns false without changing the queue, even when everything was dequeued.
\<close>

theorem mpmc_TryEmplace_alone:
  assumes "mpmc_init s" "reaches mpmc_step s es t" "mpmc_bounded t" "msys_pc t i = M_Idle"
  shows "if msys_tails t < unat (mpmc_size (msys_queue t))
    then map_option fst (run mpmc_step (alone_TryEmplace i x 5) t) =
      Some [Enqueued (mpmc_tail (msys_queue t)) x]
    else map_option (\<lambda>(e, v). (e, msys_queue v, msys_pc v)) (run mpmc_step (alone_TryEmplace i x 3) t) =
      Some ([TryEmplace_false], msys_queue t, msys_pc t)"
proof -
  have inv: "mpmc_inv t" by (rule mpmc_reach_inv [OF assms(1-3)])
  then have q: "mpmc_queue_ok (msys_queue t) (msys_tails t) (msys_heads t)" by (simp add: mpmc_inv_def)
  show ?thesis
  proof (cases "msys_tails t < unat (mpmc_size (msys_queue t))")
    case True
    note at = mpmc_at_tail [OF inv True]
    show ?thesis
      using True assms(4) at
      by (simp add: alone_TryEmplace_def numeral_nat Let_def slot_LoadGeneration_def)
  next
    case False
    have "2 * mpmc_GetGeneration (msys_queue t) (mpmc_tail (msys_queue t)) \<noteq>
        slot_LoadGeneration (mpmc_slot (msys_queue t) (mpmc_tail (msys_queue t)))"
      using mpmc_generation_tests(1) [OF q, of "mpmc_tail (msys_queue t)"] q False
      by (simp add: mpmc_queue_ok_def)
    then show ?thesis
      using False assms(4)
      by (simp add: alone_TryEmplace_def numeral_nat Let_def fun_upd_idem)
  qed
qed

lemma mpmc_at_head:
  assumes "mpmc_inv s" "msys_heads s < unat (mpmc_size (msys_queue s))"
  shows "2 * mpmc_GetGeneration (msys_queue s) (mpmc_head (msys_queue s)) = 0"
    "unat (mpmc_GetIndex (msys_queue s) (mpmc_head (msys_queue s))) < length (mpmc_buffer (msys_queue s))"
    "mpmc_cells s ! msys_heads s = Full x \<longleftrightarrow>
      slot_generation (mpmc_slot (msys_queue s) (mpmc_head (msys_queue s))) = 1 \<and>
      slot_data (mpmc_slot (msys_queue s) (mpmc_head (msys_queue s))) = Live x"
    "mpmc_cells s ! msys_heads s = Free \<longleftrightarrow>
      slot_generation (mpmc_slot (msys_queue s) (mpmc_head (msys_queue s))) = 0"
    "mpmc_cells s ! msys_heads s \<noteq> Consumed"
proof -
  let ?q = "msys_queue s"
  have q: "mpmc_queue_ok ?q (msys_tails s) (msys_heads s)"
    using assms(1) by (simp add: mpmc_inv_def)
  then have t: "unat (mpmc_head ?q) = msys_heads s" "slot_phases ?q (msys_heads s) \<le> 2"
    "length (mpmc_buffer ?q) = unat (mpmc_size ?q)"
    using assms(2) by (auto simp: mpmc_queue_ok_def)
  note near = mpmc_slot_near [OF q, of "mpmc_head ?q", unfolded t, OF assms(2)]
  show "2 * mpmc_GetGeneration ?q (mpmc_head ?q) = 0" by (rule near)
  have cell: "mpmc_cells s ! msys_heads s = cell_of (mpmc_buffer ?q ! msys_heads s)"
    using assms(2) t by (simp add: mpmc_cells_def)
  have g: "slot_generation (mpmc_buffer ?q ! msys_heads s) = 0 \<or>
      slot_generation (mpmc_buffer ?q ! msys_heads s) = 1 \<and> (\<exists>x. slot_data (mpmc_buffer ?q ! msys_heads s) = Live x)"
    using t(2) unfolding slot_phases_def by (auto simp: slot_phase_def split: if_splits storage.splits)
  then show "mpmc_cells s ! msys_heads s = Full x \<longleftrightarrow>
      slot_generation (mpmc_slot ?q (mpmc_head ?q)) = 1 \<and> slot_data (mpmc_slot ?q (mpmc_head ?q)) = Live x"
    "mpmc_cells s ! msys_heads s = Free \<longleftrightarrow> slot_generation (mpmc_slot ?q (mpmc_head ?q)) = 0"
    "mpmc_cells s ! msys_heads s \<noteq> Consumed"
    by (auto simp: cell cell_of_def near)
  show "unat (mpmc_GetIndex ?q (mpmc_head ?q)) < length (mpmc_buffer ?q)"
    using q assms(2) t unat_GetIndex_near [of ?q "mpmc_head ?q"] by (simp add: mpmc_queue_ok_def)
qed

text \<open>
  What \<open>TryDequeue\<close> answers to a thread that runs alone: the element published
  under the next ticket, in six steps; false and nothing changed when there is none, or when
  all slots were used.
\<close>

theorem mpmc_TryDequeue_alone:
  assumes "mpmc_init s" "reaches mpmc_step s es t" "mpmc_bounded t" "msys_pc t i = M_Idle"
  shows "case (if msys_heads t < unat (mpmc_size (msys_queue t)) then mpmc_cells t ! msys_heads t else Free) of
      Full x \<Rightarrow> map_option fst (run mpmc_step (alone_TryDequeue i 6) t) = Some [Dequeued (mpmc_head (msys_queue t)) x]
    | Free \<Rightarrow> map_option (\<lambda>(e, v). (e, msys_queue v, msys_pc v)) (run mpmc_step (alone_TryDequeue i 3) t) =
        Some ([TryDequeue_false], msys_queue t, msys_pc t)
    | Consumed \<Rightarrow> False"
proof -
  let ?q = "msys_queue t"
  have inv: "mpmc_inv t" by (rule mpmc_reach_inv [OF assms(1-3)])
  then have q: "mpmc_queue_ok ?q (msys_tails t) (msys_heads t)" by (simp add: mpmc_inv_def)
  have empty: "map_option (\<lambda>(e, v). (e, msys_queue v, msys_pc v)) (run mpmc_step (alone_TryDequeue i 3) t) =
        Some ([TryDequeue_false], ?q, msys_pc t)"
    if "2 * mpmc_GetGeneration ?q (mpmc_head ?q) + 1 \<noteq> slot_LoadGeneration (mpmc_slot ?q (mpmc_head ?q))"
    using that assms(4) by (simp add: alone_TryDequeue_def numeral_nat Let_def fun_upd_idem)
  show ?thesis
  proof (cases "msys_heads t < unat (mpmc_size ?q)")
    case True
    note at = mpmc_at_head [OF inv True]
    show ?thesis
    proof (cases "mpmc_cells t ! msys_heads t")
      case Free
      then show ?thesis using True empty at(1,4) by (simp add: slot_LoadGeneration_def)
    next
      case (Full x)
      then have sl: "slot_generation (mpmc_slot ?q (mpmc_head ?q)) = 1"
        "slot_data (mpmc_slot ?q (mpmc_head ?q)) = Live x" using at(3) by auto
      show ?thesis
        using True Full assms(4) at(1,2) sl
        by (simp add: alone_TryDequeue_def numeral_nat Let_def slot_LoadGeneration_def
            slot_Move_def slot_Destroy_def mpmc_set_slot_head)
    qed (use at in simp)
  next
    case False
    have "2 * mpmc_GetGeneration ?q (mpmc_head ?q) + 1 \<noteq> slot_LoadGeneration (mpmc_slot ?q (mpmc_head ?q))"
      using mpmc_generation_tests(2) [OF q, of "mpmc_head ?q"] q False
      by (simp add: mpmc_queue_ok_def)
    then show ?thesis using False empty by simp
  qed
qed

section \<open>Races, destruction, size\<close>

text \<open>The plain accesses to the storage of a slot: construction, move and destruction.\<close>

fun mpmc_touches :: "'a mpmc_pc \<Rightarrow> size_t option" where
  "mpmc_touches (E_Construct t x) = Some t"
| "mpmc_touches (D_Move h) = Some h"
| "mpmc_touches (D_Destroy h x) = Some h"
| "mpmc_touches pc = None"

text \<open>
  Absence of data races on the slots: no two threads are about to construct, move
  or destroy in the same slot.
\<close>

theorem mpmc_race_free:
  assumes "mpmc_init s" "reaches mpmc_step s es t" "mpmc_bounded t"
    and "i \<noteq> j" "mpmc_touches (msys_pc t i) = Some a" "mpmc_touches (msys_pc t j) = Some b"
  shows "mpmc_GetIndex (msys_queue t) a \<noteq> mpmc_GetIndex (msys_queue t) b"
proof -
  have inv: "mpmc_inv t" by (rule mpmc_reach_inv [OF assms(1-3)])
  then have p: "pow2_size (mpmc_size (msys_queue t))"
    and ok: "mpmc_pc_ok (msys_queue t) (msys_tails t) (msys_heads t) (msys_pc t i)"
      "mpmc_pc_ok (msys_queue t) (msys_tails t) (msys_heads t) (msys_pc t j)"
    and dist: "tickets_distinct enq_ticket (msys_pc t)" "tickets_distinct deq_ticket (msys_pc t)"
    by (auto simp: mpmc_inv_def mpmc_queue_ok_def)
  have d: "enq_ticket (msys_pc t i) = None \<or> enq_ticket (msys_pc t i) \<noteq> enq_ticket (msys_pc t j)"
    "deq_ticket (msys_pc t i) = None \<or> deq_ticket (msys_pc t i) \<noteq> deq_ticket (msys_pc t j)"
    using dist assms(4) by (auto simp: tickets_distinct_def)
  have "a \<noteq> b" using assms(5,6) ok d by (cases "msys_pc t i"; cases "msys_pc t j") auto
  moreover have "unat a < unat (mpmc_size (msys_queue t))"
    using assms(5) ok(1) by (cases "msys_pc t i") auto
  moreover have "unat b < unat (mpmc_size (msys_queue t))"
    using assms(6) ok(2) by (cases "msys_pc t j") auto
  ultimately show ?thesis
    using unat_GetIndex_near [OF p] by (metis word_unat_eq_iff)
qed

text \<open>
  Destruction: when no thread is between two updates of a slot, the destructors
  of the slots destroy exactly the elements that are still there; none is destroyed twice
  and none is left.
\<close>

theorem mpmc_destructor_sound:
  assumes "mpmc_init s" "reaches mpmc_step s es t" "mpmc_bounded t"
    and "\<forall>i. busy_slot (msys_pc t i) = None" "sl \<in> set (mpmc_buffer (msys_queue t))"
  shows "map_option slot_data (slot_destructor sl) = Some Raw"
proof -
  have inv: "mpmc_inv t" by (rule mpmc_reach_inv [OF assms(1-3)])
  obtain k where k: "k < unat (mpmc_size (msys_queue t))" "sl = mpmc_buffer (msys_queue t) ! k"
    using assms(5) inv by (auto simp: in_set_conv_nth mpmc_inv_def mpmc_queue_ok_def)
  then have "slot_phase sl \<le> 5" "slot_phase sl \<notin> {1, 3, 4}"
    using inv assms(4) by (auto simp: mpmc_inv_def mpmc_queue_ok_def slots_owned_def slot_phases_def)
  then show ?thesis
    by (auto simp: slot_phase_def slot_destructor_def slot_Destroy_def split: if_splits storage.splits)
qed

text \<open>
  \<open>GetSize\<close> is the difference of the tickets drawn by producers and consumers;
  with more consumers than producers it wraps around to a huge number instead of zero, and
  \<open>IsEmpty\<close> then says no.
\<close>

theorem mpmc_GetSize_tickets:
  assumes "mpmc_init s" "reaches mpmc_step s es t" "mpmc_bounded t"
  shows "unat (mpmc_GetSize (msys_queue t)) =
      (if msys_heads t \<le> msys_tails t then msys_tails t - msys_heads t
       else 2 ^ 64 - (msys_heads t - msys_tails t)) \<and>
    (mpmc_IsEmpty (msys_queue t) \<longleftrightarrow> msys_tails t = msys_heads t)"
proof -
  let ?q = "msys_queue t"
  have "mpmc_inv t" by (rule mpmc_reach_inv [OF assms(1-3)])
  then have u: "unat (mpmc_tail ?q) = msys_tails t" "unat (mpmc_head ?q) = msys_heads t"
    by (auto simp: mpmc_inv_def mpmc_queue_ok_def)
  have size: "unat (mpmc_GetSize ?q) =
      (if msys_heads t \<le> msys_tails t then msys_tails t - msys_heads t
       else 2 ^ 64 - (msys_heads t - msys_tails t))"
  proof (cases "msys_heads t \<le> msys_tails t")
    case True
    then show ?thesis using u by (simp add: mpmc_GetSize_def unat_sub word_le_nat_alt)
  next
    case False
    then show ?thesis using u unat_sub_wrap [of "mpmc_tail ?q" "mpmc_head ?q"]
      by (simp add: mpmc_GetSize_def)
  qed
  have "mpmc_IsEmpty ?q \<longleftrightarrow> mpmc_tail ?q = mpmc_head ?q" by (simp add: mpmc_IsEmpty_def mpmc_GetSize_def)
  also have "\<dots> \<longleftrightarrow> msys_tails t = msys_heads t" using u by (simp add: word_unat_eq_iff)
  finally show ?thesis using size by simp
qed

section \<open>Concrete runs\<close>

definition mpmc_example :: "nat mpmc" where
  "mpmc_example = \<lparr>mpmc_size = 8, mpmc_buffer = replicate 8 slot_new, mpmc_head = 0, mpmc_tail = 0\<rparr>"

definition mpmc_sys_example :: "nat mpmc_sys" where
  "mpmc_sys_example = \<lparr>msys_queue = mpmc_example, msys_pc = (\<lambda>i. M_Idle), msys_tails = 0, msys_heads = 0\<rparr>"

lemma mpmc_sys_example_init: "mpmc_init mpmc_sys_example"
proof -
  have "mpmc_GetBufferSize 3 = Inr 8" by code_simp
  then have "mpmc_new 3 = Inr mpmc_example" by (simp add: mpmc_new_def mpmc_example_def)
  then show ?thesis by (auto simp: mpmc_init_def mpmc_sys_example_def)
qed

text \<open>
  Two producers and a consumer: 7 is published under ticket 0, 8 is about to be constructed
  under ticket 1 while the consumer is about to move 7 out.
\<close>

definition mpmc_schedule :: "nat mpmc_choice list" where
  "mpmc_schedule =
     [MCall 0 (Emplace 7), MCall 2 Dequeue, MStep 2 False, MStep 0 False, MCall 1 (TryEmplace 8),
      MStep 2 False, MStep 0 False, MStep 1 False, MStep 1 False, MStep 1 True, MStep 0 False,
      MStep 0 False, MStep 1 False, MStep 1 False, MStep 2 False]"

definition mpmc_finish :: "nat mpmc_choice list" where
  "mpmc_finish = [MStep 1 False, MStep 2 False, MStep 2 False, MStep 1 False, MStep 2 False]"

text \<open>Eight elements enqueued and dequeued by one thread, then a ninth \<open>Emplace\<close> by another.\<close>

definition mpmc_one_lap :: "nat mpmc_choice list" where
  "mpmc_one_lap = concat (map (\<lambda>x. alone_TryEmplace 0 x 5 @ alone_TryDequeue 0 6) [0..<8])"

lemma mpmc_run_state:
  assumes "case run mpmc_step cs mpmc_sys_example of None \<Rightarrow> False
    | Some (es, t) \<Rightarrow> msys_tails t < 20 \<and> msys_heads t < 20 \<and> P es t"
  obtains es t where "reaches mpmc_step mpmc_sys_example es t" "mpmc_bounded t" "P es t"
    "run mpmc_step cs mpmc_sys_example = Some (es, t)"
proof -
  obtain es t where t: "run mpmc_step cs mpmc_sys_example = Some (es, t)"
    "msys_tails t < 20" "msys_heads t < 20" "P es t"
    using assms by (auto split: option.splits)
  then have "mpmc_bounded t" by (simp add: mpmc_bounded_def)
  with that t run_reaches [OF t(1)] show thesis by blast
qed

fun choice_thread :: "'a mpmc_choice \<Rightarrow> nat" where
  "choice_thread (MCall i r) = i"
| "choice_thread (MStep i weak) = i"

lemma mpmc_run_others:
  "run mpmc_step cs s = Some (es, t) \<Longrightarrow> i \<notin> choice_thread ` set cs \<Longrightarrow> msys_pc t i = msys_pc s i"
proof (induction cs arbitrary: s es)
  case (Cons c cs)
  then obtain e u fs where u: "mpmc_step c s = Some (e, u)" "run mpmc_step cs u = Some (fs, t)"
    by (auto split: option.splits)
  then have "msys_pc u i = msys_pc s i"
    using Cons.prems(2) by (cases c) (auto simp del: mpmc_thread_step.simps split: if_splits option.splits)
  with Cons.IH [OF u(2)] Cons.prems(2) show ?case by simp
qed simp

lemma mpmc_finished_run:
  obtains t where "reaches mpmc_step mpmc_sys_example [Enqueued 0 7, Dequeued 0 7, Enqueued 1 8] t"
    "mpmc_bounded t" "\<forall>i. msys_pc t i = M_Idle" "length (mpmc_buffer (msys_queue t)) = 8"
proof -
  have "case run mpmc_step (mpmc_schedule @ mpmc_finish) mpmc_sys_example of None \<Rightarrow> False
    | Some (es, t) \<Rightarrow> msys_tails t < 20 \<and> msys_heads t < 20 \<and> es = [Enqueued 0 7, Dequeued 0 7, Enqueued 1 8] \<and>
        (msys_pc t 0 = M_Idle \<and> msys_pc t 1 = M_Idle \<and> msys_pc t 2 = M_Idle) \<and>
        length (mpmc_buffer (msys_queue t)) = 8" by code_simp
  then obtain es t where t: "reaches mpmc_step mpmc_sys_example es t" "mpmc_bounded t"
    "es = [Enqueued 0 7, Dequeued 0 7, Enqueued 1 8] \<and>
      (msys_pc t 0 = M_Idle \<and> msys_pc t 1 = M_Idle \<and> msys_pc t 2 = M_Idle) \<and>
      length (mpmc_buffer (msys_queue t)) = 8"
    "run mpmc_step (mpmc_schedule @ mpmc_finish) mpmc_sys_example = Some (es, t)"
    by (rule mpmc_run_state)
  have "msys_pc t i = M_Idle" for i
    using t(3) mpmc_run_others [OF t(4), of i] by (cases "i \<in> {0, 1, 2}") (auto simp: mpmc_sys_example_def mpmc_schedule_def mpmc_finish_def)
  with t that show thesis by blast
qed

lemma mpmc_example_size [simp]: "mpmc_size (msys_queue mpmc_sys_example) = 8"
  by (simp add: mpmc_sys_example_def mpmc_example_def)

lemma mpmc_refines_cells_witness:
  "\<exists>t. reaches mpmc_step mpmc_sys_example [Enqueued 0 7, Dequeued 0 7, Enqueued 1 8] t \<and>
     mpmc_cells t = [Consumed, Full 8, Free, Free, Free, Free, Free, Free]"
proof -
  obtain t where t: "reaches mpmc_step mpmc_sys_example [Enqueued 0 7, Dequeued 0 7, Enqueued 1 8] t"
    "mpmc_bounded t" by (rule mpmc_finished_run)
  have "accepts ticket_spec [Enqueued 0 7, Dequeued 0 7, Enqueued 1 8]
      (replicate (unat (8::size_t)) Free) = Some (mpmc_cells t)"
    using mpmc_refines_cells [OF mpmc_sys_example_init t] by simp
  moreover have "accepts ticket_spec [Enqueued 0 7, Dequeued 0 7, Enqueued 1 (8::nat)]
      (replicate (unat (8::size_t)) Free) = Some [Consumed, Full 8, Free, Free, Free, Free, Free, Free]"
    by code_simp
  ultimately show ?thesis using t(1) by auto
qed

lemma mpmc_exactly_once_witness:
  "\<exists>es t. reaches mpmc_step mpmc_sys_example es t \<and> at_ticket 0 (dequeued es) = [7] \<and>
     at_ticket 0 (enqueued es) = at_ticket 0 (dequeued es)"
proof -
  obtain t where t: "reaches mpmc_step mpmc_sys_example [Enqueued 0 7, Dequeued 0 7, Enqueued 1 8] t"
    "mpmc_bounded t" by (rule mpmc_finished_run)
  show ?thesis using t(1) mpmc_exactly_once [OF mpmc_sys_example_init t, of 0] by (intro exI conjI) auto
qed

text \<open>The state after one lap: everything was dequeued, all slots are used up.\<close>

lemma mpmc_lap_run:
  obtains es t where "reaches mpmc_step mpmc_sys_example es t" "mpmc_bounded t"
    "length (enqueued es) = 8" "mpmc_IsEmpty (msys_queue t)" "msys_tails t = 8"
    "msys_pc t 0 = M_Idle" "msys_pc t 1 = M_Idle"
proof -
  have "case run mpmc_step mpmc_one_lap mpmc_sys_example of None \<Rightarrow> False
    | Some (es, t) \<Rightarrow> msys_tails t < 20 \<and> msys_heads t < 20 \<and> length (enqueued es) = 8 \<and>
        mpmc_IsEmpty (msys_queue t) \<and> msys_tails t = 8 \<and> msys_pc t 0 = M_Idle \<and> msys_pc t 1 = M_Idle"
    by code_simp
  then show thesis using that by (elim mpmc_run_state) blast
qed

lemma mpmc_lifetime_bound_witness:
  "\<exists>es t. reaches mpmc_step mpmc_sys_example es t \<and> length (enqueued es) = 8 \<and>
     length (enqueued es) \<le> unat (mpmc_size (msys_queue mpmc_sys_example))"
proof -
  obtain es t where t: "reaches mpmc_step mpmc_sys_example es t" "mpmc_bounded t"
    "length (enqueued es) = 8" by (rule mpmc_lap_run)
  show ?thesis using t mpmc_lifetime_bound [OF mpmc_sys_example_init t(1,2)] by blast
qed

lemma mpmc_TryEmplace_alone_witness:
  "\<exists>es t. reaches mpmc_step mpmc_sys_example es t \<and> mpmc_IsEmpty (msys_queue t) \<and>
     map_option (\<lambda>(e, v). (e, msys_queue v, msys_pc v)) (run mpmc_step (alone_TryEmplace 0 9 3) t) =
      Some ([TryEmplace_false], msys_queue t, msys_pc t)"
proof -
  obtain es t where t: "reaches mpmc_step mpmc_sys_example es t" "mpmc_bounded t"
    "mpmc_IsEmpty (msys_queue t)" "msys_tails t = 8" "msys_pc t 0 = M_Idle" by (rule mpmc_lap_run)
  show ?thesis
    using t mpmc_TryEmplace_alone [OF mpmc_sys_example_init t(1,2,5), of 9] mpmc_reach_size [OF t(1)]
    by auto
qed

lemma mpmc_TryDequeue_alone_witness:
  "\<exists>es t. reaches mpmc_step mpmc_sys_example es t \<and>
     map_option fst (run mpmc_step (alone_TryDequeue 0 6) t) = Some [Dequeued 0 7]"
proof -
  have "case run mpmc_step (alone_TryEmplace 0 7 5) mpmc_sys_example of None \<Rightarrow> False
    | Some (es, t) \<Rightarrow> msys_tails t < 20 \<and> msys_heads t < 20 \<and> msys_pc t 0 = M_Idle \<and>
        msys_heads t = 0 \<and> mpmc_head (msys_queue t) = 0 \<and> mpmc_cells t ! 0 = Full 7" by code_simp
  then obtain es t where t: "reaches mpmc_step mpmc_sys_example es t" "mpmc_bounded t"
    "msys_pc t 0 = M_Idle \<and> msys_heads t = 0 \<and> mpmc_head (msys_queue t) = 0 \<and> mpmc_cells t ! 0 = Full 7"
    by (elim mpmc_run_state) blast
  show ?thesis
    using t mpmc_TryDequeue_alone [OF mpmc_sys_example_init t(1,2), of 0] mpmc_reach_size [OF t(1)]
    by auto
qed

lemma mpmc_Emplace_stuck_witness:
  "\<exists>t v. reaches mpmc_step mpmc_sys_example [] t \<and> reaches mpmc_step t [TryEmplace_false] v \<and>
     msys_pc v 8 = E_Spin 8 9"
proof -
  let ?fill = "concat (map (\<lambda>i. [MCall i (Emplace 9), MStep i False]) [0..<9])"
  have "case run mpmc_step ?fill mpmc_sys_example of None \<Rightarrow> False
    | Some (es, t) \<Rightarrow> msys_tails t < 20 \<and> msys_heads t < 20 \<and> es = [] \<and> msys_pc t 8 = E_Spin 8 9 \<and>
        (case run mpmc_step (alone_TryEmplace 9 9 3 @ [MStep 8 False]) t of None \<Rightarrow> False
         | Some (fs, v) \<Rightarrow> fs = [TryEmplace_false] \<and> msys_tails v < 20 \<and> msys_heads v < 20)" by code_simp
  then obtain es t where t: "reaches mpmc_step mpmc_sys_example es t" "mpmc_bounded t"
    "es = [] \<and> msys_pc t 8 = E_Spin 8 9 \<and>
        (case run mpmc_step (alone_TryEmplace 9 9 3 @ [MStep 8 False]) t of None \<Rightarrow> False
         | Some (fs, v) \<Rightarrow> fs = [TryEmplace_false] \<and> msys_tails v < 20 \<and> msys_heads v < 20)"
    by (elim mpmc_run_state) blast
  then obtain v where v: "run mpmc_step (alone_TryEmplace 9 9 3 @ [MStep 8 False]) t = Some ([TryEmplace_false], v)"
    "mpmc_bounded v" by (auto simp: mpmc_bounded_def split: option.splits)
  have size: "mpmc_size (msys_queue t) = 8" using mpmc_reach_size [OF t(1)] by simp
  have "msys_pc v 8 = E_Spin 8 9"
    by (rule mpmc_Emplace_stuck [OF mpmc_sys_example_init t(1) _ _ run_reaches [OF v(1)] v(2)])
      (use t(3) size in simp_all)
  then show ?thesis using t run_reaches [OF v(1)] by blast
qed

lemma mpmc_race_free_witness:
  "\<exists>es t. reaches mpmc_step mpmc_sys_example es t \<and> mpmc_touches (msys_pc t 1) = Some 1 \<and>
     mpmc_touches (msys_pc t 2) = Some 0 \<and> mpmc_GetIndex (msys_queue t) 1 \<noteq> mpmc_GetIndex (msys_queue t) 0"
proof -
  have "case run mpmc_step mpmc_schedule mpmc_sys_example of None \<Rightarrow> False
    | Some (es, t) \<Rightarrow> msys_tails t < 20 \<and> msys_heads t < 20 \<and>
        mpmc_touches (msys_pc t 1) = Some 1 \<and> mpmc_touches (msys_pc t 2) = Some 0" by code_simp
  then obtain es t where t: "reaches mpmc_step mpmc_sys_example es t" "mpmc_bounded t"
    "mpmc_touches (msys_pc t 1) = Some 1 \<and> mpmc_touches (msys_pc t 2) = Some 0"
    by (elim mpmc_run_state) blast
  show ?thesis using t mpmc_race_free [OF mpmc_sys_example_init t(1,2), of 1 2 1 0] by auto
qed

lemma mpmc_destructor_sound_witness:
  "\<exists>es t. reaches mpmc_step mpmc_sys_example es t \<and>
     map_option slot_data (slot_destructor (mpmc_buffer (msys_queue t) ! 1)) = Some Raw"
proof -
  obtain t where t: "reaches mpmc_step mpmc_sys_example [Enqueued 0 7, Dequeued 0 7, Enqueued 1 8] t"
    "mpmc_bounded t" "\<forall>i. msys_pc t i = M_Idle" "length (mpmc_buffer (msys_queue t)) = 8"
    by (rule mpmc_finished_run)
  then have "mpmc_buffer (msys_queue t) ! 1 \<in> set (mpmc_buffer (msys_queue t))" by simp
  with mpmc_destructor_sound [OF mpmc_sys_example_init t(1,2)] t(1,3) show ?thesis
    by (intro exI conjI) auto
qed

lemma mpmc_GetSize_tickets_witness:
  "\<exists>es t. reaches mpmc_step mpmc_sys_example es t \<and> msys_tails t = 0 \<and> msys_heads t = 1 \<and>
     unat (mpmc_GetSize (msys_queue t)) = 2 ^ 64 - 1 \<and> \<not> mpmc_IsEmpty (msys_queue t)"
proof -
  have "case run mpmc_step [MCall 2 Dequeue, MStep 2 False] mpmc_sys_example of None \<Rightarrow> False
    | Some (es, t) \<Rightarrow> msys_tails t < 20 \<and> msys_heads t < 20 \<and> msys_tails t = 0 \<and> msys_heads t = 1"
    by code_simp
  then obtain es t where t: "reaches mpmc_step mpmc_sys_example es t" "mpmc_bounded t"
    "msys_tails t = 0 \<and> msys_heads t = 1"
    by (elim mpmc_run_state) blast
  show ?thesis using t mpmc_GetSize_tickets [OF mpmc_sys_example_init t(1,2)] by auto
qed

end
