(* ===== verification/Spin_Lock.thy ===== *)
theory Spin_Lock
  imports Prelude
begin

text \<open>
  \<open>SpinLock\<close> (lock/spin_lock.h) and the static dispatch of its base \<open>Lock\<close> (lock/lock.h): the
  three operations as programs over the atomic flag \<open>locked_\<close>, the contract \<open>mutex\<close> that the
  clients of a lock rely on, and mutual exclusion and progress for any number of threads.
\<close>

section \<open>The operations\<close>

text \<open>
  A thread inside \<open>Lock\<close> is at the exchange or in the waiting loop; inside \<open>TryLock\<close> it is at
  the load or, when that saw a free lock, at the exchange (the conjunction short-circuits).
\<close>

datatype spin_pc = S_Exchange | S_Wait

datatype try_pc = T_Load | T_Exchange

text \<open>
  One access of \<open>Lock\<close> on the flag: \<open>None\<close> when the operation returns, otherwise where it
  continues, and the new flag. \<open>Wait\<close> (utils/wait.h) only pauses the thread.
\<close>

fun spin_Lock_step :: "spin_pc \<Rightarrow> bool \<Rightarrow> spin_pc option \<times> bool" where
  "spin_Lock_step S_Exchange locked = (if \<not> locked then None else Some S_Wait, True)"
| "spin_Lock_step S_Wait locked = (if locked then Some S_Wait else Some S_Exchange, locked)"

text \<open>One access of \<open>TryLock\<close>: its result, or where it continues, and the new flag.\<close>

fun spin_TryLock_step :: "try_pc \<Rightarrow> bool \<Rightarrow> (bool + try_pc) \<times> bool" where
  "spin_TryLock_step T_Load locked = (if \<not> locked then Inr T_Exchange else Inl False, locked)"
| "spin_TryLock_step T_Exchange locked = (Inl (\<not> locked), True)"

definition spin_Unlock :: "bool \<Rightarrow> bool" where
  "spin_Unlock locked = False"

text \<open>
  \<open>Lock<Derived>\<close> casts itself to \<open>Derived\<close> and calls its \<open>Lock\<close> and \<open>Unlock\<close>; \<open>SpinLock\<close> is the
  derived class that the library has.
\<close>

record ('p, 'l) lock_class =
  Derived_Lock :: "'p \<Rightarrow> 'l \<Rightarrow> 'p option \<times> 'l"
  Derived_Lock_entry :: 'p
  Derived_Unlock :: "'l \<Rightarrow> 'l"

definition SpinLock :: "(spin_pc, bool) lock_class" where
  "SpinLock = \<lparr>Derived_Lock = spin_Lock_step, Derived_Lock_entry = S_Exchange, Derived_Unlock = spin_Unlock\<rparr>"

definition Lock_lock :: "('p, 'l) lock_class \<Rightarrow> 'p \<Rightarrow> 'l \<Rightarrow> 'p option \<times> 'l" where
  "Lock_lock Derived = Derived_Lock Derived"

definition Lock_unlock :: "('p, 'l) lock_class \<Rightarrow> 'l \<Rightarrow> 'l" where
  "Lock_unlock Derived = Derived_Unlock Derived"

section \<open>The contract of a lock\<close>

text \<open>
  What a client may rely on: acquiring turns a free lock into a held one, waiting leaves the
  lock as it is, and releasing frees it.
\<close>

locale mutex =
  fixes acquire :: "'p \<Rightarrow> 'l \<Rightarrow> 'p option \<times> 'l"
    and release :: "'l \<Rightarrow> 'l"
    and held :: "'l \<Rightarrow> bool"
  assumes acquired: "acquire p l = (None, l') \<Longrightarrow> \<not> held l \<and> held l'"
    and waiting: "acquire p l = (Some p', l') \<Longrightarrow> held l' = held l"
    and released: "\<not> held (release l)"
begin

text \<open>A section that the lock protects is left by one thread before another enters it.\<close>

lemma acquire_excludes: "held l \<Longrightarrow> fst (acquire p l) \<noteq> None"
  using acquired [of p l "snd (acquire p l)"] by (metis prod.collapse)

end

lemma spin_Lock_step_None: "spin_Lock_step p l = (None, l') \<Longrightarrow> \<not> l \<and> l'"
  by (cases p) (auto split: if_splits)

lemma spin_Lock_step_Some: "spin_Lock_step p l = (Some p', l') \<Longrightarrow> l' = l"
  by (cases p) (auto split: if_splits)

interpretation spin: mutex spin_Lock_step spin_Unlock "\<lambda>locked. locked"
  by unfold_locales (auto simp: spin_Unlock_def dest: spin_Lock_step_None spin_Lock_step_Some)

section \<open>Any number of threads\<close>

datatype spin_thread = Outside | Locking spin_pc | Trying try_pc | Inside

record spin_sys =
  ssys_locked :: bool
  ssys_thread :: "nat \<Rightarrow> spin_thread"

datatype spin_choice = SLock nat | STryLock nat | SUnlock nat | SStep nat

datatype spin_event = Acquired nat | TryLock_false nat | Released nat

fun spin_step :: "spin_choice \<Rightarrow> spin_sys \<Rightarrow> (spin_event list \<times> spin_sys) option" where
  "spin_step (SLock i) s =
     (if ssys_thread s i = Outside
      then Some ([], s\<lparr>ssys_thread := (ssys_thread s)(i := Locking S_Exchange)\<rparr>) else None)"
| "spin_step (STryLock i) s =
     (if ssys_thread s i = Outside
      then Some ([], s\<lparr>ssys_thread := (ssys_thread s)(i := Trying T_Load)\<rparr>) else None)"
| "spin_step (SUnlock i) s =
     (if ssys_thread s i = Inside
      then Some ([Released i], s\<lparr>ssys_locked := spin_Unlock (ssys_locked s),
                                ssys_thread := (ssys_thread s)(i := Outside)\<rparr>) else None)"
| "spin_step (SStep i) s =
     (case ssys_thread s i of
        Locking p \<Rightarrow>
          (case spin_Lock_step p (ssys_locked s) of
             (None, l) \<Rightarrow> Some ([Acquired i], s\<lparr>ssys_locked := l, ssys_thread := (ssys_thread s)(i := Inside)\<rparr>)
           | (Some p', l) \<Rightarrow> Some ([], s\<lparr>ssys_locked := l, ssys_thread := (ssys_thread s)(i := Locking p')\<rparr>))
      | Trying p \<Rightarrow>
          (case spin_TryLock_step p (ssys_locked s) of
             (Inl True, l) \<Rightarrow> Some ([Acquired i], s\<lparr>ssys_locked := l, ssys_thread := (ssys_thread s)(i := Inside)\<rparr>)
           | (Inl False, l) \<Rightarrow> Some ([TryLock_false i], s\<lparr>ssys_locked := l, ssys_thread := (ssys_thread s)(i := Outside)\<rparr>)
           | (Inr p', l) \<Rightarrow> Some ([], s\<lparr>ssys_locked := l, ssys_thread := (ssys_thread s)(i := Trying p')\<rparr>))
      | _ \<Rightarrow> None)"

definition spin_init :: "spin_sys \<Rightarrow> bool" where
  "spin_init s \<longleftrightarrow> \<not> ssys_locked s \<and> (\<forall>i. ssys_thread s i = Outside)"

text \<open>The specification: the owner of the lock.\<close>

fun owner_spec :: "spin_event \<Rightarrow> nat option \<Rightarrow> nat option option" where
  "owner_spec (Acquired i) own = (if own = None then Some (Some i) else None)"
| "owner_spec (Released i) own = (if own = Some i then Some None else None)"
| "owner_spec (TryLock_false i) own = (if own = Some i then None else Some own)"

definition spin_rel :: "spin_sys \<Rightarrow> nat option \<Rightarrow> bool" where
  "spin_rel s own \<longleftrightarrow> (\<forall>i. ssys_thread s i = Inside \<longleftrightarrow> own = Some i) \<and>
     (ssys_locked s \<longleftrightarrow> own \<noteq> None)"

lemma spin_rel_keep:
  "spin_rel s own \<Longrightarrow> th i \<noteq> Inside \<Longrightarrow> ssys_thread s i \<noteq> Inside \<Longrightarrow> th = (ssys_thread s)(i := th i) \<Longrightarrow>
     spin_rel (s\<lparr>ssys_thread := th\<rparr>) own"
  unfolding spin_rel_def by simp (metis fun_upd_other)

lemma spin_rel_take:
  "spin_rel s own \<Longrightarrow> \<not> ssys_locked s \<Longrightarrow>
     own = None \<and> spin_rel (s\<lparr>ssys_locked := True, ssys_thread := (ssys_thread s)(i := Inside)\<rparr>) (Some i)"
  by (cases own) (simp_all add: spin_rel_def eq_commute)

lemma spin_rel_free:
  "spin_rel s own \<Longrightarrow> ssys_thread s i = Inside \<Longrightarrow>
     own = Some i \<and> spin_rel (s\<lparr>ssys_locked := False, ssys_thread := (ssys_thread s)(i := Outside)\<rparr>) None"
  by (cases own) (simp_all add: spin_rel_def)

lemma spin_rel_step:
  assumes rel: "spin_rel s own" and step: "spin_step c s = Some (e, t)"
  shows "\<exists>own'. accepts owner_spec e own = Some own' \<and> spin_rel t own'"
proof -
  note keep = spin_rel_keep [OF rel, of "(ssys_thread s)(i := th)" i for i th, simplified]
  note take = spin_rel_take [OF rel]
  have out: "own \<noteq> Some i" if "ssys_thread s i \<noteq> Inside" for i
    using rel that by (auto simp: spin_rel_def)
  have same: "s\<lparr>ssys_locked := b\<rparr> = s" if "ssys_locked s = b" for b using that by (cases s) simp
  show ?thesis
  proof (cases c)
    case (SLock i)
    then show ?thesis using step keep [of "Locking S_Exchange" i] by (simp split: if_splits)
  next
    case (STryLock i)
    then show ?thesis using step keep [of "Trying T_Load" i] by (simp split: if_splits)
  next
    case (SUnlock i)
    then show ?thesis using step spin_rel_free [OF rel, of i] by (auto simp: spin_Unlock_def split: if_splits)
  next
    case (SStep i)
    with step show ?thesis
    proof (cases "ssys_thread s i")
      case (Locking p)
      then show ?thesis
        using step SStep keep [of _ i] take [of i] by (cases p; cases "ssys_locked s"; auto simp: same)
    next
      case (Trying p)
      then show ?thesis
        using step SStep keep [of _ i] take [of i] out [of i] by (cases p; cases "ssys_locked s"; auto simp: same)
    qed simp_all
  qed
qed

interpretation spin_sys: simulation spin_step "\<lambda>s own. spin_init s \<and> own = None" spin_rel owner_spec
proof
  show "spin_init s \<and> a = None \<Longrightarrow> spin_rel s a" for s a
    by (simp add: spin_init_def spin_rel_def)
qed (rule spin_rel_step)

text \<open>
  Property C26. Mutual exclusion: in every interleaving of \<open>Lock\<close>, \<open>TryLock\<close> and \<open>Unlock\<close> by any
  number of threads, acquisitions and releases alternate, by the same thread; at most one
  thread is inside, and the flag is set exactly while one is.
\<close>

theorem spin_mutual_exclusion:
  assumes "spin_init s" "reaches spin_step s es t"
  shows "\<exists>own. accepts owner_spec es None = Some own \<and>
    (\<forall>i. ssys_thread t i = Inside \<longleftrightarrow> own = Some i) \<and> (ssys_locked t \<longleftrightarrow> own \<noteq> None)"
  using spin_sys.simulates [of s None es t] assms by (auto simp: spin_rel_def)

lemma spin_waits:
  assumes "ssys_locked s" "ssys_thread s i = Locking p"
  shows "\<exists>t. run spin_step (replicate n (SStep i)) s = Some ([], t) \<and> ssys_locked t \<and>
    (\<exists>p'. ssys_thread t i = Locking p')"
  using assms
proof (induction n arbitrary: s p)
  case (Suc n)
  obtain u where "spin_step (SStep i) s = Some ([], u)" "ssys_locked u" "ssys_thread u i = Locking S_Wait"
    using Suc.prems by (cases p) auto
  with Suc.IH [of u S_Wait] show ?case by auto
qed simp

text \<open>
  Progress of \<open>Lock\<close>: a thread in \<open>Lock\<close> takes a free lock within two of its own
  steps; while the lock is held it never returns, however many steps it takes.
\<close>

theorem spin_Lock_progress:
  assumes "ssys_thread s i = Locking p"
  shows "if ssys_locked s
    then \<exists>t. run spin_step (replicate n (SStep i)) s = Some ([], t) \<and> ssys_locked t \<and>
      (\<exists>p'. ssys_thread t i = Locking p')
    else \<exists>m \<le> 2. map_option fst (run spin_step (replicate m (SStep i)) s) = Some [Acquired i]"
proof (cases "ssys_locked s")
  case False
  let ?m = "if p = S_Exchange then 1 else 2 :: nat"
  have "?m \<le> 2 \<and> map_option fst (run spin_step (replicate ?m (SStep i)) s) = Some [Acquired i]"
    using assms False by (cases p) (simp_all add: numeral_2_eq_2)
  then have "\<exists>m \<le> 2. map_option fst (run spin_step (replicate m (SStep i)) s) = Some [Acquired i]" ..
  with False show ?thesis by simp
qed (use spin_waits [OF _ assms] in simp)

text \<open>
  \<open>TryLock\<close>, undisturbed, answers within two steps: true and the lock is taken if
  it was free, false and nothing changes if it was held.
\<close>

theorem spin_TryLock_alone:
  assumes "ssys_thread s i = Outside"
  shows "if ssys_locked s
    then map_option (\<lambda>(e, t). (e, ssys_locked t, ssys_thread t)) (run spin_step [STryLock i, SStep i] s) =
      Some ([TryLock_false i], True, ssys_thread s)
    else map_option (\<lambda>(e, t). (e, ssys_locked t, ssys_thread t)) (run spin_step [STryLock i, SStep i, SStep i] s) =
      Some ([Acquired i], True, (ssys_thread s)(i := Inside))"
  using assms by (auto simp: fun_upd_idem)

section \<open>Concrete runs\<close>

definition spin_example :: spin_sys where
  "spin_example = \<lparr>ssys_locked = False, ssys_thread = (\<lambda>i. Outside)\<rparr>"

text \<open>
  Two threads race for the lock: the loser of the exchange waits until the winner leaves, while
  a third one is told false.
\<close>

definition spin_schedule :: "spin_choice list" where
  "spin_schedule = [SLock 0, SLock 1, SStep 1, SStep 0, STryLock 2, SStep 2, SStep 0, SUnlock 1, SStep 0, SStep 0]"

lemma spin_mutual_exclusion_witness:
  "\<exists>t. reaches spin_step spin_example [Acquired 1, TryLock_false 2, Released 1, Acquired 0] t \<and>
     ssys_thread t 0 = Inside \<and> ssys_thread t 1 \<noteq> Inside \<and> ssys_locked t"
proof -
  have "map_option fst (run spin_step spin_schedule spin_example) =
    Some [Acquired 1, TryLock_false 2, Released 1, Acquired 0]" by code_simp
  then obtain t where t: "run spin_step spin_schedule spin_example =
    Some ([Acquired 1, TryLock_false 2, Released 1, Acquired 0], t)" by auto
  have "spin_init spin_example" by (simp add: spin_init_def spin_example_def)
  from spin_mutual_exclusion [OF this run_reaches [OF t]] show ?thesis
    using run_reaches [OF t] by auto
qed

lemma spin_Lock_progress_witness:
  "\<exists>m \<le> 2. map_option fst (run spin_step (replicate m (SStep 0)) (spin_example\<lparr>ssys_thread := (\<lambda>i. Locking S_Wait)\<rparr>)) =
     Some [Acquired 0]"
  using spin_Lock_progress [of "spin_example\<lparr>ssys_thread := (\<lambda>i. Locking S_Wait)\<rparr>" 0 S_Wait]
  by (simp add: spin_example_def)

lemma spin_TryLock_alone_witness:
  "map_option (\<lambda>(e, t). (e, ssys_locked t, ssys_thread t 3)) (run spin_step [STryLock 3, SStep 3, SStep 3] spin_example) =
     Some ([Acquired 3], True, Inside)"
proof -
  have "map_option (\<lambda>(e, t). (e, ssys_locked t, ssys_thread t)) (run spin_step [STryLock 3, SStep 3, SStep 3] spin_example) =
      Some ([Acquired 3], True, (ssys_thread spin_example)(3 := Inside))"
    using spin_TryLock_alone [of spin_example 3] by (simp add: spin_example_def)
  then show ?thesis by (auto simp del: spin_step.simps)
qed

end
