(* ===== verification/Locked_Stack.thy ===== *)
theory Locked_Stack
  imports Spin_Lock
begin

text \<open>
  \<open>UnboundedLockedStack\<close> (stack/unbounded_locked_stack.h): a \<open>std::stack\<close> whose operations run
  under a lock guard. The lock is any class that keeps the contract \<open>mutex\<close>; the shared list
  is read and written access by access between acquiring and releasing.
\<close>

section \<open>The operations\<close>

text \<open>\<open>std::stack\<close> is a list with its top first; \<open>top\<close> and \<open>pop\<close> on the empty one are undefined.\<close>

datatype 'a stack_op = Op_IsEmpty | Op_Emplace 'a | Op_Push_copy 'a | Op_Push_move 'a | Op_Pop

text \<open>
  Program points: in the constructor of the lock guard, at the first access of the body, at the
  two accesses of a successful \<open>Pop\<close> (moving the top out, removing it), and in the destructor
  of the lock guard.
\<close>

datatype ('a, 'p) lstack_pc =
    L_Idle
  | L_Acquire "'a stack_op" 'p
  | L_Body "'a stack_op"
  | L_Top
  | L_PopTop 'a
  | L_Release

datatype 'a stack_event = Pushed 'a | Popped 'a | Pop_false | IsEmpty_is bool | Stack_fault

text \<open>The accesses to the stack; \<open>moved\<close> is what moving out of an element leaves behind.\<close>

fun lstack_body :: "('a \<Rightarrow> 'a) \<Rightarrow> ('a, 'p) lstack_pc \<Rightarrow> 'a list \<Rightarrow>
    ('a stack_event list \<times> ('a, 'p) lstack_pc \<times> 'a list) option" where
  "lstack_body moved (L_Body Op_IsEmpty) st = Some ([IsEmpty_is (st = [])], L_Release, st)"
| "lstack_body moved (L_Body (Op_Emplace x)) st = Some ([Pushed x], L_Release, x # st)"
| "lstack_body moved (L_Body (Op_Push_copy x)) st = Some ([Pushed x], L_Release, x # st)"
| "lstack_body moved (L_Body (Op_Push_move x)) st = Some ([Pushed x], L_Release, x # st)"
| "lstack_body moved (L_Body Op_Pop) st =
     Some (if st \<noteq> [] then ([], L_Top, st) else ([Pop_false], L_Release, st))"
| "lstack_body moved L_Top st =
     Some (case st of x # xs \<Rightarrow> ([], L_PopTop x, moved x # xs) | [] \<Rightarrow> ([Stack_fault], L_Release, st))"
| "lstack_body moved (L_PopTop x) st =
     Some (case st of y # xs \<Rightarrow> ([Popped x], L_Release, xs) | [] \<Rightarrow> ([Stack_fault], L_Release, st))"
| "lstack_body moved pc st = None"

section \<open>Any number of threads\<close>

record ('a, 'p, 'l) lstack_sys =
  lsys_lock :: 'l
  lsys_stack :: "'a list"
  lsys_pc :: "nat \<Rightarrow> ('a, 'p) lstack_pc"

datatype 'a lstack_choice = LCall nat "'a stack_op" | LStep nat

fun lstack_step :: "('p, 'l) lock_class \<Rightarrow> ('a \<Rightarrow> 'a) \<Rightarrow> 'a lstack_choice \<Rightarrow> ('a, 'p, 'l) lstack_sys \<Rightarrow>
    ('a stack_event list \<times> ('a, 'p, 'l) lstack_sys) option" where
  "lstack_step Lock moved (LCall i f) s =
     (case lsys_pc s i of
        L_Idle \<Rightarrow> Some ([], s\<lparr>lsys_pc := (lsys_pc s)(i := L_Acquire f (Derived_Lock_entry Lock))\<rparr>)
      | _ \<Rightarrow> None)"
| "lstack_step Lock moved (LStep i) s =
     (case lsys_pc s i of
        L_Idle \<Rightarrow> None
      | L_Acquire f p \<Rightarrow>
          (case Lock_lock Lock p (lsys_lock s) of
             (None, l) \<Rightarrow> Some ([], s\<lparr>lsys_lock := l, lsys_pc := (lsys_pc s)(i := L_Body f)\<rparr>)
           | (Some p', l) \<Rightarrow> Some ([], s\<lparr>lsys_lock := l, lsys_pc := (lsys_pc s)(i := L_Acquire f p')\<rparr>))
      | L_Release \<Rightarrow>
          Some ([], s\<lparr>lsys_lock := Lock_unlock Lock (lsys_lock s), lsys_pc := (lsys_pc s)(i := L_Idle)\<rparr>)
      | pc \<Rightarrow>
          (case lstack_body moved pc (lsys_stack s) of
             None \<Rightarrow> None
           | Some (e, pc', st) \<Rightarrow> Some (e, s\<lparr>lsys_stack := st, lsys_pc := (lsys_pc s)(i := pc')\<rparr>)))"

definition lstack_init :: "('l \<Rightarrow> bool) \<Rightarrow> ('a, 'p, 'l) lstack_sys \<Rightarrow> bool" where
  "lstack_init held s \<longleftrightarrow> \<not> held (lsys_lock s) \<and> lsys_stack s = [] \<and> (\<forall>i. lsys_pc s i = L_Idle)"

section \<open>The specification and the simulation\<close>

fun stack_spec :: "'a stack_event \<Rightarrow> 'a list \<Rightarrow> 'a list option" where
  "stack_spec (Pushed x) st = Some (x # st)"
| "stack_spec (Popped x) st = (case st of y # ys \<Rightarrow> if y = x then Some ys else None | [] \<Rightarrow> None)"
| "stack_spec Pop_false st = (if st = [] then Some st else None)"
| "stack_spec (IsEmpty_is b) st = (if b = (st = []) then Some st else None)"
| "stack_spec Stack_fault st = None"

fun critical :: "('a, 'p) lstack_pc \<Rightarrow> bool" where
  "critical L_Idle \<longleftrightarrow> False"
| "critical (L_Acquire f p) \<longleftrightarrow> False"
| "critical pc \<longleftrightarrow> True"

text \<open>The stack that a thread inside sees, related to the abstract one.\<close>

fun stack_view :: "('a \<Rightarrow> 'a) \<Rightarrow> ('a, 'p) lstack_pc \<Rightarrow> 'a list \<Rightarrow> 'a list \<Rightarrow> bool" where
  "stack_view moved L_Top st items \<longleftrightarrow> items = st \<and> st \<noteq> []"
| "stack_view moved (L_PopTop x) st items \<longleftrightarrow> (\<exists>xs. st = moved x # xs \<and> items = x # xs)"
| "stack_view moved pc st items \<longleftrightarrow> items = st"

definition lstack_rel :: "('l \<Rightarrow> bool) \<Rightarrow> ('a \<Rightarrow> 'a) \<Rightarrow> ('a, 'p, 'l) lstack_sys \<Rightarrow> 'a list \<Rightarrow> bool" where
  "lstack_rel held moved s items \<longleftrightarrow>
     (\<exists>own. (\<forall>i. critical (lsys_pc s i) \<longleftrightarrow> own = Some i) \<and> (held (lsys_lock s) \<longleftrightarrow> own \<noteq> None) \<and>
        (case own of None \<Rightarrow> items = lsys_stack s
         | Some i \<Rightarrow> stack_view moved (lsys_pc s i) (lsys_stack s) items))"

text \<open>A step of the body keeps the view and is a step of the specification.\<close>

lemma lstack_body_view:
  assumes "lstack_body moved pc st = Some (e, pc', st')" "stack_view moved pc st items"
  shows "\<exists>items'. accepts stack_spec e items = Some items' \<and> stack_view moved pc' st' items' \<and> critical pc'"
proof (cases pc)
  case (L_Body f)
  then show ?thesis using assms by (cases f) (auto split: if_splits)
qed (use assms in \<open>auto split: list.splits\<close>)

lemma lstack_rel_outside:
  assumes "lstack_rel held moved s items" "\<not> critical (lsys_pc s i)" "\<not> critical pc" "held l = held (lsys_lock s)"
  shows "lstack_rel held moved (s\<lparr>lsys_lock := l, lsys_pc := (lsys_pc s)(i := pc)\<rparr>) items"
proof -
  obtain own where own: "\<And>j. critical (lsys_pc s j) \<longleftrightarrow> own = Some j" "held (lsys_lock s) \<longleftrightarrow> own \<noteq> None"
    "case own of None \<Rightarrow> items = lsys_stack s | Some i \<Rightarrow> stack_view moved (lsys_pc s i) (lsys_stack s) items"
    using assms(1) by (auto simp: lstack_rel_def)
  have "own \<noteq> Some i" using own(1) assms(2) by blast
  then have "(\<forall>j. critical (((lsys_pc s)(i := pc)) j) \<longleftrightarrow> own = Some j) \<and> (held l \<longleftrightarrow> own \<noteq> None) \<and>
    (case own of None \<Rightarrow> items = lsys_stack s
     | Some j \<Rightarrow> stack_view moved (((lsys_pc s)(i := pc)) j) (lsys_stack s) items)"
    using own assms(3,4) by (auto split: option.splits)
  then show ?thesis by (auto simp: lstack_rel_def)
qed

lemma lstack_rel_inside:
  assumes "lstack_rel held moved s items" "critical (lsys_pc s i)"
  shows "held (lsys_lock s)" "stack_view moved (lsys_pc s i) (lsys_stack s) items"
    "critical (lsys_pc s j) \<Longrightarrow> j = i"
  using assms by (auto simp: lstack_rel_def split: option.splits)

lemma lstack_relI:
  assumes "\<And>j. critical (lsys_pc s j) \<longleftrightarrow> j = i" "held (lsys_lock s)"
    "stack_view moved (lsys_pc s i) (lsys_stack s) items"
  shows "lstack_rel held moved s items"
  using assms unfolding lstack_rel_def by (intro exI [of _ "Some i"]) auto

context mutex
begin

lemma lstack_rel_step:
  assumes rel: "lstack_rel held moved s items"
    and step: "lstack_step \<lparr>Derived_Lock = acquire, Derived_Lock_entry = entry, Derived_Unlock = release\<rparr> moved c s = Some (e, t)"
  shows "\<exists>items'. accepts stack_spec e items = Some items' \<and> lstack_rel held moved t items'"
proof (cases c)
  case (LCall i f)
  then show ?thesis
    using step lstack_rel_outside [OF rel, of i "L_Acquire f entry" "lsys_lock s"]
    by (auto split: lstack_pc.splits)
next
  case (LStep i)
  show ?thesis
  proof (cases "critical (lsys_pc s i)")
    case False
    then obtain f p where p: "lsys_pc s i = L_Acquire f p"
      using step LStep by (cases "lsys_pc s i") auto
    show ?thesis
    proof (cases "acquire p (lsys_lock s)")
      case (Pair r l)
      show ?thesis
      proof (cases r)
        case None
        with Pair acquired have l: "\<not> held (lsys_lock s)" "held l" by auto
        then have "\<not> critical (lsys_pc s j)" and "items = lsys_stack s" for j
          using rel by (auto simp: lstack_rel_def split: option.splits)
        with l(2) have "lstack_rel held moved (s\<lparr>lsys_lock := l, lsys_pc := (lsys_pc s)(i := L_Body f)\<rparr>) items"
          by (intro lstack_relI [of _ i]) auto
        then show ?thesis using step LStep p Pair None by (auto simp: Lock_lock_def)
      next
        case (Some p')
        with Pair waiting have "held l = held (lsys_lock s)" by auto
        then show ?thesis
          using step LStep p Pair Some lstack_rel_outside [OF rel, of i "L_Acquire f p'" l]
          by (auto simp: Lock_lock_def)
      qed
    qed
  next
    case True
    note inside = lstack_rel_inside [OF rel True]
    show ?thesis
    proof (cases "lsys_pc s i = L_Release")
      case True
      have "\<not> critical (((lsys_pc s)(i := L_Idle)) j)" for j using inside(3) [of j] by (cases "j = i") auto
      then have "lstack_rel held moved (s\<lparr>lsys_lock := release (lsys_lock s), lsys_pc := (lsys_pc s)(i := L_Idle)\<rparr>) items"
        using inside(2) True released unfolding lstack_rel_def
        by (intro exI [of _ None]) simp
      then show ?thesis using step LStep True by (auto simp: Lock_unlock_def)
    next
      case False
      then obtain pc' st where b: "lstack_body moved (lsys_pc s i) (lsys_stack s) = Some (e, pc', st)"
        "t = s\<lparr>lsys_stack := st, lsys_pc := (lsys_pc s)(i := pc')\<rparr>"
        using step LStep True by (cases "lsys_pc s i") (auto simp del: lstack_body.simps split: option.splits)
      obtain items' where a: "accepts stack_spec e items = Some items'" "stack_view moved pc' st items'" "critical pc'"
        using lstack_body_view [OF b(1) inside(2)] by blast
      have "critical (lsys_pc t j) \<longleftrightarrow> j = i" for j
        using b(2) a(3) inside(3) [of j] by (cases "j = i") auto
      then have "lstack_rel held moved t items'"
        using b(2) a(2) inside(1) by (intro lstack_relI [of _ i]) simp_all
      with a(1) show ?thesis by blast
    qed
  qed
qed

lemma lstack_rel_reaches:
  "reaches (lstack_step \<lparr>Derived_Lock = acquire, Derived_Lock_entry = entry, Derived_Unlock = release\<rparr> moved) s es t \<Longrightarrow>
     lstack_rel held moved s items \<Longrightarrow>
     \<exists>items'. accepts stack_spec es items = Some items' \<and> lstack_rel held moved t items'"
proof (induction rule: reaches.induct)
  case (reaches_step s es t c e u)
  then obtain items' where b: "accepts stack_spec es items = Some items'" "lstack_rel held moved t items'" by blast
  with lstack_rel_step [OF b(2) reaches_step.hyps(2)] show ?case by (auto simp: accepts_append)
qed simp

end

lemma lstack_rel_init: "lstack_init held s \<Longrightarrow> lstack_rel held moved s []"
  unfolding lstack_init_def lstack_rel_def by (intro exI [of _ None]) simp

lemma lstack_reaches:
  assumes "mutex (Derived_Lock Lock) (Derived_Unlock Lock) held" "lstack_init held s"
    "reaches (lstack_step Lock moved) s es t"
  shows "\<exists>items. accepts stack_spec es [] = Some items \<and> lstack_rel held moved t items"
proof -
  have "Lock = \<lparr>Derived_Lock = Derived_Lock Lock, Derived_Lock_entry = Derived_Lock_entry Lock,
      Derived_Unlock = Derived_Unlock Lock\<rparr>" by simp
  with assms(3) have "reaches (lstack_step \<lparr>Derived_Lock = Derived_Lock Lock,
      Derived_Lock_entry = Derived_Lock_entry Lock, Derived_Unlock = Derived_Unlock Lock\<rparr> moved) s es t"
    by metis
  then show ?thesis
    by (rule mutex.lstack_rel_reaches [OF assms(1) _ lstack_rel_init [OF assms(2)]])
qed

section \<open>The properties\<close>

text \<open>
  Property C23. Linearizability: with any lock that keeps the contract \<open>mutex\<close>, every
  interleaving of \<open>Emplace\<close>, \<open>Push\<close>, \<open>Pop\<close> and \<open>IsEmpty\<close> by any number of threads is a run
  of a sequential stack, with neither \<open>top\<close> nor \<open>pop\<close> ever called on an empty one; when no
  thread is inside, the list holds exactly the elements of that run.
\<close>

theorem lstack_linearizable:
  assumes "mutex (Derived_Lock Lock) (Derived_Unlock Lock) held" "lstack_init held s"
    and "reaches (lstack_step Lock moved) s es t"
  shows "\<exists>items. accepts stack_spec es [] = Some items \<and>
    ((\<forall>i. \<not> critical (lsys_pc t i)) \<longrightarrow> lsys_stack t = items)"
  using lstack_reaches [OF assms] by (auto simp: lstack_rel_def split: option.splits)

text \<open>
  The lock guard excludes: at most one thread is between the construction and the
  destruction of its lock guard, and the lock is held exactly then.
\<close>

theorem lstack_exclusive:
  assumes "mutex (Derived_Lock Lock) (Derived_Unlock Lock) held" "lstack_init held s"
    and "reaches (lstack_step Lock moved) s es t"
  shows "(critical (lsys_pc t i) \<and> critical (lsys_pc t j) \<longrightarrow> i = j) \<and>
    (held (lsys_lock t) \<longleftrightarrow> (\<exists>k. critical (lsys_pc t k)))"
  using lstack_reaches [OF assms] by (auto simp: lstack_rel_def)

text \<open>
  Under \<open>SpinLock\<close> an operation that runs undisturbed on a free lock finishes and
  does what its name says: \<open>Push\<close> puts the element on top, \<open>Pop\<close> takes the top away or answers
  false on the empty stack, \<open>IsEmpty\<close> answers; the lock is free again.
\<close>

theorem lstack_alone:
  assumes "lsys_pc s i = L_Idle" "\<not> lsys_lock s"
  shows "map_option (\<lambda>(e, t). (e, lsys_stack t, lsys_lock t, lsys_pc t i))
      (run (lstack_step SpinLock moved) (LCall i (Op_Push_copy x) # replicate 3 (LStep i)) s) =
      Some ([Pushed x], x # lsys_stack s, False, L_Idle) \<and>
    map_option (\<lambda>(e, t). (e, lsys_stack t, lsys_lock t, lsys_pc t i))
      (run (lstack_step SpinLock moved) (LCall i Op_IsEmpty # replicate 3 (LStep i)) s) =
      Some ([IsEmpty_is (lsys_stack s = [])], lsys_stack s, False, L_Idle) \<and>
    map_option (\<lambda>(e, t). (e, lsys_stack t, lsys_lock t, lsys_pc t i))
      (run (lstack_step SpinLock moved) (LCall i Op_Pop # replicate (if lsys_stack s = [] then 3 else 5) (LStep i)) s) =
      Some (case lsys_stack s of [] \<Rightarrow> ([Pop_false], [], False, L_Idle) | y # ys \<Rightarrow> ([Popped y], ys, False, L_Idle))"
  using assms
  by (simp add: SpinLock_def Lock_lock_def Lock_unlock_def spin_Unlock_def numeral_nat split: list.split)

section \<open>The stack under \<open>SpinLock\<close> as the library names it\<close>

text \<open>
  \<open>UnboundedSpinLockedStack<T>\<close> is \<open>UnboundedLockedStack<T, Lock<SpinLock>>\<close>: its member \<open>lock_\<close> is the base
  class and no \<open>SpinLock\<close>, and its constructor leaves the memory in which \<open>static_cast<SpinLock*>\<close> then finds
  \<open>locked_\<close> as it was. The model takes that flag as an argument.
\<close>

definition UnboundedSpinLockedStack :: "bool \<Rightarrow> ('a, spin_pc, bool) lstack_sys" where
  "UnboundedSpinLockedStack locked = \<lparr>lsys_lock = locked, lsys_stack = [], lsys_pc = (\<lambda>i. L_Idle)\<rparr>"

lemma SpinLock_mutex: "mutex (Derived_Lock SpinLock) (Derived_Unlock SpinLock) (\<lambda>locked. locked)"
  using spin.mutex_axioms by (simp add: SpinLock_def)

lemma spin_stack_held:
  assumes "reaches (lstack_step SpinLock moved) s es t" "lsys_lock s" "\<forall>i. \<not> critical (lsys_pc s i)"
  shows "es = [] \<and> lsys_lock t \<and> (\<forall>i. \<not> critical (lsys_pc t i)) \<and> (\<forall>i. lsys_pc s i \<noteq> L_Idle \<longrightarrow> lsys_pc t i \<noteq> L_Idle)"
  using assms
proof (induction rule: reaches.induct)
  case (reaches_step s es t c e u)
  then have ih: "es = []" "lsys_lock t" "\<And>i. \<not> critical (lsys_pc t i)"
    "\<And>i. lsys_pc s i \<noteq> L_Idle \<Longrightarrow> lsys_pc t i \<noteq> L_Idle" by auto
  show ?case
  proof (cases c)
    case (LCall i f)
    then show ?thesis using reaches_step.hyps(2) ih by (auto split: lstack_pc.splits if_splits)
  next
    case (LStep i)
    show ?thesis
    proof (cases "lsys_pc t i")
      case (L_Acquire f p)
      then show ?thesis
        using LStep reaches_step.hyps(2) ih by (cases p) (auto simp: SpinLock_def Lock_lock_def split: if_splits)
    qed (use LStep reaches_step.hyps(2) ih(3) [of i] in simp_all)
  qed
qed simp

text \<open>
  Property C24. \<open>UnboundedSpinLockedStack\<close> is a stack if the memory of its \<open>locked_\<close> happens to be zero; if it is not, no
  operation ever takes effect or returns, in any interleaving of any number of threads.
\<close>

theorem spin_stack_uninitialised:
  fixes moved :: "'a \<Rightarrow> 'a"
  assumes "reaches (lstack_step SpinLock moved) (UnboundedSpinLockedStack locked) es t"
  shows "if locked then es = [] \<and> (\<forall>i fs u. lsys_pc t i \<noteq> L_Idle \<and> reaches (lstack_step SpinLock moved) t fs u \<longrightarrow>
      lsys_pc u i \<noteq> L_Idle)
    else \<exists>items. accepts stack_spec es [] = Some items"
proof (cases locked)
  case True
  have "es = [] \<and> lsys_lock t \<and> (\<forall>i. \<not> critical (lsys_pc t i))"
    using spin_stack_held [OF assms] True by (simp add: UnboundedSpinLockedStack_def)
  then show ?thesis using spin_stack_held [of moved t] True by auto
next
  case False
  then have "lstack_init (\<lambda>locked. locked) (UnboundedSpinLockedStack locked :: ('a, spin_pc, bool) lstack_sys)"
    by (simp add: lstack_init_def UnboundedSpinLockedStack_def)
  from lstack_reaches [OF SpinLock_mutex this assms] False show ?thesis by (auto simp: lstack_rel_def)
qed

section \<open>Concrete runs\<close>

definition lstack_example :: "(nat, spin_pc, bool) lstack_sys" where
  "lstack_example = \<lparr>lsys_lock = False, lsys_stack = [], lsys_pc = (\<lambda>i. L_Idle)\<rparr>"

text \<open>Thread 0 pushes 7 and is interrupted before it releases; thread 1 waits, then pops.\<close>

definition lstack_schedule :: "nat lstack_choice list" where
  "lstack_schedule =
     [LCall 0 (Op_Push_copy 7), LCall 1 Op_Pop, LStep 0, LStep 1, LStep 0, LStep 1, LStep 0,
      LStep 1, LStep 1, LStep 1, LStep 1, LStep 1, LStep 1]"

lemma lstack_example_init: "lstack_init (\<lambda>locked. locked) lstack_example"
  by (simp add: lstack_init_def lstack_example_def)

lemma lstack_linearizable_witness:
  "\<exists>t. reaches (lstack_step SpinLock id) lstack_example [Pushed 7, Popped 7] t \<and>
     accepts stack_spec [Pushed 7, Popped (7::nat)] [] = Some []"
proof -
  have "map_option fst (run (lstack_step SpinLock id) lstack_schedule lstack_example) =
    Some [Pushed 7, Popped 7]" by code_simp
  then obtain t where t: "run (lstack_step SpinLock id) lstack_schedule lstack_example =
    Some ([Pushed 7, Popped 7], t)" by auto
  show ?thesis
    using lstack_linearizable [OF SpinLock_mutex lstack_example_init run_reaches [OF t]] run_reaches [OF t]
    by auto
qed

lemma spin_stack_uninitialised_witness:
  "\<exists>es t. run (lstack_step SpinLock id) lstack_schedule (UnboundedSpinLockedStack True) = Some (es, t) \<and> es = [] \<and>
     lsys_pc t 1 \<noteq> L_Idle"
proof -
  have "map_option (\<lambda>(es, t). lsys_pc t 1 \<noteq> L_Idle) (run (lstack_step SpinLock id) lstack_schedule (UnboundedSpinLockedStack True)) =
    Some True" by code_simp
  then obtain es t where t: "run (lstack_step SpinLock id) lstack_schedule (UnboundedSpinLockedStack True) = Some (es, t)"
    "lsys_pc t 1 \<noteq> L_Idle" by auto
  then show ?thesis using spin_stack_uninitialised [OF run_reaches [OF t(1)]] by simp
qed

lemma lstack_exclusive_witness:
  "\<exists>es t. reaches (lstack_step SpinLock id) lstack_example es t \<and>
     critical (lsys_pc t 0) \<and> lsys_lock t \<and> \<not> critical (lsys_pc t 1)"
proof -
  have "map_option (\<lambda>(es, t). critical (lsys_pc t 0)) (run (lstack_step SpinLock id) (take 6 lstack_schedule) lstack_example) =
    Some True" by code_simp
  then obtain es t where t: "run (lstack_step SpinLock id) (take 6 lstack_schedule) lstack_example = Some (es, t)"
    "critical (lsys_pc t 0)" by auto
  show ?thesis
    using lstack_exclusive [OF SpinLock_mutex lstack_example_init run_reaches [OF t(1)], of 0 1]
      run_reaches [OF t(1)] t(2) by auto
qed

lemma lstack_alone_witness:
  "map_option fst (run (lstack_step SpinLock id) (LCall 3 Op_Pop # replicate 5 (LStep 3))
     (lstack_example\<lparr>lsys_stack := [7, 8]\<rparr>)) = Some [Popped 7]"
proof -
  have "map_option (\<lambda>(e, t). (e, lsys_stack t, lsys_lock t, lsys_pc t 3))
      (run (lstack_step SpinLock id) (LCall 3 Op_Pop # replicate 5 (LStep 3)) (lstack_example\<lparr>lsys_stack := [7, 8]\<rparr>)) =
      Some ([Popped 7], [8], False, L_Idle)"
    using lstack_alone [of "lstack_example\<lparr>lsys_stack := [7, 8]\<rparr>" 3 id 0] by (simp add: lstack_example_def)
  then show ?thesis by (auto simp del: lstack_step.simps)
qed

end
