(* ===== verification/Atomic_Memcpy.thy ===== *)
theory Atomic_Memcpy
  imports Prelude
begin

text \<open>
  The byte-wise atomic copies of utils/atomic_memcpy.h: whole words of type \<open>uintmax_t\<close> first,
  the remaining bytes one by one. The model keeps the order of the accesses, which is what a
  concurrent reader or writer can observe, and relates the two loops to \<open>memcpy\<close>.
\<close>

type_synonym byte = "8 word"

section \<open>The loops\<close>

text \<open>\<open>static_cast<T*>(p)[i]\<close> for a type of \<open>sz\<close> bytes: the bytes from \<open>i * sz\<close> on.\<close>

definition object_at :: "nat \<Rightarrow> nat \<Rightarrow> byte list \<Rightarrow> byte list" where
  "object_at sz i p = take sz (drop (i * sz) p)"

definition put_object :: "nat \<Rightarrow> nat \<Rightarrow> byte list \<Rightarrow> byte list \<Rightarrow> byte list" where
  "put_object sz i v p = take (i * sz) p @ v @ drop (i * sz + sz) p"

text \<open>
  \<open>details::atomic_memcpy_load<T>\<close>: every iteration loads one object of \<open>src\<close> atomically and
  stores it plainly to \<open>dest\<close>; \<open>details::atomic_memcpy_store<T>\<close> the other way round.
\<close>

function details_load :: "nat \<Rightarrow> byte list \<Rightarrow> byte list \<Rightarrow> nat \<Rightarrow> nat \<Rightarrow> byte list" where
  "details_load sz dest src i to =
     (if i < to then details_load sz (put_object sz i (object_at sz i src) dest) src (i + 1) to
      else dest)"
  by pat_completeness auto

termination by (relation "measure (\<lambda>(sz, dest, src, i, to). to - i)") auto

function details_store :: "nat \<Rightarrow> byte list \<Rightarrow> byte list \<Rightarrow> nat \<Rightarrow> nat \<Rightarrow> byte list" where
  "details_store sz dest src i to =
     (if i < to then details_store sz (put_object sz i (object_at sz i src) dest) src (i + 1) to
      else dest)"
  by pat_completeness auto

termination by (relation "measure (\<lambda>(sz, dest, src, i, to). to - i)") auto

declare details_load.simps [simp del] details_store.simps [simp del]

text \<open>\<open>sizeof(MaxBitsType)\<close> is 8.\<close>

definition atomic_memcpy_load :: "byte list \<Rightarrow> byte list \<Rightarrow> nat \<Rightarrow> byte list" where
  "atomic_memcpy_load dest src count =
     (let max_bits_type_count = count div 8;
          max_bits_type_bytes_count = max_bits_type_count * 8;
          dest = details_load 8 dest src 0 max_bits_type_count
      in details_load 1 dest src max_bits_type_bytes_count count)"

definition atomic_memcpy_store :: "byte list \<Rightarrow> byte list \<Rightarrow> nat \<Rightarrow> byte list" where
  "atomic_memcpy_store dest src count =
     (let max_bits_type_count = count div 8;
          max_bits_type_bytes_count = max_bits_type_count * 8;
          dest = details_store 8 dest src 0 max_bits_type_count
      in details_store 1 dest src max_bits_type_bytes_count count)"

section \<open>The accesses, one by one\<close>

text \<open>
  An access is an offset and a length; the list of the accesses of a copy of \<open>count\<close> bytes, in
  the order in which the loops make them.
\<close>

definition memcpy_accesses :: "nat \<Rightarrow> (nat \<times> nat) list" where
  "memcpy_accesses count = map (\<lambda>i. (i * 8, 8)) [0..<count div 8] @ map (\<lambda>i. (i, 1)) [count div 8 * 8..<count]"

fun copy_access :: "nat \<times> nat \<Rightarrow> byte list \<Rightarrow> byte list \<Rightarrow> byte list" where
  "copy_access (off, len) src dest = take off dest @ take len (drop off src) @ drop (off + len) dest"

lemma details_load_accesses:
  "details_load sz dest src i to = fold (\<lambda>a d. copy_access a src d) (map (\<lambda>i. (i * sz, sz)) [i..<to]) dest"
proof (induction sz dest src i to rule: details_load.induct)
  case (1 sz dest src i to)
  then show ?case
    by (subst details_load.simps) (simp add: upt_rec [of i to] put_object_def object_at_def)
qed

lemma details_store_load: "details_store = details_load"
proof (intro ext)
  fix sz dest src i to
  show "details_store sz dest src i to = details_load sz dest src i to"
  proof (induction sz dest src i to rule: details_load.induct)
    case (1 sz dest src i to)
    then show ?case
      by (subst details_load.simps, subst details_store.simps) simp
  qed
qed

lemma memcpy_by_accesses:
  "atomic_memcpy_load dest src count = fold (\<lambda>a d. copy_access a src d) (memcpy_accesses count) dest"
  "atomic_memcpy_store dest src count = fold (\<lambda>a d. copy_access a src d) (memcpy_accesses count) dest"
  by (simp_all add: atomic_memcpy_load_def atomic_memcpy_store_def details_store_load
      details_load_accesses memcpy_accesses_def Let_def)

text \<open>A sequence of adjacent accesses copies the interval that they cover.\<close>

fun adjacent :: "nat \<Rightarrow> (nat \<times> nat) list \<Rightarrow> nat \<Rightarrow> bool" where
  "adjacent from [] to \<longleftrightarrow> from = to"
| "adjacent from ((off, len) # as) to \<longleftrightarrow> off = from \<and> adjacent (off + len) as to"

lemma adjacent_append: "adjacent i as j \<Longrightarrow> adjacent j bs k \<Longrightarrow> adjacent i (as @ bs) k"
  by (induction i as j rule: adjacent.induct) auto

lemma adjacent_le: "adjacent i as j \<Longrightarrow> i \<le> j"
  by (induction i as j rule: adjacent.induct) auto

lemma adjacent_map: "i \<le> j \<Longrightarrow> adjacent (i * sz) (map (\<lambda>i. (i * sz, sz)) [i..<j]) (j * sz)"
proof (induction j)
  case (Suc j)
  then show ?case
    using adjacent_append [of "i * sz" "map (\<lambda>i. (i * sz, sz)) [i..<j]" "j * sz" "[(j * sz, sz)]"]
    by (cases "i = Suc j") (auto simp: add.commute)
qed simp

lemma memcpy_accesses_adjacent: "adjacent 0 (memcpy_accesses count) count"
proof -
  have "adjacent 0 (map (\<lambda>i. (i * 8, 8)) [0..<count div 8]) (count div 8 * 8)"
    using adjacent_map [of 0 "count div 8" 8] by simp
  moreover have "adjacent (count div 8 * 8) (map (\<lambda>i. (i, 1)) [count div 8 * 8..<count]) count"
    using adjacent_map [of "count div 8 * 8" count 1] by simp
  ultimately show ?thesis unfolding memcpy_accesses_def by (rule adjacent_append)
qed

lemma fold_adjacent:
  assumes "adjacent i as j" "j \<le> length src" "j \<le> length dest"
  shows "fold (\<lambda>a d. copy_access a src d) as dest = take i dest @ take (j - i) (drop i src) @ drop j dest"
  using assms
proof (induction i as j arbitrary: dest rule: adjacent.induct)
  case (2 i off len as j)
  have le: "i + len \<le> j" using 2(2) adjacent_le by auto
  let ?d = "copy_access (off, len) src dest"
  have off: "off = i" using 2(2) by simp
  have len: "length ?d = length dest" using le 2(3,4) off by simp
  have tk: "take (i + len) ?d = take i dest @ take len (drop i src)"
    using le 2(3,4) off by simp
  have dr: "drop j ?d = drop j dest" using le 2(3,4) off by simp
  have split: "take (j - i) (drop i src) = take len (drop i src) @ take (j - (i + len)) (drop (i + len) src)"
    using le take_add [of len "j - (i + len)" "drop i src"] by (simp add: add.commute)
  have "fold (\<lambda>a d. copy_access a src d) as ?d =
      take (i + len) ?d @ take (j - (i + len)) (drop (i + len) src) @ drop j ?d"
    using 2(1) [of ?d] 2(2-4) len off by simp
  then show ?case using tk dr split by simp
qed simp

text \<open>
  Property C39. Both copies are \<open>memcpy\<close>: for objects of at least \<open>count\<close> bytes they replace the
  first \<open>count\<close> bytes of the destination by those of the source and leave the rest; the word
  loop and the byte loop cover every byte once.
\<close>

theorem atomic_memcpy_correct:
  assumes "count \<le> length src" "count \<le> length dest"
  shows "atomic_memcpy_load dest src count = take count src @ drop count dest \<and>
    atomic_memcpy_store dest src count = take count src @ drop count dest"
  using fold_adjacent [OF memcpy_accesses_adjacent assms] by (simp add: memcpy_by_accesses)

lemma atomic_memcpy_correct_witness:
  "atomic_memcpy_load (replicate 12 0) (map of_nat [1..<12]) 11 = map of_nat [1..<12] @ [0]"
  using atomic_memcpy_correct [of 11 "map of_nat [1..<12]" "replicate 12 0"] by (simp add: numeral_nat)

end
