(* ===== verification/Seq_Lock.thy ===== *)
theory Seq_Lock
  imports Atomic_Memcpy
begin

text \<open>
  \<open>SeqLock\<close> and the reader-writer protocol around it (lock/seq_lock.h): a 32-bit counter that
  is odd while a writer is inside. The protocol is the same in \<open>SeqLockAtomic\<close> and in
  \<open>AtomicMulticastQueueMessage\<close> and is modelled once, over the accesses that the two classes
  make to what the lock protects; the contract \<open>seqlocked\<close> says what those accesses compute.
\<close>

section \<open>The lock\<close>

type_synonym counter = uint32

definition seq_IsLocked :: "counter \<Rightarrow> bool" where
  "seq_IsLocked seq \<longleftrightarrow> seq AND 1 \<noteq> 0"

definition seq_Load :: "counter \<Rightarrow> counter" where
  "seq_Load cnt = cnt"

text \<open>
  \<open>Lock\<close>, one access at a time: loading the counter (again, after \<open>Wait\<close>, while it is locked),
  and the weak compare-exchange, which leaves the current value in \<open>seq\<close> when it fails. The
  result is the value that \<open>Lock\<close> returns or where it continues, and the new counter.
\<close>

datatype seq_lock_pc = SL_Load | SL_Cas counter

fun seq_Lock_step :: "bool \<Rightarrow> seq_lock_pc \<Rightarrow> counter \<Rightarrow> (counter + seq_lock_pc) \<times> counter" where
  "seq_Lock_step weak SL_Load cnt =
     (let seq = cnt in (Inr (if seq_IsLocked seq then SL_Load else SL_Cas seq), cnt))"
| "seq_Lock_step weak (SL_Cas seq) cnt =
     (if cnt = seq \<and> \<not> weak then (Inl seq, seq + 1)
      else (let seq = cnt in (Inr (if seq_IsLocked seq then SL_Load else SL_Cas seq), cnt)))"

lemma seq_Lock_step_cases:
  "seq_Lock_step weak p cnt = (Inr p', cnt') \<Longrightarrow> cnt' = cnt \<and> (\<forall>sq. p' = SL_Cas sq \<longrightarrow> \<not> seq_IsLocked sq)"
  "seq_Lock_step weak p cnt = (Inl sq, cnt') \<Longrightarrow> p = SL_Cas sq \<and> cnt = sq \<and> cnt' = sq + 1"
  by (cases p; auto simp: Let_def split: if_splits)+

definition seq_Unlock :: "counter \<Rightarrow> counter \<Rightarrow> counter" where
  "seq_Unlock seq cnt = seq + 2"

lemma seq_IsLocked_odd: "seq_IsLocked (of_nat v) \<longleftrightarrow> odd v"
proof -
  have "seq_IsLocked w \<longleftrightarrow> odd w" for w :: counter
    by (simp add: seq_IsLocked_def and_one_eq odd_iff_mod_2_eq_one)
  also have "odd (of_nat v :: counter) \<longleftrightarrow> odd v"
    using bit_unsigned_iff [of "of_nat v :: counter" 0, where ?'a = nat]
    by (simp add: bit_0 unsigned_of_nat even_take_bit_eq)
  finally show ?thesis .
qed

section \<open>Readers and writers\<close>

text \<open>
  The accesses to the protected object \<open>'m\<close>: a reader with local state \<open>'r\<close> makes accesses
  until it is done and then has a result; a loop that has to be repeated restarts it. A
  writer of \<open>'d\<close> makes accesses that change the object until it is done.
\<close>

record ('m, 'r, 'v, 'd, 'w) seq_ops =
  rd_done :: "'r \<Rightarrow> bool"
  rd_access :: "'m \<Rightarrow> 'r \<Rightarrow> 'r"
  rd_result :: "'r \<Rightarrow> 'v"
  rd_restart :: "'r \<Rightarrow> 'r"
  wr_begin :: "'d \<Rightarrow> 'w"
  wr_done :: "'w \<Rightarrow> bool"
  wr_access :: "'w \<Rightarrow> 'm \<Rightarrow> 'w \<times> 'm"

text \<open>
  A reader keeps \<open>seq0\<close> and, for the statements only, the version that it stands for: the
  number of changes of the counter so far, counted without wrap-around.
\<close>

datatype ('r, 'd, 'w) seq_pc =
    Q_Idle
  | R_Seq0 'r
  | R_Copy counter nat 'r
  | W_Lock 'd seq_lock_pc
  | W_Copy counter 'd 'w

text \<open>
  Events: a load returns a result and the counter \<open>seq0\<close>, with the versions at its first and
  at its last access to the counter; a store is complete.
\<close>

datatype ('v, 'd) seq_event = Loaded 'v counter nat nat | Stored 'd

record ('m, 'r, 'd, 'w) seq_sys =
  qsys_seq :: counter
  qsys_version :: nat
  qsys_mem :: 'm
  qsys_pc :: "nat \<Rightarrow> ('r, 'd, 'w) seq_pc"

datatype ('r, 'd) seq_choice = QLoad nat 'r | QStore nat 'd | QStep nat bool

fun seq_Load_step :: "('m, 'r, 'v, 'd, 'w) seq_ops \<Rightarrow> nat \<Rightarrow> ('r, 'd, 'w) seq_pc \<Rightarrow> counter \<Rightarrow> 'm \<Rightarrow>
    (('v, 'd) seq_event list \<times> ('r, 'd, 'w) seq_pc) option" where
  "seq_Load_step ops version (R_Seq0 r) cnt m = Some ([], R_Copy (seq_Load cnt) version r)"
| "seq_Load_step ops version (R_Copy seq0 v0 r) cnt m =
     (if \<not> rd_done ops r then Some ([], R_Copy seq0 v0 (rd_access ops m r))
      else (let seq1 = seq_Load cnt
            in if seq_IsLocked seq0 \<or> seq0 \<noteq> seq1 then Some ([], R_Seq0 (rd_restart ops r))
               else Some ([Loaded (rd_result ops r) seq0 v0 version], Q_Idle)))"
| "seq_Load_step ops version pc cnt m = None"

fun seq_Store_step :: "('m, 'r, 'v, 'd, 'w) seq_ops \<Rightarrow> bool \<Rightarrow> ('r, 'd, 'w) seq_pc \<Rightarrow> counter \<Rightarrow> 'm \<Rightarrow>
    (('v, 'd) seq_event list \<times> ('r, 'd, 'w) seq_pc \<times> counter \<times> 'm) option" where
  "seq_Store_step ops weak (W_Lock d p) cnt m =
     (case seq_Lock_step weak p cnt of
        (Inl seq, seq') \<Rightarrow> Some ([], W_Copy seq d (wr_begin ops d), seq', m)
      | (Inr p', seq') \<Rightarrow> Some ([], W_Lock d p', seq', m))"
| "seq_Store_step ops weak (W_Copy seq d w) cnt m =
     (if \<not> wr_done ops w then (case wr_access ops w m of (w', m') \<Rightarrow> Some ([], W_Copy seq d w', cnt, m'))
      else Some ([Stored d], Q_Idle, seq_Unlock seq cnt, m))"
| "seq_Store_step ops weak pc cnt m = None"

fun seq_step :: "('m, 'r, 'v, 'd, 'w) seq_ops \<Rightarrow> ('r \<Rightarrow> bool) \<Rightarrow> ('d \<Rightarrow> bool) \<Rightarrow> ('r, 'd) seq_choice \<Rightarrow>
    ('m, 'r, 'd, 'w) seq_sys \<Rightarrow> (('v, 'd) seq_event list \<times> ('m, 'r, 'd, 'w) seq_sys) option" where
  "seq_step ops fresh storable (QLoad i r) s =
     (case qsys_pc s i of
        Q_Idle \<Rightarrow> if fresh r then Some ([], s\<lparr>qsys_pc := (qsys_pc s)(i := R_Seq0 r)\<rparr>) else None
      | _ \<Rightarrow> None)"
| "seq_step ops fresh storable (QStore i d) s =
     (case qsys_pc s i of
        Q_Idle \<Rightarrow> if storable d then Some ([], s\<lparr>qsys_pc := (qsys_pc s)(i := W_Lock d SL_Load)\<rparr>) else None
      | _ \<Rightarrow> None)"
| "seq_step ops fresh storable (QStep i weak) s =
     (case seq_Load_step ops (qsys_version s) (qsys_pc s i) (qsys_seq s) (qsys_mem s) of
        Some (e, pc) \<Rightarrow> Some (e, s\<lparr>qsys_pc := (qsys_pc s)(i := pc)\<rparr>)
      | None \<Rightarrow>
         (case seq_Store_step ops weak (qsys_pc s i) (qsys_seq s) (qsys_mem s) of
            None \<Rightarrow> None
          | Some (e, pc, seq', m) \<Rightarrow> Some (e, s\<lparr>qsys_seq := seq', qsys_mem := m,
              qsys_version := qsys_version s + (if seq' = qsys_seq s then 0 else 1),
              qsys_pc := (qsys_pc s)(i := pc)\<rparr>)))"

lemma counter_of_nat_eq: "(of_nat v :: counter) = of_nat w \<Longrightarrow> v mod 2 ^ 32 = w mod 2 ^ 32"
  by (drule arg_cong [of _ _ unat]) (simp add: unsigned_of_nat take_bit_eq_mod)

definition seq_init :: "('m \<Rightarrow> bool) \<Rightarrow> ('m, 'r, 'd, 'w) seq_sys \<Rightarrow> 'm \<Rightarrow> bool" where
  "seq_init valid s m \<longleftrightarrow> qsys_seq s = 0 \<and> qsys_version s = 0 \<and> qsys_mem s = m \<and> valid m \<and>
     (\<forall>i. qsys_pc s i = Q_Idle)"

section \<open>The specification: an atomic register\<close>

text \<open>
  The register holds an object and the number of stores so far. A load returns the current
  value and twice that number, provided that fewer than \<open>2 ^ 32\<close> changes of the counter fell
  between its two looks at it; a store replaces the object.
\<close>

fun register_spec :: "('m \<Rightarrow> 'v) \<Rightarrow> ('d \<Rightarrow> 'm \<Rightarrow> 'm) \<Rightarrow> ('v, 'd) seq_event \<Rightarrow> 'm \<times> nat \<Rightarrow> ('m \<times> nat) option" where
  "register_spec value put (Loaded v seq0 v0 v1) (m, k) =
     (if v1 < v0 + 2 ^ 32 \<and> (v \<noteq> value m \<or> seq0 \<noteq> of_nat (2 * k)) then None else Some (m, k))"
| "register_spec value put (Stored d) (m, k) = Some (put d m, Suc k)"

section \<open>The contract of the accesses\<close>

text \<open>
  If the object does not change, the accesses of a reader compute \<open>value\<close>, and \<open>load m r\<close> is
  what it will have computed from where it stands; the accesses of a writer compute \<open>put\<close>,
  and \<open>store w m\<close> is the object when it will be done.
\<close>

locale seqlocked =
  fixes ops :: "('m, 'r, 'v, 'd, 'w) seq_ops"
    and fresh :: "'r \<Rightarrow> bool" and reading :: "'r \<Rightarrow> bool" and valid :: "'m \<Rightarrow> bool"
    and storable :: "'d \<Rightarrow> bool" and storing :: "'w \<Rightarrow> bool"
    and load :: "'m \<Rightarrow> 'r \<Rightarrow> 'v" and store :: "'w \<Rightarrow> 'm \<Rightarrow> 'm"
    and "value" :: "'m \<Rightarrow> 'v" and put :: "'d \<Rightarrow> 'm \<Rightarrow> 'm"
  assumes fresh_reading: "fresh r \<Longrightarrow> reading r"
    and fresh_load: "fresh r \<Longrightarrow> valid m \<Longrightarrow> load m r = value m"
    and restart: "reading r \<Longrightarrow> rd_done ops r \<Longrightarrow> fresh (rd_restart ops r)"
    and access_reading: "reading r \<Longrightarrow> valid m \<Longrightarrow> \<not> rd_done ops r \<Longrightarrow> reading (rd_access ops m r)"
    and access_load: "reading r \<Longrightarrow> valid m \<Longrightarrow> \<not> rd_done ops r \<Longrightarrow> load m (rd_access ops m r) = load m r"
    and done_load: "reading r \<Longrightarrow> rd_done ops r \<Longrightarrow> load m r = rd_result ops r"
    and begin_storing: "storable d \<Longrightarrow> storing (wr_begin ops d)"
    and write_storing: "storing w \<Longrightarrow> \<not> wr_done ops w \<Longrightarrow> storing (fst (wr_access ops w m))"
    and begin_store: "storable d \<Longrightarrow> valid m \<Longrightarrow> store (wr_begin ops d) m = put d m"
    and write_valid: "storing w \<Longrightarrow> valid m \<Longrightarrow> \<not> wr_done ops w \<Longrightarrow> valid (snd (wr_access ops w m))"
    and write_store: "storing w \<Longrightarrow> valid m \<Longrightarrow> \<not> wr_done ops w \<Longrightarrow> store (fst (wr_access ops w m)) (snd (wr_access ops w m)) = store w m"
    and done_store: "wr_done ops w \<Longrightarrow> store w m = m"
begin

text \<open>What holds of a thread, and how its store relates the object to the register.\<close>

fun thread_ok :: "'m \<Rightarrow> nat \<Rightarrow> ('r, 'd, 'w) seq_pc \<Rightarrow> bool" where
  "thread_ok m version (R_Seq0 r) \<longleftrightarrow> fresh r"
| "thread_ok m version (R_Copy seq0 v0 r) \<longleftrightarrow> reading r \<and> seq0 = of_nat v0 \<and> v0 \<le> version \<and>
     (v0 = version \<and> even version \<longrightarrow> load m r = value m)"
| "thread_ok m version (W_Lock d SL_Load) \<longleftrightarrow> storable d"
| "thread_ok m version (W_Lock d (SL_Cas seq)) \<longleftrightarrow> storable d \<and> \<not> seq_IsLocked seq"
| "thread_ok m version (W_Copy seq d w) \<longleftrightarrow> storing w"
| "thread_ok m version Q_Idle \<longleftrightarrow> True"

end

fun writing :: "('r, 'd, 'w) seq_pc \<Rightarrow> bool" where
  "writing (W_Copy seq d w) \<longleftrightarrow> True"
| "writing pc \<longleftrightarrow> False"

context seqlocked
begin

definition seq_obj :: "('m, 'r, 'd, 'w) seq_sys \<Rightarrow> 'm \<Rightarrow> bool" where
  "seq_obj s a \<longleftrightarrow> valid (qsys_mem s) \<and> qsys_seq s = of_nat (qsys_version s) \<and>
     (\<forall>i. thread_ok (qsys_mem s) (qsys_version s) (qsys_pc s i)) \<and>
     (\<exists>own. (\<forall>i. writing (qsys_pc s i) \<longleftrightarrow> own = Some i) \<and> (odd (qsys_version s) \<longleftrightarrow> own \<noteq> None) \<and>
        (case own of None \<Rightarrow> a = qsys_mem s
         | Some i \<Rightarrow> (\<exists>seq d w. qsys_pc s i = W_Copy seq d w \<and> qsys_seq s = seq + 1 \<and>
             store w (qsys_mem s) = put d a)))"

lemma seq_obj_init: "seq_init valid s a \<Longrightarrow> seq_obj s a"
  unfolding seq_init_def seq_obj_def by (auto intro!: exI [of _ None])

text \<open>A step that only changes the program counter of a thread that is not writing.\<close>

lemma seq_obj_local:
  assumes "seq_obj s a" "\<not> writing (qsys_pc s i)" "\<not> writing pc"
    "thread_ok (qsys_mem s) (qsys_version s) pc"
  shows "seq_obj (s\<lparr>qsys_pc := (qsys_pc s)(i := pc)\<rparr>) a"
proof -
  obtain own where own: "\<forall>j. writing (qsys_pc s j) \<longleftrightarrow> own = Some j" "odd (qsys_version s) \<longleftrightarrow> own \<noteq> None"
    "case own of None \<Rightarrow> a = qsys_mem s
     | Some i \<Rightarrow> (\<exists>seq d w. qsys_pc s i = W_Copy seq d w \<and> qsys_seq s = seq + 1 \<and>
         store w (qsys_mem s) = put d a)"
    using assms(1) by (auto simp: seq_obj_def)
  have "own \<noteq> Some i" using own(1) assms(2) by blast
  then have "(\<forall>j. writing (((qsys_pc s)(i := pc)) j) \<longleftrightarrow> own = Some j) \<and> (odd (qsys_version s) \<longleftrightarrow> own \<noteq> None) \<and>
    (case own of None \<Rightarrow> a = qsys_mem s
     | Some j \<Rightarrow> (\<exists>seq d w. ((qsys_pc s)(i := pc)) j = W_Copy seq d w \<and> qsys_seq s = seq + 1 \<and>
         store w (qsys_mem s) = put d a))"
    using own assms(3) by (auto split: option.splits)
  then show ?thesis using assms(1,4) by (auto simp: seq_obj_def)
qed

lemma thread_ok_newer: "thread_ok m v pc \<Longrightarrow> thread_ok m' (Suc v) pc"
  by (induction m v pc rule: thread_ok.induct) auto

lemma thread_ok_writing: "thread_ok m v pc \<Longrightarrow> odd v \<Longrightarrow> thread_ok m' v pc"
  by (induction m v pc rule: thread_ok.induct) auto

lemma seq_obj_load:
  assumes rel: "seq_obj s a"
    and step: "seq_Load_step ops (qsys_version s) (qsys_pc s i) (qsys_seq s) (qsys_mem s) = Some (e, pc)"
  shows "\<exists>b. accepts (register_spec value put) e (a, qsys_version s div 2) = Some (b, qsys_version s div 2) \<and>
    seq_obj (s\<lparr>qsys_pc := (qsys_pc s)(i := pc)\<rparr>) b"
proof -
  have ok: "thread_ok (qsys_mem s) (qsys_version s) (qsys_pc s i)" and valid: "valid (qsys_mem s)"
    and seq: "qsys_seq s = of_nat (qsys_version s)"
    and quiet: "even (qsys_version s) \<Longrightarrow> a = qsys_mem s"
    using rel by (auto simp: seq_obj_def split: option.splits)
  have local: "seq_obj (s\<lparr>qsys_pc := (qsys_pc s)(i := pc)\<rparr>) a"
    if "\<not> writing pc" "thread_ok (qsys_mem s) (qsys_version s) pc"
    using that step by (intro seq_obj_local [OF rel]) (cases "qsys_pc s i"; simp)+
  from step show ?thesis
  proof (cases "qsys_pc s i")
    case (R_Seq0 r)
    then show ?thesis using step local ok seq valid by (auto simp: seq_Load_def fresh_reading fresh_load)
  next
    case (R_Copy seq0 v0 r)
    note r = ok [unfolded R_Copy, simplified]
    consider "\<not> rd_done ops r" | "rd_done ops r" "seq_IsLocked seq0 \<or> seq0 \<noteq> qsys_seq s"
      | "rd_done ops r" "\<not> seq_IsLocked seq0" "seq0 = qsys_seq s" by blast
    then show ?thesis
    proof cases
      case 1
      then have e: "e = []" "pc = R_Copy seq0 v0 (rd_access ops (qsys_mem s) r)" using step R_Copy by auto
      moreover have "thread_ok (qsys_mem s) (qsys_version s) pc"
        using r access_reading [OF _ valid 1] access_load [OF _ valid 1] by (simp add: e)
      ultimately show ?thesis using local by auto
    next
      case 2
      then show ?thesis using step local R_Copy r by (auto simp: seq_Load_def restart)
    next
      case 3
      have e: "e = [Loaded (rd_result ops r) seq0 v0 (qsys_version s)]" "pc = Q_Idle"
        using step R_Copy 3 by (auto simp: seq_Load_def)
      have "rd_result ops r = value a \<and> seq0 = of_nat (2 * (qsys_version s div 2))"
        if "qsys_version s < v0 + 2 ^ 32"
      proof -
        have "(of_nat v0 :: counter) = of_nat (qsys_version s)" using r 3(3) seq by simp
        then have "v0 mod 2 ^ 32 = qsys_version s mod 2 ^ 32"
          by (rule counter_of_nat_eq)
        then have "v0 = qsys_version s"
          using mod_window_eq [of v0 "qsys_version s" "2 ^ 32"] r that by simp
        moreover have "even v0" using 3(2) r seq_IsLocked_odd by simp
        moreover have "seq0 = of_nat v0" using r by simp
        ultimately show ?thesis using r quiet done_load [of r] 3(1) by (metis dvd_mult_div_cancel)
      qed
      then show ?thesis using local e by auto
    qed
  qed simp_all
qed

lemma seq_obj_lock:
  assumes rel: "seq_obj s a" and W_Lock: "qsys_pc s i = W_Lock d p"
    and step: "seq_Store_step ops weak (qsys_pc s i) (qsys_seq s) (qsys_mem s) = Some (e, pc, seq', m)"
    and t: "t = s\<lparr>qsys_seq := seq', qsys_mem := m,
      qsys_version := qsys_version s + (if seq' = qsys_seq s then 0 else 1), qsys_pc := (qsys_pc s)(i := pc)\<rparr>"
  shows "\<exists>b. accepts (register_spec value put) e (a, qsys_version s div 2) = Some (b, qsys_version t div 2) \<and> seq_obj t b"
proof -
  obtain own where own: "\<And>j. writing (qsys_pc s j) \<longleftrightarrow> own = Some j" "odd (qsys_version s) \<longleftrightarrow> own \<noteq> None"
    "case own of None \<Rightarrow> a = qsys_mem s
     | Some i \<Rightarrow> (\<exists>seq d w. qsys_pc s i = W_Copy seq d w \<and> qsys_seq s = seq + 1 \<and>
         store w (qsys_mem s) = put d a)"
    and valid: "valid (qsys_mem s)" and seq: "qsys_seq s = of_nat (qsys_version s)"
    and ok: "\<And>j. thread_ok (qsys_mem s) (qsys_version s) (qsys_pc s j)"
    using rel by (auto simp: seq_obj_def)
  show ?thesis
  proof (cases "fst (seq_Lock_step weak p (qsys_seq s))")
    case (Inr p')
    note lk = seq_Lock_step_cases(1) [of weak p "qsys_seq s" p' "snd (seq_Lock_step weak p (qsys_seq s))"]
    have r: "e = []" "pc = W_Lock d p'" "seq' = qsys_seq s" "m = qsys_mem s"
      using step W_Lock Inr lk by (auto split: prod.splits)
    have storable: "storable d" using ok [of i] W_Lock by (cases p) auto
    have unlocked: "\<And>sq. p' = SL_Cas sq \<Longrightarrow> \<not> seq_IsLocked sq" using lk Inr by (simp add: prod_eq_iff)
    have "thread_ok (qsys_mem s) (qsys_version s) pc"
      using r(2) storable unlocked by (cases p') auto
    then show ?thesis using r seq_obj_local [OF rel, of i pc] W_Lock by (auto simp: t)
  next
    case (Inl sq)
    note cas = seq_Lock_step_cases(2) [of weak p "qsys_seq s" sq "snd (seq_Lock_step weak p (qsys_seq s))",
        unfolded prod_eq_iff, simplified, OF Inl]
    have r: "e = []" "pc = W_Copy sq d (wr_begin ops d)" "seq' = sq + 1" "m = qsys_mem s"
      using step W_Lock Inl cas by (auto split: prod.splits)
    have p: "p = SL_Cas sq" and sq: "sq = of_nat (qsys_version s)" and sq': "qsys_seq s = sq"
      using cas seq by simp_all
    have t': "qsys_seq t = of_nat (Suc (qsys_version s))" "qsys_version t = Suc (qsys_version s)"
      "qsys_mem t = qsys_mem s" "qsys_pc t = (qsys_pc s)(i := pc)"
      using r(2-4) seq sq by (simp_all add: t add.commute)
    have even: "even (qsys_version s)" using ok [of i] W_Lock p sq seq_IsLocked_odd by simp
    then have none: "own = None" using own(2) by simp
    have store: "store (wr_begin ops d) (qsys_mem s) = put d (qsys_mem s)" "storing (wr_begin ops d)"
      using ok [of i] W_Lock p valid begin_store begin_storing by auto
    have "seq_obj t a"
      unfolding seq_obj_def t'
    proof (intro conjI exI [of _ "Some i"])
      show "\<forall>j. writing (((qsys_pc s)(i := pc)) j) \<longleftrightarrow> Some i = Some j"
        using own(1) none r(2) by auto
      show "\<forall>j. thread_ok (qsys_mem s) (Suc (qsys_version s)) (((qsys_pc s)(i := pc)) j)"
        using thread_ok_newer [OF ok] r(2) store(2) by simp
    qed (use valid even own(3) none r sq store(1) in \<open>auto simp: add.commute\<close>)
    with r(1) t'(2) even show ?thesis by auto
  qed
qed

lemma seq_obj_copy:
  assumes rel: "seq_obj s a" and W_Copy: "qsys_pc s i = W_Copy sq d w"
    and step: "seq_Store_step ops weak (qsys_pc s i) (qsys_seq s) (qsys_mem s) = Some (e, pc, seq', m)"
    and t: "t = s\<lparr>qsys_seq := seq', qsys_mem := m,
      qsys_version := qsys_version s + (if seq' = qsys_seq s then 0 else 1), qsys_pc := (qsys_pc s)(i := pc)\<rparr>"
  shows "\<exists>b. accepts (register_spec value put) e (a, qsys_version s div 2) = Some (b, qsys_version t div 2) \<and> seq_obj t b"
proof -
  obtain own where own: "\<And>j. writing (qsys_pc s j) \<longleftrightarrow> own = Some j" "odd (qsys_version s) \<longleftrightarrow> own \<noteq> None"
    "case own of None \<Rightarrow> a = qsys_mem s
     | Some i \<Rightarrow> (\<exists>seq d w. qsys_pc s i = W_Copy seq d w \<and> qsys_seq s = seq + 1 \<and>
         store w (qsys_mem s) = put d a)"
    and valid: "valid (qsys_mem s)" and seq: "qsys_seq s = of_nat (qsys_version s)"
    and ok: "\<And>j. thread_ok (qsys_mem s) (qsys_version s) (qsys_pc s j)"
    using rel by (auto simp: seq_obj_def)
  have own': "own = Some i" using own(1) [of i] W_Copy by simp
  then have inside: "odd (qsys_version s)" "qsys_seq s = sq + 1" "store w (qsys_mem s) = put d a"
    "storing w"
    using own(2,3) W_Copy ok [of i] by auto
  show ?thesis
  proof (cases "wr_done ops w")
    case False
    then have r: "e = []" "pc = W_Copy sq d (fst (wr_access ops w (qsys_mem s)))" "seq' = qsys_seq s"
      "m = snd (wr_access ops w (qsys_mem s))"
      using step W_Copy by (auto split: prod.splits)
    have "seq_obj t a"
      unfolding seq_obj_def
    proof (intro conjI exI [of _ "Some i"])
      show "\<forall>j. writing (qsys_pc t j) \<longleftrightarrow> Some i = Some j"
        using own(1) own' r(2) by (auto simp: t)
      show "\<forall>j. thread_ok (qsys_mem t) (qsys_version t) (qsys_pc t j)"
        using thread_ok_writing [OF ok inside(1)] r write_storing [OF inside(4) False] by (simp add: t)
    qed (use valid inside r seq False write_valid write_store in \<open>auto simp: t\<close>)
    with r(1,3) show ?thesis by (simp add: t)
  next
    case True
    then have r: "e = [Stored d]" "pc = Q_Idle" "seq' = sq + 2" "m = qsys_mem s"
      using step W_Copy by (auto simp: seq_Unlock_def)
    have t': "qsys_seq t = of_nat (Suc (qsys_version s))" "qsys_version t = Suc (qsys_version s)"
      "qsys_mem t = qsys_mem s" "qsys_pc t = (qsys_pc s)(i := pc)"
      using r inside(2) seq by (simp_all add: t add.commute)
    have "seq_obj t (qsys_mem s)"
      unfolding seq_obj_def t'
    proof (intro conjI exI [of _ None])
      show "\<forall>j. writing (((qsys_pc s)(i := pc)) j) \<longleftrightarrow> None = Some j"
        using own(1) own' r(2) by auto
      show "\<forall>j. thread_ok (qsys_mem s) (Suc (qsys_version s)) (((qsys_pc s)(i := pc)) j)"
        using thread_ok_newer [OF ok] r(2) by simp
    qed (use valid inside(1) in auto)
    moreover have "put d a = qsys_mem s" using inside(3) done_store [OF True] by simp
    ultimately show ?thesis using r(1) t'(2) inside(1) by (auto elim: oddE)
  qed
qed

lemma seq_obj_store:
  assumes rel: "seq_obj s a"
    and step: "seq_Store_step ops weak (qsys_pc s i) (qsys_seq s) (qsys_mem s) = Some (e, pc, seq', m)"
    and t: "t = s\<lparr>qsys_seq := seq', qsys_mem := m,
      qsys_version := qsys_version s + (if seq' = qsys_seq s then 0 else 1), qsys_pc := (qsys_pc s)(i := pc)\<rparr>"
  shows "\<exists>b. accepts (register_spec value put) e (a, qsys_version s div 2) = Some (b, qsys_version t div 2) \<and> seq_obj t b"
  using seq_obj_lock [OF rel _ step t] seq_obj_copy [OF rel _ step t] step by (cases "qsys_pc s i") simp_all

lemma seq_obj_step:
  assumes rel: "seq_obj s a" and step: "seq_step ops fresh storable c s = Some (e, t)"
  shows "\<exists>b. accepts (register_spec value put) e (a, qsys_version s div 2) = Some (b, qsys_version t div 2) \<and> seq_obj t b"
proof (cases c)
  case (QLoad i r)
  then show ?thesis
    using step seq_obj_local [OF rel, of i "R_Seq0 r"] by (auto split: seq_pc.splits if_splits)
next
  case (QStore i d)
  then show ?thesis
    using step seq_obj_local [OF rel, of i "W_Lock d SL_Load"] by (auto split: seq_pc.splits if_splits)
next
  case (QStep i weak)
  show ?thesis
  proof (cases "seq_Load_step ops (qsys_version s) (qsys_pc s i) (qsys_seq s) (qsys_mem s)")
    case None
    then obtain pc seq' m where "seq_Store_step ops weak (qsys_pc s i) (qsys_seq s) (qsys_mem s) = Some (e, pc, seq', m)"
      "t = s\<lparr>qsys_seq := seq', qsys_mem := m,
        qsys_version := qsys_version s + (if seq' = qsys_seq s then 0 else 1), qsys_pc := (qsys_pc s)(i := pc)\<rparr>"
      using step QStep by (auto split: option.splits)
    then show ?thesis by (rule seq_obj_store [OF rel])
  next
    case (Some r)
    then show ?thesis using step QStep seq_obj_load [OF rel, of i e "snd r"] by (cases r) auto
  qed
qed

definition seq_rel :: "('m, 'r, 'd, 'w) seq_sys \<Rightarrow> 'm \<times> nat \<Rightarrow> bool" where
  "seq_rel s a \<longleftrightarrow> seq_obj s (fst a) \<and> snd a = qsys_version s div 2"

lemma seq_rel_step:
  assumes "seq_rel s a" "seq_step ops fresh storable c s = Some (e, t)"
  shows "\<exists>b. accepts (register_spec value put) e a = Some b \<and> seq_rel t b"
proof -
  obtain b where b: "accepts (register_spec value put) e (fst a, qsys_version s div 2) = Some (b, qsys_version t div 2)"
    "seq_obj t b" using seq_obj_step [OF _ assms(2), of "fst a"] assms(1) by (auto simp: seq_rel_def)
  moreover have "(fst a, qsys_version s div 2) = a" using assms(1) by (cases a) (simp add: seq_rel_def)
  ultimately show ?thesis by (intro exI [of _ "(b, qsys_version t div 2)"]) (simp add: seq_rel_def)
qed

lemma seq_rel_init: "seq_init valid s m \<and> a = (m, 0) \<Longrightarrow> seq_rel s a"
  using seq_obj_init by (auto simp: seq_rel_def seq_init_def)

end

sublocale seqlocked \<subseteq> register: simulation "seq_step ops fresh storable"
  "\<lambda>s a. seq_init valid s (fst a) \<and> snd a = 0" seq_rel "register_spec value put"
proof
  show "seq_init valid s (fst a) \<and> snd a = 0 \<Longrightarrow> seq_rel s a" for s a
    using seq_rel_init [of s "fst a" a] by (cases a) simp
qed (rule seq_rel_step)

end
