(* ===== verification/Seq_Lock_Atomic.thy ===== *)
theory Seq_Lock_Atomic
  imports Seq_Lock
begin

text \<open>
  \<open>SeqLockAtomic<T>\<close> (lock/seq_lock.h): an object of \<open>sizeof(T)\<close> bytes that is loaded and stored
  with the byte-wise atomic copies of \<open>Atomic_Memcpy\<close> inside the protocol of \<open>Seq_Lock\<close>. The
  interpretation of the contract \<open>seqlocked\<close> makes it an atomic register.
\<close>

section \<open>The accesses\<close>

text \<open>
  A reader has the accesses it still has to make and the local object \<open>loaded\<close>, a writer those
  it still has to make and the object \<open>desired\<close>.
\<close>

type_synonym copying = "(nat \<times> nat) list \<times> byte list"

fun sla_read :: "byte list \<Rightarrow> copying \<Rightarrow> copying" where
  "sla_read m (a # as, loaded) = (as, copy_access a m loaded)"
| "sla_read m ([], loaded) = ([], loaded)"

fun sla_write :: "copying \<Rightarrow> byte list \<Rightarrow> copying \<times> byte list" where
  "sla_write (a # as, desired) m = ((as, desired), copy_access a desired m)"
| "sla_write ([], desired) m = (([], desired), m)"

definition sla_ops :: "nat \<Rightarrow> (byte list, copying, byte list, byte list, copying) seq_ops" where
  "sla_ops sz =
     \<lparr>rd_done = (\<lambda>(as, loaded). as = []),
      rd_access = sla_read,
      rd_result = (\<lambda>(as, loaded). loaded),
      rd_restart = (\<lambda>(as, loaded). (memcpy_accesses sz, loaded)),
      wr_begin = (\<lambda>desired. (memcpy_accesses sz, desired)),
      wr_done = (\<lambda>(as, desired). as = []),
      wr_access = sla_write\<rparr>"

definition sla_fresh :: "nat \<Rightarrow> copying \<Rightarrow> bool" where
  "sla_fresh sz r \<longleftrightarrow> fst r = memcpy_accesses sz \<and> length (snd r) = sz"

definition sla_object :: "nat \<Rightarrow> byte list \<Rightarrow> bool" where
  "sla_object sz m \<longleftrightarrow> length m = sz"

abbreviation sla_step where
  "sla_step sz \<equiv> seq_step (sla_ops sz) (sla_fresh sz) (sla_object sz)"

text \<open>The constructor: the counter is even and the object is the argument.\<close>

definition sla_new :: "byte list \<Rightarrow> (byte list, copying, byte list, copying) seq_sys" where
  "sla_new data = \<lparr>qsys_seq = 0, qsys_version = 0, qsys_mem = data, qsys_pc = (\<lambda>i. Q_Idle)\<rparr>"

section \<open>The contract\<close>

definition sla_copying :: "nat \<Rightarrow> copying \<Rightarrow> bool" where
  "sla_copying sz r \<longleftrightarrow> length (snd r) = sz \<and> (\<exists>i. adjacent i (fst r) sz)"

definition sla_load :: "byte list \<Rightarrow> copying \<Rightarrow> byte list" where
  "sla_load m r = fold (\<lambda>a d. copy_access a m d) (fst r) (snd r)"

definition sla_store :: "copying \<Rightarrow> byte list \<Rightarrow> byte list" where
  "sla_store w m = fold (\<lambda>a d. copy_access a (snd w) d) (fst w) m"

lemma adjacent_Cons:
  assumes "adjacent i (a # as) n"
  shows "\<exists>j. adjacent j as n" "length src = n \<Longrightarrow> length dest = n \<Longrightarrow> length (copy_access a src dest) = n"
proof -
  obtain off len where a: "a = (off, len)" by (cases a)
  show "\<exists>j. adjacent j as n" using assms a by auto
  have "off + len \<le> n" using assms a adjacent_le by auto
  then show "length src = n \<Longrightarrow> length dest = n \<Longrightarrow> length (copy_access a src dest) = n" by (simp add: a)
qed

interpretation sla: seqlocked "sla_ops sz" "sla_fresh sz" "sla_copying sz" "sla_object sz"
  "sla_object sz" "sla_copying sz" sla_load sla_store "\<lambda>m. m" "\<lambda>d m. d" for sz
proof
  have copy: "fold (\<lambda>a d. copy_access a src d) (memcpy_accesses sz) dest = src"
    if "length src = sz" "length dest = sz" for src dest :: "byte list"
    using that fold_adjacent [OF memcpy_accesses_adjacent, of sz src dest] by simp
  show "sla_copying sz r" if "sla_fresh sz r" for r
    using that memcpy_accesses_adjacent by (auto simp: sla_fresh_def sla_copying_def)
  show "sla_load m r = m" if "sla_fresh sz r" "sla_object sz m" for r m
    using that copy by (simp add: sla_fresh_def sla_object_def sla_load_def)
  show "sla_fresh sz (rd_restart (sla_ops sz) r)" if "sla_copying sz r" for r
    using that by (cases r) (simp add: sla_fresh_def sla_copying_def sla_ops_def)
  show "sla_copying sz (rd_access (sla_ops sz) m r)"
    if "sla_copying sz r" "sla_object sz m" "\<not> rd_done (sla_ops sz) r" for r m
  proof (cases "(m, r)" rule: sla_read.cases)
    case (1 m' a as loaded)
    then show ?thesis
      using that adjacent_Cons(1) [of _ a as sz] adjacent_Cons(2) [of _ a as sz m loaded]
      by (auto simp: sla_copying_def sla_ops_def sla_object_def simp del: copy_access.simps adjacent.simps)
  qed (use that in \<open>simp add: sla_ops_def\<close>)
  show "sla_load m (rd_access (sla_ops sz) m r) = sla_load m r"
    if "\<not> rd_done (sla_ops sz) r" for r m
    using that by (cases "(m, r)" rule: sla_read.cases) (auto simp: sla_load_def sla_ops_def)
  show "sla_load m r = rd_result (sla_ops sz) r" if "rd_done (sla_ops sz) r" for r m
    using that by (cases r) (auto simp: sla_load_def sla_ops_def)
  show "sla_copying sz (wr_begin (sla_ops sz) d)" if "sla_object sz d" for d
    using that memcpy_accesses_adjacent by (auto simp: sla_copying_def sla_object_def sla_ops_def)
  show "sla_copying sz (fst (wr_access (sla_ops sz) w m))"
    if "sla_copying sz w" "\<not> wr_done (sla_ops sz) w" for w m
    using that adjacent_Cons(1) by (cases "(w, m)" rule: sla_write.cases)
      (auto simp: sla_copying_def sla_ops_def simp del: adjacent.simps)
  show "sla_store (wr_begin (sla_ops sz) d) m = d" if "sla_object sz d" "sla_object sz m" for d m
    using that copy by (simp add: sla_object_def sla_store_def sla_ops_def)
  show "sla_object sz (snd (wr_access (sla_ops sz) w m))"
    if "sla_copying sz w" "sla_object sz m" "\<not> wr_done (sla_ops sz) w" for w m
  proof (cases "(w, m)" rule: sla_write.cases)
    case (1 a as desired m')
    then show ?thesis
      using that adjacent_Cons(2) [of _ a as sz desired m]
      by (auto simp: sla_copying_def sla_ops_def sla_object_def simp del: copy_access.simps adjacent.simps)
  qed (use that in \<open>simp add: sla_ops_def\<close>)
  show "sla_store (fst (wr_access (sla_ops sz) w m)) (snd (wr_access (sla_ops sz) w m)) = sla_store w m"
    if "\<not> wr_done (sla_ops sz) w" for w m
    using that by (cases "(w, m)" rule: sla_write.cases) (auto simp: sla_store_def sla_ops_def)
  show "sla_store w m = m" if "wr_done (sla_ops sz) w" for w m
    using that by (cases w) (auto simp: sla_store_def sla_ops_def)
qed

section \<open>The properties\<close>

lemma sla_reaches_rel:
  assumes "length data = sz" "reaches (sla_step sz) (sla_new data) es t"
  shows "\<exists>a. accepts (register_spec (\<lambda>m. m) (\<lambda>d m. d)) es (data, 0) = Some a \<and> seqlocked.seq_rel
    (sla_fresh sz) (sla_copying sz) (sla_object sz) (sla_object sz) (sla_copying sz) sla_load sla_store
    (\<lambda>m. m) (\<lambda>d m. d) t a"
proof -
  have "seq_init (sla_object sz) (sla_new data) data"
    using assms(1) by (simp add: seq_init_def sla_new_def sla_object_def)
  then show ?thesis using sla.register.simulates [of sz "sla_new data" "(data, 0)" es t] assms(2) by simp
qed

text \<open>
  Property C18. \<open>SeqLockAtomic\<close> is an atomic register: in every interleaving of loads and stores
  by any number of threads, access by access, a load returns the object of the last completed
  store, never a mixture of two, as long as the counter did not go all the way round between
  its two looks at it, and \<open>seq0\<close> is twice the number of stores; between stores the bytes in
  memory are that object.
\<close>

theorem sla_atomic_register:
  assumes "length data = sz" "reaches (sla_step sz) (sla_new data) es t"
  shows "\<exists>m k. accepts (register_spec (\<lambda>m. m) (\<lambda>d m. d)) es (data, 0) = Some (m, k) \<and>
    (\<not> seq_IsLocked (qsys_seq t) \<longrightarrow> qsys_mem t = m \<and> qsys_seq t = of_nat (2 * k))"
  using sla_reaches_rel [OF assms]
  by (auto simp: sla.seq_rel_def sla.seq_obj_def seq_IsLocked_odd split: option.splits elim!: evenE)

text \<open>
  \<open>SeqLock\<close> excludes writers: at most one thread is between \<open>Lock\<close> and \<open>Unlock\<close>, and
  \<open>IsLocked\<close> of the counter says exactly whether there is one, wrap-around of the 32-bit
  counter included.
\<close>

theorem sla_writers_exclusive:
  assumes "length data = sz" "reaches (sla_step sz) (sla_new data) es t"
  shows "(writing (qsys_pc t i) \<and> writing (qsys_pc t j) \<longrightarrow> i = j) \<and>
    (seq_IsLocked (qsys_seq t) \<longleftrightarrow> (\<exists>k. writing (qsys_pc t k)))"
  using sla_reaches_rel [OF assms] by (auto simp: sla.seq_rel_def sla.seq_obj_def seq_IsLocked_odd)

lemma sla_copy_run:
  assumes "qsys_pc s i = R_Copy seq0 v0 (as, loaded)"
  shows "run (sla_step sz) (replicate (length as) (QStep i weak)) s =
    Some ([], s\<lparr>qsys_pc := (qsys_pc s)(i := R_Copy seq0 v0 ([], sla_load (qsys_mem s) (as, loaded)))\<rparr>)"
  using assms
proof (induction as arbitrary: s loaded)
  case Nil
  then show ?case by (simp add: sla_load_def fun_upd_idem)
next
  case (Cons a as)
  let ?s = "s\<lparr>qsys_pc := (qsys_pc s)(i := R_Copy seq0 v0 (as, copy_access a (qsys_mem s) loaded))\<rparr>"
  have "sla_step sz (QStep i weak) s = Some ([], ?s)"
    using Cons.prems by (simp add: sla_ops_def)
  moreover have "run (sla_step sz) (replicate (length as) (QStep i weak)) ?s =
    Some ([], s\<lparr>qsys_pc := (qsys_pc s)(i := R_Copy seq0 v0 ([], sla_load (qsys_mem s) (a # as, loaded)))\<rparr>)"
    using Cons.IH [of ?s "copy_access a (qsys_mem s) loaded"]
    by (simp add: sla_load_def fun_upd_def cong: if_cong)
  ultimately show ?case by (simp add: fun_upd_def del: seq_step.simps)
qed

fun loading :: "('r, 'd, 'w) seq_pc \<Rightarrow> bool" where
  "loading (R_Seq0 r) \<longleftrightarrow> True"
| "loading (R_Copy seq0 v0 r) \<longleftrightarrow> True"
| "loading pc \<longleftrightarrow> False"

lemma sla_spin_step:
  assumes "seq_IsLocked (qsys_seq s)" "loading (qsys_pc s i)"
  shows "\<exists>pc. loading pc \<and> sla_step sz (QStep i weak) s = Some ([], s\<lparr>qsys_pc := (qsys_pc s)(i := pc)\<rparr>)"
proof (cases "qsys_pc s i")
  case (R_Copy seq0 v0 r)
  have "seq_IsLocked seq0 \<or> seq0 \<noteq> qsys_seq s" using assms(1) by auto
  then have "loading (if rd_done (sla_ops sz) r then R_Seq0 (rd_restart (sla_ops sz) r)
      else R_Copy seq0 v0 (rd_access (sla_ops sz) (qsys_mem s) r)) \<and>
    sla_step sz (QStep i weak) s = Some ([], s\<lparr>qsys_pc := (qsys_pc s)(i :=
      (if rd_done (sla_ops sz) r then R_Seq0 (rd_restart (sla_ops sz) r)
       else R_Copy seq0 v0 (rd_access (sla_ops sz) (qsys_mem s) r)))\<rparr>)"
    using R_Copy by (simp add: seq_Load_def)
  then show ?thesis by blast
next
  case (R_Seq0 r)
  then have "sla_step sz (QStep i weak) s = Some ([], s\<lparr>qsys_pc := (qsys_pc s)(i :=
      R_Copy (seq_Load (qsys_seq s)) (qsys_version s) r)\<rparr>)" by simp
  then show ?thesis by (metis loading.simps(2))
qed (use assms in auto)

lemma sla_spin:
  "seq_IsLocked (qsys_seq s) \<Longrightarrow> loading (qsys_pc s i) \<Longrightarrow>
     \<exists>t. run (sla_step sz) (replicate n (QStep i weak)) s = Some ([], t)"
proof (induction n arbitrary: s)
  case (Suc n)
  obtain pc where pc: "loading pc" "sla_step sz (QStep i weak) s = Some ([], s\<lparr>qsys_pc := (qsys_pc s)(i := pc)\<rparr>)"
    using sla_spin_step [OF Suc.prems] by blast
  show ?case
    using Suc.IH [of "s\<lparr>qsys_pc := (qsys_pc s)(i := pc)\<rparr>"] Suc.prems(1) pc
    by (auto simp del: seq_step.simps)
qed simp

text \<open>
  Property C37. A load that runs undisturbed returns the object in one pass when no writer is
  inside, after one access for each word and byte and two to the counter; while a writer is
  inside it never returns, however many steps it takes.
\<close>

theorem sla_Load_alone:
  assumes "qsys_pc s i = Q_Idle" "length (qsys_mem s) = sz" "length loaded = sz"
  shows "if seq_IsLocked (qsys_seq s)
    then \<exists>t. run (sla_step sz) (QLoad i (memcpy_accesses sz, loaded) # replicate n (QStep i weak)) s = Some ([], t)
    else map_option fst (run (sla_step sz)
        (QLoad i (memcpy_accesses sz, loaded) # replicate (length (memcpy_accesses sz) + 2) (QStep i weak)) s) =
      Some [Loaded (qsys_mem s) (qsys_seq s) (qsys_version s) (qsys_version s)]"
proof -
  let ?a = "memcpy_accesses sz"
  let ?s = "s\<lparr>qsys_pc := (qsys_pc s)(i := R_Seq0 (?a, loaded))\<rparr>"
  have call: "sla_step sz (QLoad i (?a, loaded)) s = Some ([], ?s)"
    using assms by (simp add: sla_fresh_def)
  show ?thesis
  proof (cases "seq_IsLocked (qsys_seq s)")
    case True
    then show ?thesis using sla_spin [of ?s i sz n weak] call by (auto simp del: seq_step.simps)
  next
    case False
    let ?t = "s\<lparr>qsys_pc := (qsys_pc s)(i := R_Copy (qsys_seq s) (qsys_version s) (?a, loaded))\<rparr>"
    let ?u = "s\<lparr>qsys_pc := (qsys_pc s)(i := R_Copy (qsys_seq s) (qsys_version s) ([], qsys_mem s))\<rparr>"
    have first: "sla_step sz (QStep i weak) ?s = Some ([], ?t)" by (simp add: seq_Load_def)
    have "sla_load (qsys_mem s) (?a, loaded) = qsys_mem s"
      using assms sla.fresh_load [of sz "(?a, loaded)" "qsys_mem s"] by (simp add: sla_fresh_def sla_object_def)
    then have copy: "run (sla_step sz) (replicate (length ?a) (QStep i weak)) ?t = Some ([], ?u)"
      using sla_copy_run [of ?t i "qsys_seq s" "qsys_version s" ?a loaded sz weak] by simp
    have last: "map_option fst (sla_step sz (QStep i weak) ?u) =
        Some [Loaded (qsys_mem s) (qsys_seq s) (qsys_version s) (qsys_version s)]"
      using False by (simp add: sla_ops_def seq_Load_def)
    have steps: "replicate (length ?a + 2) (QStep i weak) =
        QStep i weak # replicate (length ?a) (QStep i weak) @ [QStep i weak :: (copying, byte list) seq_choice]"
      by (simp add: replicate_append_same)
    show ?thesis
      using False last unfolding steps by (auto simp: call first run_append copy simp del: seq_step.simps)
  qed
qed

lemma sla_write_run:
  assumes "qsys_pc s i = W_Copy sq d (as, d')"
  shows "run (sla_step sz) (replicate (length as) (QStep i weak)) s =
    Some ([], s\<lparr>qsys_mem := sla_store (as, d') (qsys_mem s), qsys_pc := (qsys_pc s)(i := W_Copy sq d ([], d'))\<rparr>)"
  using assms
proof (induction as arbitrary: s)
  case Nil
  then show ?case by (simp add: sla_store_def fun_upd_idem)
next
  case (Cons a as)
  let ?s = "s\<lparr>qsys_mem := copy_access a d' (qsys_mem s), qsys_pc := (qsys_pc s)(i := W_Copy sq d (as, d'))\<rparr>"
  have "sla_step sz (QStep i weak) s = Some ([], ?s)"
    using Cons.prems by (simp add: sla_ops_def)
  moreover have "run (sla_step sz) (replicate (length as) (QStep i weak)) ?s =
    Some ([], s\<lparr>qsys_mem := sla_store (a # as, d') (qsys_mem s), qsys_pc := (qsys_pc s)(i := W_Copy sq d ([], d'))\<rparr>)"
    using Cons.IH [of ?s] by (simp add: sla_store_def fun_upd_def cong: if_cong)
  ultimately show ?case by (simp add: fun_upd_def del: seq_step.simps)
qed

definition store_alone :: "nat \<Rightarrow> nat \<Rightarrow> byte list \<Rightarrow> (copying, byte list) seq_choice list" where
  "store_alone sz i d = QStore i d # replicate (length (memcpy_accesses sz) + 3) (QStep i False)"

lemma sla_store_run:
  assumes "qsys_pc s i = Q_Idle" "length (qsys_mem s) = sz" "length d = sz" "\<not> seq_IsLocked (qsys_seq s)"
  shows "run (sla_step sz) (store_alone sz i d) s =
    Some ([Stored d], s\<lparr>qsys_seq := qsys_seq s + 2, qsys_version := qsys_version s + 2, qsys_mem := d\<rparr>)"
proof -
  let ?a = "memcpy_accesses sz"
  let ?pc = "\<lambda>pc. (qsys_pc s)(i := pc)"
  let ?s1 = "s\<lparr>qsys_pc := ?pc (W_Lock d SL_Load)\<rparr>"
  let ?s2 = "s\<lparr>qsys_pc := ?pc (W_Lock d (SL_Cas (qsys_seq s)))\<rparr>"
  let ?s3 = "s\<lparr>qsys_seq := qsys_seq s + 1, qsys_version := qsys_version s + 1,
    qsys_pc := ?pc (W_Copy (qsys_seq s) d (?a, d))\<rparr>"
  let ?s4 = "s\<lparr>qsys_seq := qsys_seq s + 1, qsys_version := qsys_version s + 1, qsys_mem := d,
    qsys_pc := ?pc (W_Copy (qsys_seq s) d ([], d))\<rparr>"
  let ?s5 = "s\<lparr>qsys_seq := qsys_seq s + 2, qsys_version := qsys_version s + 2, qsys_mem := d\<rparr>"
  have 1: "sla_step sz (QStore i d) s = Some ([], ?s1)" using assms by (simp add: sla_object_def)
  have 2: "sla_step sz (QStep i False) ?s1 = Some ([], ?s2)" using assms(4) by (simp add: Let_def)
  have 3: "sla_step sz (QStep i False) ?s2 = Some ([], ?s3)" by (simp add: sla_ops_def)
  have "sla_store (?a, d) (qsys_mem s) = d"
    using assms sla.begin_store [of sz d "qsys_mem s"] by (simp add: sla_object_def sla_ops_def)
  then have 4: "run (sla_step sz) (replicate (length ?a) (QStep i False)) ?s3 = Some ([], ?s4)"
    using sla_write_run [of ?s3 i "qsys_seq s" d ?a d sz False]
    by (simp add: fun_upd_def cong: if_cong)
  have 5: "sla_step sz (QStep i False) ?s4 = Some ([Stored d], ?s5)"
    using assms(1) by (simp add: sla_ops_def seq_Unlock_def fun_upd_idem)
  have steps: "store_alone sz i d = QStore i d # QStep i False # QStep i False #
      replicate (length ?a) (QStep i False) @ [QStep i False]"
    by (simp add: store_alone_def numeral_3_eq_3 replicate_append_same)
  show ?thesis
    unfolding steps run.simps 1 2 3 run_append 4 5 option.case prod.case by simp
qed

text \<open>
  A store that runs undisturbed on an unlocked counter completes: it writes the
  object, advances the counter by two and leaves it unlocked.
\<close>

theorem sla_Store_alone:
  assumes "qsys_pc s i = Q_Idle" "length (qsys_mem s) = sz" "length d = sz" "\<not> seq_IsLocked (qsys_seq s)"
  shows "map_option (\<lambda>(e, t). (e, qsys_seq t, qsys_mem t)) (run (sla_step sz) (store_alone sz i d) s) =
      Some ([Stored d], qsys_seq s + 2, d) \<and> \<not> seq_IsLocked (qsys_seq s + 2)"
proof -
  have "seq_IsLocked (w + 2) = seq_IsLocked w" for w :: counter
    by (simp add: seq_IsLocked_def and_one_eq odd_iff_mod_2_eq_one [symmetric])
  then show ?thesis using assms sla_store_run [OF assms] by simp
qed

lemma sla_stores_run:
  assumes "qsys_pc s i = Q_Idle" "length (qsys_mem s) = sz" "length d = sz" "qsys_seq s = of_nat (2 * v)"
  shows "\<exists>es t. reaches (sla_step sz) s es t \<and> set es \<subseteq> {Stored d} \<and> qsys_seq t = of_nat (2 * v + 2 * k) \<and>
    qsys_version t = qsys_version s + 2 * k \<and> qsys_mem t = (if k = 0 then qsys_mem s else d) \<and> qsys_pc t = qsys_pc s"
proof (induction k)
  case 0
  show ?case using assms(4) by (intro exI [of _ "[]"] exI [of _ s]) (simp add: reaches_start)
next
  case (Suc k)
  then obtain es t where t: "reaches (sla_step sz) s es t" "set es \<subseteq> {Stored d}"
    "qsys_seq t = of_nat (2 * v + 2 * k)" "qsys_version t = qsys_version s + 2 * k"
    "qsys_mem t = (if k = 0 then qsys_mem s else d)" "qsys_pc t = qsys_pc s" by blast
  have idle: "qsys_pc t i = Q_Idle" "length (qsys_mem t) = sz" using t assms by simp_all
  have unlocked: "\<not> seq_IsLocked (qsys_seq t)" unfolding t(3) seq_IsLocked_odd by simp
  let ?u = "t\<lparr>qsys_seq := qsys_seq t + 2, qsys_version := qsys_version t + 2, qsys_mem := d\<rparr>"
  have "reaches (sla_step sz) s (es @ [Stored d]) ?u"
    using reaches_trans [OF run_reaches [OF sla_store_run [OF idle assms(3) unlocked]] t(1)] .
  moreover have "qsys_seq ?u = of_nat (2 * v + 2 * Suc k)" using t(3) by (simp add: algebra_simps)
  ultimately show ?case using t by (intro exI [of _ "es @ [Stored d]"] exI [of _ ?u]) auto
qed

text \<open>
  Property C36. The bound of the 32-bit counter is real: a load that is overtaken by exactly
  \<open>2 ^ 31\<close> stores finds the same counter again and returns a mixture of two objects, here of
  sixteen zeros and sixteen ones.
\<close>

theorem sla_wraparound_torn:
  "\<exists>es t. reaches (sla_step 16) (sla_new (replicate 16 0)) (es @ [Loaded (replicate 8 0 @ replicate 8 1) 0 0 (2 ^ 32)]) t \<and>
     set es \<subseteq> {Stored (replicate 16 1)}"
proof -
  let ?zeros = "replicate 16 (0::byte)" and ?ones = "replicate 16 (1::byte)"
  let ?torn = "replicate 8 (0::byte) @ replicate 8 1"
  let ?rest = "[(8, 8)] :: (nat \<times> nat) list"
  let ?pc = "(\<lambda>i. Q_Idle) (0 := R_Copy 0 0 (?rest, ?zeros)) :: nat \<Rightarrow> (copying, byte list, copying) seq_pc"
  have acc: "memcpy_accesses 16 = [(0, 8), (8, 8)]" by code_simp
  have zeros: "copy_access (0, 8) ?zeros ?zeros = ?zeros" by code_simp
  have torn: "copy_access (8, 8) ?ones ?zeros = ?torn" by code_simp
  let ?s1 = "(sla_new ?zeros)\<lparr>qsys_pc := ?pc\<rparr>"
  have "run (sla_step 16) [QLoad 0 (memcpy_accesses 16, ?zeros), QStep 0 False, QStep 0 False] (sla_new ?zeros) =
      Some ([], ?s1)"
    using zeros by (simp add: sla_new_def sla_fresh_def sla_ops_def acc seq_Load_def fun_upd_def
        del: copy_access.simps cong: if_cong)
  then have first: "reaches (sla_step 16) (sla_new ?zeros) [] ?s1" by (rule run_reaches)
  have "qsys_pc ?s1 1 = Q_Idle" "length (qsys_mem ?s1) = 16" "length ?ones = 16" "qsys_seq ?s1 = of_nat (2 * 0)"
    by (simp_all add: sla_new_def)
  from sla_stores_run [OF this, of "2 ^ 31"] obtain es t where t: "reaches (sla_step 16) ?s1 es t"
    "set es \<subseteq> {Stored ?ones}" "qsys_seq t = of_nat (2 * 0 + 2 * 2 ^ 31)" "qsys_version t = qsys_version ?s1 + 2 * 2 ^ 31"
    "qsys_mem t = ?ones" "qsys_pc t = ?pc" by auto
  have seq: "qsys_seq t = 0" unfolding t(3) by (simp add: word_unat_eq_iff unsigned_of_nat take_bit_eq_mod)
  have version: "qsys_version t = 2 ^ 32" unfolding t(4) by (simp add: sla_new_def)
  have "\<not> seq_IsLocked 0" by code_simp
  then have "map_option fst (run (sla_step 16) [QStep 0 False, QStep 0 False] t) = Some [Loaded ?torn 0 0 (2 ^ 32)]"
    using torn by (simp add: sla_ops_def seq_Load_def seq version t(5,6) del: copy_access.simps)
  then obtain u where u: "run (sla_step 16) [QStep 0 False, QStep 0 False] t = Some ([Loaded ?torn 0 0 (2 ^ 32)], u)"
    by auto
  have "reaches (sla_step 16) (sla_new ?zeros) ([] @ es @ [Loaded ?torn 0 0 (2 ^ 32)]) u"
    using reaches_trans [OF reaches_trans [OF run_reaches [OF u] t(1)] first] by simp
  then show ?thesis using t(2) by auto
qed

section \<open>Concrete runs\<close>

text \<open>
  An object of nine bytes, a word and a byte. Thread 0 loads the word of the old object; thread
  1 stores a new one meanwhile; thread 0 starts again and returns the new object.
\<close>

definition sla_old :: "byte list" where "sla_old = replicate 9 0"
definition sla_desired :: "byte list" where "sla_desired = map of_nat [1..<10]"

definition sla_schedule :: "(copying, byte list) seq_choice list" where
  "sla_schedule =
     [QLoad 0 (memcpy_accesses 9, replicate 9 255), QStep 0 False, QStep 0 False, QStore 1 sla_desired,
      QStep 1 False, QStep 1 True, QStep 1 False, QStep 1 False, QStep 0 False, QStep 1 False, QStep 1 False,
      QStep 0 False] @ replicate 4 (QStep 0 False)"

lemma sla_atomic_register_witness:
  "\<exists>t. reaches (sla_step 9) (sla_new sla_old) [Stored sla_desired, Loaded sla_desired 2 2 2] t \<and> qsys_mem t = sla_desired"
proof -
  have "map_option (\<lambda>(e, t). (e, seq_IsLocked (qsys_seq t))) (run (sla_step 9) sla_schedule (sla_new sla_old)) =
    Some ([Stored sla_desired, Loaded sla_desired 2 2 2], False)" by code_simp
  then obtain t where t: "run (sla_step 9) sla_schedule (sla_new sla_old) =
    Some ([Stored sla_desired, Loaded sla_desired 2 2 2], t)" "\<not> seq_IsLocked (qsys_seq t)" by auto
  have "length sla_old = 9" by (simp add: sla_old_def)
  from sla_atomic_register [OF this run_reaches [OF t(1)]] t show ?thesis
    using run_reaches [OF t(1)] by auto
qed

lemma sla_writers_exclusive_witness:
  "\<exists>es t. reaches (sla_step 9) (sla_new sla_old) es t \<and> writing (qsys_pc t 1) \<and> \<not> writing (qsys_pc t 0) \<and>
     seq_IsLocked (qsys_seq t)"
proof -
  have "map_option (\<lambda>(e, t). writing (qsys_pc t 1)) (run (sla_step 9) (take 8 sla_schedule) (sla_new sla_old)) =
    Some True" by code_simp
  then obtain es t where t: "run (sla_step 9) (take 8 sla_schedule) (sla_new sla_old) = Some (es, t)"
    "writing (qsys_pc t 1)" by auto
  have "length sla_old = 9" by (simp add: sla_old_def)
  from sla_writers_exclusive [OF this run_reaches [OF t(1)], of 0 1] t show ?thesis
    using run_reaches [OF t(1)] by auto
qed

lemma sla_Load_alone_witness:
  "map_option fst (run (sla_step 9)
     (QLoad 0 (memcpy_accesses 9, replicate 9 255) # replicate 4 (QStep 0 False)) (sla_new sla_desired)) =
   Some [Loaded sla_desired 0 0 0]"
proof -
  have "length (memcpy_accesses 9) + 2 = 4" "\<not> seq_IsLocked (qsys_seq (sla_new sla_desired))" by code_simp+
  moreover have "qsys_pc (sla_new sla_desired) 0 = Q_Idle" "length (qsys_mem (sla_new sla_desired)) = 9"
    "length (replicate 9 (255::byte)) = 9" by (simp_all add: sla_new_def sla_desired_def)
  ultimately show ?thesis
    using sla_Load_alone [of "sla_new sla_desired" 0 9 "replicate 9 255" 0 False] by (simp add: sla_new_def)
qed

lemma sla_Store_alone_witness:
  "map_option (\<lambda>(e, t). (e, qsys_seq t, qsys_mem t)) (run (sla_step 9) (store_alone 9 1 sla_desired) (sla_new sla_old)) =
     Some ([Stored sla_desired], 2, sla_desired)"
proof -
  have "\<not> seq_IsLocked (qsys_seq (sla_new sla_old))" by code_simp
  then show ?thesis
    using sla_Store_alone [of "sla_new sla_old" 1 9 sla_desired] by (simp add: sla_new_def sla_old_def sla_desired_def)
qed

end
