(* ===== verification/Multicast_Message.thy ===== *)
theory Multicast_Message
  imports Seq_Lock_Atomic
begin

text \<open>
  The messages of \<open>BoundedMulticastQueue\<close> (queue/bounded_multicast_queue.h): the plain
  \<open>MulticastQueueMessage\<close> and the cell \<open>AtomicMulticastQueueMessage\<close>, whose \<open>Load\<close> and \<open>Store\<close>
  follow the protocol of \<open>Seq_Lock\<close> over a buffer of \<open>Capacity\<close> bytes and a message size.
\<close>

section \<open>Plain messages\<close>

record message =
  msg_data :: "byte list"
  msg_size :: nat

text \<open>
  The default constructor zeroes the storage. Objects are their bytes; copying more bytes than
  the storage has is undefined (\<open>None\<close>), the code does not compare the sizes.
\<close>

definition message_new :: "nat \<Rightarrow> message" where
  "message_new Capacity = \<lparr>msg_data = replicate Capacity 0, msg_size = 0\<rparr>"

definition message_of :: "nat \<Rightarrow> byte list \<Rightarrow> message option" where
  "message_of Capacity object =
     (if length object \<le> Capacity
      then Some \<lparr>msg_data = object @ drop (length object) (replicate Capacity 0), msg_size = length object\<rparr>
      else None)"

definition message_Copy :: "message \<Rightarrow> message \<Rightarrow> message" where
  "message_Copy other this =
     this\<lparr>msg_data := take (msg_size other) (msg_data other) @ drop (msg_size other) (msg_data this),
          msg_size := msg_size other\<rparr>"

text \<open>
  The copy and the move constructor start from zeroed storage; the assignments skip a
  self-assignment, \<open>same\<close> telling whether the two references are one object.
\<close>

definition message_copy_constructor :: "nat \<Rightarrow> message \<Rightarrow> message" where
  "message_copy_constructor Capacity other = message_Copy other (message_new Capacity)"

definition message_move_constructor :: "nat \<Rightarrow> message \<Rightarrow> message" where
  "message_move_constructor Capacity other = message_Copy other (message_new Capacity)"

definition message_copy_assign :: "bool \<Rightarrow> message \<Rightarrow> message \<Rightarrow> message" where
  "message_copy_assign same other this = (if \<not> same then message_Copy other this else this)"

definition message_move_assign :: "bool \<Rightarrow> message \<Rightarrow> message \<Rightarrow> message" where
  "message_move_assign same other this = (if \<not> same then message_Copy other this else this)"

text \<open>\<open>Get\<close> copies the bytes of the target's type out, whatever \<open>message_size_\<close> is.\<close>

definition message_Get :: "nat \<Rightarrow> message \<Rightarrow> byte list option" where
  "message_Get sizeof_T this =
     (if sizeof_T \<le> length (msg_data this) then Some (take sizeof_T (msg_data this)) else None)"

definition message_wf :: "nat \<Rightarrow> message \<Rightarrow> bool" where
  "message_wf Capacity m \<longleftrightarrow> length (msg_data m) = Capacity \<and> msg_size m \<le> Capacity"

definition message_bytes :: "message \<Rightarrow> byte list" where
  "message_bytes m = take (msg_size m) (msg_data m)"

lemma message_new_wf: "message_wf Capacity (message_new Capacity)"
  by (simp add: message_wf_def message_new_def)

lemma message_Copy_wf:
  "message_wf Capacity other \<Longrightarrow> message_wf Capacity this \<Longrightarrow>
     message_wf Capacity (message_Copy other this) \<and> message_bytes (message_Copy other this) = message_bytes other"
  by (auto simp: message_wf_def message_Copy_def message_bytes_def)

text \<open>
  Messages round trip: an object that fits is stored in a message and comes back
  from \<open>Get\<close>, also after the message was copied, moved or assigned over any other message.
\<close>

theorem message_roundtrip:
  assumes "message_of Capacity object = Some m" "message_wf Capacity this"
  shows "message_wf Capacity m \<and> message_Get (length object) m = Some object \<and>
    message_Get (length object) (message_copy_constructor Capacity m) = Some object \<and>
    message_Get (length object) (message_move_constructor Capacity m) = Some object \<and>
    message_Get (length object) (message_copy_assign False m this) = Some object \<and>
    message_Get (length object) (message_move_assign False m this) = Some object"
  using assms
  by (auto simp: message_of_def message_wf_def message_Get_def message_copy_constructor_def
      message_move_constructor_def message_copy_assign_def message_move_assign_def message_Copy_def
      message_new_def split: if_splits)

lemma message_roundtrip_witness:
  "message_Get 3 (message_copy_assign False (the (message_of 8 [1, 2, 3])) (message_new 8)) = Some [1, 2, 3]"
proof -
  have "message_of 8 [1, 2, 3] = Some (the (message_of 8 [1, 2, 3]))" by (simp add: message_of_def)
  from message_roundtrip [OF this message_new_wf [of 8]] show ?thesis by (simp add: numeral_3_eq_3)
qed

section \<open>Atomic messages\<close>

text \<open>
  The protected object: the storage and \<open>message_size_\<close>. A reader first loads the size and then
  copies that many bytes into the message, whose storage is its first member; a writer
  copies the bytes of the object and then stores their number.
\<close>

type_synonym cell_mem = "byte list \<times> nat"
type_synonym msg_reader = "(nat \<times> nat) list option \<times> message"
type_synonym msg_writer = "(nat \<times> nat) list option \<times> byte list"

fun amsg_read :: "cell_mem \<Rightarrow> msg_reader \<Rightarrow> msg_reader" where
  "amsg_read (data, sz) (None, msg) = (Some (memcpy_accesses sz), msg\<lparr>msg_size := sz\<rparr>)"
| "amsg_read (data, sz) (Some (a # as), msg) = (Some as, msg\<lparr>msg_data := copy_access a data (msg_data msg)\<rparr>)"
| "amsg_read (data, sz) (Some [], msg) = (Some [], msg)"

fun amsg_write :: "msg_writer \<Rightarrow> cell_mem \<Rightarrow> msg_writer \<times> cell_mem" where
  "amsg_write (Some (a # as), object) (data, sz) = ((Some as, object), (copy_access a object data, sz))"
| "amsg_write (Some [], object) (data, sz) = ((None, object), (data, length object))"
| "amsg_write (None, object) (data, sz) = ((None, object), (data, sz))"

definition amsg_ops :: "(cell_mem, msg_reader, byte list, byte list, msg_writer) seq_ops" where
  "amsg_ops =
     \<lparr>rd_done = (\<lambda>(as, msg). as = Some []),
      rd_access = amsg_read,
      rd_result = (\<lambda>(as, msg). message_bytes msg),
      rd_restart = (\<lambda>(as, msg). (None, msg)),
      wr_begin = (\<lambda>object. (Some (memcpy_accesses (length object)), object)),
      wr_done = (\<lambda>(as, object). as = None),
      wr_access = amsg_write\<rparr>"

definition amsg_fresh :: "nat \<Rightarrow> msg_reader \<Rightarrow> bool" where
  "amsg_fresh Capacity r \<longleftrightarrow> fst r = None \<and> length (msg_data (snd r)) = Capacity"

text \<open>What the code leaves to its callers: the object has at most \<open>Capacity\<close> bytes.\<close>

definition amsg_fits :: "nat \<Rightarrow> byte list \<Rightarrow> bool" where
  "amsg_fits Capacity object \<longleftrightarrow> length object \<le> Capacity"

abbreviation amsg_step where
  "amsg_step Capacity \<equiv> seq_step amsg_ops (amsg_fresh Capacity) (amsg_fits Capacity)"

definition amsg_new :: "nat \<Rightarrow> (cell_mem, msg_reader, byte list, msg_writer) seq_sys" where
  "amsg_new Capacity =
     \<lparr>qsys_seq = 0, qsys_version = 0, qsys_mem = (replicate Capacity 0, 0), qsys_pc = (\<lambda>i. Q_Idle)\<rparr>"

text \<open>The constructor from an object.\<close>

definition amsg_of :: "nat \<Rightarrow> byte list \<Rightarrow> cell_mem option" where
  "amsg_of Capacity object =
     (if length object \<le> Capacity
      then Some (object @ drop (length object) (replicate Capacity 0), length object) else None)"

section \<open>The contract\<close>

definition amsg_valid :: "nat \<Rightarrow> cell_mem \<Rightarrow> bool" where
  "amsg_valid Capacity m \<longleftrightarrow> length (fst m) = Capacity \<and> snd m \<le> Capacity"

definition amsg_value :: "cell_mem \<Rightarrow> byte list" where
  "amsg_value m = take (snd m) (fst m)"

definition amsg_put :: "byte list \<Rightarrow> cell_mem \<Rightarrow> cell_mem" where
  "amsg_put object m = (object @ drop (length object) (fst m), length object)"

fun amsg_reading :: "nat \<Rightarrow> msg_reader \<Rightarrow> bool" where
  "amsg_reading Capacity (None, msg) \<longleftrightarrow> length (msg_data msg) = Capacity"
| "amsg_reading Capacity (Some as, msg) \<longleftrightarrow> length (msg_data msg) = Capacity \<and> msg_size msg \<le> Capacity \<and>
     (\<exists>i. adjacent i as (msg_size msg))"

fun amsg_load :: "cell_mem \<Rightarrow> msg_reader \<Rightarrow> byte list" where
  "amsg_load (data, sz) (None, msg) = take sz data"
| "amsg_load (data, sz) (Some as, msg) = take (msg_size msg) (fold (\<lambda>a d. copy_access a data d) as (msg_data msg))"

fun amsg_storing :: "nat \<Rightarrow> msg_writer \<Rightarrow> bool" where
  "amsg_storing Capacity (None, object) \<longleftrightarrow> length object \<le> Capacity"
| "amsg_storing Capacity (Some as, object) \<longleftrightarrow> length object \<le> Capacity \<and> (\<exists>i. adjacent i as (length object))"

fun amsg_store :: "msg_writer \<Rightarrow> cell_mem \<Rightarrow> cell_mem" where
  "amsg_store (None, object) m = m"
| "amsg_store (Some as, object) (data, sz) = (fold (\<lambda>a d. copy_access a object d) as data, length object)"

lemma adjacent_Cons_length:
  assumes "adjacent i (a # as) n" "n \<le> length src" "n \<le> length dest"
  shows "length (copy_access a src dest) = length dest"
proof -
  obtain off len where a: "a = (off, len)" by (cases a)
  have "off + len \<le> n" using assms(1) a adjacent_le by auto
  then show ?thesis using assms(2,3) by (simp add: a)
qed

lemma amsg_copy:
  assumes "sz \<le> length src" "sz \<le> length dest"
  shows "fold (\<lambda>a d. copy_access a src d) (memcpy_accesses sz) dest = take sz src @ drop sz dest"
  using fold_adjacent [OF memcpy_accesses_adjacent assms] by simp

interpretation amsg: seqlocked amsg_ops "amsg_fresh Capacity" "amsg_reading Capacity" "amsg_valid Capacity"
  "amsg_fits Capacity" "amsg_storing Capacity" amsg_load amsg_store amsg_value amsg_put for Capacity
proof
  show "amsg_reading Capacity r" if "amsg_fresh Capacity r" for r
    using that by (cases r) (auto simp: amsg_fresh_def)
  show "amsg_load m r = amsg_value m" if "amsg_fresh Capacity r" for r m
    using that by (cases r; cases m) (auto simp: amsg_fresh_def amsg_value_def)
  show "amsg_fresh Capacity (rd_restart amsg_ops r)" if "amsg_reading Capacity r" for r
    using that by (cases "(Capacity, r)" rule: amsg_reading.cases) (auto simp: amsg_fresh_def amsg_ops_def)
  show "amsg_reading Capacity (rd_access amsg_ops m r)"
    if "amsg_reading Capacity r" "amsg_valid Capacity m" "\<not> rd_done amsg_ops r" for r m
  proof (cases "(m, r)" rule: amsg_read.cases)
    case (1 data sz msg)
    then show ?thesis using that memcpy_accesses_adjacent by (auto simp: amsg_ops_def amsg_valid_def)
  next
    case (2 data sz a as msg)
    then show ?thesis
      using that adjacent_Cons(1) [of _ a as "msg_size msg"] adjacent_Cons_length [of _ a as "msg_size msg" data "msg_data msg"]
      by (auto simp: amsg_ops_def amsg_valid_def simp del: copy_access.simps adjacent.simps)
  qed (use that in \<open>simp add: amsg_ops_def\<close>)
  show "amsg_load m (rd_access amsg_ops m r) = amsg_load m r"
    if "amsg_reading Capacity r" "amsg_valid Capacity m" "\<not> rd_done amsg_ops r" for r m
  proof (cases "(m, r)" rule: amsg_read.cases)
    case (1 data sz msg)
    then show ?thesis using that amsg_copy [of sz data "msg_data msg"] by (simp add: amsg_ops_def amsg_valid_def)
  qed (use that in \<open>auto simp: amsg_ops_def\<close>)
  show "amsg_load m r = rd_result amsg_ops r" if "rd_done amsg_ops r" for r m
    using that by (cases r; cases m) (auto simp: amsg_ops_def message_bytes_def)
  show "amsg_storing Capacity (wr_begin amsg_ops d)" if "amsg_fits Capacity d" for d
    using that memcpy_accesses_adjacent by (auto simp: amsg_ops_def amsg_fits_def)
  show "amsg_storing Capacity (fst (wr_access amsg_ops w m))"
    if "amsg_storing Capacity w" "\<not> wr_done amsg_ops w" for w m
    using that adjacent_Cons(1) by (cases "(w, m)" rule: amsg_write.cases)
      (auto simp: amsg_ops_def simp del: adjacent.simps)
  show "amsg_store (wr_begin amsg_ops d) m = amsg_put d m" if "amsg_fits Capacity d" "amsg_valid Capacity m" for d m
    using that amsg_copy [of "length d" d "fst m"]
    by (cases m) (simp add: amsg_ops_def amsg_put_def amsg_fits_def amsg_valid_def)
  show "amsg_valid Capacity (snd (wr_access amsg_ops w m))"
    if "amsg_storing Capacity w" "amsg_valid Capacity m" "\<not> wr_done amsg_ops w" for w m
  proof (cases "(w, m)" rule: amsg_write.cases)
    case (1 a as object data sz)
    then show ?thesis
      using that adjacent_Cons_length [of _ a as "length object" object data]
      by (auto simp: amsg_ops_def amsg_valid_def simp del: copy_access.simps adjacent.simps)
  qed (use that in \<open>auto simp: amsg_ops_def amsg_valid_def\<close>)
  show "amsg_store (fst (wr_access amsg_ops w m)) (snd (wr_access amsg_ops w m)) = amsg_store w m"
    if "\<not> wr_done amsg_ops w" for w m
    using that by (cases "(w, m)" rule: amsg_write.cases) (auto simp: amsg_ops_def)
  show "amsg_store w m = m" if "wr_done amsg_ops w" for w m
    using that by (cases w) (auto simp: amsg_ops_def)
qed

section \<open>The property\<close>

text \<open>
  An atomic message is an atomic register of messages of varying length: in every
  interleaving of \<open>Load\<close>s and \<open>Store\<close>s by any number of threads, a load returns exactly the
  bytes of the last completed store (size and contents belong together) and twice the number
  of stores so far, as long as the counter did not go round meanwhile.
\<close>

theorem amsg_atomic_register:
  assumes "reaches (amsg_step Capacity) (amsg_new Capacity) es t"
  shows "\<exists>m k. accepts (register_spec amsg_value amsg_put) es ((replicate Capacity 0, 0), 0) = Some (m, k) \<and>
    (\<not> seq_IsLocked (qsys_seq t) \<longrightarrow> qsys_mem t = m \<and> qsys_seq t = of_nat (2 * k))"
proof -
  have "seq_init (amsg_valid Capacity) (amsg_new Capacity) (replicate Capacity 0, 0)"
    by (simp add: seq_init_def amsg_new_def amsg_valid_def)
  from amsg.register.simulates [of Capacity "amsg_new Capacity" "((replicate Capacity 0, 0), 0)" es t] this assms
  show ?thesis
    by (auto simp: amsg.seq_rel_def amsg.seq_obj_def seq_IsLocked_odd split: option.splits elim!: evenE)
qed

text \<open>
  A message of two bytes is replaced by one of nine while a reader is between the size and the
  bytes; the reader starts again and returns the nine.
\<close>

definition amsg_schedule :: "(msg_reader, byte list) seq_choice list" where
  "amsg_schedule =
     QStore 1 [5, 6] # replicate 6 (QStep 1 False) @
     [QLoad 0 (None, message_new 16), QStep 0 False, QStep 0 False, QStore 1 (map of_nat [1..<10])] @
     replicate 6 (QStep 1 False) @ replicate 8 (QStep 0 False)"

lemma amsg_atomic_register_witness:
  "\<exists>t. reaches (amsg_step 16) (amsg_new 16) [Stored [5, 6], Stored (map of_nat [1..<10]), Loaded (map of_nat [1..<10]) 4 4 4] t \<and>
     qsys_seq t = 4 \<and> amsg_value (qsys_mem t) = map of_nat [1..<10]"
proof -
  have "map_option (\<lambda>(e, t). (e, seq_IsLocked (qsys_seq t))) (run (amsg_step 16) amsg_schedule (amsg_new 16)) =
    Some ([Stored [5, 6], Stored (map of_nat [1..<10]), Loaded (map of_nat [1..<10]) 4 4 4], False)" by code_simp
  then obtain t where t: "run (amsg_step 16) amsg_schedule (amsg_new 16) =
    Some ([Stored [5, 6], Stored (map of_nat [1..<10]), Loaded (map of_nat [1..<10]) 4 4 4], t)"
    "\<not> seq_IsLocked (qsys_seq t)" by auto
  obtain m k where m: "accepts (register_spec amsg_value amsg_put)
      [Stored [5, 6], Stored (map of_nat [1..<10]), Loaded (map of_nat [1..<10]) 4 4 4]
      ((replicate 16 0, 0), 0) = Some (m, k)" "qsys_mem t = m" "qsys_seq t = of_nat (2 * k)"
    using amsg_atomic_register [OF run_reaches [OF t(1)]] t(2) by auto
  then have "k = 2" "m = amsg_put (map of_nat [1..<10]) (amsg_put [5, 6] (replicate 16 0, 0))"
    by (auto split: if_splits)
  with m(2,3) show ?thesis
    using run_reaches [OF t(1)] by (auto simp: amsg_value_def amsg_put_def)
qed

end
