(* ===== verification/Multicast_Queue.thy ===== *)
theory Multicast_Queue
  imports Multicast_Message
begin

text \<open>
  \<open>BoundedMulticastQueue\<close> with its \<open>Writer\<close> and \<open>Reader\<close> (queue/bounded_multicast_queue.h). Every
  message goes to one cell of a ring and every reader reads every message, or learns that it
  is late. A cell is the atomic register that \<open>Multicast_Message\<close> proves it to be: its \<open>Load\<close>
  and \<open>Store\<close> are single steps here, and its counter is twice the number of its stores.
\<close>

section \<open>Builtins of the language\<close>

text \<open>\<open>std::bit_ceil\<close>: the least power of two that is not smaller; undefined if \<open>size_t\<close> has none.\<close>

fun bit_width :: "nat \<Rightarrow> nat" where
  "bit_width n = (if n = 0 then 0 else Suc (bit_width (n div 2)))"

declare bit_width.simps [simp del]

definition bit_ceil :: "size_t \<Rightarrow> size_t option" where
  "bit_ceil x =
     (let k = (if unat x \<le> 1 then 0 else bit_width (unat x - 1))
      in if k < 64 then Some (2 ^ k) else None)"

text \<open>\<open>__builtin_ctz\<close> takes an \<open>unsigned int\<close>: the argument loses its upper half; 0 is undefined.\<close>

definition ctz :: "uint32 \<Rightarrow> nat option" where
  "ctz x = (if x = 0 then None else Some (length (takeWhile (\<lambda>i. \<not> bit x i) [0..<32])))"

text \<open>A difference of two \<open>int32_t\<close>: undefined if it does not fit.\<close>

definition int32_sub :: "int32 \<Rightarrow> int32 \<Rightarrow> int option" where
  "int32_sub a b =
     (let d = sint a - sint b in if - (2 ^ 31) \<le> d \<and> d < 2 ^ 31 then Some d else None)"

section \<open>The queue, the writer and the readers\<close>

record mcell =
  cell_bytes :: "byte list"
  cell_seq :: counter

definition cell_Store :: "byte list \<Rightarrow> mcell \<Rightarrow> mcell" where
  "cell_Store object c = c\<lparr>cell_bytes := object, cell_seq := cell_seq c + 2\<rparr>"

definition cell_Load :: "mcell \<Rightarrow> message \<Rightarrow> counter \<times> message" where
  "cell_Load c msg =
     (cell_seq c, msg\<lparr>msg_data := cell_bytes c @ drop (length (cell_bytes c)) (msg_data msg),
                      msg_size := length (cell_bytes c)\<rparr>)"

record mq =
  mq_size :: size_t
  mq_buffer :: "mcell list"

definition mq_GetBufferSize :: "size_t \<Rightarrow> size_t option" where
  "mq_GetBufferSize MessagesCount = bit_ceil MessagesCount"

definition mq_GetIndexMask :: "mq \<Rightarrow> size_t" where
  "mq_GetIndexMask q = mq_size q - 1"

definition mq_GetSeqRightShiftValue :: "mq \<Rightarrow> nat option" where
  "mq_GetSeqRightShiftValue q = ctz (ucast (mq_size q))"

definition mq_new :: "size_t \<Rightarrow> mq option" where
  "mq_new MessagesCount =
     (case mq_GetBufferSize MessagesCount of
        None \<Rightarrow> None
      | Some n \<Rightarrow> Some \<lparr>mq_size = n, mq_buffer = replicate (unat n) \<lparr>cell_bytes = [], cell_seq = 0\<rparr>\<rparr>)"

text \<open>\<open>queue_\<close> is a pointer: \<open>None\<close> is \<open>nullptr\<close>, which a moved-from writer or reader has.\<close>

record mq_writer =
  wr_queue :: "nat option"
  wr_tail :: size_t

record mq_reader =
  rd_queue :: "nat option"
  rd_head :: size_t
  rd_expected_seq :: size_t

definition Writer_new :: "nat \<Rightarrow> mq_writer" where
  "Writer_new queue = \<lparr>wr_queue = Some queue, wr_tail = 0\<rparr>"

text \<open>The move constructor: the new writer and what is left of the other.\<close>

definition Writer_move :: "mq_writer \<Rightarrow> mq_writer \<times> mq_writer" where
  "Writer_move other =
     (\<lparr>wr_queue = wr_queue other, wr_tail = wr_tail other\<rparr>, other\<lparr>wr_queue := None, wr_tail := 0\<rparr>)"

definition Writer_Swap :: "mq_writer \<Rightarrow> mq_writer \<Rightarrow> mq_writer \<times> mq_writer" where
  "Writer_Swap this other =
     (this\<lparr>wr_queue := wr_queue other, wr_tail := wr_tail other\<rparr>,
      other\<lparr>wr_queue := wr_queue this, wr_tail := wr_tail this\<rparr>)"

definition Writer_move_assign :: "mq_writer \<Rightarrow> mq_writer \<Rightarrow> mq_writer \<times> mq_writer" where
  "Writer_move_assign this other = Writer_Swap this other"

text \<open>
  \<open>Write\<close> dereferences \<open>queue_\<close>; \<open>queues\<close> gives the queue at an address.
\<close>

definition Writer_Write :: "byte list \<Rightarrow> mq_writer \<Rightarrow> (nat \<Rightarrow> mq option) \<Rightarrow> (mq_writer \<times> (nat \<Rightarrow> mq option)) option" where
  "Writer_Write object w queues =
     (case wr_queue w of None \<Rightarrow> None | Some a \<Rightarrow>
      (case queues a of None \<Rightarrow> None | Some q \<Rightarrow>
        Some (w\<lparr>wr_tail := (wr_tail w + 1) AND mq_GetIndexMask q\<rparr>,
              queues(a \<mapsto> q\<lparr>mq_buffer := (mq_buffer q)[unat (wr_tail w) :=
                cell_Store object (mq_buffer q ! unat (wr_tail w))]\<rparr>))))"

definition Reader_new :: "nat \<Rightarrow> mq_reader" where
  "Reader_new queue = \<lparr>rd_queue = Some queue, rd_head = 0, rd_expected_seq = 2\<rparr>"

definition Reader_copy :: "mq_reader \<Rightarrow> mq_reader" where
  "Reader_copy other =
     \<lparr>rd_queue = rd_queue other, rd_head = rd_head other, rd_expected_seq = rd_expected_seq other\<rparr>"

definition Reader_move :: "mq_reader \<Rightarrow> mq_reader \<times> mq_reader" where
  "Reader_move other =
     (\<lparr>rd_queue = rd_queue other, rd_head = rd_head other, rd_expected_seq = rd_expected_seq other\<rparr>,
      other\<lparr>rd_queue := None, rd_head := 0, rd_expected_seq := 2\<rparr>)"

definition Reader_Swap :: "mq_reader \<Rightarrow> mq_reader \<Rightarrow> mq_reader \<times> mq_reader" where
  "Reader_Swap this other =
     (this\<lparr>rd_queue := rd_queue other, rd_head := rd_head other, rd_expected_seq := rd_expected_seq other\<rparr>,
      other\<lparr>rd_queue := rd_queue this, rd_head := rd_head this, rd_expected_seq := rd_expected_seq this\<rparr>)"

definition Reader_copy_assign :: "mq_reader \<Rightarrow> mq_reader \<Rightarrow> mq_reader" where
  "Reader_copy_assign this other = (let tmp = Reader_copy other in snd (Reader_Swap tmp this))"

definition Reader_move_assign :: "mq_reader \<Rightarrow> mq_reader \<Rightarrow> mq_reader \<times> mq_reader" where
  "Reader_move_assign this other = Reader_Swap this other"

text \<open>\<open>TryRead\<close>: the difference of the two counters and the loaded message.\<close>

definition Reader_TryRead :: "message \<Rightarrow> mq_reader \<Rightarrow> (nat \<Rightarrow> mq option) \<Rightarrow> (int \<times> message) option" where
  "Reader_TryRead msg r queues =
     (case rd_queue r of None \<Rightarrow> None | Some a \<Rightarrow>
      (case queues a of None \<Rightarrow> None | Some q \<Rightarrow>
        (let (real_seq, msg) = cell_Load (mq_buffer q ! unat (rd_head r)) msg
         in case int32_sub real_seq (ucast (rd_expected_seq r)) of
              None \<Rightarrow> None
            | Some d \<Rightarrow> Some (d, msg))))"

definition Reader_TryRead_object :: "nat \<Rightarrow> nat \<Rightarrow> mq_reader \<Rightarrow> (nat \<Rightarrow> mq option) \<Rightarrow> (int \<times> byte list) option" where
  "Reader_TryRead_object Capacity sizeof_T r queues =
     (case Reader_TryRead (message_new Capacity) r queues of None \<Rightarrow> None
      | Some (d, msg) \<Rightarrow> (case message_Get sizeof_T msg of None \<Rightarrow> None | Some object \<Rightarrow> Some (d, object)))"

definition Reader_UpdateIndexes :: "mq_reader \<Rightarrow> mq \<Rightarrow> mq_reader option" where
  "Reader_UpdateIndexes r q =
     (case mq_GetSeqRightShiftValue q of None \<Rightarrow> None
      | Some shift \<Rightarrow>
          (let head = rd_head r + 1
           in Some (r\<lparr>rd_head := head AND mq_GetIndexMask q,
                      rd_expected_seq := rd_expected_seq r + push_bit 1 (drop_bit shift head)\<rparr>)))"

text \<open>One iteration of \<open>Read\<close>: it returns true or false, or waits and goes on.\<close>

datatype read_result = Read_true | Read_false | Read_wait

definition Reader_Read_iteration :: "message \<Rightarrow> mq_reader \<Rightarrow> (nat \<Rightarrow> mq option) \<Rightarrow> (read_result \<times> message \<times> mq_reader) option" where
  "Reader_Read_iteration msg r queues =
     (case Reader_TryRead msg r queues of None \<Rightarrow> None
      | Some (result, msg) \<Rightarrow>
          if result = 0 then
            (case Option.bind (rd_queue r) queues of None \<Rightarrow> None
             | Some q \<Rightarrow> (case Reader_UpdateIndexes r q of None \<Rightarrow> None
                        | Some r' \<Rightarrow> Some (Read_true, msg, r')))
          else if result > 0 then Some (Read_false, msg, r)
          else Some (Read_wait, msg, r))"

section \<open>One writer and any number of readers\<close>

text \<open>\<open>mqs_written\<close> counts the writes for the statements; the code has no such counter.\<close>

record mq_sys =
  mqs_queues :: "nat \<Rightarrow> mq option"
  mqs_writer :: mq_writer
  mqs_readers :: "nat \<Rightarrow> mq_reader"
  mqs_written :: nat

datatype mq_choice = MWrite "byte list" | MRead nat | MCopy nat nat

datatype mq_event = Wrote "byte list" | Got nat "byte list" | Late nat | Waited nat | Copied nat nat

fun mq_step :: "nat \<Rightarrow> mq_choice \<Rightarrow> mq_sys \<Rightarrow> (mq_event list \<times> mq_sys) option" where
  "mq_step Capacity (MWrite object) s =
     (if length object \<le> Capacity then
        (case Writer_Write object (mqs_writer s) (mqs_queues s) of None \<Rightarrow> None
         | Some (w, queues) \<Rightarrow> Some ([Wrote object], s\<lparr>mqs_writer := w, mqs_queues := queues, mqs_written := mqs_written s + 1\<rparr>))
      else None)"
| "mq_step Capacity (MRead i) s =
     (case Reader_Read_iteration (message_new Capacity) (mqs_readers s i) (mqs_queues s) of None \<Rightarrow> None
      | Some (Read_true, msg, r) \<Rightarrow>
          Some ([Got i (message_bytes msg)], s\<lparr>mqs_readers := (mqs_readers s)(i := r)\<rparr>)
      | Some (Read_false, msg, r) \<Rightarrow> Some ([Late i], s\<lparr>mqs_readers := (mqs_readers s)(i := r)\<rparr>)
      | Some (Read_wait, msg, r) \<Rightarrow> Some ([Waited i], s\<lparr>mqs_readers := (mqs_readers s)(i := r)\<rparr>))"
| "mq_step Capacity (MCopy i j) s =
     Some ([Copied i j], s\<lparr>mqs_readers := (mqs_readers s)(j := Reader_copy (mqs_readers s i))\<rparr>)"

definition mq_init :: "mq_sys \<Rightarrow> size_t \<Rightarrow> bool" where
  "mq_init s MessagesCount \<longleftrightarrow> (\<exists>q. mq_new MessagesCount = Some q \<and> mqs_queues s 0 = Some q \<and> unat (mq_size q) < 2 ^ 32) \<and>
     mqs_writer s = Writer_new 0 \<and> (\<forall>i. mqs_readers s i = Reader_new 0) \<and> mqs_written s = 0"

section \<open>The specification: a log and a position for each reader\<close>

record mq_log =
  log_window :: nat
  log_messages :: "byte list list"
  log_position :: "nat \<Rightarrow> nat"

text \<open>
  A reader gets the message at its position while at most \<open>log_window\<close> messages were written
  from there on; it waits at the end of the log and is late otherwise.
\<close>

fun mq_spec :: "mq_event \<Rightarrow> mq_log \<Rightarrow> mq_log option" where
  "mq_spec (Wrote d) l = Some (l\<lparr>log_messages := log_messages l @ [d]\<rparr>)"
| "mq_spec (Got i d) l =
     (let p = log_position l i; n = length (log_messages l)
      in if p < n \<and> n \<le> p + log_window l \<and> d = log_messages l ! p
         then Some (l\<lparr>log_position := (log_position l)(i := Suc p)\<rparr>) else None)"
| "mq_spec (Late i) l =
     (if log_position l i + log_window l < length (log_messages l) then Some l else None)"
| "mq_spec (Waited i) l = (if log_position l i = length (log_messages l) then Some l else None)"
| "mq_spec (Copied i j) l = Some (l\<lparr>log_position := (log_position l)(j := log_position l i)\<rparr>)"

section \<open>The buffer size\<close>

lemma bit_width_bounds: "0 < n \<Longrightarrow> 2 ^ (bit_width n - 1) \<le> n \<and> n < 2 ^ bit_width n \<and> 0 < bit_width n"
proof (induction n rule: bit_width.induct)
  case (1 n)
  show ?case
  proof (cases "n = 1")
    case True
    then show ?thesis by (simp add: bit_width.simps)
  next
    case False
    then have h: "0 < n div 2" "n \<noteq> 0" using 1(2) by auto
    with 1(1) have ih: "2 ^ (bit_width (n div 2) - 1) \<le> n div 2 \<and> n div 2 < 2 ^ bit_width (n div 2) \<and> 0 < bit_width (n div 2)"
      by simp
    define P :: nat where "P = 2 ^ (bit_width (n div 2) - 1)"
    have P: "2 ^ bit_width (n div 2) = 2 * P"
      using ih by (cases "bit_width (n div 2)") (auto simp: P_def)
    have "P \<le> n div 2" "n div 2 < 2 * P" using ih P by (simp_all add: P_def)
    then have "2 * P \<le> n" "n < 2 * (2 * P)" by presburger+
    then have "2 ^ bit_width (n div 2) \<le> n" "n < 2 ^ Suc (bit_width (n div 2))" using P by simp_all
    then show ?thesis using h(2) by (subst (1 2 3) bit_width.simps) simp
  qed
qed

text \<open>
  The number of cells is the least power of two that is not below
  \<open>MessagesCount\<close>, at least one; it exists exactly up to \<open>2 ^ 63\<close>.
\<close>

theorem mq_GetBufferSize_correct:
  "case mq_GetBufferSize MessagesCount of
     None \<Rightarrow> 2 ^ 63 < unat MessagesCount
   | Some n \<Rightarrow> pow2_size n \<and> unat MessagesCount \<le> unat n \<and> unat n \<le> max 1 (2 * (unat MessagesCount - 1))"
proof (cases "unat MessagesCount \<le> 1")
  case True
  then have "bit_ceil MessagesCount = Some (2 ^ 0)" by (simp add: bit_ceil_def)
  then show ?thesis
    using True pow2_sizeI [of 0] by (simp add: mq_GetBufferSize_def)
next
  case False
  let ?m = "unat MessagesCount - 1"
  let ?k = "bit_width ?m"
  have b: "2 ^ (?k - 1) \<le> ?m" "?m < 2 ^ ?k" "0 < ?k" using bit_width_bounds [of ?m] False by auto
  have half: "(2::nat) ^ ?k = 2 * 2 ^ (?k - 1)" using b(3) by (cases ?k) auto
  show ?thesis
  proof (cases "?k < 64")
    case True
    then have "bit_ceil MessagesCount = Some (2 ^ ?k)" using False by (simp add: bit_ceil_def)
    moreover have "unat MessagesCount \<le> 2 ^ ?k" "2 ^ ?k \<le> 2 * ?m" using b half by linarith+
    ultimately show ?thesis
      using unat_pow2 [OF True] pow2_sizeI [OF True] by (simp add: mq_GetBufferSize_def)
  next
    case no: False
    then have "bit_ceil MessagesCount = None" using False by (simp add: bit_ceil_def)
    moreover have "(2::nat) ^ 63 \<le> 2 ^ (?k - 1)" using no by (intro power_increasing) auto
    ultimately show ?thesis using False b by (simp add: mq_GetBufferSize_def)
  qed
qed

section \<open>Counting the stores of a cell\<close>

primrec cell_count :: "nat \<Rightarrow> nat \<Rightarrow> nat \<Rightarrow> nat" where
  "cell_count N j 0 = 0"
| "cell_count N j (Suc W) = cell_count N j W + (if W mod N = j then 1 else 0)"

lemma cell_count_less: "j < N \<Longrightarrow> i < cell_count N j W \<longleftrightarrow> i * N + j < W"
proof (induction W arbitrary: i)
  case (Suc W)
  show ?case
  proof (cases "W mod N = j")
    case True
    have W: "W = W div N * N + j" using True div_mult_mod_eq [of W N] by simp
    have "i < cell_count N j W \<longleftrightarrow> i < W div N" for i
    proof -
      have "i * N + j < W \<longleftrightarrow> i * N < W div N * N" using W by linarith
      then show ?thesis using Suc.IH [OF Suc.prems, of i] Suc.prems by simp
    qed
    then have c: "cell_count N j W = W div N" by (metis linorder_neqE_nat less_irrefl)
    have "i < Suc (W div N) \<longleftrightarrow> i * N \<le> W div N * N" using Suc.prems by (simp add: less_Suc_eq_le)
    also have "\<dots> \<longleftrightarrow> i * N + j < Suc W" using W by linarith
    finally show ?thesis using True c by simp
  next
    case False
    then have "i * N + j \<noteq> W" using Suc.prems by auto
    then show ?thesis using False Suc.IH [OF Suc.prems, of i] by (auto simp: less_Suc_eq)
  qed
qed simp

lemma cell_count_current: "0 < N \<Longrightarrow> cell_count N (W mod N) W = W div N"
proof -
  assume N: "0 < N"
  have "i < cell_count N (W mod N) W \<longleftrightarrow> i < W div N" for i
  proof -
    have "i * N + W mod N < W \<longleftrightarrow> i * N < W div N * N" using div_mult_mod_eq [of W N] by linarith
    then show ?thesis using cell_count_less [of "W mod N" N i W] N by simp
  qed
  then show ?thesis by (metis linorder_neqE_nat less_irrefl)
qed

lemma cell_count_le: "j < N \<Longrightarrow> cell_count N j W \<le> Suc (W div N)"
proof (rule ccontr)
  assume j: "j < N" and "\<not> cell_count N j W \<le> Suc (W div N)"
  then have "Suc (W div N) * N + j < W" using cell_count_less [OF j, of "Suc (W div N)" W] by simp
  moreover have "W mod N < N" "W div N * N + W mod N = W" using j by simp_all
  ultimately show False by (simp only: mult_Suc)
qed

section \<open>The simulation\<close>

definition mq_bounded :: "mq_sys \<Rightarrow> bool" where
  "mq_bounded s \<longleftrightarrow> (case mqs_queues s 0 of None \<Rightarrow> False
     | Some q \<Rightarrow> mqs_written s div unat (mq_size q) < 2 ^ 30 - 1)"

abbreviation mq_bounded_step :: "nat \<Rightarrow> mq_choice \<Rightarrow> mq_sys \<Rightarrow> (mq_event list \<times> mq_sys) option" where
  "mq_bounded_step Capacity \<equiv> within mq_bounded (mq_step Capacity)"

definition reader_at :: "nat \<Rightarrow> nat \<Rightarrow> mq_reader" where
  "reader_at N p = \<lparr>rd_queue = Some 0, rd_head = of_nat (p mod N), rd_expected_seq = of_nat (2 + 2 * (p div N))\<rparr>"

definition mq_cells_ok :: "mq \<Rightarrow> byte list list \<Rightarrow> bool" where
  "mq_cells_ok q msgs \<longleftrightarrow>
     (let N = unat (mq_size q) in
      pow2_size (mq_size q) \<and> N < 2 ^ 32 \<and> length (mq_buffer q) = N \<and>
      (\<forall>j<N. let c = cell_count N j (length msgs) in
         cell_seq (mq_buffer q ! j) = of_nat (2 * c) \<and>
         (c = 0 \<longrightarrow> cell_bytes (mq_buffer q ! j) = []) \<and>
         (0 < c \<longrightarrow> cell_bytes (mq_buffer q ! j) = msgs ! ((c - 1) * N + j))))"

definition mq_rel :: "nat \<Rightarrow> mq_sys \<Rightarrow> mq_log \<Rightarrow> bool" where
  "mq_rel Capacity s l \<longleftrightarrow> (\<forall>d\<in>set (log_messages l). length d \<le> Capacity) \<and> (\<exists>q. mqs_queues s 0 = Some q \<and> mq_cells_ok q (log_messages l) \<and>
     log_window l = unat (mq_size q) \<and> mqs_written s = length (log_messages l) \<and>
     mqs_writer s = \<lparr>wr_queue = Some 0, wr_tail = of_nat (length (log_messages l) mod unat (mq_size q))\<rparr> \<and>
     (\<forall>i. log_position l i \<le> length (log_messages l) \<and>
        mqs_readers s i = reader_at (unat (mq_size q)) (log_position l i)))"

lemma unat_of_nat_small: "x < 2 ^ 64 \<Longrightarrow> unat (of_nat x :: size_t) = x"
  by (simp add: unsigned_of_nat take_bit_nat_eq_self)

lemma sint_of_nat_small: "x < 2 ^ 31 \<Longrightarrow> sint (of_nat x :: int32) = int x"
  by (simp add: signed_of_nat signed_take_bit_int_eq_self)

lemma ctz_pow2:
  assumes "k < 32"
  shows "ctz (2 ^ k) = Some k"
proof -
  have "(2::uint32) ^ k \<noteq> 0" using assms by (simp add: exp_eq_zero_iff)
  moreover have "length (takeWhile (\<lambda>i. \<not> bit ((2::uint32) ^ k) i) [0..<32]) = k"
    using assms by (intro takeWhile_upt_first) (auto simp: bit_exp_iff)
  ultimately show ?thesis by (simp add: ctz_def)
qed

lemma mq_write_cells:
  assumes ok: "mq_cells_ok q msgs" and j: "j = length msgs mod unat (mq_size q)"
  shows "mq_cells_ok (q\<lparr>mq_buffer := (mq_buffer q)[j := cell_Store object (mq_buffer q ! j)]\<rparr>) (msgs @ [object])"
proof -
  let ?N = "unat (mq_size q)" and ?W = "length msgs"
  have N: "0 < ?N" "j < ?N" "length (mq_buffer q) = ?N"
    using ok j by (auto simp: mq_cells_ok_def Let_def pow2_size_pos)
  have here: "cell_count ?N j ?W = ?W div ?N" using cell_count_current [OF N(1)] j by simp
  have cell: "cell_seq (mq_buffer q ! i) = of_nat (2 * cell_count ?N i ?W)"
    "cell_count ?N i ?W = 0 \<Longrightarrow> cell_bytes (mq_buffer q ! i) = []"
    "0 < cell_count ?N i ?W \<Longrightarrow> cell_bytes (mq_buffer q ! i) = msgs ! ((cell_count ?N i ?W - 1) * ?N + i)"
    if "i < ?N" for i using ok that by (auto simp: mq_cells_ok_def Let_def)
  have old: "(cell_count ?N i ?W - 1) * ?N + i < ?W" if "i < ?N" "0 < cell_count ?N i ?W" for i
    using cell_count_less [OF that(1), of "cell_count ?N i ?W - 1" ?W] that(2) by simp
  have new: "?W div ?N * ?N + j = ?W" using j by simp
  have "\<forall>i<?N. cell_seq ((mq_buffer q)[j := cell_Store object (mq_buffer q ! j)] ! i) = of_nat (2 * cell_count ?N i (Suc ?W)) \<and>
      (cell_count ?N i (Suc ?W) = 0 \<longrightarrow> cell_bytes ((mq_buffer q)[j := cell_Store object (mq_buffer q ! j)] ! i) = []) \<and>
      (0 < cell_count ?N i (Suc ?W) \<longrightarrow> cell_bytes ((mq_buffer q)[j := cell_Store object (mq_buffer q ! j)] ! i) =
        (msgs @ [object]) ! ((cell_count ?N i (Suc ?W) - 1) * ?N + i))"
  proof (intro allI impI)
    fix i assume i: "i < ?N"
    show "cell_seq ((mq_buffer q)[j := cell_Store object (mq_buffer q ! j)] ! i) = of_nat (2 * cell_count ?N i (Suc ?W)) \<and>
      (cell_count ?N i (Suc ?W) = 0 \<longrightarrow> cell_bytes ((mq_buffer q)[j := cell_Store object (mq_buffer q ! j)] ! i) = []) \<and>
      (0 < cell_count ?N i (Suc ?W) \<longrightarrow> cell_bytes ((mq_buffer q)[j := cell_Store object (mq_buffer q ! j)] ! i) =
        (msgs @ [object]) ! ((cell_count ?N i (Suc ?W) - 1) * ?N + i))"
    proof (cases "i = j")
      case True
      then show ?thesis using cell(1) [OF i] N here new j by (simp add: cell_Store_def algebra_simps)
    next
      case False
      then show ?thesis using cell [OF i] old [OF i] j by (auto simp: nth_append)
    qed
  qed
  then show ?thesis using ok by (simp add: mq_cells_ok_def Let_def)
qed

lemma next_index_of_nat:
  assumes "pow2_size n" "N = unat n"
  shows "((of_nat (W mod N) :: size_t) + 1) AND (n - 1) = of_nat (Suc W mod N)"
proof -
  have N: "0 < N" using assms by (simp add: pow2_size_pos)
  have small: "unat (of_nat (x mod N) :: size_t) = x mod N" for x
    using less_trans [OF mod_less_divisor [OF N]] unat_lt64 [of n] assms(2) by (intro unat_of_nat_small) simp
  have "unat (((of_nat (W mod N) :: size_t) + 1) AND (n - 1)) = Suc W mod N"
    using unat_next_index [OF assms(1), of "of_nat (W mod N)"] small [of W] assms(2) by (simp add: mod_Suc_eq)
  then show ?thesis using small [of "Suc W"] by (simp only: word_unat_eq_iff)
qed

lemma mq_rel_write:
  assumes rel: "mq_rel Capacity s l" and step: "mq_step Capacity (MWrite object) s = Some (e, t)"
  shows "\<exists>l'. accepts mq_spec e l = Some l' \<and> mq_rel Capacity t l'"
proof -
  obtain q where q: "mqs_queues s 0 = Some q" "mq_cells_ok q (log_messages l)" "log_window l = unat (mq_size q)"
    "mqs_written s = length (log_messages l)"
    "mqs_writer s = \<lparr>wr_queue = Some 0, wr_tail = of_nat (length (log_messages l) mod unat (mq_size q))\<rparr>"
    and readers: "\<And>i. log_position l i \<le> length (log_messages l) \<and>
      mqs_readers s i = reader_at (unat (mq_size q)) (log_position l i)"
    using rel by (auto simp: mq_rel_def)
  let ?N = "unat (mq_size q)" and ?W = "length (log_messages l)"
  let ?q = "q\<lparr>mq_buffer := (mq_buffer q)[?W mod ?N := cell_Store object (mq_buffer q ! (?W mod ?N))]\<rparr>"
  have N: "pow2_size (mq_size q)" "0 < ?N" using q(2) by (auto simp: mq_cells_ok_def Let_def pow2_size_pos)
  have "?W mod ?N < ?N" using N(2) by simp
  then have tail: "unat (of_nat (?W mod ?N) :: size_t) = ?W mod ?N"
    using unat_lt64 [of "mq_size q"] by (intro unat_of_nat_small) simp
  note next_tail = next_index_of_nat [OF N(1) refl, of ?W]
  have t: "e = [Wrote object]" "t = s\<lparr>mqs_writer := \<lparr>wr_queue = Some 0, wr_tail = of_nat (Suc ?W mod ?N)\<rparr>,
      mqs_queues := (mqs_queues s)(0 \<mapsto> ?q), mqs_written := Suc ?W\<rparr>"
    and fits: "length object \<le> Capacity"
    using step by (auto simp: Writer_Write_def mq_GetIndexMask_def q tail next_tail split: if_splits)
  have small: "\<forall>d\<in>set (log_messages l). length d \<le> Capacity" using rel by (simp add: mq_rel_def)
  have "mq_rel Capacity t (l\<lparr>log_messages := log_messages l @ [object]\<rparr>)"
    unfolding mq_rel_def
  proof (intro exI [of _ ?q] conjI)
    show "\<forall>d\<in>set (log_messages (l\<lparr>log_messages := log_messages l @ [object]\<rparr>)). length d \<le> Capacity"
      using small fits by auto
    show "mq_cells_ok ?q (log_messages (l\<lparr>log_messages := log_messages l @ [object]\<rparr>))"
      using mq_write_cells [OF q(2) refl] by simp
    show "\<forall>i. log_position (l\<lparr>log_messages := log_messages l @ [object]\<rparr>) i
        \<le> length (log_messages (l\<lparr>log_messages := log_messages l @ [object]\<rparr>)) \<and>
      mqs_readers t i = reader_at (unat (mq_size ?q)) (log_position (l\<lparr>log_messages := log_messages l @ [object]\<rparr>) i)"
      using readers by (auto simp: t(2) le_Suc_eq)
  qed (use q(3) in \<open>simp_all add: t(2)\<close>)
  with t(1) show ?thesis by simp
qed

lemma ucast_of_nat_small:
  assumes "x < 2 ^ 32"
  shows "(ucast (of_nat x :: size_t) :: uint32) = of_nat x"
proof -
  have "unat (ucast (of_nat x :: size_t) :: uint32) = unat (of_nat x :: uint32)"
    using assms by (simp add: unsigned_ucast_eq unsigned_of_nat take_bit_nat_eq_self)
  then show ?thesis by (simp only: word_unat_eq_iff)
qed

lemma int32_sub_small:
  assumes "c < 2 ^ 31" "e < 2 ^ 31"
  shows "int32_sub (of_nat c) (ucast (of_nat e :: size_t)) = Some (int c - int e)"
proof -
  have "(ucast (of_nat e :: size_t) :: uint32) = of_nat e" using assms by (intro ucast_of_nat_small) simp
  then show ?thesis using assms by (simp add: int32_sub_def Let_def sint_of_nat_small)
qed

text \<open>What a reader at position \<open>p\<close> sees of the counter, and how its indices move on.\<close>

lemma reader_difference:
  assumes "p \<le> W" "W div N < 2 ^ 30 - 1" "0 < N"
  shows "int32_sub (of_nat (2 * cell_count N (p mod N) W)) (ucast (of_nat (2 + 2 * (p div N)) :: size_t)) =
    Some (2 * (int (cell_count N (p mod N) W) - int (Suc (p div N))))"
proof -
  let ?c = "cell_count N (p mod N) W"
  have "?c \<le> Suc (W div N)" using assms(3) by (intro cell_count_le) simp
  then have c: "2 * ?c < 2 ^ 31" using assms(2) by simp
  have "p div N \<le> W div N" using assms(1) by (rule div_le_mono)
  then have e: "2 + 2 * (p div N) < 2 ^ 31" using assms(2) by simp
  have "int32_sub (of_nat (2 * ?c)) (ucast (of_nat (2 + 2 * (p div N)) :: size_t)) =
      Some (int (2 * ?c) - int (2 + 2 * (p div N)))" by (rule int32_sub_small [OF c e])
  also have "int (2 * ?c) - int (2 + 2 * (p div N)) = 2 * (int ?c - int (Suc (p div N)))" by simp
  finally show ?thesis .
qed

lemma reader_count_cases:
  assumes "0 < N" "p \<le> W"
  shows "cell_count N (p mod N) W < Suc (p div N) \<longleftrightarrow> p = W"
    "Suc (p div N) < cell_count N (p mod N) W \<longleftrightarrow> p + N < W"
    "cell_count N (p mod N) W = Suc (p div N) \<Longrightarrow> p < W \<and> W \<le> p + N"
proof -
  have j: "p mod N < N" using assms(1) by simp
  have p: "p div N * N + p mod N = p" by simp
  have 1: "p div N < cell_count N (p mod N) W \<longleftrightarrow> p < W"
    using cell_count_less [OF j, of "p div N" W] p by simp
  have 2: "Suc (p div N) < cell_count N (p mod N) W \<longleftrightarrow> p + N < W"
    using cell_count_less [OF j, of "Suc (p div N)" W] p by (simp add: add.commute add.left_commute)
  show "Suc (p div N) < cell_count N (p mod N) W \<longleftrightarrow> p + N < W" by (rule 2)
  show "cell_count N (p mod N) W < Suc (p div N) \<longleftrightarrow> p = W" using 1 assms(2) by linarith
  show "cell_count N (p mod N) W = Suc (p div N) \<Longrightarrow> p < W \<and> W \<le> p + N" using 1 2 by linarith
qed

lemma Reader_UpdateIndexes_at:
  assumes "pow2_size (mq_size q)" "unat (mq_size q) < 2 ^ 32" "2 + 2 * (p div unat (mq_size q)) < 2 ^ 31"
  shows "Reader_UpdateIndexes (reader_at (unat (mq_size q)) p) q = Some (reader_at (unat (mq_size q)) (Suc p))"
proof -
  obtain k where k: "k < 64" "mq_size q = 2 ^ k" "unat (mq_size q) = 2 ^ k" using assms(1) by (rule pow2_sizeE)
  let ?N = "(2::nat) ^ k"
  have "(2::nat) ^ k < 2 ^ 32" using assms(2) k by simp
  then have k32: "k < 32" by (simp only: power_strict_increasing_iff)
  have "(ucast (of_nat ?N :: size_t) :: uint32) = of_nat ?N"
    using k32 by (intro ucast_of_nat_small power_strict_increasing) simp_all
  then have shift: "mq_GetSeqRightShiftValue q = Some k"
    using ctz_pow2 [OF k32] k(2) by (simp add: mq_GetSeqRightShiftValue_def)
  have small: "Suc (p mod ?N) \<le> ?N" "?N < 2 ^ 32" using assms(2) k by (simp_all add: Suc_le_eq)
  let ?h = "of_nat (p mod ?N) + 1 :: size_t"
  have h: "unat ?h = Suc (p mod ?N)"
    using small unat_of_nat_small [of "Suc (p mod ?N)"] by (simp add: add.commute)
  have "push_bit 1 (drop_bit k ?h) = (2 * of_nat (unat ?h div 2 ^ k) :: size_t)"
  proof -
    have "drop_bit k ?h = of_nat (unat (drop_bit k ?h))" by simp
    also have "unat (drop_bit k ?h) = drop_bit k (take_bit LENGTH(64) (unat ?h))"
      by (rule unsigned_drop_bit_eq)
    also have "take_bit LENGTH(64) (unat ?h) = unat ?h" using unat_lt64 [of ?h] by (simp add: take_bit_nat_eq_self)
    also have "drop_bit k (unat ?h) = unat ?h div 2 ^ k" by (rule drop_bit_eq_div)
    finally show ?thesis by (simp add: push_bit_eq_mult)
  qed
  then have "of_nat (2 + 2 * (p div ?N)) + push_bit 1 (drop_bit k ?h) =
      (of_nat (2 + 2 * (p div ?N + Suc (p mod ?N) div ?N)) :: size_t)"
    unfolding h by (simp add: algebra_simps)
  also have "p div ?N + Suc (p mod ?N) div ?N = Suc p div ?N"
  proof -
    have "Suc (p mod ?N) + p div ?N * ?N = Suc p" using mod_div_mult_eq [of p ?N] by linarith
    moreover have "(Suc (p mod ?N) + p div ?N * ?N) div ?N = p div ?N + Suc (p mod ?N) div ?N"
      by (rule div_mult_self1) simp
    ultimately show ?thesis by simp
  qed
  finally have expected: "of_nat (2 + 2 * (p div ?N)) + push_bit 1 (drop_bit k ?h) =
      (of_nat (2 + 2 * (Suc p div ?N)) :: size_t)" .
  have "unat (?h AND mq_GetIndexMask q) = Suc p mod ?N"
  proof -
    have "unat (?h AND mq_GetIndexMask q) = unat ?h mod ?N"
      using unat_and_ring_mask [OF assms(1), of ?h] k by (simp add: mq_GetIndexMask_def)
    then show ?thesis unfolding h by (simp add: mod_Suc_eq)
  qed
  moreover have "?N < 2 ^ 64" using unat_lt64 [of "mq_size q"] k(3) by (simp only:)
  then have "unat (of_nat (Suc p mod ?N) :: size_t) = Suc p mod ?N"
    by (intro unat_of_nat_small) (rule less_trans [of _ ?N], simp_all only: mod_less_divisor zero_less_power zero_less_numeral)
  ultimately have head: "?h AND mq_GetIndexMask q = of_nat (Suc p mod ?N)" by (simp only: word_unat_eq_iff)
  show ?thesis
    using shift expected head unfolding Reader_UpdateIndexes_def reader_at_def k(3) by (simp add: Let_def)
qed


lemma cell_Load_message_new:
  "length (cell_bytes c) \<le> Capacity \<Longrightarrow> message_bytes (snd (cell_Load c (message_new Capacity))) = cell_bytes c"
  by (simp add: cell_Load_def message_bytes_def message_new_def)

text \<open>\<open>TryRead\<close> and one iteration of \<open>Read\<close> by a reader at position \<open>p\<close>: the results and the loaded message.\<close>

lemma Reader_TryRead_at:
  fixes msg :: message
  assumes q: "queues 0 = Some q" and ok: "mq_cells_ok q msgs" and p: "p \<le> length msgs"
    and bound: "length msgs div unat (mq_size q) < 2 ^ 30 - 1"
    and N_def: "N = unat (mq_size q)"
    and m_def: "m = snd (cell_Load (mq_buffer q ! (p mod N)) msg)"
  obtains d where "Reader_TryRead msg (reader_at N p) queues = Some (d, m)"
    "d < 0 \<longleftrightarrow> p = length msgs" "0 < d \<longleftrightarrow> p + N < length msgs"
proof -
  let ?W = "length msgs" and ?c = "cell_count N (p mod N) (length msgs)"
  have N: "pow2_size (mq_size q)" "0 < N" "N < 2 ^ 32" "p mod N < N"
    using ok by (auto simp: mq_cells_ok_def Let_def pow2_size_pos N_def)
  have "p mod N < 2 ^ 64" using N(4) unat_lt64 [of "mq_size q"] by (simp only: N_def [symmetric])
  then have head: "unat (rd_head (reader_at N p)) = p mod N" by (simp only: reader_at_def mq_reader.simps unat_of_nat_small)
  have load: "cell_Load (mq_buffer q ! (p mod N)) msg = (of_nat (2 * ?c), m)"
    using ok N(4) by (simp add: cell_Load_def m_def mq_cells_ok_def Let_def N_def)
  have "Reader_TryRead msg (reader_at N p) queues = Some (2 * (int ?c - int (Suc (p div N))), m)"
    using reader_difference [OF p bound [folded N_def] N(2)] q head load
    by (simp add: Reader_TryRead_def reader_at_def)
  moreover have "2 * (int ?c - int (Suc (p div N))) < 0 \<longleftrightarrow> p = ?W" "0 < 2 * (int ?c - int (Suc (p div N))) \<longleftrightarrow> p + N < ?W"
    using reader_count_cases(1,2) [OF N(2) p] by auto
  ultimately show thesis by (rule that)
qed

lemma Reader_Read_iteration_at:
  fixes msg :: message
  assumes q: "queues 0 = Some q" and ok: "mq_cells_ok q msgs" and p: "p \<le> length msgs"
    and bound: "length msgs div unat (mq_size q) < 2 ^ 30 - 1"
    and N_def: "N = unat (mq_size q)"
    and m_def: "m = snd (cell_Load (mq_buffer q ! (p mod N)) msg)"
  shows "Reader_Read_iteration msg (reader_at N p) queues =
    Some (if p = length msgs then (Read_wait, m, reader_at N p)
          else if p + N < length msgs then (Read_false, m, reader_at N p)
          else (Read_true, m, reader_at N (Suc p)))"
proof -
  let ?W = "length msgs"
  obtain d where d: "Reader_TryRead msg (reader_at N p) queues = Some (d, m)" "d < 0 \<longleftrightarrow> p = ?W" "0 < d \<longleftrightarrow> p + N < ?W"
    using Reader_TryRead_at [of queues q msgs p N m msg, OF assms] by blast
  have "p div N \<le> ?W div N" using p by (rule div_le_mono)
  then have "2 + 2 * (p div N) < 2 ^ 31" using bound [folded N_def] by simp
  then have update: "Reader_UpdateIndexes (reader_at N p) q = Some (reader_at N (Suc p))"
    using Reader_UpdateIndexes_at [of q p] ok by (simp add: N_def mq_cells_ok_def Let_def)
  have "Option.bind (rd_queue (reader_at N p)) queues = Some q" using q by (simp add: reader_at_def)
  then show ?thesis using d update by (auto simp: Reader_Read_iteration_def)
qed

lemma mq_cells_message:
  assumes ok: "mq_cells_ok q msgs" and p: "p < length msgs" "length msgs \<le> p + N" and N: "N = unat (mq_size q)"
  shows "cell_bytes (mq_buffer q ! (p mod N)) = msgs ! p"
proof -
  have pos: "0 < N" "p mod N < N" using ok by (auto simp: mq_cells_ok_def Let_def pow2_size_pos N)
  let ?c = "cell_count N (p mod N) (length msgs)"
  have "?c = Suc (p div N)" using reader_count_cases [OF pos(1), of p "length msgs"] p by linarith
  then show ?thesis using ok pos(2) by (simp add: mq_cells_ok_def Let_def N)
qed

lemma mq_cells_fit:
  assumes ok: "mq_cells_ok q msgs" and N: "N = unat (mq_size q)" and small: "\<forall>d\<in>set msgs. length d \<le> Capacity"
  shows "length (cell_bytes (mq_buffer q ! (p mod N))) \<le> Capacity"
proof -
  have j: "p mod N < N" using ok by (auto simp: mq_cells_ok_def Let_def pow2_size_pos N)
  let ?c = "cell_count N (p mod N) (length msgs)"
  have cell: "?c = 0 \<Longrightarrow> cell_bytes (mq_buffer q ! (p mod N)) = []"
    "0 < ?c \<Longrightarrow> cell_bytes (mq_buffer q ! (p mod N)) = msgs ! ((?c - 1) * N + p mod N)"
    using ok j by (auto simp: mq_cells_ok_def Let_def N)
  show ?thesis
  proof (cases "?c = 0")
    case False
    then have "(?c - 1) * N + p mod N < length msgs" using cell_count_less [OF j, of "?c - 1" "length msgs"] by simp
    then show ?thesis using cell(2) False small by simp
  qed (use cell in simp)
qed

lemma mq_rel_read:
  assumes rel: "mq_rel Capacity s l" and bound: "mq_bounded s"
    and p_def: "p = log_position l i" and W_def: "W = length (log_messages l)"
  shows "mq_step Capacity (MRead i) s =
    (if p = W then Some ([Waited i], s)
     else if p + log_window l < W then Some ([Late i], s)
     else Some ([Got i (log_messages l ! p)], s\<lparr>mqs_readers := (mqs_readers s)(i := reader_at (log_window l) (Suc p))\<rparr>))"
proof -
  obtain q where q: "mqs_queues s 0 = Some q" "mq_cells_ok q (log_messages l)" "log_window l = unat (mq_size q)"
    "mqs_written s = W" and reader: "p \<le> W" "mqs_readers s i = reader_at (log_window l) p"
    and small: "\<forall>d\<in>set (log_messages l). length d \<le> Capacity"
    using rel by (auto simp: mq_rel_def p_def W_def)
  let ?m = "snd (cell_Load (mq_buffer q ! (p mod log_window l)) (message_new Capacity))"
  have bytes: "message_bytes ?m = log_messages l ! p" if "p < W" "W \<le> p + log_window l"
  proof -
    have "cell_bytes (mq_buffer q ! (p mod log_window l)) = log_messages l ! p"
      using mq_cells_message [OF q(2) that [unfolded W_def] q(3)] .
    moreover have "length (log_messages l ! p) \<le> Capacity" using small that(1) by (simp add: W_def)
    ultimately show ?thesis by (simp add: cell_Load_message_new)
  qed
  have same: "s\<lparr>mqs_readers := (mqs_readers s)(i := reader_at (log_window l) p)\<rparr> = s"
    using reader(2) by (metis fun_upd_triv mq_sys.surjective mq_sys.update_convs(3))
  have "W div unat (mq_size q) < 2 ^ 30 - 1" using bound q(1,4) by (simp add: mq_bounded_def)
  from Reader_Read_iteration_at [of "mqs_queues s" q "log_messages l" p "log_window l" ?m "message_new Capacity",
      OF q(1,2) reader(1) [unfolded W_def] this [unfolded W_def] q(3) refl]
  show ?thesis using reader bytes same by (cases "p = W") (auto simp: W_def)
qed

lemma mq_bounded_step_mono: "mq_step Capacity c s = Some (e, t) \<Longrightarrow> mq_bounded t \<Longrightarrow> mq_bounded s"
proof (cases c)
  case (MWrite object)
  have le: "w div n \<le> Suc w div n" for w n :: nat by (rule div_le_mono) simp
  assume "mq_step Capacity c s = Some (e, t)" "mq_bounded t"
  then show ?thesis using MWrite le_less_trans [OF le]
    by (auto simp: mq_bounded_def Writer_Write_def split: option.splits if_splits)
qed (auto simp: mq_bounded_def split: option.splits prod.splits read_result.splits)

lemma mq_rel_step:
  assumes rel: "mq_rel Capacity s l" and step: "mq_bounded_step Capacity c s = Some (e, t)"
  shows "\<exists>l'. accepts mq_spec e l = Some l' \<and> mq_rel Capacity t l'"
proof -
  have st: "mq_step Capacity c s = Some (e, t)" "mq_bounded t"
    using step by (simp_all add: within_Some)
  then have bound: "mq_bounded s" by (rule mq_bounded_step_mono)
  show ?thesis
  proof (cases c)
    case (MWrite object)
    then show ?thesis using mq_rel_write rel st(1) by blast
  next
    case (MRead i)
    have "log_position l i = length (log_messages l) \<or> log_position l i < length (log_messages l)"
      using rel by (auto simp: mq_rel_def le_less)
    then show ?thesis using MRead st(1) rel mq_rel_read [OF rel bound refl refl, of i]
      by (auto simp: mq_rel_def Let_def Suc_le_eq simp del: mq_step.simps split: if_splits)
  next
    case (MCopy i j)
    then show ?thesis using st(1) rel by (auto simp: mq_rel_def Reader_copy_def reader_at_def)
  qed
qed


definition mq_log_new :: "size_t \<Rightarrow> mq_log" where
  "mq_log_new MessagesCount =
     \<lparr>log_window = unat (the (mq_GetBufferSize MessagesCount)), log_messages = [], log_position = (\<lambda>i. 0)\<rparr>"

lemma bit_ceil_pow2: "bit_ceil M = Some n \<Longrightarrow> pow2_size n"
  using pow2_sizeI [of 0] by (auto simp: bit_ceil_def Let_def pow2_sizeI split: if_splits)

lemma mq_rel_init:
  assumes "mq_init s MessagesCount"
  shows "mq_rel Capacity s (mq_log_new MessagesCount)"
proof -
  obtain n where n: "mq_GetBufferSize MessagesCount = Some n" "unat n < 2 ^ 32"
    "mqs_queues s 0 = Some \<lparr>mq_size = n, mq_buffer = replicate (unat n) \<lparr>cell_bytes = [], cell_seq = 0\<rparr>\<rparr>"
    and sys: "mqs_writer s = Writer_new 0" "\<And>i. mqs_readers s i = Reader_new 0" "mqs_written s = 0"
    using assms by (auto simp: mq_init_def mq_new_def split: option.splits)
  have "pow2_size n" using n(1) bit_ceil_pow2 by (simp add: mq_GetBufferSize_def)
  then show ?thesis using n sys
    by (auto simp: mq_rel_def mq_log_new_def mq_cells_ok_def Writer_new_def Reader_new_def reader_at_def Let_def)
qed

interpretation mq_ref: simulation "mq_bounded_step Capacity"
    "\<lambda>s l. mq_init s MessagesCount \<and> l = mq_log_new MessagesCount" "mq_rel Capacity" mq_spec
  for Capacity MessagesCount
  by unfold_locales (use mq_rel_init mq_rel_step in blast)+

lemma mq_bounded_reaches:
  "reaches (mq_step Capacity) s es t \<Longrightarrow> mq_bounded t \<Longrightarrow> reaches (mq_bounded_step Capacity) s es t"
  by (erule (1) reaches_within) (rule mq_bounded_step_mono)

section \<open>What the log shows of the events\<close>

fun writes :: "mq_event list \<Rightarrow> byte list list" where
  "writes [] = []"
| "writes (Wrote d # es) = d # writes es"
| "writes (e # es) = writes es"

fun gots :: "nat \<Rightarrow> mq_event list \<Rightarrow> byte list list" where
  "gots i [] = []"
| "gots i (Got j d # es) = (if j = i then d # gots i es else gots i es)"
| "gots i (e # es) = gots i es"

definition never_assigned :: "nat \<Rightarrow> mq_event list \<Rightarrow> bool" where
  "never_assigned i es \<longleftrightarrow> list_all (\<lambda>e. case e of Copied j k \<Rightarrow> k \<noteq> i | _ \<Rightarrow> True) es"

text \<open>
  The positions of the readers after some events: a reader moves on when it gets a message, and one that is copied
  over another gives it its position.
\<close>

primrec reader_pos :: "mq_event list \<Rightarrow> (nat \<Rightarrow> nat) \<Rightarrow> nat \<Rightarrow> nat" where
  "reader_pos [] p = p"
| "reader_pos (e # es) p =
     reader_pos es (case e of Got i d \<Rightarrow> p(i := Suc (p i)) | Copied i j \<Rightarrow> p(j := p i) | _ \<Rightarrow> p)"

text \<open>Every message that reader \<open>i\<close> got is the one at its position at that time.\<close>

definition gets_its_messages :: "nat \<Rightarrow> mq_event list \<Rightarrow> bool" where
  "gets_its_messages i es \<longleftrightarrow> (\<forall>before d after. es = before @ Got i d # after \<longrightarrow>
     reader_pos before (\<lambda>i. 0) i < length (writes before) \<and> d = writes before ! reader_pos before (\<lambda>i. 0) i)"

lemma never_assigned_append [simp]: "never_assigned i (es @ fs) \<longleftrightarrow> never_assigned i es \<and> never_assigned i fs"
  by (simp add: never_assigned_def)

lemma reader_pos_gots: "never_assigned i es \<Longrightarrow> reader_pos es p i = p i + length (gots i es)"
proof (induction es arbitrary: p)
  case (Cons e es)
  then have "never_assigned i es" by (simp add: never_assigned_def)
  with Cons.IH Cons.prems show ?case by (cases e) (auto simp: never_assigned_def)
qed simp

lemma mq_spec_reader_pos: "accepts mq_spec es l = Some l' \<Longrightarrow> log_position l' = reader_pos es (log_position l)"
proof (induction es arbitrary: l)
  case (Cons e es)
  then obtain l1 where l1: "mq_spec e l = Some l1" "accepts mq_spec es l1 = Some l'"
    by (auto split: option.splits)
  then show ?case using Cons.IH [OF l1(2)] by (cases e) (auto simp: Let_def fun_upd_def split: if_splits)
qed simp

lemma mq_spec_messages:
  "accepts mq_spec es l = Some l' \<Longrightarrow> log_messages l' = log_messages l @ writes es \<and> log_window l' = log_window l"
proof (induction es arbitrary: l)
  case (Cons e es)
  then obtain l1 where l1: "mq_spec e l = Some l1" "accepts mq_spec es l1 = Some l'"
    by (auto split: option.splits)
  then show ?case using Cons.IH [OF l1(2)] by (cases e) (auto simp: Let_def split: if_splits)
qed simp

lemma mq_spec_position:
  assumes "accepts mq_spec es l = Some l'" "never_assigned i es"
  shows "log_position l' i = log_position l i + length (gots i es) \<and>
    gots i es = take (length (gots i es)) (drop (log_position l i) (log_messages l'))"
  using assms
proof (induction es arbitrary: l)
  case (Cons e es)
  then obtain l1 where l1: "mq_spec e l = Some l1" "accepts mq_spec es l1 = Some l'"
    by (auto split: option.splits)
  have IH: "log_position l' i = log_position l1 i + length (gots i es) \<and>
    gots i es = take (length (gots i es)) (drop (log_position l1 i) (log_messages l'))"
    using Cons.IH [OF l1(2)] Cons.prems(2) by (simp add: never_assigned_def)
  show ?case
  proof (cases e)
    case (Got j d)
    then have j: "log_position l j < length (log_messages l)" "d = log_messages l ! log_position l j"
      "l1 = l\<lparr>log_position := (log_position l)(j := Suc (log_position l j))\<rparr>"
      using l1(1) by (auto simp: Let_def split: if_splits)
    have m: "log_messages l' = log_messages l @ writes es"
      using mq_spec_messages [OF l1(2)] j(3) by simp
    show ?thesis
    proof (cases "j = i")
      case True
      have "drop (log_position l i) (log_messages l') = d # drop (Suc (log_position l i)) (log_messages l')"
        using j(1,2) m True by (simp add: Cons_nth_drop_Suc [symmetric] nth_append)
      then show ?thesis using IH Got True j(3) by simp
    qed (use IH Got j(3) in simp)
  next
    case (Copied j k)
    then show ?thesis using IH l1(1) Cons.prems(2) by (auto simp: never_assigned_def)
  qed (use IH l1(1) in \<open>auto split: if_splits\<close>)
qed simp


text \<open>A specification of the log, be it this one or a weaker one, gives every reader its messages.\<close>

lemma spec_gets:
  fixes spec :: "mq_event \<Rightarrow> mq_log \<Rightarrow> mq_log option"
  assumes "accepts spec es l = Some l'" "log_messages l = []" "log_position l = (\<lambda>i. 0)"
    and messages: "\<And>es l l'. accepts spec es l = Some l' \<Longrightarrow> log_messages l' = log_messages l @ writes es"
    and position: "\<And>es l l'. accepts spec es l = Some l' \<Longrightarrow> log_position l' = reader_pos es (log_position l)"
    and got: "\<And>i d l l'. spec (Got i d) l = Some l' \<Longrightarrow>
      log_position l i < length (log_messages l) \<and> d = log_messages l ! log_position l i"
  shows "gets_its_messages i es"
  unfolding gets_its_messages_def
proof (intro allI impI)
  fix before d "after"
  assume es: "es = before @ Got i d # after"
  then obtain l1 l2 where l1: "accepts spec before l = Some l1" "spec (Got i d) l1 = Some l2"
    using assms(1) by (auto simp: accepts_append split: option.splits)
  then show "reader_pos before (\<lambda>i. 0) i < length (writes before) \<and> d = writes before ! reader_pos before (\<lambda>i. 0) i"
    using messages [OF l1(1)] position [OF l1(1)] got [OF l1(2)] assms(2,3) by simp
qed

lemma writes_append [simp]: "writes (es @ fs) = writes es @ writes fs"
  by (induction es rule: writes.induct) simp_all

lemma gots_append [simp]: "gots i (es @ fs) = gots i es @ gots i fs"
  by (induction i es rule: gots.induct) simp_all

text \<open>So a reader that nothing was copied over has got a prefix of what was written.\<close>

lemma gets_prefix:
  "gets_its_messages i es \<Longrightarrow> never_assigned i es \<Longrightarrow>
     length (gots i es) \<le> length (writes es) \<and> gots i es = take (length (gots i es)) (writes es)"
proof (induction es rule: rev_induct)
  case (snoc e es)
  have "gets_its_messages i es" using snoc.prems(1) by (auto simp: gets_its_messages_def)
  with snoc have IH: "length (gots i es) \<le> length (writes es)" "gots i es = take (length (gots i es)) (writes es)" by simp_all
  show ?case
  proof (cases "\<exists>d. e = Got i d")
    case True
    then obtain d where e: "e = Got i d" by blast
    have "length (gots i es) < length (writes es)" "d = writes es ! length (gots i es)"
      using snoc.prems(1) [unfolded gets_its_messages_def, rule_format, of es d "[]"]
        reader_pos_gots [of i es "\<lambda>i. 0"] snoc.prems(2) by (simp_all add: e)
    then show ?thesis using IH by (simp add: e take_Suc_conv_app_nth)
  next
    case False
    then have "gots i [e] = []" by (cases e) simp_all
    then show ?thesis using IH by (simp add: min_absorb1)
  qed
qed simp

lemma mq_spec_late:
  assumes "accepts mq_spec es l = Some l'" "never_assigned i es"
    "log_position l i + log_window l < length (log_messages l)"
  shows "gots i es = [] \<and> log_position l' i + log_window l' < length (log_messages l')"
  using assms
proof (induction es arbitrary: l)
  case (Cons e es)
  then obtain l1 where l1: "mq_spec e l = Some l1" "accepts mq_spec es l1 = Some l'"
    by (auto split: option.splits)
  have late: "log_position l1 i + log_window l1 < length (log_messages l1) \<and> (\<forall>d. e \<noteq> Got i d)"
    using l1(1) Cons.prems(2,3) by (cases e) (auto simp: Let_def never_assigned_def split: if_splits)
  then show ?case
    using Cons.IH [OF l1(2)] Cons.prems(2) by (cases e) (auto simp: never_assigned_def)
qed simp

lemma mq_reaches_bounded: "reaches (mq_step Capacity) s es t \<Longrightarrow> mq_bounded t \<Longrightarrow> mq_bounded s"
  by (induction rule: reaches.induct) (auto dest: mq_bounded_step_mono)

section \<open>The properties of the queue\<close>

text \<open>
  Property C21. \<open>BoundedMulticastQueue\<close> implements the log: in every interleaving of writes,
  reads and copies of readers, a reader gets exactly the message at its position in the order
  of the writes, waits exactly at the end of the log, and is told that it is late exactly when
  more than the buffer's messages were written since. It holds until a cell was written
  \<open>2 ^ 30 - 1\<close> times, when the difference of two counters may leave \<open>int32_t\<close>.
\<close>

theorem mq_multicast:
  assumes "mq_init s MessagesCount" "reaches (mq_step Capacity) s es t" "mq_bounded t"
  shows "\<exists>l. accepts mq_spec es (mq_log_new MessagesCount) = Some l \<and> log_messages l = writes es \<and>
    mqs_written t = length (writes es) \<and>
    (\<forall>i. mqs_readers t i = reader_at (unat (the (mq_GetBufferSize MessagesCount))) (log_position l i))"
proof -
  obtain l where l: "accepts mq_spec es (mq_log_new MessagesCount) = Some l" "mq_rel Capacity t l"
    using mq_ref.simulates mq_bounded_reaches [OF assms(2,3)] assms(1) by blast
  moreover have "log_messages l = writes es" "log_window l = unat (the (mq_GetBufferSize MessagesCount))"
    using mq_spec_messages [OF l(1)] by (simp_all add: mq_log_new_def)
  ultimately show ?thesis by (auto simp: mq_rel_def)
qed

text \<open>
  Property C31. Until a cell was written \<open>2 ^ 30 - 1\<close> times, every message that a reader got is the one at its position in the order of the
  writes, where a reader starts at 0, moves on by one with each message and takes over the position of a reader
  that is copied over it; and \<open>Read\<close> is defined: it returns the message at the position if that is still in the buffer, waits at the
  end, and says that the reader is late otherwise. A reader that nothing was copied over has got a prefix of what was written.
\<close>

theorem mq_reader_next:
  assumes "mq_init s MessagesCount" "reaches (mq_step Capacity) s es t" "mq_bounded t"
  shows "let p = reader_pos es (\<lambda>i. 0) i; W = length (writes es); N = unat (the (mq_GetBufferSize MessagesCount)) in
    gets_its_messages i es \<and> p \<le> W \<and>
    map_option fst (mq_step Capacity (MRead i) t) =
      Some (if p = W then [Waited i] else if p + N < W then [Late i] else [Got i (writes es ! p)]) \<and>
    (never_assigned i es \<longrightarrow> p = length (gots i es) \<and> gots i es = take p (writes es))"
proof -
  obtain l where l: "accepts mq_spec es (mq_log_new MessagesCount) = Some l" "mq_rel Capacity t l"
    using mq_ref.simulates mq_bounded_reaches [OF assms(2,3)] assms(1) by blast
  have m: "log_messages l = writes es" "log_window l = unat (the (mq_GetBufferSize MessagesCount))"
    using mq_spec_messages [OF l(1)] by (simp_all add: mq_log_new_def)
  have p: "log_position l i = reader_pos es (\<lambda>i. 0) i" using mq_spec_reader_pos [OF l(1)] by (simp add: mq_log_new_def)
  have gets: "gets_its_messages i es"
    by (rule spec_gets [OF l(1)]) (auto simp: mq_log_new_def Let_def mq_spec_messages mq_spec_reader_pos split: if_splits)
  have "log_position l i \<le> length (log_messages l)" using l(2) by (auto simp: mq_rel_def)
  then show ?thesis
    using mq_rel_read [OF l(2) assms(3) refl refl, of i] p m gets gets_prefix [OF gets] reader_pos_gots [of i es "\<lambda>i. 0"]
    by (simp add: Let_def del: mq_step.simps)
qed

text \<open>
  A late reader stays late: \<open>Read\<close> never moves its indices on, so that from the
  first false on every call returns false, whatever is written, unless the reader is assigned.
\<close>

theorem mq_late_forever:
  assumes "mq_init s MessagesCount" "reaches (mq_step Capacity) s es t"
    "mq_step Capacity (MRead i) t = Some ([Late i], t')"
    "reaches (mq_step Capacity) t' fs u" "mq_bounded u" "never_assigned i fs"
  shows "gots i fs = [] \<and> map_option fst (mq_step Capacity (MRead i) u) = Some [Late i]"
proof -
  have t': "mq_bounded t'" using mq_reaches_bounded [OF assms(4,5)] .
  have t: "mq_bounded t" using mq_bounded_step_mono [OF assms(3) t'] .
  obtain l where l: "mq_rel Capacity t l"
    using mq_ref.simulates mq_bounded_reaches [OF assms(2) t] assms(1) by blast
  have late: "log_position l i + log_window l < length (log_messages l)" "t' = t"
    using mq_rel_read [OF l t refl refl, of i] assms(3) by (auto simp del: mq_step.simps split: if_splits)
  obtain l' where l': "accepts mq_spec fs l = Some l'" "mq_rel Capacity u l'"
    using mq_ref.simulates_from [OF mq_bounded_reaches [OF assms(4,5)]] l late(2) by blast
  then show ?thesis
    using mq_spec_late [OF l'(1) assms(6) late(1)] mq_rel_read [OF l'(2) assms(5) refl refl, of i]
    by (simp del: mq_step.simps)
qed

text \<open>
  The results of \<open>TryRead\<close> are what its comment says: negative exactly when the next
  message was not written yet, positive exactly when the reader is late, and 0 when the expected
  message was read, whose bytes the overload for an object of that size returns.
\<close>

theorem mq_TryRead_codes:
  assumes "mq_init s MessagesCount" "reaches (mq_step Capacity) s es t" "mq_bounded t" "never_assigned i es"
    "n = length (gots i es)"
  shows "\<exists>d msg. Reader_TryRead (message_new Capacity) (mqs_readers t i) (mqs_queues t) = Some (d, msg) \<and>
    (d < 0 \<longleftrightarrow> n = length (writes es)) \<and>
    (0 < d \<longleftrightarrow> n + unat (the (mq_GetBufferSize MessagesCount)) < length (writes es)) \<and>
    (d = 0 \<longrightarrow> n < length (writes es) \<and>
      Reader_TryRead_object Capacity (length (writes es ! n)) (mqs_readers t i) (mqs_queues t) = Some (0, writes es ! n))"
proof -
  obtain l where l: "accepts mq_spec es (mq_log_new MessagesCount) = Some l" "mq_rel Capacity t l"
    using mq_ref.simulates mq_bounded_reaches [OF assms(2,3)] assms(1) by blast
  have m: "log_messages l = writes es" "log_window l = unat (the (mq_GetBufferSize MessagesCount))"
    using mq_spec_messages [OF l(1)] by (simp_all add: mq_log_new_def)
  have p: "log_position l i = n"
    using mq_spec_position [OF l(1) assms(4)] assms(5) by (simp add: mq_log_new_def)
  obtain q where q: "mqs_queues t 0 = Some q" "mq_cells_ok q (writes es)" "log_window l = unat (mq_size q)"
    "mqs_written t = length (writes es)" "n \<le> length (writes es)" "mqs_readers t i = reader_at (log_window l) n"
    and small: "\<forall>d\<in>set (writes es). length d \<le> Capacity"
    using l(2) m(1) p by (auto simp: mq_rel_def)
  have b: "length (writes es) div unat (mq_size q) < 2 ^ 30 - 1"
    using assms(3) q(1,4) by (simp add: mq_bounded_def)
  let ?c = "mq_buffer q ! (n mod log_window l)"
  obtain d where d: "Reader_TryRead (message_new Capacity) (reader_at (log_window l) n) (mqs_queues t) =
      Some (d, snd (cell_Load ?c (message_new Capacity)))"
    "d < 0 \<longleftrightarrow> n = length (writes es)" "0 < d \<longleftrightarrow> n + log_window l < length (writes es)"
    using Reader_TryRead_at [of "mqs_queues t" q "writes es" n "log_window l" _ "message_new Capacity", OF q(1,2,5) b q(3) refl]
    by blast
  have "Reader_TryRead_object Capacity (length (writes es ! n)) (mqs_readers t i) (mqs_queues t) = Some (0, writes es ! n)"
    if "d = 0"
  proof -
    have n: "n < length (writes es)" "length (writes es) \<le> n + log_window l" using that d(2,3) q(5) by linarith+
    have bytes: "cell_bytes ?c = writes es ! n" by (rule mq_cells_message [OF q(2) n q(3)])
    have "length (writes es ! n) \<le> Capacity" using small n(1) by simp
    then show ?thesis using d(1) that q(6) bytes
      by (simp add: Reader_TryRead_object_def message_Get_def cell_Load_def message_new_def)
  qed
  moreover have "d = 0 \<Longrightarrow> n < length (writes es)" using d(2) q(5) by linarith
  ultimately show ?thesis using d m(2) q(6) by auto
qed

section \<open>A concrete run\<close>

text \<open>Two cells and two readers; reader 0 follows the writer, reader 1 falls behind.\<close>

definition mq_start :: "size_t \<Rightarrow> mq_sys" where
  "mq_start MessagesCount =
     \<lparr>mqs_queues = (\<lambda>a. if a = 0 then mq_new MessagesCount else None), mqs_writer = Writer_new 0,
      mqs_readers = (\<lambda>i. Reader_new 0), mqs_written = 0\<rparr>"

lemma mq_start_init: "mq_init (mq_start 2) 2"
proof -
  have "map_option (\<lambda>q. unat (mq_size q)) (mq_new 2) = Some 2" by code_simp
  then show ?thesis by (auto simp: mq_init_def mq_start_def)
qed

definition mq_schedule :: "mq_choice list" where
  "mq_schedule = [MRead 0, MWrite [1, 2], MRead 0, MWrite [3], MWrite [4, 5, 6], MRead 0, MRead 1]"

definition mq_trace :: "mq_event list" where
  "mq_trace = [Waited 0, Wrote [1, 2], Got 0 [1, 2], Wrote [3], Wrote [4, 5, 6], Got 0 [3]]"

lemma mq_run:
  obtains t where "run (mq_step 4) (butlast mq_schedule) (mq_start 2) = Some (mq_trace, t)" "mq_bounded t"
    "map_option fst (mq_step 4 (MRead 0) t) = Some [Got 0 [4, 5, 6]]"
    "mq_step 4 (MRead 1) t = Some ([Late 1], t)"
proof -
  have "map_option (\<lambda>(e, t). (e, mqs_written t, map_option (\<lambda>q. unat (mq_size q)) (mqs_queues t 0),
      map_option fst (mq_step 4 (MRead 0) t), map_option fst (mq_step 4 (MRead 1) t)))
      (run (mq_step 4) (butlast mq_schedule) (mq_start 2)) =
    Some (mq_trace, 3, Some 2, Some [Got 0 [4, 5, 6]], Some [Late 1])"
    by code_simp
  then obtain t where t: "run (mq_step 4) (butlast mq_schedule) (mq_start 2) = Some (mq_trace, t)"
    "mqs_written t = 3" "map_option (\<lambda>q. unat (mq_size q)) (mqs_queues t 0) = Some 2"
    "map_option fst (mq_step 4 (MRead 0) t) = Some [Got 0 [4, 5, 6]]"
    "map_option fst (mq_step 4 (MRead 1) t) = Some [Late 1]" by auto
  then have b: "mq_bounded t" by (auto simp: mq_bounded_def)
  obtain l where "mq_rel 4 t l"
    using mq_ref.simulates mq_bounded_reaches [OF run_reaches [OF t(1)] b] mq_start_init by blast
  from mq_rel_read [OF this b refl refl, of 1] t(5) have "mq_step 4 (MRead 1) t = Some ([Late 1], t)"
    by (auto simp del: mq_step.simps split: if_splits)
  with that t b show ?thesis by blast
qed

lemma mq_multicast_witness:
  "\<exists>l t. accepts mq_spec mq_trace (mq_log_new 2) = Some l \<and> log_messages l = [[1, 2], [3], [4, 5, 6]] \<and>
     reaches (mq_step 4) (mq_start 2) mq_trace t \<and> mqs_written t = 3"
proof -
  obtain t where t: "run (mq_step 4) (butlast mq_schedule) (mq_start 2) = Some (mq_trace, t)" "mq_bounded t"
    using mq_run by blast
  have "writes mq_trace = [[1, 2], [3], [4, 5, 6]]" by (simp add: mq_trace_def)
  with mq_multicast [OF mq_start_init run_reaches [OF t(1)] t(2)] run_reaches [OF t(1)] show ?thesis
    by (auto simp: numeral_3_eq_3)
qed

lemma mq_reader_next_witness:
  "\<exists>t. reaches (mq_step 4) (mq_start 2) mq_trace t \<and> map_option fst (mq_step 4 (MRead 0) t) = Some [Got 0 [4, 5, 6]]"
proof -
  obtain t where t: "run (mq_step 4) (butlast mq_schedule) (mq_start 2) = Some (mq_trace, t)" "mq_bounded t"
    using mq_run by blast
  have "unat (the (mq_GetBufferSize 2)) = 2" by code_simp
  then show ?thesis
    using mq_reader_next [OF mq_start_init run_reaches [OF t(1)] t(2), of 0] run_reaches [OF t(1)]
    by (auto simp: mq_trace_def Let_def simp del: mq_step.simps)
qed

lemma mq_late_forever_witness:
  "\<exists>t. reaches (mq_step 4) (mq_start 2) mq_trace t \<and> map_option fst (mq_step 4 (MRead 1) t) = Some [Late 1]"
proof -
  obtain t where t: "run (mq_step 4) (butlast mq_schedule) (mq_start 2) = Some (mq_trace, t)" "mq_bounded t"
    "mq_step 4 (MRead 1) t = Some ([Late 1], t)"
    using mq_run by blast
  have "never_assigned 1 []" by (simp add: never_assigned_def)
  from mq_late_forever [OF mq_start_init run_reaches [OF t(1)] t(3) reaches_start t(2) this]
  show ?thesis using run_reaches [OF t(1)] by blast
qed


lemma mq_TryRead_codes_witness:
  "\<exists>t. reaches (mq_step 4) (mq_start 2) mq_trace t \<and>
     Reader_TryRead_object 4 3 (mqs_readers t 0) (mqs_queues t) = Some (0, [4, 5, 6])"
proof -
  obtain t where t: "run (mq_step 4) (butlast mq_schedule) (mq_start 2) = Some (mq_trace, t)" "mq_bounded t"
    using mq_run by blast
  have "never_assigned 0 mq_trace" "unat (the (mq_GetBufferSize 2)) = 2" "length (gots 0 mq_trace) = 2"
    "writes mq_trace = [[1, 2], [3], [4, 5, 6]]" by code_simp+
  then show ?thesis
    using mq_TryRead_codes [OF mq_start_init run_reaches [OF t(1)] t(2), of 0 2] run_reaches [OF t(1)]
    by (auto simp: linorder_neq_iff [symmetric] numeral_3_eq_3)
qed

end
