(* ===== verification/Batched_Queue.thy ===== *)
theory Batched_Queue
  imports SPSC_Queue
begin

text \<open>
  \<open>BatchedBoundedSPSCQueue\<close> and its \<open>SPSCQueueSlot\<close> (queue/batched_bounded_sp_sc_queue.h),
  operation by operation. The ring of slots is that of \<open>BoundedSPSCQueue\<close> and is proved to be
  through its lemmas; what the operations do inside a slot is modelled as the code has it.
\<close>

section \<open>Slots\<close>

text \<open>\<open>T*\<close> results are the index of a slot and the index in its \<open>buffer_\<close>.\<close>

record 'a bslot =
  bslot_buffer :: "'a list"
  bslot_head :: size_t
  bslot_tail :: size_t

definition kDefaultSlotSize :: nat where "kDefaultSlotSize = 16"

definition bslot_new :: "'a \<Rightarrow> 'a bslot" where
  "bslot_new dflt = \<lparr>bslot_buffer = replicate kDefaultSlotSize dflt, bslot_head = 0, bslot_tail = 0\<rparr>"

definition bslot_Emplace :: "'a \<Rightarrow> 'a bslot \<Rightarrow> 'a bslot option" where
  "bslot_Emplace x s =
     (if unat (bslot_tail s) < length (bslot_buffer s)
      then Some (s\<lparr>bslot_buffer := (bslot_buffer s)[unat (bslot_tail s) := x], bslot_tail := bslot_tail s + 1\<rparr>)
      else None)"

definition bslot_Dequeue :: "'a bslot \<Rightarrow> 'a bslot" where
  "bslot_Dequeue s = s\<lparr>bslot_head := bslot_head s + 1\<rparr>"

definition bslot_Front :: "'a bslot \<Rightarrow> size_t" where
  "bslot_Front s = bslot_head s"

definition bslot_IsEmpty :: "'a bslot \<Rightarrow> bool" where
  "bslot_IsEmpty s \<longleftrightarrow> bslot_head s = bslot_tail s"

definition bslot_IsFull :: "'a bslot \<Rightarrow> bool" where
  "bslot_IsFull s \<longleftrightarrow> bslot_tail s = of_nat kDefaultSlotSize"

section \<open>The queue\<close>

record 'a batched =
  batched_size :: size_t
  batched_buffer :: "'a bslot list"
  batched_tail :: size_t
  batched_cached_head :: size_t
  batched_head :: size_t
  batched_cached_tail :: size_t

definition batched_new :: "'a \<Rightarrow> size_t \<Rightarrow> const_error + 'a batched" where
  "batched_new dflt Capacity =
     (case batched_GetBufferSize Capacity of
        Inl e \<Rightarrow> Inl e
      | Inr n \<Rightarrow> Inr \<lparr>batched_size = n, batched_buffer = replicate (unat n) (bslot_new dflt),
                     batched_tail = 0, batched_cached_head = 0, batched_head = 0, batched_cached_tail = 0\<rparr>)"

definition batched_GetIndexMask :: "'a batched \<Rightarrow> size_t" where
  "batched_GetIndexMask q = batched_size q - 1"

text \<open>
  \<open>Emplace\<close> does not call the \<open>Emplace\<close> of the slot: \<open>new (&buffer_[tail]) T\<close> constructs a
  \<open>T\<close> at the address of the slot, which is the address of its first member's first element.
\<close>

definition batched_placement :: "'a \<Rightarrow> 'a bslot \<Rightarrow> 'a bslot" where
  "batched_placement x s = s\<lparr>bslot_buffer := (bslot_buffer s)[0 := x]\<rparr>"

definition batched_Emplace :: "'a \<Rightarrow> 'a batched \<Rightarrow> bool \<times> 'a batched" where
  "batched_Emplace x q =
     (let tail = batched_tail q;
          next_tail = (tail + 1) AND batched_GetIndexMask q;
          construct = (\<lambda>q. (True, q\<lparr>batched_buffer := (batched_buffer q)[unat tail :=
                                      batched_placement x (batched_buffer q ! unat tail)],
                                    batched_tail := next_tail\<rparr>))
      in if next_tail = batched_cached_head q then
           (let q = q\<lparr>batched_cached_head := batched_head q\<rparr> in
            if next_tail = batched_cached_head q then (False, q) else construct q)
         else construct q)"

definition batched_Enqueue_copy :: "'a \<Rightarrow> 'a batched \<Rightarrow> bool \<times> 'a batched" where
  "batched_Enqueue_copy element q = batched_Emplace element q"

definition batched_Enqueue_move :: "'a \<Rightarrow> 'a batched \<Rightarrow> bool \<times> 'a batched" where
  "batched_Enqueue_move element q = batched_Emplace element q"

text \<open>\<open>MoveHead\<close> takes \<open>head\<close> by reference; the new value is the second result.\<close>

definition batched_MoveHead :: "size_t \<Rightarrow> 'a batched \<Rightarrow> bool \<times> size_t \<times> 'a batched" where
  "batched_MoveHead head q =
     (let advance = (\<lambda>q. let head = (head + 1) AND batched_GetIndexMask q
                         in (True, head, q\<lparr>batched_head := head\<rparr>))
      in if head = batched_cached_tail q then
           (let q = q\<lparr>batched_cached_tail := batched_tail q\<rparr> in
            if head = batched_cached_tail q then (False, head, q) else advance q)
         else advance q)"

definition batched_Front :: "'a batched \<Rightarrow> (size_t \<times> size_t) option \<times> 'a batched" where
  "batched_Front q =
     (let head = batched_head q in
      if bslot_IsEmpty (batched_buffer q ! unat head) then
        (let (ok, head, q) = batched_MoveHead head q
         in if \<not> ok then (None, q) else (Some (head, bslot_Front (batched_buffer q ! unat head)), q))
      else (Some (head, bslot_Front (batched_buffer q ! unat head)), q))"

definition batched_Dequeue :: "'a batched \<Rightarrow> bool \<times> 'a batched" where
  "batched_Dequeue q =
     (let head = batched_head q;
          take = (\<lambda>head q. (True, q\<lparr>batched_buffer := (batched_buffer q)[unat head :=
                                     bslot_Dequeue (batched_buffer q ! unat head)]\<rparr>))
      in if bslot_IsEmpty (batched_buffer q ! unat head) then
           (let (ok, head, q) = batched_MoveHead head q in if \<not> ok then (False, q) else take head q)
         else take head q)"

definition batched_IsEmptyConsumer :: "'a batched \<Rightarrow> bool \<times> 'a batched" where
  "batched_IsEmptyConsumer q = (let (front, q) = batched_Front q in (front = None, q))"

definition batched_GetCapacity :: "'a batched \<Rightarrow> size_t" where
  "batched_GetCapacity q = batched_size q"

section \<open>The ring of slots\<close>

definition batched_ring :: "'a batched \<Rightarrow> 'a bslot spsc" where
  "batched_ring q =
     \<lparr>spsc_size = batched_size q, spsc_buffer = batched_buffer q, spsc_tail = batched_tail q,
      spsc_cached_head = batched_cached_head q, spsc_head = batched_head q,
      spsc_cached_tail = batched_cached_tail q\<rparr>"

lemma batched_ring_simps [simp]:
  "spsc_size (batched_ring q) = batched_size q" "spsc_buffer (batched_ring q) = batched_buffer q"
  "spsc_tail (batched_ring q) = batched_tail q" "spsc_head (batched_ring q) = batched_head q"
  "spsc_cached_head (batched_ring q) = batched_cached_head q"
  "spsc_cached_tail (batched_ring q) = batched_cached_tail q"
  by (simp_all add: batched_ring_def)

text \<open>\<open>Emplace\<close> puts a slot into the ring as \<open>BoundedSPSCQueue\<close> does an element, \<open>MoveHead\<close> is its \<open>Dequeue\<close>.\<close>

lemma batched_ring_Emplace:
  "map_prod id batched_ring (batched_Emplace x q) =
     spsc_Emplace (batched_placement x (batched_buffer q ! unat (batched_tail q))) (batched_ring q)"
  by (simp add: batched_Emplace_def spsc_Emplace_def batched_GetIndexMask_def spsc_GetIndexMask_def
      batched_ring_def Let_def)

lemma batched_ring_MoveHead:
  assumes "batched_MoveHead (batched_head q) q = (ok, head, p)"
  shows "spsc_Dequeue (batched_ring q) = (ok, batched_ring p)" "batched_head p = head"
    "batched_buffer p = batched_buffer q" "batched_size p = batched_size q" "batched_tail p = batched_tail q"
  using assms
  by (auto simp: batched_MoveHead_def spsc_Dequeue_def batched_GetIndexMask_def spsc_GetIndexMask_def
      batched_ring_def Let_def split: if_splits)

lemma batched_ring_new:
  "batched_new dflt Capacity = Inr q \<Longrightarrow> spsc_new (bslot_new dflt) Capacity = Inr (batched_ring q)"
  by (auto simp: batched_new_def spsc_new_def GetBufferSize_copies batched_ring_def split: sum.splits)

lemma batched_ring_write:
  assumes "spsc_wf (batched_ring q)"
  shows "spsc_wf (batched_ring (q\<lparr>batched_buffer := (batched_buffer q)[j := s]\<rparr>))"
proof -
  obtain ch h ct t where "spsc_pos (batched_ring q) ch h ct t" using assms by (auto simp: spsc_wf_def)
  from spsc_pos_buffer [OF this, of j s] show ?thesis
    by (auto simp: spsc_wf_def batched_ring_def)
qed


text \<open>What the consumer's operations do to the ring: nothing, or the step of \<open>MoveHead\<close>.\<close>

lemma batched_MoveHead_wf:
  assumes "spsc_wf (batched_ring q)" "batched_MoveHead (batched_head q) q = (ok, head, p)"
  shows "spsc_wf (batched_ring p)" "ok \<longleftrightarrow> spsc_contents (batched_ring q) \<noteq> []"
    "spsc_contents (batched_ring p) = tl (spsc_contents (batched_ring q))"
proof -
  let ?q = "batched_ring q"
  obtain ch h ct t where pos: "spsc_pos ?q ch h ct t" using assms(1) by (auto simp: spsc_wf_def)
  from spsc_refill_pos [OF pos] obtain ct' where r: "spsc_pos (spsc_refill ?q) ch h ct' t"
    "h = ct' \<longleftrightarrow> spsc_contents ?q = []"
    "spsc_head (spsc_refill ?q) = spsc_cached_tail (spsc_refill ?q) \<longleftrightarrow> spsc_contents ?q = []"
    "spsc_contents (spsc_refill ?q) = spsc_contents ?q" by metis
  have deq: "spsc_Dequeue ?q = (ok, batched_ring p)" using batched_ring_MoveHead(1) [OF assms(2)] .
  show "ok \<longleftrightarrow> spsc_contents ?q \<noteq> []"
    using deq r(3) by (auto simp: spsc_Dequeue_refill Let_def split: if_splits)
  have "spsc_wf (batched_ring p) \<and> spsc_contents (batched_ring p) = tl (spsc_contents ?q)"
  proof (cases "spsc_contents ?q = []")
    case True
    then have "batched_ring p = spsc_refill ?q" using deq r(3) by (auto simp: spsc_Dequeue_refill Let_def)
    then show ?thesis using r(1,4) True by (auto simp: spsc_wf_def)
  next
    case False
    let ?r = "spsc_refill ?q"
    have p: "batched_ring p = ?r\<lparr>spsc_buffer := (spsc_buffer ?r)[unat (spsc_head ?r) := spsc_buffer ?r ! unat (spsc_head ?r)],
        spsc_head := (spsc_head ?r + 1) AND spsc_GetIndexMask ?r\<rparr>"
      using deq r(3) False by (auto simp: spsc_Dequeue_refill Let_def)
    have "h < ct'" using r(1,2) False by (auto simp: spsc_pos_def)
    from spsc_take_out [OF r(1) this p] r(4) show ?thesis by (auto simp: spsc_wf_def)
  qed
  then show "spsc_wf (batched_ring p)" "spsc_contents (batched_ring p) = tl (spsc_contents ?q)" by blast+
qed

section \<open>Properties\<close>

text \<open>
  The indices of \<open>BatchedBoundedSPSCQueue\<close> are those of a bounded FIFO of slots:
  \<open>Emplace\<close> and \<open>Enqueue\<close> append a slot, with the element at its first place, unless the ring
  is full; \<open>Front\<close> and \<open>Dequeue\<close> step to the next slot exactly when the current one counts as
  empty and there is another one, and otherwise leave the ring alone.
\<close>

theorem batched_ring_fifo:
  assumes "spsc_wf (batched_ring q)" "batched_Emplace x q = (ok, p1)" "batched_Front q = (front, p2)"
    "batched_Dequeue q = (taken, p3)"
  shows "let slots = spsc_contents (batched_ring q);
      consumed = bslot_IsEmpty (batched_buffer q ! unat (batched_head q)) in
    spsc_wf (batched_ring p1) \<and> spsc_wf (batched_ring p2) \<and> spsc_wf (batched_ring p3) \<and>
    batched_Enqueue_copy x q = (ok, p1) \<and> batched_Enqueue_move x q = (ok, p1) \<and>
    (ok \<longleftrightarrow> length slots < unat (batched_size q) - 1) \<and>
    spsc_contents (batched_ring p1) =
      (if ok then slots @ [batched_placement x (batched_buffer q ! unat (batched_tail q))] else slots) \<and>
    (front = None \<longleftrightarrow> consumed \<and> slots = []) \<and> (taken \<longleftrightarrow> \<not> (consumed \<and> slots = [])) \<and>
    spsc_contents (batched_ring p2) = (if consumed then tl slots else slots) \<and>
    batched_head p3 = batched_head p2"
proof -
  define slots where "slots = spsc_contents (batched_ring q)"
  define consumed where "consumed \<longleftrightarrow> bslot_IsEmpty (batched_buffer q ! unat (batched_head q))"
  obtain ch h ct t where pos: "spsc_pos (batched_ring q) ch h ct t" using assms(1) by (auto simp: spsc_wf_def)
  have emp: "spsc_Emplace (batched_placement x (batched_buffer q ! unat (batched_tail q))) (batched_ring q) = (ok, batched_ring p1)"
    using batched_ring_Emplace [of x q] assms(2) by simp
  have len: "length slots = t - h" using spsc_contents_pos [OF pos] by (simp add: slots_def)
  have th: "h \<le> t" using pos by (auto simp: spsc_pos_def)
  have one: "spsc_wf (batched_ring p1) \<and> (ok \<longleftrightarrow> length slots < unat (batched_size q) - 1) \<and>
    spsc_contents (batched_ring p1) =
      (if ok then slots @ [batched_placement x (batched_buffer q ! unat (batched_tail q))] else slots)"
    by (rule spsc_Emplace_cases [OF pos emp]) (use len th in \<open>auto simp: spsc_wf_def slots_def\<close>)
  obtain mv head m where move: "batched_MoveHead (batched_head q) q = (mv, head, m)" by (metis prod_cases3)
  note wf = batched_MoveHead_wf [OF assms(1) move]
  have two: "(front, p2) = (if consumed then (if mv then Some (head, bslot_Front (batched_buffer m ! unat head)) else None, m)
      else (Some (batched_head q, bslot_Front (batched_buffer q ! unat (batched_head q))), q))"
    using assms(3) move by (auto simp: batched_Front_def consumed_def Let_def)
  have three: "(taken, p3) = (if consumed then (if mv then (True, m\<lparr>batched_buffer := (batched_buffer m)[unat head :=
        bslot_Dequeue (batched_buffer m ! unat head)]\<rparr>) else (False, m))
      else (True, q\<lparr>batched_buffer := (batched_buffer q)[unat (batched_head q) :=
        bslot_Dequeue (batched_buffer q ! unat (batched_head q))]\<rparr>))"
    using assms(4) move by (auto simp: batched_Dequeue_def consumed_def Let_def)
  show ?thesis
    unfolding Let_def slots_def [symmetric] consumed_def [symmetric]
    using one two three wf assms(1,2) batched_ring_write
    by (auto simp: batched_Enqueue_copy_def batched_Enqueue_move_def slots_def split: if_splits)
qed

fun batched_Dequeues :: "nat \<Rightarrow> 'a batched \<Rightarrow> bool list \<times> 'a batched" where
  "batched_Dequeues 0 q = ([], q)"
| "batched_Dequeues (Suc n) q =
     (let (ok, q) = batched_Dequeue q; (oks, q) = batched_Dequeues n q in (ok # oks, q))"

lemma batched_Dequeues_run_on:
  assumes "unat (batched_head q) < length (batched_buffer q)"
    "s = batched_buffer q ! unat (batched_head q)" "n \<le> unat (bslot_tail s - bslot_head s)"
  shows "fst (batched_Dequeues n q) = replicate n True"
  using assms
proof (induction n arbitrary: q s)
  case (Suc n)
  let ?q = "q\<lparr>batched_buffer := (batched_buffer q)[unat (batched_head q) := bslot_Dequeue s]\<rparr>"
  have ne: "bslot_tail s - bslot_head s \<noteq> 0" using Suc.prems(3) by auto
  then have step: "batched_Dequeue q = (True, ?q)"
    using Suc.prems(2) by (auto simp: batched_Dequeue_def bslot_IsEmpty_def Let_def)
  have "unat (bslot_tail s - bslot_head s - 1) = unat (bslot_tail s - bslot_head s) - 1"
    using ne by (simp add: unat_minus_one)
  then have "n \<le> unat (bslot_tail (bslot_Dequeue s) - bslot_head (bslot_Dequeue s))"
    using Suc.prems(3) by (simp add: bslot_Dequeue_def diff_diff_eq)
  from Suc.IH [of ?q "bslot_Dequeue s", OF _ _ this] Suc.prems(1) step show ?case
    by (simp add: split_beta Let_def)
qed simp


lemma batched_first_Emplace:
  assumes "batched_new dflt Capacity = Inr q"
  shows "batched_Emplace x q = (True, q\<lparr>batched_buffer := (batched_buffer q)[0 := batched_placement x (bslot_new dflt)], batched_tail := 1\<rparr>)"
    "(1 AND batched_GetIndexMask q) = 1" "batched_buffer q = replicate (unat (batched_size q)) (bslot_new dflt)"
    "batched_head q = 0" "batched_cached_tail q = 0" "8 \<le> unat (batched_size q)"
proof -
  obtain n where n: "spsc_GetBufferSize Capacity = Inr n"
    "q = \<lparr>batched_size = n, batched_buffer = replicate (unat n) (bslot_new dflt),
          batched_tail = 0, batched_cached_head = 0, batched_head = 0, batched_cached_tail = 0\<rparr>"
    using assms by (auto simp: batched_new_def GetBufferSize_copies split: sum.splits)
  note N = GetBufferSize_Inr [OF n(1)]
  have "unat ((0 + 1 :: size_t) AND (n - 1)) = Suc (unat (0::size_t)) mod unat n"
    by (rule unat_next_index [OF N(1)])
  then have "unat ((1 :: size_t) AND (n - 1)) = unat (1::size_t)" using N(2) by simp
  then show mask: "(1 AND batched_GetIndexMask q) = 1"
    using n(2) by (simp add: batched_GetIndexMask_def word_unat_eq_iff)
  then show "batched_Emplace x q = (True, q\<lparr>batched_buffer := (batched_buffer q)[0 := batched_placement x (bslot_new dflt)], batched_tail := 1\<rparr>)"
    using n(2) N(2) by (simp add: batched_Emplace_def Let_def batched_GetIndexMask_def)
qed (use assms in \<open>auto simp: batched_new_def GetBufferSize_copies dest: GetBufferSize_Inr(2) split: sum.splits\<close>)

lemma batched_first_MoveHead:
  assumes "batched_new dflt Capacity = Inr q" "batched_Emplace x q = (ok, p)"
  shows "batched_MoveHead 0 p = (True, 1, p\<lparr>batched_head := 1, batched_cached_tail := 1\<rparr>)"
    "bslot_IsEmpty (batched_buffer p ! 0)" "batched_buffer p ! 1 = bslot_new dflt" "batched_head p = 0"
    "bslot_buffer (batched_buffer p ! 0) ! 0 = x" "1 < length (batched_buffer p)" "ok"
  using batched_first_Emplace(1) [OF assms(1), of x] batched_first_Emplace(2-) [OF assms(1)] assms(2)
  by (auto simp: batched_MoveHead_def batched_GetIndexMask_def Let_def bslot_IsEmpty_def bslot_new_def
      batched_placement_def kDefaultSlotSize_def)

text \<open>
  The first element is lost: after the first \<open>Emplace\<close> on a new queue, whatever the
  element, \<open>Front\<close> does not point to it, but to a default constructed one in the next slot.
\<close>

theorem batched_first_element_lost:
  assumes "batched_new dflt Capacity = Inr q" "batched_Emplace x q = (ok, p)"
  shows "ok \<and> bslot_buffer (batched_buffer p ! 0) ! 0 = x \<and>
    fst (batched_Front p) = Some (1, 0) \<and> bslot_buffer (batched_buffer p ! 1) ! 0 = dflt"
  using batched_first_MoveHead [OF assms]
  by (simp add: batched_Front_def bslot_Front_def bslot_new_def kDefaultSlotSize_def)

text \<open>
  Property C33. \<open>Dequeue\<close> never reports an empty queue: after one element was enqueued it succeeds
  \<open>2 ^ 64\<close> times in a row, since \<open>Emplace\<close> never moves the tail of a slot and \<open>Dequeue\<close> moves the
  head of the slot past it.
\<close>

theorem batched_Dequeue_runs_on:
  assumes "batched_new dflt Capacity = Inr q" "batched_Emplace x q = (ok, p)" "n \<le> 2 ^ 64"
  shows "fst (batched_Dequeues n p) = replicate n True"
proof (cases n)
  case (Suc m)
  note first = batched_first_MoveHead [OF assms(1,2)]
  let ?p = "p\<lparr>batched_head := 1, batched_cached_tail := 1\<rparr>"
  let ?r = "?p\<lparr>batched_buffer := (batched_buffer p)[1 := bslot_Dequeue (bslot_new dflt)]\<rparr>"
  have step: "batched_Dequeue p = (True, ?r)"
    using first by (simp add: batched_Dequeue_def Let_def)
  have "unat (0 - 1 :: size_t) = 2 ^ 64 - 1" using unat_sub_wrap [of 0 1] by simp
  then have "m \<le> unat (0 - 1 :: size_t)" using Suc assms(3) by simp
  then have "fst (batched_Dequeues m ?r) = replicate m True"
    using first(6) by (intro batched_Dequeues_run_on) (auto simp: bslot_Dequeue_def bslot_new_def)
  then show ?thesis using Suc step by (simp add: split_beta Let_def)
qed simp

section \<open>Concrete runs\<close>

definition batched_example :: "nat batched" where
  "batched_example = (case batched_new 0 3 of Inr q \<Rightarrow> q)"

lemma batched_example_new: "batched_new 0 3 = Inr batched_example"
proof -
  have "map_sum id (\<lambda>_. ()) (batched_new (0::nat) 3) = Inr ()" by code_simp
  then show ?thesis by (cases "batched_new (0::nat) 3") (simp_all add: batched_example_def)
qed

lemma batched_ring_fifo_witness:
  "fst (batched_Emplace 7 batched_example) \<and> fst (batched_Front batched_example) = None \<and>
     \<not> fst (batched_Dequeue batched_example)"
proof -
  have wf: "spsc_wf (batched_ring batched_example)"
    using spsc_new_pos(1) [OF batched_ring_new [OF batched_example_new]] by (auto simp: spsc_wf_def)
  have "spsc_contents (batched_ring batched_example) = []"
    using spsc_new_pos(2) [OF batched_ring_new [OF batched_example_new]] .
  moreover have "bslot_IsEmpty (batched_buffer batched_example ! unat (batched_head batched_example))"
    "unat (batched_size batched_example) = 8" by code_simp+
  ultimately show ?thesis
    using batched_ring_fifo [OF wf, of 7 "fst (batched_Emplace 7 batched_example)" "snd (batched_Emplace 7 batched_example)"
        "fst (batched_Front batched_example)" "snd (batched_Front batched_example)"
        "fst (batched_Dequeue batched_example)" "snd (batched_Dequeue batched_example)"]
    by (simp add: Let_def)
qed

lemma batched_first_element_lost_witness:
  "fst (batched_Front (snd (batched_Emplace 7 batched_example))) = Some (1, 0)"
  using batched_first_element_lost [OF batched_example_new prod.collapse [symmetric], of 7] by simp

lemma batched_Dequeue_runs_on_witness:
  "fst (batched_Dequeues 100 (snd (batched_Emplace 7 batched_example))) = replicate 100 True"
  using batched_Dequeue_runs_on [OF batched_example_new prod.collapse [symmetric], of 100 7] by simp

end
