(* ===== verification/Huge_Pages.thy ===== *)
theory Huge_Pages
  imports Prelude
begin

text \<open>
  \<open>HugePageAllocator\<close> (utils/huge_pages.h), the allocator that the SPSC and MPMC queues can be
  given. \<open>mmap\<close> and \<open>munmap\<close> belong to the operating system and are arguments of the model:
  they act on a system state \<open>'os\<close>, and the statements assume of them what their manual says
  of the set of mapped addresses.
\<close>

section \<open>The allocator\<close>

datatype mmap_prot = PROT_READ | PROT_WRITE
datatype mmap_flag = MAP_PRIVATE | MAP_ANONYMOUS | MAP_HUGETLB

definition kHugePageSize :: size_t where "kHugePageSize = push_bit 21 1"
definition kMMapProt :: "mmap_prot list" where "kMMapProt = [PROT_READ, PROT_WRITE]"
definition kMMapFlags :: "mmap_flag list" where "kMMapFlags = [MAP_PRIVATE, MAP_ANONYMOUS, MAP_HUGETLB]"

text \<open>The arithmetic of \<open>std::size_t\<close>: 0 wraps around, and so does the product of the last page.\<close>

definition GetHugePageSize :: "size_t \<Rightarrow> size_t" where
  "GetHugePageSize n = ((n - 1) div kHugePageSize + 1) * kHugePageSize"

datatype alloc_error = Bad_Alloc

type_synonym 'os mmap_fun = "size_t \<Rightarrow> mmap_prot list \<Rightarrow> mmap_flag list \<Rightarrow> 'os \<Rightarrow> nat option \<times> 'os"
type_synonym 'os munmap_fun = "nat \<Rightarrow> size_t \<Rightarrow> 'os \<Rightarrow> 'os"

definition huge_allocate :: "'os mmap_fun \<Rightarrow> size_t \<Rightarrow> size_t \<Rightarrow> 'os \<Rightarrow> (alloc_error + nat) \<times> 'os" where
  "huge_allocate mmap sizeof_T n os =
     (case mmap (GetHugePageSize (n * sizeof_T)) kMMapProt kMMapFlags os of
        (None, os) \<Rightarrow> (Inl Bad_Alloc, os)
      | (Some ptr, os) \<Rightarrow> (Inr ptr, os))"

definition huge_deallocate :: "'os munmap_fun \<Rightarrow> nat \<Rightarrow> size_t \<Rightarrow> 'os \<Rightarrow> 'os" where
  "huge_deallocate munmap pointer n os = munmap pointer (GetHugePageSize n) os"

section \<open>Rounding to huge pages\<close>

lemma unat_kHugePageSize: "unat kHugePageSize = 2 ^ 21"
  using unat_pow2 [of 21] by (simp add: kHugePageSize_def push_bit_eq_mult)

lemma unat_GetHugePageSize:
  "unat (GetHugePageSize n) = (unat (n - 1) div 2 ^ 21 + 1) * 2 ^ 21 mod 2 ^ 64"
proof -
  have d: "unat ((n - 1) div kHugePageSize) = unat (n - 1) div 2 ^ 21"
    by (simp only: unat_div_distrib unat_kHugePageSize)
  have "unat (n - 1) div 2 ^ 21 < 2 ^ 43" using unat_lt64 [of "n - 1"] by (simp add: less_mult_imp_div_less)
  then have s: "unat ((n - 1) div kHugePageSize + 1) = unat (n - 1) div 2 ^ 21 + 1"
    using d by (simp add: unat_word_ariths)
  show ?thesis
    unfolding GetHugePageSize_def unat_word_ariths(2) s unat_kHugePageSize by simp
qed

lemma GetHugePageSize_pages: "\<exists>k < 2 ^ 43. unat (GetHugePageSize n) = k * 2 ^ 21"
proof -
  let ?d = "unat (n - 1) div 2 ^ 21 + 1"
  have "?d * 2 ^ 21 mod 2 ^ 64 = ?d mod 2 ^ 43 * 2 ^ 21"
    using mult_mod_left [of ?d "2 ^ 43" "2 ^ 21"] by simp
  then show ?thesis using unat_GetHugePageSize [of n] by (intro exI [of _ "?d mod 2 ^ 43"]) simp
qed

lemma GetHugePageSize_max: "unat (GetHugePageSize n) \<le> 2 ^ 64 - 2 ^ 21"
  using GetHugePageSize_pages [of n] by auto

lemma GetHugePageSize_rounds:
  "if n \<noteq> 0 \<and> unat n \<le> 2 ^ 64 - 2 ^ 21
   then 2 ^ 21 dvd unat (GetHugePageSize n) \<and> unat n \<le> unat (GetHugePageSize n) \<and>
     unat (GetHugePageSize n) < unat n + 2 ^ 21
   else GetHugePageSize n = 0"
proof (cases "n \<noteq> 0 \<and> unat n \<le> 2 ^ 64 - 2 ^ 21")
  case True
  then have p: "unat (n - 1) = unat n - 1" "0 < unat n" by (simp_all add: unat_minus_one unat_gt_0)
  let ?d = "(unat n - 1) div 2 ^ 21 + 1"
  have "(unat n - 1) div 2 ^ 21 \<le> (2 ^ 64 - 2 ^ 21 - 1) div 2 ^ 21"
    using True by (intro div_le_mono) linarith
  then have "?d < 2 ^ 43" by simp
  then have r: "unat (GetHugePageSize n) = ?d * 2 ^ 21"
    using unat_GetHugePageSize [of n] p(1) by simp
  define k m where "k = (unat n - 1) div 2 ^ 21" and "m = (unat n - 1) mod 2 ^ 21"
  have "unat n = k * 2 ^ 21 + m + 1" "m < 2 ^ 21"
    using p(2) div_mult_mod_eq [of "unat n - 1" "2 ^ 21"] by (simp_all add: k_def m_def)
  then have "unat n \<le> (k + 1) * 2 ^ 21 \<and> (k + 1) * 2 ^ 21 < unat n + 2 ^ 21" by simp
  then show ?thesis using True unfolding r k_def [symmetric] by simp
next
  case False
  have "2 ^ 64 - 2 ^ 21 \<le> unat (n - 1)"
  proof (cases "n = 0")
    case True
    then show ?thesis using unat_sub_wrap [of 0 1] by simp
  next
    case nz: False
    then show ?thesis using False by (simp add: unat_minus_one)
  qed
  then have "(2 ^ 64 - 2 ^ 21) div 2 ^ 21 \<le> unat (n - 1) div 2 ^ 21" by (intro div_le_mono) simp
  moreover have "unat (n - 1) div 2 ^ 21 < 2 ^ 43" using unat_lt64 [of "n - 1"] by (simp add: less_mult_imp_div_less)
  ultimately have "unat (n - 1) div 2 ^ 21 = 2 ^ 43 - 1" by simp
  then have "unat (GetHugePageSize n) = 0" using unat_GetHugePageSize [of n] by simp
  then show ?thesis using False by (auto simp: unat_eq_zero)
qed


text \<open>
  \<open>GetHugePageSize\<close> rounds up to the next multiple of 2 MB for every size from 1 to
  \<open>2 ^ 64 - 2 ^ 21\<close>; for 0 and for all larger sizes it wraps around to 0.
\<close>

theorem GetHugePageSize_correct:
  "if n \<noteq> 0 \<and> unat n \<le> 2 ^ 64 - 2 ^ 21
   then 2 ^ 21 dvd unat (GetHugePageSize n) \<and> unat n \<le> unat (GetHugePageSize n) \<and>
     unat (GetHugePageSize n) < unat n + 2 ^ 21
   else GetHugePageSize n = 0"
  by (rule GetHugePageSize_rounds)

section \<open>Allocation\<close>

text \<open>
  What the manual says: a successful \<open>mmap\<close> adds the mapping of \<open>len\<close> bytes, at addresses
  that were free, and \<open>munmap\<close> of a positive length removes the range. \<open>mapped\<close> gives the
  addresses that are mapped.
\<close>

definition mmap_maps :: "'os mmap_fun \<Rightarrow> ('os \<Rightarrow> nat set) \<Rightarrow> bool" where
  "mmap_maps mmap mapped \<longleftrightarrow> (\<forall>len prot flags os ptr os'. mmap len prot flags os = (Some ptr, os') \<longrightarrow>
     mapped os' = mapped os \<union> {ptr..<ptr + unat len} \<and> mapped os \<inter> {ptr..<ptr + unat len} = {})"

definition munmap_unmaps :: "'os munmap_fun \<Rightarrow> ('os \<Rightarrow> nat set) \<Rightarrow> bool" where
  "munmap_unmaps munmap mapped \<longleftrightarrow> (\<forall>ptr len os. len \<noteq> 0 \<longrightarrow>
     mapped (munmap ptr len os) = mapped os - {ptr..<ptr + unat len})"

lemma huge_allocate_maps:
  assumes "mmap_maps mmap mapped" "huge_allocate mmap sizeof_T n os = (Inr ptr, os')"
  shows "mapped os' = mapped os \<union> {ptr..<ptr + unat (GetHugePageSize (n * sizeof_T))}"
    "mapped os \<inter> {ptr..<ptr + unat (GetHugePageSize (n * sizeof_T))} = {}"
  using assms by (auto simp: huge_allocate_def mmap_maps_def split: prod.splits option.splits)

lemma unat_mult_pages:
  assumes "n \<noteq> 0" "sizeof_T \<noteq> 0" "unat n * unat sizeof_T \<le> 2 ^ 64 - 2 ^ 21"
  shows "unat (n * sizeof_T) = unat n * unat sizeof_T" "n * sizeof_T \<noteq> (0::size_t)"
proof -
  show p: "unat (n * sizeof_T) = unat n * unat sizeof_T" using assms(3) by (simp add: unat_word_ariths)
  have "0 < unat n * unat sizeof_T" using assms(1,2) by (simp add: unat_gt_0)
  then show "n * sizeof_T \<noteq> 0" using p by (metis less_irrefl unat_0)
qed

text \<open>
  What \<open>allocate\<close> maps holds \<open>n\<close> objects of \<open>sizeof(T)\<close> bytes exactly up to
  \<open>2 ^ 64 - 2 ^ 21\<close> bytes: neither the multiplication nor the rounding is checked for overflow,
  and beyond it \<open>allocate\<close> asks for a smaller mapping and succeeds if that succeeds.
\<close>

theorem huge_allocate_enough:
  assumes "n \<noteq> 0" "sizeof_T \<noteq> 0" "mmap_maps mmap mapped" "huge_allocate mmap sizeof_T n os = (Inr ptr, os')"
  shows "{ptr..<ptr + unat n * unat sizeof_T} \<subseteq> mapped os' - mapped os \<longleftrightarrow>
    unat n * unat sizeof_T \<le> 2 ^ 64 - 2 ^ 21"
proof -
  let ?L = "unat (GetHugePageSize (n * sizeof_T))"
  have pos: "0 < unat n * unat sizeof_T" using assms(1,2) by (simp add: unat_gt_0)
  have "mapped os' - mapped os = {ptr..<ptr + ?L}" using huge_allocate_maps [OF assms(3,4)] by blast
  then have sub: "{ptr..<ptr + unat n * unat sizeof_T} \<subseteq> mapped os' - mapped os \<longleftrightarrow> unat n * unat sizeof_T \<le> ?L"
    using pos by (simp add: atLeastLessThan_subset_iff)
  show ?thesis
  proof
    assume "{ptr..<ptr + unat n * unat sizeof_T} \<subseteq> mapped os' - mapped os"
    then show "unat n * unat sizeof_T \<le> 2 ^ 64 - 2 ^ 21" using sub GetHugePageSize_max [of "n * sizeof_T"] by simp
  next
    assume small: "unat n * unat sizeof_T \<le> 2 ^ 64 - 2 ^ 21"
    note p = unat_mult_pages [OF assms(1,2) small]
    show "{ptr..<ptr + unat n * unat sizeof_T} \<subseteq> mapped os' - mapped os"
      using GetHugePageSize_rounds [of "n * sizeof_T"] small p sub by simp
  qed
qed

text \<open>
  Property C34. \<open>deallocate\<close> rounds the number of objects, not of bytes: of the mapping that
  \<open>allocate\<close> made it leaves all pages behind the first \<open>n\<close> bytes mapped, which is nothing only
  if \<open>n\<close> bytes take as many huge pages as \<open>n\<close> objects.
\<close>

theorem huge_deallocate_leaks:
  assumes "n \<noteq> 0" "sizeof_T \<noteq> 0" "unat n * unat sizeof_T \<le> 2 ^ 64 - 2 ^ 21"
    "mmap_maps mmap mapped" "munmap_unmaps munmap mapped" "huge_allocate mmap sizeof_T n os = (Inr ptr, os')"
  shows "mapped (huge_deallocate munmap ptr n os') =
      mapped os \<union> {ptr + unat (GetHugePageSize n)..<ptr + unat (GetHugePageSize (n * sizeof_T))} \<and>
    (mapped (huge_deallocate munmap ptr n os') = mapped os \<longleftrightarrow>
      unat (GetHugePageSize (n * sizeof_T)) = unat (GetHugePageSize n))"
proof -
  let ?L = "unat (GetHugePageSize (n * sizeof_T))" and ?K = "unat (GetHugePageSize n)"
  note p = unat_mult_pages [OF assms(1-3)]
  have n: "0 < unat n" "unat n \<le> unat n * unat sizeof_T" using assms(1,2) by (simp_all add: unat_gt_0 Suc_le_eq)
  have "unat n \<le> 2 ^ 64 - 2 ^ 21" using n(2) assms(3) by (rule order_trans)
  then have K: "unat n \<le> ?K" using GetHugePageSize_rounds [of n] assms(1) by simp
  have KL: "?K \<le> ?L"
  proof -
    have "unat n - 1 \<le> unat n * unat sizeof_T - 1" using n(2) by (rule diff_le_mono)
    then have "unat (n - 1) \<le> unat (n * sizeof_T - 1)" using assms(1) p by (simp add: unat_minus_one)
    then have "unat (n - 1) div 2 ^ 21 \<le> unat (n * sizeof_T - 1) div 2 ^ 21" by (rule div_le_mono)
    moreover have "unat (n * sizeof_T - 1) div 2 ^ 21 \<le> (2 ^ 64 - 2 ^ 21 - 1) div 2 ^ 21"
      using p assms(3) by (intro div_le_mono) (simp add: unat_minus_one)
    ultimately show ?thesis unfolding unat_GetHugePageSize by simp
  qed
  have "GetHugePageSize n \<noteq> 0" using K n(1) by (auto simp: unat_eq_zero)
  then have un: "mapped (huge_deallocate munmap ptr n os') = mapped os' - {ptr..<ptr + ?K}"
    using assms(5) by (simp add: huge_deallocate_def munmap_unmaps_def)
  note m = huge_allocate_maps [OF assms(4,6)]
  have "{ptr..<ptr + ?K} \<subseteq> {ptr..<ptr + ?L}" using KL by (intro ivl_subset [THEN iffD2]) simp
  then have "mapped os' - {ptr..<ptr + ?K} = mapped os \<union> ({ptr..<ptr + ?L} - {ptr..<ptr + ?K})"
    using m by blast
  also have "{ptr..<ptr + ?L} - {ptr..<ptr + ?K} = {ptr + ?K..<ptr + ?L}" using KL by auto
  finally have r: "mapped (huge_deallocate munmap ptr n os') = mapped os \<union> {ptr + ?K..<ptr + ?L}" using un by simp
  have "{ptr + ?K..<ptr + ?L} \<subseteq> {ptr..<ptr + ?L}" by (intro ivl_subset [THEN iffD2]) simp
  then have "mapped os \<union> {ptr + ?K..<ptr + ?L} = mapped os \<longleftrightarrow> {ptr + ?K..<ptr + ?L} = {}"
    using m(2) by blast
  then show ?thesis using r KL by auto
qed

section \<open>Concrete instances\<close>

text \<open>A system with room for one mapping, at address 0; its state is the set of mapped addresses.\<close>

definition one_mmap :: "nat set mmap_fun" where
  "one_mmap len prot flags m = (if m = {} then (Some 0, {0..<unat len}) else (None, m))"

definition one_munmap :: "nat set munmap_fun" where
  "one_munmap ptr len m = m - {ptr..<ptr + unat len}"

lemma one_system: "mmap_maps one_mmap id" "munmap_unmaps one_munmap id"
  by (auto simp: mmap_maps_def munmap_unmaps_def one_mmap_def one_munmap_def split: if_splits)

lemma one_allocate:
  "huge_allocate one_mmap s n {} = (Inr 0, {0..<unat (GetHugePageSize (n * s))})"
  by (simp add: huge_allocate_def one_mmap_def)

text \<open>Two words more than the address space has: \<open>allocate\<close> maps one page and succeeds.\<close>

lemma huge_allocate_enough_witness:
  "\<not> {0..<2 ^ 61 * 8 + 16} \<subseteq> snd (huge_allocate one_mmap 8 (2 ^ 61 + 2) {}) \<and>
    fst (huge_allocate one_mmap 8 (2 ^ 61 + 2) {}) = Inr 0"
  using huge_allocate_enough [OF _ _ one_system(1) one_allocate, of "2 ^ 61 + 2" 8]
  by (simp add: one_allocate)

text \<open>A million words take four huge pages, of which \<open>deallocate\<close> unmaps one.\<close>

lemma huge_deallocate_leaks_witness:
  "huge_deallocate one_munmap 0 1000000 (snd (huge_allocate one_mmap 8 1000000 {})) = {2097152..<8388608}"
proof -
  have "unat (GetHugePageSize (1000000 * 8)) = 8388608" "unat (GetHugePageSize 1000000) = 2097152"
    by (simp_all add: unat_GetHugePageSize)
  then show ?thesis
    using huge_deallocate_leaks [OF _ _ _ one_system one_allocate, of 1000000 8]
    by (simp add: one_allocate)
qed

end
