(* ===== verification/Counted_Pointer.thy ===== *)
theory Counted_Pointer
  imports Prelude
begin

text \<open>
  The packed pointers of stack/tmp/unbounded_lock_free_stack.h: a 64-bit word holds an address
  in its lower 48 bits and a signed count of 16 bits above them. The stack of that file is a
  draft (an empty \<open>Push\<close>, a \<open>Pop\<close> that calls an undeclared function) and is not modelled.
\<close>

section \<open>Packing and unpacking\<close>

type_synonym pointers_count = "16 word"
type_synonym counted_pointer = "64 word"

definition kCountedPointerAddressSize :: nat where "kCountedPointerAddressSize = 48"

definition kCountedPointerAddressMask :: counted_pointer where
  "kCountedPointerAddressMask = push_bit kCountedPointerAddressSize 1 - 1"

text \<open>\<open>PointersCount\<close> is signed: the conversions are \<open>ucast\<close> down and \<open>scast\<close> up.\<close>

definition GetPointersCount :: "counted_pointer \<Rightarrow> pointers_count" where
  "GetPointersCount p = ucast (drop_bit kCountedPointerAddressSize p)"

definition GetPointer :: "counted_pointer \<Rightarrow> 64 word" where
  "GetPointer p = p AND kCountedPointerAddressMask"

definition GetCountedPointer :: "pointers_count \<Rightarrow> 64 word \<Rightarrow> counted_pointer" where
  "GetCountedPointer pointers_count pointer =
     (pointer AND kCountedPointerAddressMask) OR push_bit kCountedPointerAddressSize (scast pointers_count)"

section \<open>The atomic cell\<close>

text \<open>
  \<open>compare_exchange_weak\<close> may fail although the values agree; \<open>spurious\<close> decides it. The
  results are the answer, what \<open>expected\<close> holds afterwards, and the cell.
\<close>

definition AtomicCountedPointer_Load :: "counted_pointer \<Rightarrow> counted_pointer" where
  "AtomicCountedPointer_Load this = this"

definition AtomicCountedPointer_Store :: "counted_pointer \<Rightarrow> counted_pointer \<Rightarrow> counted_pointer" where
  "AtomicCountedPointer_Store desired this = desired"

definition AtomicCountedPointer_CompareExchangeWeak ::
    "bool \<Rightarrow> counted_pointer \<Rightarrow> counted_pointer \<Rightarrow> counted_pointer \<Rightarrow> bool \<times> counted_pointer \<times> counted_pointer" where
  "AtomicCountedPointer_CompareExchangeWeak spurious expected desired this =
     (if this = expected \<and> \<not> spurious then (True, expected, desired) else (False, this, this))"

section \<open>Properties\<close>

lemma bit_address_mask: "bit kCountedPointerAddressMask n \<longleftrightarrow> n < 48"
proof -
  have m: "kCountedPointerAddressMask = mask 48"
    by (simp add: kCountedPointerAddressMask_def kCountedPointerAddressSize_def mask_eq_exp_minus_1 push_bit_eq_mult)
  show ?thesis unfolding m by (auto simp: bit_mask_iff)
qed

lemma bit_GetPointer: "bit (GetPointer p) n \<longleftrightarrow> n < 48 \<and> bit p n"
  by (auto simp: GetPointer_def bit_and_iff bit_address_mask)

lemma bit_GetPointersCount: "bit (GetPointersCount p) n \<longleftrightarrow> n < 16 \<and> bit p (n + 48)"
  by (auto simp: GetPointersCount_def bit_unsigned_iff bit_drop_bit_eq kCountedPointerAddressSize_def add.commute)

lemma bit_GetCountedPointer:
  "bit (GetCountedPointer c p) n \<longleftrightarrow> (if n < 48 then bit p n else n < 64 \<and> bit c (n - 48))"
proof -
  have "n < 64 \<Longrightarrow> min 15 (n - 48) = n - 48 \<or> n < 48" by auto
  then show ?thesis
    by (auto simp: GetCountedPointer_def bit_or_iff bit_and_iff bit_push_bit_iff bit_signed_iff
        bit_address_mask kCountedPointerAddressSize_def dest: bit_imp_le_length)
qed

text \<open>
  Property C40. Packing and unpacking are inverse to each other: a packed pointer gives its count
  and its address back, negative counts included, for every address of 48 bits; the bits of a
  pointer above them are lost; every word is the packing of its two parts.
\<close>

theorem counted_pointer_roundtrip:
  "GetPointersCount (GetCountedPointer c p) = c \<and>
   GetPointer (GetCountedPointer c p) = take_bit 48 p \<and>
   (GetPointer (GetCountedPointer c p) = p \<longleftrightarrow> unat p < 2 ^ 48) \<and>
   GetCountedPointer (GetPointersCount w) (GetPointer w) = w"
proof -
  have 1: "GetPointersCount (GetCountedPointer c p) = c"
    by (rule bit_word_eqI) (auto simp: bit_GetPointersCount bit_GetCountedPointer)
  have 2: "GetPointer (GetCountedPointer c p) = take_bit 48 p"
    by (rule bit_word_eqI) (auto simp: bit_GetPointer bit_GetCountedPointer bit_take_bit_iff)
  have 3: "take_bit 48 p = p \<longleftrightarrow> unat p < 2 ^ 48"
  proof -
    have "take_bit 48 p = p \<longleftrightarrow> take_bit 48 (unat p) = unat p"
      by (simp only: word_unat_eq_iff unsigned_take_bit_eq)
    then show ?thesis by (simp only: take_bit_nat_eq_self_iff)
  qed
  have 4: "GetCountedPointer (GetPointersCount w) (GetPointer w) = w"
    by (rule bit_word_eqI) (auto simp: bit_GetCountedPointer bit_GetPointersCount bit_GetPointer)
  from 1 2 3 4 show ?thesis by simp
qed

end
