(* ===== verification/Atomic_Shared_Ptr.thy ===== *)
theory Atomic_Shared_Ptr
  imports Prelude
begin

text \<open>
  \<open>SharedPtr\<close>, \<open>FastSharedPtr\<close> and \<open>AtomicSharedPtr\<close> (stack/atomic_shared_ptr/atomic_shared_ptr.h):
  control blocks with a reference count, and an atomic word that packs the address of a control
  block with a local count of those who are reading it. Each operation is a program of accesses
  to shared memory; the pointed-to type is the \<open>Node\<close> of stack/unbounded_lock_free_stack.h,
  the only one that the repository uses.
\<close>

section \<open>Memory\<close>

text \<open>
  Addresses are words, 0 is \<open>nullptr\<close>. An access to an address that is not allocated is a
  crash of the model, so that the theorems can say that there is none. An allocation may
  return any free address, also one that was used before.
\<close>

type_synonym addr = size_t

record cblock =
  cb_data :: addr
  cb_refs :: size_t

record 'a node =
  nd_prev :: addr
  nd_data :: 'a

record 'a mem =
  m_packed :: size_t
  m_blocks :: "addr \<Rightarrow> cblock option"
  m_nodes :: "addr \<Rightarrow> 'a node option"

definition kMagicLen :: nat where "kMagicLen = 16"
definition kMagicMask :: size_t where "kMagicMask = 0xFFFF"

definition packed_ptr :: "size_t \<Rightarrow> addr" where
  "packed_ptr w = drop_bit kMagicLen w"

definition packed_cnt :: "size_t \<Rightarrow> size_t" where
  "packed_cnt w = w AND kMagicMask"

definition pack :: "addr \<Rightarrow> size_t" where
  "pack b = push_bit kMagicLen b"

text \<open>
  How a step of an operation ends: it goes on, it returns, or it crashes (an invalid access or
  a failed assertion).
\<close>

datatype ('p, 'r) sub = Go 'p | Return 'r | Crash

fun bind_sub :: "('p \<Rightarrow> 'q) \<Rightarrow> ('r \<Rightarrow> ('q, 't) sub) \<Rightarrow> ('p, 'r) sub \<Rightarrow> ('q, 't) sub" where
  "bind_sub f g (Go p) = Go (f p)"
| "bind_sub f g (Return r) = g r"
| "bind_sub f g Crash = Crash"

section \<open>Reference counts\<close>

text \<open>\<open>fetch_add\<close> and \<open>fetch_sub\<close> on \<open>refCount\<close>: the value before and the new memory.\<close>

definition ref_add :: "addr \<Rightarrow> size_t \<Rightarrow> 'a mem \<Rightarrow> (size_t \<times> 'a mem) option" where
  "ref_add b k m =
     (case m_blocks m b of None \<Rightarrow> None
      | Some blk \<Rightarrow> Some (cb_refs blk, m\<lparr>m_blocks := (m_blocks m)(b \<mapsto> blk\<lparr>cb_refs := cb_refs blk + k\<rparr>)\<rparr>))"

definition ref_sub :: "addr \<Rightarrow> size_t \<Rightarrow> 'a mem \<Rightarrow> (size_t \<times> 'a mem) option" where
  "ref_sub b k m =
     (case m_blocks m b of None \<Rightarrow> None
      | Some blk \<Rightarrow> Some (cb_refs blk, m\<lparr>m_blocks := (m_blocks m)(b \<mapsto> blk\<lparr>cb_refs := cb_refs blk - k\<rparr>)\<rparr>))"

text \<open>
  \<open>delete data; delete block\<close>. The destructor of a \<open>Node\<close> ends with that of its \<open>prev_\<close>, whose
  control block is the result: it is the next one to release. Both are freed at once, the
  earliest moment. The destructor as it is written, with its queue and nested calls, is
  \<open>destructor_step\<close> below; \<open>Shared_Ptr_Limits\<close> shows that it comes to the same.
\<close>

definition delete_both :: "addr \<Rightarrow> addr \<Rightarrow> 'a mem \<Rightarrow> (addr \<times> 'a mem) option" where
  "delete_both data b m =
     (if m_blocks m b = None then None
      else let m = m\<lparr>m_blocks := (m_blocks m)(b := None)\<rparr> in
        if data = 0 then Some (0, m)
        else (case m_nodes m data of None \<Rightarrow> None
              | Some nd \<Rightarrow> Some (nd_prev nd, m\<lparr>m_nodes := (m_nodes m)(data := None)\<rparr>)))"

text \<open>\<open>SharedPtr::unref\<close>: \<open>before\<close> (\<open>prior\<close> here) is an \<open>int\<close>. The program point is the block to release.\<close>

definition unref_entry :: "addr \<Rightarrow> (addr, unit) sub" where
  "unref_entry b = (if b \<noteq> 0 then Go b else Return ())"

definition unref_step :: "addr \<Rightarrow> 'a mem \<Rightarrow> (addr, unit) sub \<times> 'a mem" where
  "unref_step b m =
     (case m_blocks m b of None \<Rightarrow> (Crash, m)
      | Some blk \<Rightarrow>
     (case ref_sub b 1 m of None \<Rightarrow> (Crash, m)
      | Some (prior, m) \<Rightarrow>
          (let prior = ucast prior :: int32 in
           if prior = 0 then (Crash, m)
           else if prior = 1 then
             (case delete_both (cb_data blk) b m of None \<Rightarrow> (Crash, m)
              | Some (p, m) \<Rightarrow> (unref_entry p, m))
           else (Return (), m))))"

section \<open>SharedPtr\<close>

text \<open>
  A \<open>SharedPtr\<close> is the address of its control block. The copy constructor (also \<open>copy\<close>) takes a share,
  the copy assignment takes one and then releases the old one.
\<close>

definition copy_entry :: "addr \<Rightarrow> (addr, addr) sub" where
  "copy_entry b = (if b \<noteq> 0 then Go b else Return b)"

definition copy_step :: "addr \<Rightarrow> 'a mem \<Rightarrow> (addr, addr) sub \<times> 'a mem" where
  "copy_step b m =
     (case ref_add b 1 m of None \<Rightarrow> (Crash, m)
      | Some (prior, m) \<Rightarrow> if (ucast prior :: int32) = 0 then (Crash, m) else (Return b, m))"

datatype assign_pc = A_Copy addr addr | A_Unref addr addr

definition copy_assign_entry :: "addr \<Rightarrow> addr \<Rightarrow> (assign_pc, addr) sub" where
  "copy_assign_entry old b =
     bind_sub (A_Copy old) (\<lambda>b. bind_sub (A_Unref b) (\<lambda>_. Return b) (unref_entry old)) (copy_entry b)"

fun copy_assign_step :: "assign_pc \<Rightarrow> 'a mem \<Rightarrow> (assign_pc, addr) sub \<times> 'a mem" where
  "copy_assign_step (A_Copy old b) m =
     (case copy_step b m of (r, m) \<Rightarrow>
        (bind_sub (A_Copy old) (\<lambda>b. bind_sub (A_Unref b) (\<lambda>_. Return b) (unref_entry old)) r, m))"
| "copy_assign_step (A_Unref b u) m =
     (case unref_step u m of (r, m) \<Rightarrow> (bind_sub (A_Unref b) (\<lambda>_. Return b) r, m))"

text \<open>The move assignment: the new value of the left side, what is left in the right side, the block to release.\<close>

definition move_assign :: "addr \<Rightarrow> addr \<Rightarrow> addr \<times> addr \<times> addr" where
  "move_assign old b = (if old \<noteq> b then (b, 0, old) else (old, b, 0))"

text \<open>\<open>SharedPtr::get\<close>.\<close>

definition SharedPtr_get :: "addr \<Rightarrow> 'a mem \<Rightarrow> addr option" where
  "SharedPtr_get b m = (if b = 0 then Some 0 else map_option cb_data (m_blocks m b))"

text \<open>
  The destructor, whose \<open>destructionQueue\<close> and \<open>destructionInProgress\<close> belong to the thread and outlive the call. It is a
  program with a stack of calls: what is left of each call, the innermost in front. \<open>SP_Enter\<close> is a call of the
  destructor, \<open>SP_Loop\<close> its loop with the reset behind it, \<open>SP_Unref\<close> a call of \<open>unref\<close>, \<open>SP_Delete\<close> its
  \<open>delete blockToUnref->data\<close>, which calls the destructor of \<open>prev_\<close> and then frees the node, and \<open>SP_Free_block\<close> its
  \<open>delete blockToUnref\<close>. The back of the queue is the head of the list.
\<close>

record sp_thread =
  destructionQueue :: "addr list"
  destructionInProgress :: bool

datatype sp_call = SP_Enter addr | SP_Loop | SP_Unref addr | SP_Delete addr | SP_Free_node addr | SP_Free_block addr

fun destructor_step :: "sp_call list \<times> sp_thread \<Rightarrow> 'a mem \<Rightarrow> (sp_call list \<times> sp_thread, sp_thread) sub \<times> 'a mem" where
  "destructor_step ([], l) m = (Return l, m)"
| "destructor_step (SP_Enter b # fs, l) m =
     (let l = l\<lparr>destructionQueue := b # destructionQueue l\<rparr> in
      if \<not> destructionInProgress l then (Go (SP_Loop # fs, l\<lparr>destructionInProgress := True\<rparr>), m) else (Go (fs, l), m))"
| "destructor_step (SP_Loop # fs, l) m =
     (case destructionQueue l of
        b # queue \<Rightarrow> (Go (SP_Unref b # SP_Loop # fs, l\<lparr>destructionQueue := queue\<rparr>), m)
      | [] \<Rightarrow> (Go (fs, l\<lparr>destructionInProgress := False\<rparr>), m))"
| "destructor_step (SP_Unref b # fs, l) m =
     (if b \<noteq> 0 then
        (case ref_sub b 1 m of None \<Rightarrow> (Crash, m)
         | Some (prior, m) \<Rightarrow>
             (let prior = ucast prior :: int32 in
              if prior = 0 then (Crash, m) else (Go (if prior = 1 then SP_Delete b # fs else fs, l), m)))
      else (Go (fs, l), m))"
| "destructor_step (SP_Delete b # fs, l) m =
     (case m_blocks m b of None \<Rightarrow> (Crash, m)
      | Some blk \<Rightarrow>
          if cb_data blk = 0 then (Go (SP_Free_block b # fs, l), m)
          else (case m_nodes m (cb_data blk) of None \<Rightarrow> (Crash, m)
            | Some nd \<Rightarrow> (Go (SP_Enter (nd_prev nd) # SP_Free_node (cb_data blk) # SP_Free_block b # fs, l), m)))"
| "destructor_step (SP_Free_node data # fs, l) m =
     (if m_nodes m data = None then (Crash, m) else (Go (fs, l), m\<lparr>m_nodes := (m_nodes m)(data := None)\<rparr>))"
| "destructor_step (SP_Free_block b # fs, l) m =
     (if m_blocks m b = None then (Crash, m) else (Go (fs, l), m\<lparr>m_blocks := (m_blocks m)(b := None)\<rparr>))"

section \<open>FastSharedPtr\<close>

text \<open>\<open>foreignPackedPtr\<close> is null or points to the one atomic word of the model.\<close>

record fast =
  fs_known :: size_t
  fs_foreign :: bool
  fs_data :: addr

datatype fast_pc = F_Add | F_Data size_t | F_RefAdd fast addr | F_Cas fast addr | F_RefSub fast addr size_t

definition fast_loop :: "fast \<Rightarrow> addr \<Rightarrow> (fast_pc, fast) sub" where
  "fast_loop f block =
     (if packed_cnt (fs_known f) > 1000 \<and> block = packed_ptr (fs_known f) then Go (F_RefAdd f block) else Return f)"

text \<open>The constructor, \<open>getFast\<close>; its compare-exchange is the strong one.\<close>

fun fast_step :: "fast_pc \<Rightarrow> 'a mem \<Rightarrow> (fast_pc, fast) sub \<times> 'a mem" where
  "fast_step F_Add m =
     (let known = m_packed m + 1 in (Go (F_Data known), m\<lparr>m_packed := known\<rparr>))"
| "fast_step (F_Data known) m =
     (case m_blocks m (packed_ptr known) of None \<Rightarrow> (Crash, m)
      | Some blk \<Rightarrow> (fast_loop \<lparr>fs_known = known, fs_foreign = True, fs_data = cb_data blk\<rparr> (packed_ptr known), m))"
| "fast_step (F_RefAdd f block) m =
     (case ref_add block (packed_cnt (fs_known f)) m of None \<Rightarrow> (Crash, m)
      | Some (prior, m) \<Rightarrow> (Go (F_Cas f block), m))"
| "fast_step (F_Cas f block) m =
     (let diff = packed_cnt (fs_known f) in
      if m_packed m = fs_known f then (Return (f\<lparr>fs_foreign := False\<rparr>), m\<lparr>m_packed := fs_known f - diff\<rparr>)
      else (Go (F_RefSub (f\<lparr>fs_known := m_packed m\<rparr>) block diff), m))"
| "fast_step (F_RefSub f block diff) m =
     (case ref_sub block diff m of None \<Rightarrow> (Crash, m)
      | Some (prior, m) \<Rightarrow> (fast_loop f block, m))"

text \<open>Moving takes the share from the other: the new pointer and what is left in the other.\<close>

definition fast_move :: "fast \<Rightarrow> fast \<times> fast" where
  "fast_move f = (f, f\<lparr>fs_foreign := False\<rparr>)"

text \<open>\<open>destroy\<close>; \<open>weak\<close> makes a weak compare-exchange fail spuriously.\<close>

datatype destroy_pc = X_Cas fast size_t | X_Sub fast | X_Unref addr

definition destroy_entry :: "fast \<Rightarrow> (destroy_pc, unit) sub" where
  "destroy_entry f = (if fs_foreign f then Go (X_Cas f (fs_known f)) else Return ())"

fun destroy_step :: "bool \<Rightarrow> destroy_pc \<Rightarrow> 'a mem \<Rightarrow> (destroy_pc, unit) sub \<times> 'a mem" where
  "destroy_step weak (X_Cas f expected) m =
     (if m_packed m = expected \<and> \<not> weak then (Return (), m\<lparr>m_packed := expected - 1\<rparr>)
      else let expected = m_packed m in
        if packed_ptr expected \<noteq> packed_ptr (fs_known f) \<or> packed_cnt expected = 0
        then (Go (X_Sub f), m) else (Go (X_Cas f expected), m))"
| "destroy_step weak (X_Sub f) m =
     (let block = packed_ptr (fs_known f) in
      case ref_sub block 1 m of None \<Rightarrow> (Crash, m)
      | Some (prior, m) \<Rightarrow>
          if prior = 1 then
            (case delete_both (fs_data f) block m of None \<Rightarrow> (Crash, m)
             | Some (p, m) \<Rightarrow> (bind_sub X_Unref Return (unref_entry p), m))
          else (Return (), m))"
| "destroy_step weak (X_Unref b) m =
     (case unref_step b m of (r, m) \<Rightarrow> (bind_sub X_Unref Return r, m))"

section \<open>AtomicSharedPtr\<close>

text \<open>The constructor from \<open>nullptr\<close>: a control block without data, at the address \<open>block\<close>.\<close>

definition AtomicSharedPtr_new :: "addr \<Rightarrow> 'a mem" where
  "AtomicSharedPtr_new block =
     \<lparr>m_packed = pack block, m_blocks = [block \<mapsto> \<lparr>cb_data = 0, cb_refs = 1\<rparr>], m_nodes = Map.empty\<rparr>"

text \<open>\<open>get\<close> returns a \<open>SharedPtr\<close>, which is its control block.\<close>

datatype get_pc = G_Add | G_Ref size_t | G_Cas size_t size_t | G_Sub size_t

fun get_step :: "bool \<Rightarrow> get_pc \<Rightarrow> 'a mem \<Rightarrow> (get_pc, addr) sub \<times> 'a mem" where
  "get_step weak G_Add m = (Go (G_Ref (m_packed m)), m\<lparr>m_packed := m_packed m + 1\<rparr>)"
| "get_step weak (G_Ref copy) m =
     (case ref_add (packed_ptr copy) 1 m of None \<Rightarrow> (Crash, m)
      | Some (prior, m) \<Rightarrow>
          if (ucast prior :: int32) = 0 then (Crash, m) else (Go (G_Cas copy (copy + 1)), m))"
| "get_step weak (G_Cas copy expected) m =
     (if packed_cnt expected = 0 then (Crash, m)
      else if m_packed m = expected \<and> \<not> weak then (Return (packed_ptr copy), m\<lparr>m_packed := expected - 1\<rparr>)
      else let expected = m_packed m in
        if packed_ptr expected \<noteq> packed_ptr copy \<or> packed_cnt expected = 0
        then (Go (G_Sub copy), m) else (Go (G_Cas copy expected), m))"
| "get_step weak (G_Sub copy) m =
     (case ref_sub (packed_ptr copy) 1 m of None \<Rightarrow> (Crash, m)
      | Some (prior, m) \<Rightarrow>
          if (ucast prior :: int32) = 0 then (Crash, m) else (Return (packed_ptr copy), m))"

definition destroyOldControlBlock :: "size_t \<Rightarrow> 'a mem \<Rightarrow> (addr, unit) sub \<times> 'a mem" where
  "destroyOldControlBlock old m =
     (let block = packed_ptr old in
      case m_blocks m block of None \<Rightarrow> (Crash, m)
      | Some blk \<Rightarrow>
     (case ref_sub block 1 m of None \<Rightarrow> (Crash, m)
      | Some (prior, m) \<Rightarrow>
          if prior = 0 then (Crash, m)
          else if prior = 1 then
            (case delete_both (cb_data blk) block m of None \<Rightarrow> (Crash, m)
             | Some (p, m) \<Rightarrow> (unref_entry p, m))
          else (Return (), m)))"

text \<open>
  \<open>compareExchange(expected, newOne)\<close>: \<open>holder\<close> is the \<open>FastSharedPtr\<close> it takes, \<open>ep\<close> is
  \<open>expectedPackedPtr\<close>. The successful exchange leaves null in \<open>newOne\<close>.
\<close>

record cas_args =
  cx_expected :: addr
  cx_newOne :: addr

datatype cas_pc =
    K_Same
  | K_Fast fast_pc
  | K_RefAdd fast size_t
  | K_Clear fast size_t
  | K_RefSub fast size_t size_t
  | K_Swap fast size_t
  | K_Old fast size_t
  | K_OldUnref fast addr
  | K_Destroy bool destroy_pc

definition cas_finish :: "bool \<Rightarrow> fast \<Rightarrow> (cas_pc, bool) sub" where
  "cas_finish ok holder = bind_sub (K_Destroy ok) (\<lambda>_. Return ok) (destroy_entry holder)"

definition cas_loop :: "fast \<Rightarrow> size_t \<Rightarrow> (cas_pc, bool) sub" where
  "cas_loop holder ep =
     (if packed_ptr (fs_known holder) = packed_ptr ep then
        (if packed_cnt ep \<noteq> 0 then Go (K_RefAdd holder ep) else Go (K_Swap holder ep))
      else cas_finish False holder)"

definition cas_enter :: "addr \<Rightarrow> fast \<Rightarrow> (cas_pc, bool) sub" where
  "cas_enter expected holder =
     (if fs_data holder = expected then cas_loop holder (pack (packed_ptr (fs_known holder)))
      else cas_finish False holder)"

fun cas_step :: "bool \<Rightarrow> cas_args \<Rightarrow> cas_pc \<Rightarrow> 'a mem \<Rightarrow> (cas_pc, bool) sub \<times> cas_args \<times> 'a mem" where
  "cas_step weak a K_Same m =
     (case SharedPtr_get (cx_newOne a) m of None \<Rightarrow> (Crash, a, m)
      | Some d \<Rightarrow> (if cx_expected a = d then Return True else Go (K_Fast F_Add), a, m))"
| "cas_step weak a (K_Fast p) m =
     (case fast_step p m of (r, m) \<Rightarrow> (bind_sub K_Fast (cas_enter (cx_expected a)) r, a, m))"
| "cas_step weak a (K_RefAdd holder ep) m =
     (case ref_add (packed_ptr (fs_known holder)) (packed_cnt ep) m of None \<Rightarrow> (Crash, a, m)
      | Some (prior, m) \<Rightarrow> (Go (K_Clear holder ep), a, m))"
| "cas_step weak a (K_Clear holder ep) m =
     (if m_packed m = ep \<and> \<not> weak then (cas_loop holder ep, a, m\<lparr>m_packed := ep AND NOT kMagicMask\<rparr>)
      else (Go (K_RefSub holder (m_packed m) (packed_cnt ep)), a, m))"
| "cas_step weak a (K_RefSub holder ep diff) m =
     (case ref_sub (packed_ptr (fs_known holder)) diff m of None \<Rightarrow> (Crash, a, m)
      | Some (prior, m) \<Rightarrow> (cas_loop holder ep, a, m))"
| "cas_step weak a (K_Swap holder ep) m =
     (if packed_ptr ep = packed_ptr (pack (cx_newOne a)) then (Crash, a, m)
      else if m_packed m = ep \<and> \<not> weak
      then (if packed_ptr ep = packed_ptr (fs_known holder) then Go (K_Old holder ep) else Crash,
            a\<lparr>cx_newOne := 0\<rparr>, m\<lparr>m_packed := pack (cx_newOne a)\<rparr>)
      else (cas_loop holder (m_packed m), a, m))"
| "cas_step weak a (K_Old holder ep) m =
     (case destroyOldControlBlock ep m of (r, m) \<Rightarrow> (bind_sub (K_OldUnref holder) (\<lambda>_. cas_finish True holder) r, a, m))"
| "cas_step weak a (K_OldUnref holder b) m =
     (case unref_step b m of (r, m) \<Rightarrow> (bind_sub (K_OldUnref holder) (\<lambda>_. cas_finish True holder) r, a, m))"
| "cas_step weak a (K_Destroy ok p) m =
     (case destroy_step weak p m of (r, m) \<Rightarrow> (bind_sub (K_Destroy ok) (\<lambda>_. Return ok) r, a, m))"

text \<open>The destructor; what it deletes may release further blocks.\<close>

datatype dtor_pc = D_Load | D_RefAdd size_t | D_Old size_t | D_Unref addr

fun dtor_step :: "dtor_pc \<Rightarrow> 'a mem \<Rightarrow> (dtor_pc, unit) sub \<times> 'a mem" where
  "dtor_step D_Load m =
     (let copy = m_packed m in (Go (if packed_cnt copy \<noteq> 0 then D_RefAdd copy else D_Old copy), m))"
| "dtor_step (D_RefAdd copy) m =
     (case ref_add (packed_ptr copy) (packed_cnt copy) m of None \<Rightarrow> (Crash, m)
      | Some (prior, m) \<Rightarrow> (Go (D_Old copy), m))"
| "dtor_step (D_Old copy) m = (case destroyOldControlBlock copy m of (r, m) \<Rightarrow> (bind_sub D_Unref Return r, m))"
| "dtor_step (D_Unref b) m = (case unref_step b m of (r, m) \<Rightarrow> (bind_sub D_Unref Return r, m))"

text \<open>A program that no other thread disturbs, for at most \<open>k\<close> accesses.\<close>

fun solo :: "('p \<Rightarrow> 'a mem \<Rightarrow> ('p, 'r) sub \<times> 'a mem) \<Rightarrow> nat \<Rightarrow> 'p \<Rightarrow> 'a mem \<Rightarrow> ('p, 'r) sub \<times> 'a mem" where
  "solo step 0 p m = (Go p, m)"
| "solo step (Suc k) p m = (case step p m of (Go q, m) \<Rightarrow> solo step k q m | (r, m) \<Rightarrow> (r, m))"

end
