(* ===== verification/Lock_Free_Stack.thy ===== *)
theory Lock_Free_Stack
  imports Atomic_Shared_Ptr
begin

text \<open>
  \<open>UnboundedLockFreeStack\<close> (stack/unbounded_lock_free_stack.h): the operations as programs over
  those of \<open>Atomic_Shared_Ptr\<close>, run by any number of threads, one access to shared memory at a
  time.
\<close>

section \<open>Operations as programs\<close>

datatype 'a lf_op = Op_IsEmpty | Op_Push_copy 'a | Op_Push_move 'a | Op_Pop

datatype 'a lf_res = R_IsEmpty bool | R_Push | R_Pop "'a option"

datatype lf_caller = By_Push | By_Pop fast

text \<open>
  The program points with the local variables: \<open>top\<close> (here \<open>ftop\<close>) (a \<open>FastSharedPtr\<close>), the control block of
  \<open>new_head\<close>, and the program point of the operation that is being called.
\<close>

datatype 'a lf_pc =
    S_Idle
  | S_IsEmpty fast_pc
  | S_New 'a
  | S_Get addr get_pc
  | S_Assign addr addr
  | S_Unref addr addr
  | S_Expected addr
  | S_Dtor addr
  | S_Pop fast_pc
  | S_Prev fast
  | S_Copy fast addr
  | S_Again fast fast_pc
  | S_AssignTop fast destroy_pc
  | S_Cas lf_caller cas_args cas_pc
  | S_Drop bool fast addr
  | S_Move fast
  | S_End "'a lf_res" destroy_pc
  | S_Ret "'a lf_res"

definition lf_end :: "'a lf_res \<Rightarrow> fast \<Rightarrow> 'a lf_pc" where
  "lf_end r ftop = (case destroy_entry ftop of Go p \<Rightarrow> S_End r p | _ \<Rightarrow> S_Ret r)"

text \<open>\<open>Pop\<close> after \<open>top = head_.getFast()\<close>.\<close>

definition lf_top :: "fast \<Rightarrow> 'a lf_pc" where
  "lf_top ftop = (if fs_data ftop = 0 then lf_end (R_Pop None) ftop else S_Prev ftop)"

text \<open>\<open>top = head_.getFast()\<close>: the temporary has nothing left to destroy.\<close>

definition lf_again :: "fast \<Rightarrow> fast \<Rightarrow> 'a lf_pc" where
  "lf_again old temp =
     (case fast_move temp of (ftop, rest) \<Rightarrow>
        (case destroy_entry old of Go p \<Rightarrow> S_AssignTop ftop p | _ \<Rightarrow> lf_top ftop))"

definition lf_popped :: "bool \<Rightarrow> fast \<Rightarrow> 'a lf_pc" where
  "lf_popped ok ftop = (if ok then S_Move ftop else S_Again ftop F_Add)"

text \<open>
  After \<open>compareExchange\<close>: \<open>Push\<close> goes round its loop or destroys \<open>new_head\<close>, \<open>Pop\<close> destroys the
  copy of \<open>prev_\<close> in either case.
\<close>

fun lf_cas_return :: "lf_caller \<Rightarrow> addr \<Rightarrow> bool \<Rightarrow> 'a lf_pc" where
  "lf_cas_return By_Push newOne ok =
     (if ok then (case unref_entry newOne of Go b \<Rightarrow> S_Dtor b | _ \<Rightarrow> S_Ret R_Push) else S_Get newOne G_Add)"
| "lf_cas_return (By_Pop ftop) newOne ok =
     (case unref_entry newOne of Go b \<Rightarrow> S_Drop ok ftop b | _ \<Rightarrow> lf_popped ok ftop)"

text \<open>
  One access. \<open>moved\<close> is what moving out of an element leaves in it. \<open>S_New\<close> allocates and is a
  step of its own; \<open>S_Idle\<close> has no step.
\<close>

fun lf_access :: "('a \<Rightarrow> 'a) \<Rightarrow> bool \<Rightarrow> 'a lf_pc \<Rightarrow> 'a mem \<Rightarrow> (('a lf_pc, 'a lf_res) sub \<times> 'a mem) option" where
  "lf_access moved weak S_Idle m = None"
| "lf_access moved weak (S_New x) m = None"
| "lf_access moved weak (S_IsEmpty p) m =
     (case fast_step p m of (r, m) \<Rightarrow> Some (bind_sub S_IsEmpty (\<lambda>ftop. Go (lf_end (R_IsEmpty (fs_data ftop = 0)) ftop)) r, m))"
| "lf_access moved weak (S_Get new_head p) m =
     (case get_step weak p m of (r, m) \<Rightarrow> Some (bind_sub (S_Get new_head) (\<lambda>b. Go (S_Assign new_head b)) r, m))"
| "lf_access moved weak (S_Assign new_head b) m = Some
     (case m_blocks m new_head of None \<Rightarrow> (Crash, m)
      | Some blk \<Rightarrow>
     (case m_nodes m (cb_data blk) of None \<Rightarrow> (Crash, m)
      | Some nd \<Rightarrow>
     (case move_assign (nd_prev nd) b of (prev, temp, old) \<Rightarrow>
          (Go (case unref_entry (if old \<noteq> 0 then old else temp) of
                 Go u \<Rightarrow> S_Unref new_head u | _ \<Rightarrow> S_Expected new_head),
           m\<lparr>m_nodes := (m_nodes m)(cb_data blk \<mapsto> nd\<lparr>nd_prev := prev\<rparr>)\<rparr>))))"
| "lf_access moved weak (S_Unref new_head u) m =
     (case unref_step u m of (r, m) \<Rightarrow> Some (bind_sub (S_Unref new_head) (\<lambda>_. Go (S_Expected new_head)) r, m))"
| "lf_access moved weak (S_Expected new_head) m = Some
     (case m_blocks m new_head of None \<Rightarrow> (Crash, m)
      | Some blk \<Rightarrow>
     (case m_nodes m (cb_data blk) of None \<Rightarrow> (Crash, m)
      | Some nd \<Rightarrow>
     (case SharedPtr_get (nd_prev nd) m of None \<Rightarrow> (Crash, m)
      | Some d \<Rightarrow> (Go (S_Cas By_Push \<lparr>cx_expected = d, cx_newOne = new_head\<rparr> K_Same), m))))"
| "lf_access moved weak (S_Dtor u) m =
     (case unref_step u m of (r, m) \<Rightarrow> Some (bind_sub S_Dtor (\<lambda>_. Go (S_Ret R_Push)) r, m))"
| "lf_access moved weak (S_Pop p) m =
     (case fast_step p m of (r, m) \<Rightarrow> Some (bind_sub S_Pop (\<lambda>ftop. Go (lf_top ftop)) r, m))"
| "lf_access moved weak (S_Prev ftop) m = Some
     (case m_nodes m (fs_data ftop) of None \<Rightarrow> (Crash, m)
      | Some nd \<Rightarrow>
          (Go (case copy_entry (nd_prev nd) of
                 Go b \<Rightarrow> S_Copy ftop b
               | _ \<Rightarrow> S_Cas (By_Pop ftop) \<lparr>cx_expected = fs_data ftop, cx_newOne = 0\<rparr> K_Same), m))"
| "lf_access moved weak (S_Copy ftop b) m =
     (case copy_step b m of (r, m) \<Rightarrow>
        Some (bind_sub (S_Copy ftop) (\<lambda>b. Go (S_Cas (By_Pop ftop) \<lparr>cx_expected = fs_data ftop, cx_newOne = b\<rparr> K_Same)) r, m))"
| "lf_access moved weak (S_Again old p) m =
     (case fast_step p m of (r, m) \<Rightarrow> Some (bind_sub (S_Again old) (\<lambda>ftop. Go (lf_again old ftop)) r, m))"
| "lf_access moved weak (S_AssignTop ftop p) m =
     (case destroy_step weak p m of (r, m) \<Rightarrow> Some (bind_sub (S_AssignTop ftop) (\<lambda>_. Go (lf_top ftop)) r, m))"
| "lf_access moved weak (S_Cas caller a p) m =
     (case cas_step weak a p m of (r, a, m) \<Rightarrow>
        Some (bind_sub (S_Cas caller a) (\<lambda>ok. Go (lf_cas_return caller (cx_newOne a) ok)) r, m))"
| "lf_access moved weak (S_Drop ok ftop u) m =
     (case unref_step u m of (r, m) \<Rightarrow> Some (bind_sub (S_Drop ok ftop) (\<lambda>_. Go (lf_popped ok ftop)) r, m))"
| "lf_access moved weak (S_Move ftop) m = Some
     (case m_nodes m (fs_data ftop) of None \<Rightarrow> (Crash, m)
      | Some nd \<Rightarrow> (Go (lf_end (R_Pop (Some (nd_data nd))) ftop),
          m\<lparr>m_nodes := (m_nodes m)(fs_data ftop \<mapsto> nd\<lparr>nd_data := moved (nd_data nd)\<rparr>)\<rparr>))"
| "lf_access moved weak (S_End r p) m =
     (case destroy_step weak p m of (x, m) \<Rightarrow> Some (bind_sub (S_End r) (\<lambda>_. Go (S_Ret r)) x, m))"
| "lf_access moved weak (S_Ret r) m = Some (Return r, m)"

fun lf_entry :: "'a lf_op \<Rightarrow> 'a lf_pc" where
  "lf_entry Op_IsEmpty = S_IsEmpty F_Add"
| "lf_entry (Op_Push_copy x) = S_New x"
| "lf_entry (Op_Push_move x) = S_New x"
| "lf_entry Op_Pop = S_Pop F_Add"

text \<open>
  \<open>new Node()\<close> at \<open>na\<close> and \<open>new ControlBlock\<close> at \<open>ba\<close>: free addresses of the user space, 48 bits
  for the control block, which is packed. Nodes are aligned to 16 bytes in a heap of 16 GB, so that there
  are at most \<open>2 ^ 30\<close>.
\<close>

definition lf_free :: "addr \<Rightarrow> addr \<Rightarrow> 'a mem \<Rightarrow> bool" where
  "lf_free na ba m \<longleftrightarrow> na \<noteq> 0 \<and> na < 2 ^ 34 \<and> na mod 16 = 0 \<and> m_nodes m na = None \<and>
     ba \<noteq> 0 \<and> ba < 2 ^ 48 \<and> m_blocks m ba = None"

definition lf_alloc :: "addr \<Rightarrow> addr \<Rightarrow> 'a \<Rightarrow> 'a mem \<Rightarrow> 'a mem" where
  "lf_alloc na ba x m =
     m\<lparr>m_nodes := (m_nodes m)(na \<mapsto> \<lparr>nd_prev = 0, nd_data = x\<rparr>),
       m_blocks := (m_blocks m)(ba \<mapsto> \<lparr>cb_data = na, cb_refs = 1\<rparr>)\<rparr>"

section \<open>Threads\<close>

text \<open>
  \<open>Lin\<close> marks the access at which an operation takes effect. It is a mark for the statements,
  not code: the successful exchange of \<open>Push\<close> and \<open>Pop\<close>, and the \<open>fetch_add\<close> of \<open>getFast\<close>
  for \<open>IsEmpty\<close> and for a \<open>Pop\<close> that finds the control block without data.
\<close>

datatype 'a lf_event = Call nat "'a lf_op" | Lin nat | Ret nat "'a lf_res" | Fault nat

definition lf_head_empty :: "'a mem \<Rightarrow> bool" where
  "lf_head_empty m \<longleftrightarrow> SharedPtr_get (packed_ptr (m_packed m)) m = Some 0"

fun lf_marks :: "'a lf_pc \<Rightarrow> 'a mem \<Rightarrow> 'a lf_pc \<Rightarrow> bool" where
  "lf_marks (S_IsEmpty F_Add) m p = True"
| "lf_marks (S_Pop F_Add) m p = lf_head_empty m"
| "lf_marks (S_Again old F_Add) m p = lf_head_empty m"
| "lf_marks (S_Cas caller a (K_Swap h ep)) m p = (case p of S_Cas _ _ (K_Old _ _) \<Rightarrow> True | _ \<Rightarrow> False)"
| "lf_marks q m p = False"

record 'a lf_sys =
  lf_mem :: "'a mem"
  lf_pcs :: "nat \<Rightarrow> 'a lf_pc"

datatype 'a lf_choice = LCall nat "'a lf_op" | LStep nat bool | LAlloc nat addr addr

text \<open>\<open>n\<close> threads, numbered from 0.\<close>

fun lf_step :: "nat \<Rightarrow> ('a \<Rightarrow> 'a) \<Rightarrow> 'a lf_choice \<Rightarrow> 'a lf_sys \<Rightarrow> ('a lf_event list \<times> 'a lf_sys) option" where
  "lf_step n moved (LCall i op) s =
     (case lf_pcs s i of
        S_Idle \<Rightarrow> if i < n then Some ([Call i op], s\<lparr>lf_pcs := (lf_pcs s)(i := lf_entry op)\<rparr>) else None
      | _ \<Rightarrow> None)"
| "lf_step n moved (LAlloc i na ba) s =
     (case lf_pcs s i of
        S_New x \<Rightarrow> if lf_free na ba (lf_mem s)
          then Some ([], s\<lparr>lf_mem := lf_alloc na ba x (lf_mem s), lf_pcs := (lf_pcs s)(i := S_Get ba G_Add)\<rparr>)
          else None
      | _ \<Rightarrow> None)"
| "lf_step n moved (LStep i weak) s =
     (case lf_access moved weak (lf_pcs s i) (lf_mem s) of
        None \<Rightarrow> None
      | Some (Go p, m) \<Rightarrow>
          Some (if lf_marks (lf_pcs s i) (lf_mem s) p then [Lin i] else [], s\<lparr>lf_mem := m, lf_pcs := (lf_pcs s)(i := p)\<rparr>)
      | Some (Return r, m) \<Rightarrow> Some ([Ret i r], s\<lparr>lf_mem := m, lf_pcs := (lf_pcs s)(i := S_Idle)\<rparr>)
      | Some (Crash, m) \<Rightarrow> Some ([Fault i], s\<lparr>lf_mem := m, lf_pcs := (lf_pcs s)(i := S_Idle)\<rparr>))"

definition lf_new :: "addr \<Rightarrow> 'a lf_sys" where
  "lf_new block = \<lparr>lf_mem = AtomicSharedPtr_new block, lf_pcs = (\<lambda>i. S_Idle)\<rparr>"

section \<open>The specification: a stack, and what each thread has called\<close>

datatype 'a lf_status = Free | Called "'a lf_op" | Done "'a lf_res"

record 'a lf_spec_state =
  sp_stack :: "'a list"
  sp_status :: "nat \<Rightarrow> 'a lf_status"

fun lf_apply :: "'a lf_op \<Rightarrow> 'a list \<Rightarrow> 'a lf_res \<times> 'a list" where
  "lf_apply Op_IsEmpty st = (R_IsEmpty (st = []), st)"
| "lf_apply (Op_Push_copy x) st = (R_Push, x # st)"
| "lf_apply (Op_Push_move x) st = (R_Push, x # st)"
| "lf_apply Op_Pop st = (case st of [] \<Rightarrow> (R_Pop None, []) | x # xs \<Rightarrow> (R_Pop (Some x), xs))"

fun lf_spec :: "'a lf_event \<Rightarrow> 'a lf_spec_state \<Rightarrow> 'a lf_spec_state option" where
  "lf_spec (Call i op) a =
     (if sp_status a i = Free then Some (a\<lparr>sp_status := (sp_status a)(i := Called op)\<rparr>) else None)"
| "lf_spec (Lin i) a =
     (case sp_status a i of
        Called op \<Rightarrow> (case lf_apply op (sp_stack a) of (r, st) \<Rightarrow>
          Some (a\<lparr>sp_stack := st, sp_status := (sp_status a)(i := Done r)\<rparr>))
      | _ \<Rightarrow> None)"
| "lf_spec (Ret i r) a =
     (case sp_status a i of
        Done r' \<Rightarrow> if r' = r then Some (a\<lparr>sp_status := (sp_status a)(i := Free)\<rparr>) else None
      | _ \<Rightarrow> None)"
| "lf_spec (Fault i) a = None"

end
