(* ===== verification/Shared_Ptr_Counts.thy ===== *)
theory Shared_Ptr_Counts
  imports Atomic_Shared_Ptr "HOL-Library.Multiset"
begin

text \<open>
  The bookkeeping of \<open>AtomicSharedPtr\<close>. What a program point of an operation owes is a multiset
  of control blocks; every step keeps the balance between the reference counts, the local count in
  the packed word and what is owed. Part of what is owed is \<open>generic\<close>: shares of readers that
  may sit in the local count instead of the reference count.
\<close>

section \<open>The packed word\<close>

abbreviation cnt :: "size_t \<Rightarrow> nat" where "cnt w \<equiv> unat (packed_cnt w)"

lemma unat_packed_ptr: "unat (packed_ptr w) = unat w div 65536"
proof -
  have "unat (packed_ptr w) = drop_bit 16 (take_bit LENGTH(64) (unat w))"
    unfolding packed_ptr_def kMagicLen_def by (rule unsigned_drop_bit_eq)
  also have "take_bit LENGTH(64) (unat w) = unat w" using unat_lt64 [of w] by (simp add: take_bit_nat_eq_self)
  finally show ?thesis by (simp add: drop_bit_eq_div)
qed

lemma unat_packed_cnt: "cnt w = unat w mod 65536"
  using unat_and_pow2_mask [of w 16] by (simp add: packed_cnt_def kMagicMask_def)

lemma packed_eqI: "packed_ptr w = packed_ptr u \<Longrightarrow> cnt w = cnt u \<Longrightarrow> w = u"
  by (metis div_mult_mod_eq unat_packed_cnt unat_packed_ptr word_unat_eq_iff)

lemma packed_Suc:
  assumes "cnt w < 65535"
  shows "packed_ptr (w + 1) = packed_ptr w" "cnt (w + 1) = Suc (cnt w)"
proof -
  have m: "unat w mod 65536 < 65535" using assms by (simp add: unat_packed_cnt)
  have "unat w < 2 ^ 64 - 1"
  proof (rule ccontr)
    assume "\<not> unat w < 2 ^ 64 - 1"
    then have "unat w = 2 ^ 64 - 1" using unat_lt64 [of w] by simp
    with m show False by simp
  qed
  then have s: "unat (w + 1) = Suc (unat w)" by (simp add: unat_word_ariths)
  show "packed_ptr (w + 1) = packed_ptr w"
    using m by (simp add: word_unat_eq_iff unat_packed_ptr s div_Suc mod_Suc)
  show "cnt (w + 1) = Suc (cnt w)" using m by (simp add: unat_packed_cnt s mod_Suc)
qed

lemma packed_pred:
  assumes "packed_cnt w \<noteq> 0"
  shows "packed_ptr (w - 1) = packed_ptr w" "Suc (cnt (w - 1)) = cnt w"
proof -
  have m: "0 < cnt w" using assms by (simp add: unat_gt_0)
  have "w \<noteq> 0" using assms by (auto simp: packed_cnt_def)
  then have s: "Suc (unat (w - 1)) = unat w" by (simp add: unat_minus_one unat_gt_0)
  have "cnt (w - 1) < 65535"
  proof (rule ccontr)
    assume "\<not> cnt (w - 1) < 65535"
    then have "unat (w - 1) mod 65536 = 65535"
      using mod_less_divisor [of 65536 "unat (w - 1)"] by (simp add: unat_packed_cnt)
    then have "Suc (unat (w - 1)) mod 65536 = 0" by (simp add: mod_Suc)
    then show False using m s by (simp add: unat_packed_cnt)
  qed
  from packed_Suc [OF this] show "packed_ptr (w - 1) = packed_ptr w" "Suc (cnt (w - 1)) = cnt w" by simp_all
qed

lemma packed_clear: "packed_ptr (w AND NOT kMagicMask) = packed_ptr w" "packed_cnt (w AND NOT kMagicMask) = 0"
proof -
  have k: "kMagicMask = mask 16" by (simp add: kMagicMask_def mask_eq_exp_minus_1)
  show "packed_ptr (w AND NOT kMagicMask) = packed_ptr w"
    by (rule bit_word_eqI)
      (auto simp: packed_ptr_def kMagicLen_def k bit_drop_bit_eq bit_and_iff bit_not_iff bit_mask_iff
          dest: bit_imp_le_length)
  show "packed_cnt (w AND NOT kMagicMask) = 0"
    by (rule bit_word_eqI) (auto simp: packed_cnt_def bit_and_iff bit_not_iff)
qed

lemma packed_pack:
  assumes "b < 2 ^ 48"
  shows "packed_ptr (pack b) = b" "packed_cnt (pack b) = 0"
proof -
  have u: "unat b < 2 ^ 48" using assms unat_pow2 [of 48] by (simp add: word_less_nat_alt)
  have p: "unat (pack b) = unat b * 65536"
    using u by (simp add: pack_def kMagicLen_def push_bit_eq_mult unat_word_ariths)
  show "packed_ptr (pack b) = b" by (simp add: word_unat_eq_iff unat_packed_ptr p)
  have "cnt (pack b) = 0" by (simp add: unat_packed_cnt p)
  then show "packed_cnt (pack b) = 0" by (simp only: unat_eq_zero)
qed

section \<open>What a thread sees of a control block\<close>

text \<open>The address of its object and, for a node, \<open>prev_\<close> and \<open>data_\<close>.\<close>

type_synonym 'a view = "addr \<Rightarrow> (addr \<times> (addr \<times> 'a) option) option"

definition vis :: "'a mem \<Rightarrow> 'a view" where
  "vis m b = map_option (\<lambda>blk. (cb_data blk, map_option (\<lambda>nd. (nd_prev nd, nd_data nd)) (m_nodes m (cb_data blk)))) (m_blocks m b)"

definition rc :: "'a mem \<Rightarrow> addr \<Rightarrow> nat" where
  "rc m b = (case m_blocks m b of None \<Rightarrow> 0 | Some blk \<Rightarrow> unat (cb_refs blk))"

abbreviation mhead :: "'a mem \<Rightarrow> addr" where "mhead m \<equiv> packed_ptr (m_packed m)"
abbreviation mcnt :: "'a mem \<Rightarrow> nat" where "mcnt m \<equiv> cnt (m_packed m)"

definition mlocal :: "'a mem \<Rightarrow> addr \<Rightarrow> nat" where
  "mlocal m b = (if b = mhead m then mcnt m else 0)"

definition ref1 :: "addr \<Rightarrow> addr multiset" where
  "ref1 b = (if b = 0 then {#} else {#b#})"

fun vprev :: "addr \<times> (addr \<times> 'a) option \<Rightarrow> addr multiset" where
  "vprev (d, Some (p, x)) = ref1 p"
| "vprev (d, None) = {#}"

definition vrefs :: "'a view \<Rightarrow> addr multiset" where
  "vrefs v = (\<Sum>b\<in>dom v. vprev (the (v b)))"

text \<open>
  The heap: control blocks have addresses of 48 bits, an object belongs to one block, nodes are
  in the heap that \<open>lf_free\<close> draws from, and \<open>prev_\<close> never leads back to where it started.
\<close>

definition pool :: "addr set" where
  "pool = {a. a < 2 ^ 34 \<and> a mod 16 = 0}"

definition links :: "'a view \<Rightarrow> (addr \<times> addr) set" where
  "links v = {(b, p). \<exists>d x. v b = Some (d, Some (p, x))}"

definition shape :: "'a view \<Rightarrow> bool" where
  "shape v \<longleftrightarrow> finite (dom v) \<and>
     (\<forall>b d x. v b = Some (d, x) \<longrightarrow> b \<noteq> 0 \<and> b < 2 ^ 48 \<and> (d \<noteq> 0 \<longrightarrow> x \<noteq> None \<and> d \<in> pool) \<and> (d = 0 \<longrightarrow> x = None)) \<and>
     (\<forall>b c d x y. v b = Some (d, x) \<longrightarrow> v c = Some (d, y) \<longrightarrow> b = c) \<and> acyclic (links v)"

lemma shapeD:
  assumes "shape v" "v b = Some (d, x)"
  shows "b \<noteq> 0" "b < 2 ^ 48" "d \<noteq> 0 \<Longrightarrow> x \<noteq> None" "d = 0 \<Longrightarrow> x = None" "d \<noteq> 0 \<Longrightarrow> d \<in> pool"
  using assms unfolding shape_def by blast+

lemma shape_inj: "shape v \<Longrightarrow> v b = Some (d, x) \<Longrightarrow> v c = Some (d, y) \<Longrightarrow> b = c"
  unfolding shape_def by blast

lemma shape_no_loop: "shape v \<Longrightarrow> v b \<noteq> Some (d, Some (b, x))"
  unfolding shape_def acyclic_def links_def by blast

lemma vis_None: "vis m b = None \<longleftrightarrow> m_blocks m b = None"
  by (simp add: vis_def)

lemma rc_pos_alive: "0 < rc m b \<Longrightarrow> vis m b \<noteq> None"
  by (auto simp: rc_def vis_None split: option.splits)

lemma vrefs_remove:
  assumes "finite (dom v)" "v b = Some y"
  shows "vrefs v = vrefs (v(b := None)) + vprev y"
proof -
  have "vrefs v = vprev (the (v b)) + (\<Sum>c\<in>dom v - {b}. vprev (the (v c)))"
    unfolding vrefs_def using assms by (intro sum.remove) auto
  moreover have "(\<Sum>c\<in>dom v - {b}. vprev (the (v c))) = vrefs (v(b := None))"
    unfolding vrefs_def by (intro sum.cong) auto
  ultimately show ?thesis using assms(2) by (simp add: add.commute)
qed

lemma vrefs_insert:
  assumes "finite (dom v)" "v b = None"
  shows "vrefs (v(b \<mapsto> y)) = vrefs v + vprev y"
  using vrefs_remove [of "v(b \<mapsto> y)" b y] assms fun_upd_triv [of v b] by simp

lemma vrefs_replace:
  assumes "finite (dom v)" "v b = Some y"
  shows "vrefs (v(b \<mapsto> z)) + vprev y = vrefs v + vprev z"
  using vrefs_remove [OF assms] vrefs_remove [of "v(b \<mapsto> z)" b z] assms(1) by (simp add: ac_simps)


section \<open>Primitive accesses\<close>

lemma vis_refs: "m_blocks m b = Some blk \<Longrightarrow> vis (m\<lparr>m_blocks := (m_blocks m)(b \<mapsto> blk\<lparr>cb_refs := k\<rparr>)\<rparr>) = vis m"
  by (auto simp: vis_def fun_eq_iff)

lemma vis_packed [simp]: "vis (m\<lparr>m_packed := w\<rparr>) = vis m" "rc (m\<lparr>m_packed := w\<rparr>) = rc m"
  by (auto simp: vis_def rc_def fun_eq_iff)

lemma ref_add_ok:
  assumes "0 < rc m b" "rc m b + unat k < 2 ^ 64"
  obtains prior m' where "ref_add b k m = Some (prior, m')" "unat prior = rc m b" "vis m' = vis m"
    "m_packed m' = m_packed m" "rc m' = (rc m)(b := rc m b + unat k)"
proof -
  obtain blk where blk: "m_blocks m b = Some blk" "rc m b = unat (cb_refs blk)"
    using assms(1) by (auto simp: rc_def split: option.splits)
  let ?m = "m\<lparr>m_blocks := (m_blocks m)(b \<mapsto> blk\<lparr>cb_refs := cb_refs blk + k\<rparr>)\<rparr>"
  have "unat (cb_refs blk + k) = rc m b + unat k" using assms(2) blk(2) by (simp add: unat_word_ariths)
  then have "rc ?m = (rc m)(b := rc m b + unat k)" by (auto simp: rc_def fun_eq_iff)
  then show thesis using that [of "cb_refs blk" ?m] blk vis_refs [OF blk(1)] by (simp add: ref_add_def)
qed

lemma ref_sub_ok:
  assumes "0 < rc m b" "unat k \<le> rc m b"
  obtains prior m' where "ref_sub b k m = Some (prior, m')" "unat prior = rc m b" "vis m' = vis m"
    "m_packed m' = m_packed m" "rc m' = (rc m)(b := rc m b - unat k)"
proof -
  obtain blk where blk: "m_blocks m b = Some blk" "rc m b = unat (cb_refs blk)"
    using assms(1) by (auto simp: rc_def split: option.splits)
  let ?m = "m\<lparr>m_blocks := (m_blocks m)(b \<mapsto> blk\<lparr>cb_refs := cb_refs blk - k\<rparr>)\<rparr>"
  have "unat (cb_refs blk - k) = rc m b - unat k" using assms(2) blk(2) by (simp add: unat_sub word_le_nat_alt)
  then have "rc ?m = (rc m)(b := rc m b - unat k)" by (auto simp: rc_def fun_eq_iff)
  then show thesis using that [of "cb_refs blk" ?m] blk vis_refs [OF blk(1)] by (simp add: ref_sub_def)
qed

lemma delete_both_ok:
  assumes "shape (vis m)" "vis m b = Some (d, x)"
  obtains p m' where "delete_both d b m = Some (p, m')" "m_packed m' = m_packed m"
    "vis m' = (vis m)(b := None)" "rc m' = (rc m)(b := 0)" "vprev (d, x) = ref1 p"
proof -
  obtain blk where blk: "m_blocks m b = Some blk" "cb_data blk = d"
    "x = map_option (\<lambda>nd. (nd_prev nd, nd_data nd)) (m_nodes m d)"
    using assms(2) by (auto simp: vis_def)
  let ?m = "m\<lparr>m_blocks := (m_blocks m)(b := None)\<rparr>"
  have rc: "rc ?m = (rc m)(b := 0)" by (auto simp: rc_def fun_eq_iff)
  show thesis
  proof (cases "d = 0")
    case True
    have "vis ?m = (vis m)(b := None)" by (auto simp: vis_def fun_eq_iff)
    moreover have "x = None" using shapeD(4) [OF assms] True by simp
    ultimately show thesis using that [of 0 ?m] blk(1) rc True by (simp add: delete_both_def ref1_def)
  next
    case False
    then obtain nd where nd: "m_nodes m d = Some nd" "x = Some (nd_prev nd, nd_data nd)"
      using shapeD(3) [OF assms] blk(3) by auto
    let ?m' = "?m\<lparr>m_nodes := (m_nodes m)(d := None)\<rparr>"
    have "vis ?m' c = ((vis m)(b := None)) c" for c
    proof (cases "m_blocks m c")
      case (Some blk')
      show ?thesis
      proof (cases "c = b")
        case False
        have "vis m c = Some (cb_data blk', map_option (\<lambda>nd. (nd_prev nd, nd_data nd)) (m_nodes m (cb_data blk')))"
          using Some by (simp add: vis_def)
        then have "cb_data blk' \<noteq> d" using shape_inj [OF assms(1) assms(2)] False by blast
        then show ?thesis using Some False by (simp add: vis_def)
      qed (simp add: vis_def)
    qed (simp add: vis_def)
    then have "vis ?m' = (vis m)(b := None)" by blast
    moreover have "rc ?m' = (rc m)(b := 0)" by (auto simp: rc_def fun_eq_iff)
    ultimately show thesis using that [of "nd_prev nd" ?m'] blk(1) nd False by (simp add: delete_both_def)
  qed
qed

section \<open>Accounts\<close>

text \<open>
  \<open>eff m m' A B\<close>: the step from \<open>m\<close> to \<open>m'\<close> by a thread that owed \<open>A\<close> before and owes \<open>B\<close>
  after it keeps the balance of every block. \<open>gen_eff\<close>: the local count stays below the number of generic
  shares. \<open>shrink\<close>: the head stays, blocks are left alone or freed, and the others have a positive count.
\<close>

definition eff :: "'a mem \<Rightarrow> 'a mem \<Rightarrow> addr multiset \<Rightarrow> addr multiset \<Rightarrow> bool" where
  "eff m m' A B \<longleftrightarrow> (\<forall>b.
     rc m' b + mlocal m' b + count {#mhead m#} b + count (vrefs (vis m)) b + count A b =
     rc m b + mlocal m b + count {#mhead m'#} b + count (vrefs (vis m')) b + count B b)"

definition gen_eff :: "'a mem \<Rightarrow> 'a mem \<Rightarrow> addr multiset \<Rightarrow> addr multiset \<Rightarrow> bool" where
  "gen_eff m m' G H \<longleftrightarrow> mcnt m' = 0 \<or>
     mhead m' = mhead m \<and> mcnt m' + count G (mhead m) \<le> mcnt m + count H (mhead m)"

definition shrink :: "'a mem \<Rightarrow> 'a mem \<Rightarrow> bool" where
  "shrink m m' \<longleftrightarrow> mhead m' = mhead m \<and> vis m' \<subseteq>\<^sub>m vis m \<and> (\<forall>b. vis m' b \<noteq> None \<longrightarrow> 0 < rc m' b)"

text \<open>A thread gets at new blocks through the head, a node or what it has.\<close>

definition src :: "'a mem \<Rightarrow> addr multiset \<Rightarrow> addr multiset \<Rightarrow> bool" where
  "src m A B \<longleftrightarrow> set_mset B \<subseteq> set_mset A \<union> {mhead m} \<union> set_mset (vrefs (vis m))"

definition sub_eff :: "'a mem \<Rightarrow> 'a mem \<Rightarrow> addr multiset \<Rightarrow> addr multiset \<Rightarrow> addr multiset \<Rightarrow> addr multiset \<Rightarrow> bool" where
  "sub_eff m m' A B G H \<longleftrightarrow> eff m m' A B \<and> gen_eff m m' G H \<and> shrink m m' \<and> src m A B"

text \<open>What a thread that owes \<open>A\<close>, generically \<open>G\<close>, may rely on.\<close>

definition safe :: "'a mem \<Rightarrow> addr multiset \<Rightarrow> addr multiset \<Rightarrow> bool" where
  "safe m A G \<longleftrightarrow> shape (vis m) \<and> (\<forall>b. vis m b \<noteq> None \<longrightarrow> 0 < rc m b) \<and> (\<forall>b. rc m b < 2 ^ 31) \<and>
     (\<forall>b. (b = mhead m \<longrightarrow> Suc (count (A - G) b) \<le> rc m b) \<and> (b \<noteq> mhead m \<longrightarrow> count A b \<le> rc m b))"

lemma sub_eff_same:
  assumes "vis m' = vis m" "mhead m' = mhead m"
    "\<And>b. rc m' b + mlocal m' b + count A b = rc m b + mlocal m b + count B b"
    "gen_eff m m' G H" "\<And>b. vis m b \<noteq> None \<Longrightarrow> 0 < rc m' b" "src m A B"
  shows "sub_eff m m' A B G H"
proof -
  have "eff m m' A B"
    unfolding eff_def
  proof
    fix b
    show "rc m' b + mlocal m' b + count {#mhead m#} b + count (vrefs (vis m)) b + count A b =
      rc m b + mlocal m b + count {#mhead m'#} b + count (vrefs (vis m')) b + count B b"
      using assms(3) [of b] unfolding assms(1,2) by linarith
  qed
  then show ?thesis using assms by (simp add: sub_eff_def shrink_def)
qed

lemma eff_frame: "eff m m' A B \<Longrightarrow> eff m m' (A + C) (B + C)"
  by (simp only: eff_def count_union add.assoc [symmetric] add_right_cancel simp_thms)

lemma gen_eff_frame: "gen_eff m m' G H \<Longrightarrow> gen_eff m m' (G + D) (H + D)"
  by (auto simp: gen_eff_def)

lemma sub_eff_frame: "sub_eff m m' A B G H \<Longrightarrow> sub_eff m m' (A + C) (B + C) (G + D) (H + D)"
  by (auto simp: sub_eff_def eff_frame gen_eff_frame src_def)

lemma safe_alive:
  assumes "safe m A G" "b \<in># A"
  shows "0 < rc m b"
proof -
  have "0 < count A b" using assms(2) by simp
  moreover have "Suc (count (A - G) b) \<le> rc m b \<or> count A b \<le> rc m b"
    using assms(1) by (cases "b = mhead m") (simp_all add: safe_def)
  ultimately show ?thesis by linarith
qed

lemma safe_vis: "safe m A G \<Longrightarrow> b \<in># A \<Longrightarrow> vis m b \<noteq> None"
  using safe_alive rc_pos_alive by blast

lemma safe_mono:
  assumes "safe m (A + C) (G + D)" "D \<subseteq># C" "G \<subseteq># A"
  shows "safe m A G"
proof -
  have s: "shape (vis m)" "\<forall>b. vis m b \<noteq> None \<longrightarrow> 0 < rc m b" "\<forall>b. rc m b < 2 ^ 31"
    using assms(1) by (simp_all add: safe_def)
  have "(b = mhead m \<longrightarrow> Suc (count (A - G) b) \<le> rc m b) \<and> (b \<noteq> mhead m \<longrightarrow> count A b \<le> rc m b)" for b
  proof -
    have "count (A - G) b \<le> count ((A + C) - (G + D)) b" "count A b \<le> count (A + C) b"
      using mset_subset_eq_count [OF assms(2), of b] mset_subset_eq_count [OF assms(3), of b] by simp_all
    moreover have "(b = mhead m \<longrightarrow> Suc (count ((A + C) - (G + D)) b) \<le> rc m b) \<and> (b \<noteq> mhead m \<longrightarrow> count (A + C) b \<le> rc m b)"
      using assms(1) unfolding safe_def by blast
    ultimately show ?thesis by linarith
  qed
  with s show ?thesis by (simp add: safe_def)
qed

lemma int32_prior:
  assumes "unat prior < 2 ^ 31"
  shows "(ucast (prior :: size_t) :: int32) = 0 \<longleftrightarrow> unat prior = 0" "(ucast prior :: int32) = 1 \<longleftrightarrow> unat prior = 1"
proof -
  have "unat (ucast prior :: int32) = unat prior"
    using assms by (simp add: unsigned_ucast_eq take_bit_nat_eq_self)
  then show "(ucast prior :: int32) = 0 \<longleftrightarrow> unat prior = 0" "(ucast prior :: int32) = 1 \<longleftrightarrow> unat prior = 1"
    by (simp_all add: word_unat_eq_iff)
qed

definition sub_post :: "('p \<Rightarrow> bool) \<Rightarrow> ('r \<Rightarrow> bool) \<Rightarrow> ('p, 'r) sub \<Rightarrow> bool" where
  "sub_post P Q r \<longleftrightarrow> (case r of Go p \<Rightarrow> P p | Return x \<Rightarrow> Q x | Crash \<Rightarrow> False)"

lemma sub_post_simps [simp]:
  "sub_post P Q (Go p) = P p" "sub_post P Q (Return x) = Q x" "\<not> sub_post P Q Crash"
  by (simp_all add: sub_post_def)

lemma sub_post_bind:
  assumes "sub_post P Q r" "\<And>p. P p \<Longrightarrow> P' (f p)" "\<And>x. Q x \<Longrightarrow> sub_post P' Q' (g x)"
  shows "sub_post P' Q' (bind_sub f g r)"
  using assms by (cases r) auto

lemma sub_post_mono: "sub_post P Q r \<Longrightarrow> (\<And>p. P p \<Longrightarrow> P' p) \<Longrightarrow> (\<And>x. Q x \<Longrightarrow> Q' x) \<Longrightarrow> sub_post P' Q' r"
  by (cases r) auto

end
