(* ===== verification/Shared_Ptr_Steps.thy ===== *)
theory Shared_Ptr_Steps
  imports Shared_Ptr_Counts
begin

text \<open>
  Every step of the operations of \<open>AtomicSharedPtr\<close> keeps the accounts: for each of them, what its
  program points owe, the facts its local variables keep, and the lemma that a step from a
  point where they hold does not crash and leads to one where they hold again.
\<close>

section \<open>Releasing a block\<close>

lemma free_block:
  assumes sh: "shape (vis m)" and v: "vis m b = Some (d, x)" and rc1: "rc m b = 1"
    and d: "delete_both d b m1 = Some (p, m')"
    and m1: "vis m1 = vis m" "m_packed m1 = m_packed m" "rc m1 = (rc m)(b := 0)"
    and alive: "\<forall>c. vis m c \<noteq> None \<longrightarrow> 0 < rc m c"
  shows "sub_eff m m' {#b#} (ref1 p) {#} {#}"
proof -
  obtain p' m2 where del: "delete_both d b m1 = Some (p', m2)" "m_packed m2 = m_packed m1"
    "vis m2 = (vis m1)(b := None)" "rc m2 = (rc m1)(b := 0)" "vprev (d, x) = ref1 p'"
    using delete_both_ok [of m1 b d x] sh v m1(1) by metis
  then have m': "m_packed m' = m_packed m" "vis m' = (vis m)(b := None)" "rc m' = (rc m)(b := 0)" "vprev (d, x) = ref1 p"
    using d m1 by simp_all
  have fin: "finite (dom (vis m))" using sh by (simp add: shape_def)
  have refs: "vrefs (vis m) = vrefs (vis m') + ref1 p" using vrefs_remove [of "vis m" b, OF fin v] m'(2,4) by simp
  have "eff m m' {#b#} (ref1 p)"
    unfolding eff_def
  proof
    fix c
    show "rc m' c + mlocal m' c + count {#mhead m#} c + count (vrefs (vis m)) c + count {#b#} c =
      rc m c + mlocal m c + count {#mhead m'#} c + count (vrefs (vis m')) c + count (ref1 p) c"
      using refs m'(1,3) rc1 by (cases "c = b") (simp_all add: mlocal_def)
  qed
  moreover have "gen_eff m m' {#} {#}" using m'(1) by (simp add: gen_eff_def)
  moreover have "shrink m m'" using m'(1,2,3) alive by (auto simp: shrink_def map_le_def)
  moreover have "src m {#b#} (ref1 p)" using refs by (auto simp: src_def)
  ultimately show ?thesis by (simp add: sub_eff_def)
qed

lemma drop_share:
  assumes "1 < rc m b" "vis m' = vis m" "m_packed m' = m_packed m" "rc m' = (rc m)(b := rc m b - 1)"
    "\<forall>c. vis m c \<noteq> None \<longrightarrow> 0 < rc m c"
  shows "sub_eff m m' {#b#} {#} {#} {#}"
  using assms by (intro sub_eff_same) (auto simp: gen_eff_def mlocal_def src_def)

text \<open>The two outcomes of releasing a share that is counted in \<open>refCount\<close>.\<close>

lemma release_cases:
  assumes "safe m {#b#} {#}"
  obtains blk x prior m1 where "m_blocks m b = Some blk" "vis m b = Some (cb_data blk, x)"
    "ref_sub b 1 m = Some (prior, m1)" "unat prior = rc m b" "0 < rc m b" "rc m b < 2 ^ 31"
    "rc m b = 1 \<Longrightarrow> \<exists>p m2. delete_both (cb_data blk) b m1 = Some (p, m2) \<and> sub_eff m m2 {#b#} (ref1 p) {#} {#}"
    "rc m b \<noteq> 1 \<Longrightarrow> sub_eff m m1 {#b#} {#} {#} {#}"
proof -
  have rc0: "0 < rc m b" using safe_alive [OF assms(1)] by simp
  have sh: "shape (vis m)" and alive: "\<forall>c. vis m c \<noteq> None \<longrightarrow> 0 < rc m c" and small: "rc m b < 2 ^ 31"
    using assms(1) by (simp_all add: safe_def)
  obtain blk x where blk: "m_blocks m b = Some blk" "vis m b = Some (cb_data blk, x)"
    using rc_pos_alive [OF rc0] by (auto simp: vis_def)
  obtain prior m1 where sub: "ref_sub b 1 m = Some (prior, m1)" "unat prior = rc m b" "vis m1 = vis m"
    "m_packed m1 = m_packed m" "rc m1 = (rc m)(b := rc m b - 1)"
    using ref_sub_ok [of m b 1] rc0 by (auto simp: Suc_le_eq)
  show thesis
  proof (rule that [OF blk sub(1,2) rc0 small])
    assume one: "rc m b = 1"
    obtain p m2 where del: "delete_both (cb_data blk) b m1 = Some (p, m2)"
      using delete_both_ok [of m1 b "cb_data blk" x] sh blk(2) sub(3) by metis
    have "sub_eff m m2 {#b#} (ref1 p) {#} {#}"
      using free_block [OF sh blk(2) one del sub(3,4)] sub(5) one alive by simp
    with del show "\<exists>p m2. delete_both (cb_data blk) b m1 = Some (p, m2) \<and> sub_eff m m2 {#b#} (ref1 p) {#} {#}"
      by blast
  next
    assume "rc m b \<noteq> 1"
    then show "sub_eff m m1 {#b#} {#} {#} {#}" using drop_share [OF _ sub(3,4,5) alive] rc0 by simp
  qed
qed

lemma unref_entry_ref1: "unref_entry p = (if p = 0 then Return () else Go p)" "p \<noteq> 0 \<Longrightarrow> ref1 p = {#p#}" "ref1 0 = {#}"
  by (simp_all add: unref_entry_def ref1_def)

lemma unref_step_ok:
  assumes "safe m {#b#} {#}" "unref_step b m = (r, m')"
  shows "sub_post (\<lambda>c. c \<noteq> 0 \<and> sub_eff m m' {#b#} {#c#} {#} {#}) (\<lambda>_. sub_eff m m' {#b#} {#} {#} {#}) r"
proof -
  obtain blk x prior m1 where rel: "m_blocks m b = Some blk" "vis m b = Some (cb_data blk, x)"
    "ref_sub b 1 m = Some (prior, m1)" "unat prior = rc m b" "0 < rc m b" "rc m b < 2 ^ 31"
    "rc m b = 1 \<Longrightarrow> \<exists>p m2. delete_both (cb_data blk) b m1 = Some (p, m2) \<and> sub_eff m m2 {#b#} (ref1 p) {#} {#}"
    "rc m b \<noteq> 1 \<Longrightarrow> sub_eff m m1 {#b#} {#} {#} {#}"
    using release_cases [OF assms(1)] by blast
  have prior: "(ucast prior :: int32) \<noteq> 0" "(ucast prior :: int32) = 1 \<longleftrightarrow> rc m b = 1"
    using int32_prior [of prior] rel(4,5,6) by simp_all
  show ?thesis
  proof (cases "rc m b = 1")
    case True
    with rel(7) obtain p m2 where del: "delete_both (cb_data blk) b m1 = Some (p, m2)"
      "sub_eff m m2 {#b#} (ref1 p) {#} {#}" by blast
    have "r = unref_entry p" "m' = m2"
      using assms(2) rel(1,3) prior True del(1) by (simp_all add: unref_step_def Let_def)
    then show ?thesis using del(2) by (simp add: unref_entry_ref1 split: if_splits)
  next
    case False
    then have "r = Return ()" "m' = m1"
      using assms(2) rel(1,3) prior by (simp_all add: unref_step_def Let_def)
    then show ?thesis using rel(8) False by simp
  qed
qed

lemma destroyOld_ok:
  assumes "safe m {#packed_ptr old#} {#}" "destroyOldControlBlock old m = (r, m')"
  shows "sub_post (\<lambda>c. c \<noteq> 0 \<and> sub_eff m m' {#packed_ptr old#} {#c#} {#} {#})
    (\<lambda>_. sub_eff m m' {#packed_ptr old#} {#} {#} {#}) r"
proof -
  let ?b = "packed_ptr old"
  obtain blk x prior m1 where rel: "m_blocks m ?b = Some blk" "vis m ?b = Some (cb_data blk, x)"
    "ref_sub ?b 1 m = Some (prior, m1)" "unat prior = rc m ?b" "0 < rc m ?b" "rc m ?b < 2 ^ 31"
    "rc m ?b = 1 \<Longrightarrow> \<exists>p m2. delete_both (cb_data blk) ?b m1 = Some (p, m2) \<and> sub_eff m m2 {#?b#} (ref1 p) {#} {#}"
    "rc m ?b \<noteq> 1 \<Longrightarrow> sub_eff m m1 {#?b#} {#} {#} {#}"
    using release_cases [OF assms(1)] by blast
  have prior: "prior \<noteq> 0" "prior = 1 \<longleftrightarrow> rc m ?b = 1" using rel(4,5) by (auto simp: word_unat_eq_iff)
  show ?thesis
  proof (cases "rc m ?b = 1")
    case True
    with rel(7) obtain c m2 where del: "delete_both (cb_data blk) ?b m1 = Some (c, m2)"
      "sub_eff m m2 {#?b#} (ref1 c) {#} {#}" by blast
    have "r = unref_entry c" "m' = m2"
      using assms(2) rel(1,3) prior True del(1) by (simp_all add: destroyOldControlBlock_def Let_def)
    then show ?thesis using del(2) by (simp add: unref_entry_ref1 split: if_splits)
  next
    case False
    then have "r = Return ()" "m' = m1"
      using assms(2) rel(1,3) prior by (simp_all add: destroyOldControlBlock_def Let_def)
    then show ?thesis using rel(8) False by simp
  qed
qed

section \<open>FastSharedPtr\<close>

text \<open>A published block: if it has a node, that node has a predecessor.\<close>

definition pub :: "'a view \<Rightarrow> addr \<Rightarrow> bool" where
  "pub v b \<longleftrightarrow> v b = Some (0, None) \<or> (\<exists>d p x. d \<noteq> 0 \<and> p \<noteq> 0 \<and> v b = Some (d, Some (p, x)))"

definition fast_ok :: "'a view \<Rightarrow> fast \<Rightarrow> bool" where
  "fast_ok v f \<longleftrightarrow> fs_foreign f \<and> pub v (packed_ptr (fs_known f)) \<and>
     map_option fst (v (packed_ptr (fs_known f))) = Some (fs_data f) \<and> packed_cnt (fs_known f) \<noteq> 0"

abbreviation fshare :: "fast \<Rightarrow> addr multiset" where
  "fshare f \<equiv> {#packed_ptr (fs_known f)#}"

fun owed_fast :: "fast_pc \<Rightarrow> addr multiset" where
  "owed_fast F_Add = {#}"
| "owed_fast (F_Data known) = {#packed_ptr known#}"
| "owed_fast p = {#}"

text \<open>With at most 1000 readers the constructor never enters its loop.\<close>

fun fast_pc_ok :: "'a view \<Rightarrow> fast_pc \<Rightarrow> bool" where
  "fast_pc_ok v F_Add = True"
| "fast_pc_ok v (F_Data known) = (packed_cnt known \<noteq> 0 \<and> cnt known \<le> 1000 \<and> pub v (packed_ptr known))"
| "fast_pc_ok v p = False"

lemma fast_Add_eff:
  assumes "safe m {#} {#}" "mcnt m < 1000"
  defines "m' \<equiv> m\<lparr>m_packed := m_packed m + 1\<rparr>"
  shows "sub_eff m m' {#} {#mhead m#} {#} {#mhead m#}" "mhead m' = mhead m" "mcnt m' = Suc (mcnt m)"
proof -
  show h: "mhead m' = mhead m" "mcnt m' = Suc (mcnt m)"
    using packed_Suc [of "m_packed m"] assms(2) by (simp_all add: m'_def)
  show "sub_eff m m' {#} {#mhead m#} {#} {#mhead m#}"
    using h assms(1) by (intro sub_eff_same) (auto simp: m'_def mlocal_def gen_eff_def safe_def src_def)
qed

lemma fast_step_ok:
  assumes "safe m (owed_fast p) (owed_fast p)" "fast_pc_ok (vis m) p"
    "p = F_Add \<Longrightarrow> mcnt m < 1000 \<and> pub (vis m) (mhead m)" "fast_step p m = (r, m')"
  shows "sub_post
    (\<lambda>q. fast_pc_ok (vis m) q \<and> sub_eff m m' (owed_fast p) (owed_fast q) (owed_fast p) (owed_fast q))
    (\<lambda>f. fast_ok (vis m) f \<and> sub_eff m m' (owed_fast p) (fshare f) (owed_fast p) (fshare f)) r"
proof (cases p)
  case F_Add
  have m': "r = Go (F_Data (m_packed m + 1))" "m' = m\<lparr>m_packed := m_packed m + 1\<rparr>"
    using assms(4) F_Add by (simp_all add: Let_def)
  have a: "safe m {#} {#}" "mcnt m < 1000" "pub (vis m) (mhead m)" using assms(1,3) F_Add by auto
  note e = fast_Add_eff [OF a(1,2)]
  have "packed_cnt (m_packed m + 1) \<noteq> 0" "cnt (m_packed m + 1) \<le> 1000" "packed_ptr (m_packed m + 1) = mhead m"
    using e(2,3) a(2) by auto
  then show ?thesis using e(1) a(3) F_Add m' by simp
next
  case (F_Data known)
  let ?b = "packed_ptr known"
  obtain blk x where blk: "m_blocks m ?b = Some blk" "vis m ?b = Some (cb_data blk, x)"
    using safe_vis [OF assms(1), of ?b] F_Data by (auto simp: vis_def)
  have k: "packed_cnt known \<noteq> 0" "cnt known \<le> 1000" "pub (vis m) ?b" using assms(2) F_Data by auto
  then have "\<not> packed_cnt known > 1000" by (simp add: word_less_nat_alt not_less)
  then have r: "r = Return \<lparr>fs_known = known, fs_foreign = True, fs_data = cb_data blk\<rparr>" "m' = m"
    using assms(4) F_Data blk(1) by (simp_all add: fast_loop_def)
  have "sub_eff m m {#?b#} {#?b#} {#?b#} {#?b#}"
    using assms(1) by (intro sub_eff_same) (auto simp: gen_eff_def safe_def src_def)
  then show ?thesis using r k blk(2) F_Data by (simp add: fast_ok_def)
qed (use assms(2) in simp_all)


fun owed_destroy :: "destroy_pc \<Rightarrow> addr multiset" where
  "owed_destroy (X_Cas f e) = fshare f"
| "owed_destroy (X_Sub f) = fshare f"
| "owed_destroy (X_Unref b) = {#b#}"

fun gen_destroy :: "destroy_pc \<Rightarrow> addr multiset" where
  "gen_destroy (X_Cas f e) = fshare f"
| "gen_destroy p = {#}"

fun destroy_ok :: "'a view \<Rightarrow> destroy_pc \<Rightarrow> bool" where
  "destroy_ok v (X_Cas f e) = (fast_ok v f \<and> packed_ptr e = packed_ptr (fs_known f) \<and> packed_cnt e \<noteq> 0)"
| "destroy_ok v (X_Sub f) = fast_ok v f"
| "destroy_ok v (X_Unref b) = True"

lemma destroy_entry_ok:
  "fast_ok v f \<Longrightarrow> destroy_entry f = Go (X_Cas f (fs_known f)) \<and> destroy_ok v (X_Cas f (fs_known f))"
  by (simp add: destroy_entry_def fast_ok_def)

text \<open>A reader takes its share back from the local count of the packed word.\<close>

lemma local_share:
  assumes "packed_cnt (m_packed m) \<noteq> 0" "\<forall>c. vis m c \<noteq> None \<longrightarrow> 0 < rc m c"
  shows "sub_eff m (m\<lparr>m_packed := m_packed m - 1\<rparr>) {#mhead m#} {#} {#mhead m#} {#}"
  using packed_pred [OF assms(1)] assms(2)
  by (intro sub_eff_same) (auto simp: mlocal_def gen_eff_def src_def)

text \<open>It cannot any more: then its share is in the reference count.\<close>

lemma generic_to_counted:
  assumes "b \<noteq> mhead m \<or> mcnt m = 0" "\<forall>c. vis m c \<noteq> None \<longrightarrow> 0 < rc m c"
  shows "sub_eff m m A A {#b#} {#}"
  using assms by (intro sub_eff_same) (auto simp: gen_eff_def src_def)

lemma sub_eff_refl: "\<forall>c. vis m c \<noteq> None \<longrightarrow> 0 < rc m c \<Longrightarrow> sub_eff m m A A G G"
  by (intro sub_eff_same) (auto simp: gen_eff_def src_def)

lemma sub_eff_gen_mono: "sub_eff m m' A B G H \<Longrightarrow> H \<subseteq># H' \<Longrightarrow> sub_eff m m' A B G H'"
  unfolding sub_eff_def gen_eff_def by (meson add_left_mono le_trans mset_subset_eq_count)

lemma destroy_step_ok:
  assumes "safe m (owed_destroy p) (gen_destroy p)" "destroy_ok (vis m) p" "destroy_step weak p m = (r, m')"
  shows "sub_post
    (\<lambda>q. destroy_ok (vis m) q \<and>
      sub_eff m m' (owed_destroy p) (owed_destroy q) (gen_destroy p) (gen_destroy q))
    (\<lambda>_. sub_eff m m' (owed_destroy p) {#} (gen_destroy p) {#}) r"
proof (cases p)
  case (X_Cas f e)
  have alive: "\<forall>c. vis m c \<noteq> None \<longrightarrow> 0 < rc m c" using assms(1) by (simp add: safe_def)
  have ok: "fast_ok (vis m) f" "packed_ptr e = packed_ptr (fs_known f)" "packed_cnt e \<noteq> 0" using assms(2) X_Cas by auto
  show ?thesis
  proof (cases "m_packed m = e \<and> \<not> weak")
    case True
    then have "r = Return ()" "m' = m\<lparr>m_packed := m_packed m - 1\<rparr>" using assms(3) X_Cas by simp_all
    then show ?thesis using local_share [of m] alive ok True X_Cas by simp
  next
    case False
    show ?thesis
    proof (cases "mhead m \<noteq> packed_ptr (fs_known f) \<or> packed_cnt (m_packed m) = 0")
      case True
      then have "r = Go (X_Sub f)" "m' = m" using False assms(3) X_Cas by (auto simp: Let_def)
      moreover have "packed_ptr (fs_known f) \<noteq> mhead m \<or> mcnt m = 0" using True by auto
      ultimately show ?thesis using generic_to_counted [OF _ alive] ok(1) X_Cas by simp
    next
      case same: False
      then have "r = Go (X_Cas f (m_packed m))" "m' = m" using False assms(3) X_Cas by (auto simp: Let_def)
      then show ?thesis using sub_eff_refl [OF alive] same ok(1) X_Cas by simp
    qed
  qed
next
  case (X_Sub f)
  let ?b = "packed_ptr (fs_known f)"
  have "safe m {#?b#} {#}" using assms(1) X_Sub by simp
  then obtain blk x prior m1 where rel: "m_blocks m ?b = Some blk" "vis m ?b = Some (cb_data blk, x)"
    "ref_sub ?b 1 m = Some (prior, m1)" "unat prior = rc m ?b" "0 < rc m ?b" "rc m ?b < 2 ^ 31"
    "rc m ?b = 1 \<Longrightarrow> \<exists>p m2. delete_both (cb_data blk) ?b m1 = Some (p, m2) \<and> sub_eff m m2 {#?b#} (ref1 p) {#} {#}"
    "rc m ?b \<noteq> 1 \<Longrightarrow> sub_eff m m1 {#?b#} {#} {#} {#}"
    using release_cases by blast
  have data: "fs_data f = cb_data blk" using assms(2) rel(2) X_Sub by (simp add: fast_ok_def)
  have prior: "prior = 1 \<longleftrightarrow> rc m ?b = 1" using rel(4) by (simp add: word_unat_eq_iff)
  show ?thesis
  proof (cases "rc m ?b = 1")
    case True
    with rel(7) obtain c m2 where del: "delete_both (cb_data blk) ?b m1 = Some (c, m2)"
      "sub_eff m m2 {#?b#} (ref1 c) {#} {#}" by blast
    have "r = bind_sub X_Unref Return (unref_entry c)" "m' = m2"
      using assms(3) X_Sub rel(3) prior True del(1) data by (simp_all add: Let_def)
    then show ?thesis using del(2) X_Sub by (simp add: unref_entry_ref1 split: if_splits)
  next
    case False
    then have "r = Return ()" "m' = m1" using assms(3) X_Sub rel(3) prior by (simp_all add: Let_def)
    then show ?thesis using rel(8) False X_Sub by simp
  qed
next
  case (X_Unref b)
  obtain r' where r': "unref_step b m = (r', m')" "r = bind_sub X_Unref Return r'"
    using assms(3) X_Unref by (cases "unref_step b m") auto
  have "safe m {#b#} {#}" using assms(1) X_Unref by simp
  from unref_step_ok [OF this r'(1)] show ?thesis
    using X_Unref unfolding r'(2) by (elim sub_post_bind) simp_all
qed


section \<open>AtomicSharedPtr::get\<close>

fun owed_get :: "get_pc \<Rightarrow> addr multiset" where
  "owed_get G_Add = {#}"
| "owed_get (G_Ref c) = {#packed_ptr c#}"
| "owed_get (G_Cas c e) = {#packed_ptr c, packed_ptr c#}"
| "owed_get (G_Sub c) = {#packed_ptr c, packed_ptr c#}"

fun gen_get :: "get_pc \<Rightarrow> addr multiset" where
  "gen_get (G_Ref c) = {#packed_ptr c#}"
| "gen_get (G_Cas c e) = {#packed_ptr c#}"
| "gen_get p = {#}"

fun get_ok :: "get_pc \<Rightarrow> bool" where
  "get_ok (G_Ref c) = (cnt c < 1000)"
| "get_ok (G_Cas c e) = (packed_ptr e = packed_ptr c \<and> packed_cnt e \<noteq> 0)"
| "get_ok p = True"

lemma add_share:
  assumes "0 < rc m b" "vis m' = vis m" "m_packed m' = m_packed m" "rc m' = (rc m)(b := rc m b + k)"
    "\<forall>c. vis m c \<noteq> None \<longrightarrow> 0 < rc m c" "b \<in># A \<or> b \<in># vrefs (vis m)"
  shows "sub_eff m m' A (A + replicate_mset k b) G G"
  using assms by (intro sub_eff_same) (auto simp: gen_eff_def mlocal_def src_def)

lemma get_step_ok:
  assumes "safe m (owed_get p) (gen_get p)" "get_ok p" "p = G_Add \<Longrightarrow> mcnt m < 1000" "get_step weak p m = (r, m')"
  shows "sub_post
    (\<lambda>q. get_ok q \<and> sub_eff m m' (owed_get p) (owed_get q) (gen_get p) (gen_get q))
    (\<lambda>b. b \<noteq> 0 \<and> sub_eff m m' (owed_get p) {#b#} (gen_get p) {#}) r"
proof -
  have alive: "\<forall>c. vis m c \<noteq> None \<longrightarrow> 0 < rc m c" and sh: "shape (vis m)" and small: "\<forall>b. rc m b < 2 ^ 31"
    using assms(1) by (simp_all add: safe_def)
  have nonzero: "b \<noteq> 0" if "b \<in># owed_get p" for b
    using safe_vis [OF assms(1) that] shapeD(1) [OF sh] by (metis option.exhaust prod.exhaust)
  show ?thesis
  proof (cases p)
    case G_Add
    have "safe m {#} {#}" using assms(1) G_Add by simp
    from fast_Add_eff [OF this] show ?thesis using assms(3,4) G_Add by auto
  next
    case (G_Ref c)
    let ?b = "packed_ptr c"
    have rc0: "0 < rc m ?b" using safe_alive [OF assms(1)] G_Ref by simp
    have "rc m ?b + unat (1::size_t) < 2 ^ 64" using small [rule_format, of ?b] by simp
    then obtain prior m1 where add: "ref_add ?b 1 m = Some (prior, m1)" "unat prior = rc m ?b" "vis m1 = vis m"
      "m_packed m1 = m_packed m" "rc m1 = (rc m)(?b := rc m ?b + unat (1::size_t))"
      by (rule ref_add_ok [OF rc0])
    have "(ucast prior :: int32) \<noteq> 0" using int32_prior [of prior] add(2) small [rule_format, of ?b] rc0 by simp
    then have r: "r = Go (G_Cas c (c + 1))" "m' = m1" using assms(4) G_Ref add(1) by simp_all
    have "sub_eff m m1 {#?b#} ({#?b#} + replicate_mset 1 ?b) {#?b#} {#?b#}"
      using add by (intro add_share [OF rc0 _ _ _ alive]) simp_all
    moreover have "packed_ptr (c + 1) = ?b" "packed_cnt (c + 1) \<noteq> 0"
      using packed_Suc [of c] assms(2) G_Ref by auto
    ultimately show ?thesis using r G_Ref by simp
  next
    case (G_Cas c e)
    have ok: "packed_ptr e = packed_ptr c" "packed_cnt e \<noteq> 0" using assms(2) G_Cas by auto
    show ?thesis
    proof (cases "m_packed m = e \<and> \<not> weak")
      case True
      then have "r = Return (packed_ptr c)" "m' = m\<lparr>m_packed := m_packed m - 1\<rparr>" using assms(4) ok G_Cas by simp_all
      moreover have "packed_ptr c \<noteq> 0" using nonzero G_Cas by simp
      ultimately show ?thesis
        using sub_eff_frame [OF local_share [of m], of "{#packed_ptr c#}" "{#}"] alive ok True G_Cas by simp
    next
      case False
      show ?thesis
      proof (cases "mhead m \<noteq> packed_ptr c \<or> packed_cnt (m_packed m) = 0")
        case True
        then have "r = Go (G_Sub c)" "m' = m" using False assms(4) ok G_Cas by (auto simp: Let_def)
        moreover have "packed_ptr c \<noteq> mhead m \<or> mcnt m = 0" using True by auto
        ultimately show ?thesis using generic_to_counted [OF _ alive] G_Cas by simp
      next
        case same: False
        then have "r = Go (G_Cas c (m_packed m))" "m' = m" using False assms(4) ok G_Cas by (auto simp: Let_def)
        then show ?thesis using sub_eff_refl [OF alive] same G_Cas by simp
      qed
    qed
  next
    case (G_Sub c)
    let ?b = "packed_ptr c"
    have two: "1 < rc m ?b"
      using assms(1) G_Sub by (cases "?b = mhead m") (auto simp: safe_def Suc_le_eq dest!: spec [of _ ?b])
    obtain prior m1 where sub: "ref_sub ?b 1 m = Some (prior, m1)" "unat prior = rc m ?b" "vis m1 = vis m"
      "m_packed m1 = m_packed m" "rc m1 = (rc m)(?b := rc m ?b - unat (1::size_t))"
      using ref_sub_ok [of m ?b 1] two by auto
    have "(ucast prior :: int32) \<noteq> 0" using int32_prior [of prior] sub(2) small [rule_format, of ?b] two by simp
    then have r: "r = Return ?b" "m' = m1" using assms(4) G_Sub sub(1) by simp_all
    have "sub_eff m m1 {#?b#} {#} {#} {#}" using sub by (intro drop_share [OF two _ _ _ alive]) simp_all
    from sub_eff_frame [OF this, of "{#?b#}" "{#}"] show ?thesis using r nonzero G_Sub by simp
  qed
qed


section \<open>AtomicSharedPtr::compareExchange\<close>

fun owed_cas :: "cas_pc \<Rightarrow> addr multiset" where
  "owed_cas K_Same = {#}"
| "owed_cas (K_Fast p) = owed_fast p"
| "owed_cas (K_RefAdd h ep) = fshare h"
| "owed_cas (K_Clear h ep) = fshare h + replicate_mset (cnt ep) (packed_ptr (fs_known h))"
| "owed_cas (K_RefSub h ep d) = fshare h + replicate_mset (unat d) (packed_ptr (fs_known h))"
| "owed_cas (K_Swap h ep) = fshare h"
| "owed_cas (K_Old h ep) = fshare h + {#packed_ptr ep#}"
| "owed_cas (K_OldUnref h b) = fshare h + {#b#}"
| "owed_cas (K_Destroy ok p) = owed_destroy p"

fun gen_cas :: "cas_pc \<Rightarrow> addr multiset" where
  "gen_cas K_Same = {#}"
| "gen_cas (K_Fast p) = owed_fast p"
| "gen_cas (K_RefAdd h ep) = fshare h"
| "gen_cas (K_Clear h ep) = fshare h"
| "gen_cas (K_RefSub h ep d) = fshare h"
| "gen_cas (K_Swap h ep) = fshare h"
| "gen_cas (K_Old h ep) = fshare h"
| "gen_cas (K_OldUnref h b) = fshare h"
| "gen_cas (K_Destroy ok p) = gen_destroy p"

definition holder_ok :: "'a view \<Rightarrow> addr \<Rightarrow> fast \<Rightarrow> bool" where
  "holder_ok v expd h \<longleftrightarrow> fast_ok v h \<and> fs_data h = expd"

fun cas_ok :: "'a view \<Rightarrow> addr \<Rightarrow> cas_pc \<Rightarrow> bool" where
  "cas_ok v expd K_Same = True"
| "cas_ok v expd (K_Fast p) = fast_pc_ok v p"
| "cas_ok v expd (K_RefAdd h ep) = (holder_ok v expd h \<and> packed_ptr ep = packed_ptr (fs_known h) \<and> cnt ep \<le> 1000)"
| "cas_ok v expd (K_Clear h ep) = (holder_ok v expd h \<and> packed_ptr ep = packed_ptr (fs_known h) \<and> cnt ep \<le> 1000)"
| "cas_ok v expd (K_RefSub h ep d) = (holder_ok v expd h \<and> cnt ep \<le> 1000 \<and> unat d \<le> 1000)"
| "cas_ok v expd (K_Swap h ep) = (holder_ok v expd h \<and> packed_ptr ep = packed_ptr (fs_known h) \<and> packed_cnt ep = 0)"
| "cas_ok v expd (K_Old h ep) = (fast_ok v h \<and> packed_ptr ep = packed_ptr (fs_known h))"
| "cas_ok v expd (K_OldUnref h b) = fast_ok v h"
| "cas_ok v expd (K_Destroy ok p) = destroy_ok v p"

text \<open>The points after the successful exchange.\<close>

fun swapped :: "cas_pc \<Rightarrow> bool" where
  "swapped (K_Old h ep) = True"
| "swapped (K_OldUnref h b) = True"
| "swapped (K_Destroy ok p) = ok"
| "swapped p = False"

lemma cas_finish_ok:
  assumes "fast_ok v h"
  obtains q where "cas_finish ok h = Go q" "cas_ok v expd q" "owed_cas q = fshare h" "gen_cas q = fshare h"
    "swapped q = ok" "q \<noteq> K_Same"
  using destroy_entry_ok [OF assms] that by (simp add: cas_finish_def)

lemma cas_loop_ok:
  assumes "holder_ok v expd h" "cnt ep \<le> 1000"
  obtains q where "cas_loop h ep = Go q" "cas_ok v expd q" "owed_cas q = fshare h" "gen_cas q = fshare h"
    "\<not> swapped q" "q \<noteq> K_Same"
proof (cases "packed_ptr (fs_known h) = packed_ptr ep")
  case True
  show thesis
  proof (cases "packed_cnt ep = 0")
    case z: True
    show thesis by (rule that [of "K_Swap h ep"]) (use assms True z in \<open>simp_all add: cas_loop_def\<close>)
  next
    case z: False
    show thesis by (rule that [of "K_RefAdd h ep"]) (use assms True z in \<open>simp_all add: cas_loop_def\<close>)
  qed
next
  case False
  obtain q where q: "cas_finish False h = Go q" "cas_ok v expd q" "owed_cas q = fshare h" "gen_cas q = fshare h"
    "swapped q = False" "q \<noteq> K_Same"
    using cas_finish_ok [of v h False expd] assms(1) by (auto simp: holder_ok_def)
  show thesis by (rule that [of q]) (use False q in \<open>simp_all add: cas_loop_def\<close>)
qed

lemma cas_enter_ok:
  assumes "fast_ok v h" "shape v"
  obtains q where "cas_enter expd h = Go q" "cas_ok v expd q" "owed_cas q = fshare h" "gen_cas q = fshare h"
    "\<not> swapped q" "q \<noteq> K_Same"
proof (cases "fs_data h = expd")
  case True
  obtain d x where "v (packed_ptr (fs_known h)) = Some (d, x)" using assms(1) by (auto simp: fast_ok_def)
  then have "cnt (pack (packed_ptr (fs_known h))) \<le> 1000"
    using packed_pack shapeD(2) [OF assms(2)] by simp
  then obtain q where q: "cas_loop h (pack (packed_ptr (fs_known h))) = Go q" "cas_ok v expd q" "owed_cas q = fshare h"
    "gen_cas q = fshare h" "\<not> swapped q" "q \<noteq> K_Same"
    using cas_loop_ok [of v expd h] assms(1) True by (auto simp: holder_ok_def)
  show thesis by (rule that [of q]) (use True q in \<open>simp_all add: cas_enter_def\<close>)
next
  case False
  obtain q where q: "cas_finish False h = Go q" "cas_ok v expd q" "owed_cas q = fshare h" "gen_cas q = fshare h"
    "swapped q = False" "q \<noteq> K_Same"
    using cas_finish_ok [OF assms(1), of False expd] by blast
  show thesis by (rule that [of q]) (use False q in \<open>simp_all add: cas_enter_def\<close>)
qed


lemma cas_unref_post:
  assumes "sub_post (\<lambda>c. sub_eff m m' {#b#} {#c#} {#} {#}) (\<lambda>_. sub_eff m m' {#b#} {#} {#} {#}) r"
    "fast_ok v h" "p = K_Old h ep \<and> b = packed_ptr ep \<or> p = K_OldUnref h b"
  shows "sub_post
    (\<lambda>q. q \<noteq> K_Same \<and> cas_ok v expd q \<and> swapped q \<and> sub_eff m m' (owed_cas p) (owed_cas q) (gen_cas p) (gen_cas q))
    (\<lambda>ok. False) (bind_sub (K_OldUnref h) (\<lambda>_. cas_finish True h) r)"
proof (cases r)
  case (Go c)
  then show ?thesis using assms sub_eff_frame [of m m' "{#b#}" "{#c#}" "{#}" "{#}" "fshare h" "fshare h"]
    by (auto simp: add.commute)
next
  case (Return x)
  obtain q where "cas_finish True h = Go q" "cas_ok v expd q" "owed_cas q = fshare h" "gen_cas q = fshare h"
    "swapped q" "q \<noteq> K_Same" using cas_finish_ok [OF assms(2), of True] by metis
  then show ?thesis using assms Return sub_eff_frame [of m m' "{#b#}" "{#}" "{#}" "{#}" "fshare h" "fshare h"]
    by (auto simp: add.commute)
qed (use assms(1) in simp)

lemma clear_local:
  assumes "packed_ptr ep = mhead m" "cnt ep = mcnt m" "\<forall>c. vis m c \<noteq> None \<longrightarrow> 0 < rc m c"
  shows "sub_eff m (m\<lparr>m_packed := ep AND NOT kMagicMask\<rparr>) (A + replicate_mset (cnt ep) (mhead m)) A G G"
  using packed_clear [of ep] assms by (intro sub_eff_same) (auto simp: mlocal_def gen_eff_def src_def)

lemma cas_step_ok:
  assumes safe: "safe m (ref1 (cx_newOne a) + owed_cas p) (gen_cas p)" and ok: "cas_ok (vis m) (cx_expected a) p"
    and noswap: "\<And>h ep. p \<noteq> K_Swap h ep" and cnt: "mcnt m \<le> 1000"
    and add: "p = K_Fast F_Add \<Longrightarrow> mcnt m < 1000 \<and> pub (vis m) (mhead m)"
    and step: "cas_step weak a p m = (r, a', m')"
  shows "a' = a \<and> sub_post
    (\<lambda>q. q \<noteq> K_Same \<and> cas_ok (vis m) (cx_expected a) q \<and> swapped q = swapped p \<and>
      (p = K_Same \<longrightarrow> (\<exists>d. SharedPtr_get (cx_newOne a) m = Some d \<and> d \<noteq> cx_expected a)) \<and>
      sub_eff m m' (owed_cas p) (owed_cas q) (gen_cas p) (gen_cas q))
    (\<lambda>ok. (p = K_Same \<longrightarrow> SharedPtr_get (cx_newOne a) m = Some (cx_expected a)) \<and> (p \<noteq> K_Same \<longrightarrow> ok = swapped p) \<and>
      sub_eff m m' (owed_cas p) {#} (gen_cas p) {#}) r"
proof -
  have alive: "\<forall>c. vis m c \<noteq> None \<longrightarrow> 0 < rc m c" and sh: "shape (vis m)" and small: "\<forall>b. rc m b < 2 ^ 31"
    using safe by (simp_all add: safe_def)
  have sub_safe: "safe m A G" if "owed_cas p = A + C" "gen_cas p = G + D" "D \<subseteq># C" "G \<subseteq># A" for A G C D
  proof -
    have "safe m (A + (ref1 (cx_newOne a) + C)) (G + D)" using safe that(1,2) by (simp add: ac_simps)
    moreover have "D \<subseteq># ref1 (cx_newOne a) + C" using that(3) by (simp add: subset_mset.add_increasing)
    ultimately show ?thesis using that(4) by (rule safe_mono)
  qed
  show ?thesis
  proof (cases p)
    case K_Same
    have "SharedPtr_get (cx_newOne a) m \<noteq> None"
      using safe_vis [OF safe, of "cx_newOne a"] by (auto simp: SharedPtr_get_def ref1_def vis_None)
    then obtain d where "SharedPtr_get (cx_newOne a) m = Some d" by blast
    then show ?thesis using step K_Same sub_eff_refl [OF alive, of "{#}" "{#}"] by auto
  next
    case (K_Fast fp)
    obtain r' m2 where fs: "fast_step fp m = (r', m2)" by (rule prod.exhaust)
    then have "m2 = m'" and r2: "r = bind_sub K_Fast (cas_enter (cx_expected a)) r'" "a' = a" using step K_Fast by auto
    with fs have r': "fast_step fp m = (r', m')" "r = bind_sub K_Fast (cas_enter (cx_expected a)) r'" "a' = a" by simp_all
    have s: "safe m (owed_fast fp) (owed_fast fp)" by (rule sub_safe [of _ "{#}" _ "{#}"]) (simp_all add: K_Fast)
    have "sub_post
      (\<lambda>q. fast_pc_ok (vis m) q \<and> sub_eff m m' (owed_fast fp) (owed_fast q) (owed_fast fp) (owed_fast q))
      (\<lambda>f. fast_ok (vis m) f \<and> sub_eff m m' (owed_fast fp) (fshare f) (owed_fast fp) (fshare f)) r'"
      using ok add K_Fast by (intro fast_step_ok [OF s _ _ r'(1)]) auto
    then show ?thesis
    proof (cases r')
      case (Return f)
      with \<open>sub_post _ _ r'\<close> have f: "fast_ok (vis m) f" "sub_eff m m' (owed_fast fp) (fshare f) (owed_fast fp) (fshare f)"
        by simp_all
      obtain q where "cas_enter (cx_expected a) f = Go q" "cas_ok (vis m) (cx_expected a) q" "owed_cas q = fshare f"
        "gen_cas q = fshare f" "\<not> swapped q" "q \<noteq> K_Same" by (rule cas_enter_ok [OF f(1) sh])
      then show ?thesis using r' f(2) K_Fast Return by simp
    qed (use r' K_Fast in simp_all)
  next
    case (K_RefAdd h ep)
    let ?b = "packed_ptr (fs_known h)"
    have rc0: "0 < rc m ?b" using safe_alive [OF safe] K_RefAdd by simp
    have lim: "rc m ?b + cnt ep < 2 ^ 64" using small [rule_format, of ?b] ok K_RefAdd by simp
    obtain prior m1 where ra: "ref_add ?b (packed_cnt ep) m = Some (prior, m1)" "unat prior = rc m ?b" "vis m1 = vis m"
      "m_packed m1 = m_packed m" "rc m1 = (rc m)(?b := rc m ?b + cnt ep)" by (rule ref_add_ok [OF rc0 lim])
    have "r = Go (K_Clear h ep)" "a' = a" "m' = m1" using step K_RefAdd ra(1) by simp_all
    then show ?thesis using add_share [OF rc0 ra(3,4,5) alive, of "fshare h" "fshare h"] ok K_RefAdd by simp
  next
    case (K_Clear h ep)
    let ?b = "packed_ptr (fs_known h)"
    have h: "holder_ok (vis m) (cx_expected a) h" "packed_ptr ep = ?b" "cnt ep \<le> 1000" using ok K_Clear by auto
    show ?thesis
    proof (cases "m_packed m = ep \<and> \<not> weak")
      case True
      have r: "r = cas_loop h ep" "a' = a" "m' = m\<lparr>m_packed := ep AND NOT kMagicMask\<rparr>" using step K_Clear True by simp_all
      obtain q where "cas_loop h ep = Go q" "cas_ok (vis m) (cx_expected a) q" "owed_cas q = fshare h"
        "gen_cas q = fshare h" "\<not> swapped q" "q \<noteq> K_Same" by (rule cas_loop_ok [OF h(1,3)])
      moreover have "mhead m = ?b" using True h(2) by simp
      ultimately show ?thesis
        using clear_local [of ep m "fshare h" "fshare h"] True alive r K_Clear by simp
    next
      case False
      have r: "r = Go (K_RefSub h (m_packed m) (packed_cnt ep))" "a' = a" "m' = m" using step K_Clear False by auto
      then show ?thesis using sub_eff_refl [OF alive] h cnt K_Clear by simp
    qed
  next
    case (K_RefSub h ep d)
    let ?b = "packed_ptr (fs_known h)"
    have h: "holder_ok (vis m) (cx_expected a) h" "cnt ep \<le> 1000" using ok K_RefSub by auto
    have "safe m (fshare h + replicate_mset (unat d) ?b) (fshare h)"
      by (rule sub_safe [of _ "{#}" _ "{#}"]) (simp_all add: K_RefSub)
    then have more: "unat d < rc m ?b"
      by (cases "?b = mhead m") (auto simp: safe_def Suc_le_eq dest!: spec [of _ ?b])
    have "0 < rc m ?b" "unat d \<le> rc m ?b" using more by simp_all
    then obtain prior m1 where "ref_sub ?b d m = Some (prior, m1)" "unat prior = rc m ?b" "vis m1 = vis m"
      "m_packed m1 = m_packed m" "rc m1 = (rc m)(?b := rc m ?b - unat d)" by (rule ref_sub_ok)
    note rs = this(1,3-5)
    have r: "r = cas_loop h ep" "a' = a" "m' = m1" using step K_RefSub rs(1) by simp_all
    obtain q where q: "cas_loop h ep = Go q" "cas_ok (vis m) (cx_expected a) q" "owed_cas q = fshare h"
      "gen_cas q = fshare h" "\<not> swapped q" "q \<noteq> K_Same" by (rule cas_loop_ok [OF h])
    have "sub_eff m m1 (fshare h + replicate_mset (unat d) ?b) (fshare h) (fshare h) (fshare h)"
      using rs(2-4) more alive by (intro sub_eff_same) (auto simp: gen_eff_def mlocal_def src_def)
    then show ?thesis using r q K_RefSub by simp
  next
    case (K_Old h ep)
    let ?b = "packed_ptr ep"
    have f: "fast_ok (vis m) h" using ok K_Old by simp
    have s: "safe m {#?b#} {#}" by (rule sub_safe [of _ "fshare h" _ "fshare h"]) (simp_all add: K_Old)
    obtain r' m2 where fs: "destroyOldControlBlock ep m = (r', m2)" by (rule prod.exhaust)
    then have "m2 = m'" and r2: "r = bind_sub (K_OldUnref h) (\<lambda>_. cas_finish True h) r'" "a' = a" using step K_Old by auto
    with fs have r': "destroyOldControlBlock ep m = (r', m')" "r = bind_sub (K_OldUnref h) (\<lambda>_. cas_finish True h) r'" "a' = a" by simp_all
    have "sub_post (\<lambda>c. sub_eff m m' {#?b#} {#c#} {#} {#}) (\<lambda>_. sub_eff m m' {#?b#} {#} {#} {#}) r'"
      using destroyOld_ok [OF s r'(1)] by (cases r') auto
    moreover have "p = K_Old h ep \<and> ?b = packed_ptr ep \<or> p = K_OldUnref h ?b" using K_Old by simp
    ultimately show ?thesis using cas_unref_post [OF _ f, of m m' ?b r' p ep "cx_expected a", folded r'(2)] r'(3) K_Old
      by (simp add: sub_post_mono)
  next
    case (K_OldUnref h b)
    have f: "fast_ok (vis m) h" using ok K_OldUnref by simp
    have s: "safe m {#b#} {#}" by (rule sub_safe [of _ "fshare h" _ "fshare h"]) (simp_all add: K_OldUnref)
    obtain r' m2 where fs: "unref_step b m = (r', m2)" by (rule prod.exhaust)
    then have "m2 = m'" and r2: "r = bind_sub (K_OldUnref h) (\<lambda>_. cas_finish True h) r'" "a' = a" using step K_OldUnref by auto
    with fs have r': "unref_step b m = (r', m')" "r = bind_sub (K_OldUnref h) (\<lambda>_. cas_finish True h) r'" "a' = a" by simp_all
    have "sub_post (\<lambda>c. sub_eff m m' {#b#} {#c#} {#} {#}) (\<lambda>_. sub_eff m m' {#b#} {#} {#} {#}) r'"
      using unref_step_ok [OF s r'(1)] by (cases r') auto
    moreover have "p = K_Old h 0 \<and> b = packed_ptr 0 \<or> p = K_OldUnref h b" using K_OldUnref by simp
    ultimately show ?thesis using cas_unref_post [OF _ f, of m m' b r' p 0 "cx_expected a", folded r'(2)] r'(3) K_OldUnref
      by (simp add: sub_post_mono)
  next
    case (K_Destroy fin dp)
    obtain r' m2 where fs: "destroy_step weak dp m = (r', m2)" by (rule prod.exhaust)
    then have "m2 = m'" and r2: "r = bind_sub (K_Destroy fin) (\<lambda>_. Return fin) r'" "a' = a" using step K_Destroy by auto
    with fs have r': "destroy_step weak dp m = (r', m')" "r = bind_sub (K_Destroy fin) (\<lambda>_. Return fin) r'" "a' = a" by simp_all
    have s: "safe m (owed_destroy dp) (gen_destroy dp)"
      by (rule sub_safe [of _ "{#}" _ "{#}"]) (cases dp; simp add: K_Destroy)+
    have "destroy_ok (vis m) dp" using ok K_Destroy by simp
    from destroy_step_ok [OF s this r'(1)] show ?thesis using r'(2,3) K_Destroy by (cases r') auto
  qed (use noswap in blast)
qed

end
