(* ===== verification/Lock_Free_Inv.thy ===== *)
theory Lock_Free_Inv
  imports Lock_Free_Stack Shared_Ptr_Steps
begin

text \<open>
  The invariant of \<open>UnboundedLockFreeStack\<close>: every control block's count is the number of references
  to it (from the head, from nodes, from what the threads owe), the head leads through the nodes
  to the contents of the abstract stack, and each thread's variables fit its program point.
\<close>

section \<open>What the threads owe\<close>

fun caller_share :: "lf_caller \<Rightarrow> addr multiset" where
  "caller_share By_Push = {#}"
| "caller_share (By_Pop t) = fshare t"

fun owed :: "'a lf_pc \<Rightarrow> addr multiset" where
  "owed S_Idle = {#}"
| "owed (S_IsEmpty p) = owed_fast p"
| "owed (S_New x) = {#}"
| "owed (S_Get b p) = {#b#} + owed_get p"
| "owed (S_Assign b c) = {#b#} + {#c#}"
| "owed (S_Unref b u) = {#b#} + {#u#}"
| "owed (S_Expected b) = {#b#}"
| "owed (S_Dtor u) = {#u#}"
| "owed (S_Pop p) = owed_fast p"
| "owed (S_Prev t) = fshare t"
| "owed (S_Copy t b) = fshare t"
| "owed (S_Again t p) = fshare t + owed_fast p"
| "owed (S_AssignTop t p) = fshare t + owed_destroy p"
| "owed (S_Cas c a p) = caller_share c + ref1 (cx_newOne a) + owed_cas p"
| "owed (S_Drop ok t u) = fshare t + {#u#}"
| "owed (S_Move t) = fshare t"
| "owed (S_End r p) = owed_destroy p"
| "owed (S_Ret r) = {#}"

fun gens :: "'a lf_pc \<Rightarrow> addr multiset" where
  "gens (S_IsEmpty p) = owed_fast p"
| "gens (S_Get b p) = gen_get p"
| "gens (S_Pop p) = owed_fast p"
| "gens (S_Prev t) = fshare t"
| "gens (S_Copy t b) = fshare t"
| "gens (S_Again t p) = fshare t + owed_fast p"
| "gens (S_AssignTop t p) = fshare t + gen_destroy p"
| "gens (S_Cas c a p) = caller_share c + gen_cas p"
| "gens (S_Drop ok t u) = fshare t"
| "gens (S_Move t) = fshare t"
| "gens (S_End r p) = gen_destroy p"
| "gens pc = {#}"

text \<open>The control block of a node that is not on the stack yet, or not any more but not moved from.\<close>

fun fresh :: "'a lf_pc \<Rightarrow> addr option" where
  "fresh (S_Get b p) = Some b"
| "fresh (S_Assign b c) = Some b"
| "fresh (S_Unref b u) = Some b"
| "fresh (S_Expected b) = Some b"
| "fresh (S_Cas By_Push a p) = (if swapped p then None else Some (cx_newOne a))"
| "fresh pc = None"

fun won :: "'a lf_pc \<Rightarrow> addr option" where
  "won (S_Cas (By_Pop t) a p) = (if swapped p then Some (packed_ptr (fs_known t)) else None)"
| "won (S_Drop ok t u) = (if ok then Some (packed_ptr (fs_known t)) else None)"
| "won (S_Move t) = Some (packed_ptr (fs_known t))"
| "won pc = None"

section \<open>Local variables and the status of the call\<close>

definition is_push :: "'a \<Rightarrow> 'a lf_status \<Rightarrow> bool" where
  "is_push x st \<longleftrightarrow> st = Called (Op_Push_copy x) \<or> st = Called (Op_Push_move x)"

definition new_at :: "'a view \<Rightarrow> addr \<Rightarrow> 'a lf_status \<Rightarrow> bool" where
  "new_at v b st \<longleftrightarrow> (\<exists>d q x. d \<noteq> 0 \<and> v b = Some (d, Some (q, x)) \<and> is_push x st)"

definition linked_at :: "'a view \<Rightarrow> addr \<Rightarrow> 'a lf_status \<Rightarrow> bool" where
  "linked_at v b st \<longleftrightarrow> (\<exists>d q x. d \<noteq> 0 \<and> q \<noteq> 0 \<and> v b = Some (d, Some (q, x)) \<and> is_push x st)"

definition popping :: "'a view \<Rightarrow> fast \<Rightarrow> bool" where
  "popping v t \<longleftrightarrow> fast_ok v t \<and> fs_data t \<noteq> 0"

definition won_ok :: "'a view \<Rightarrow> fast \<Rightarrow> 'a lf_status \<Rightarrow> bool" where
  "won_ok v t st \<longleftrightarrow> (\<exists>q x. v (packed_ptr (fs_known t)) = Some (fs_data t, Some (q, x)) \<and> st = Done (R_Pop (Some x)))"

definition pop_status :: "bool \<Rightarrow> 'a lf_status" where
  "pop_status none = (if none then Done (R_Pop None) else Called Op_Pop)"

definition pushing :: "'a view \<Rightarrow> cas_args \<Rightarrow> cas_pc \<Rightarrow> 'a lf_status \<Rightarrow> bool" where
  "pushing v a p st \<longleftrightarrow> cas_ok v (cx_expected a) p \<and>
     (if swapped p then cx_newOne a = 0 \<and> st = Done R_Push
      else cx_newOne a \<noteq> 0 \<and> (\<exists>d q x. d \<noteq> 0 \<and> q \<noteq> 0 \<and> v (cx_newOne a) = Some (d, Some (q, x)) \<and> is_push x st \<and>
        map_option fst (v q) = Some (cx_expected a) \<and> (p \<noteq> K_Same \<longrightarrow> d \<noteq> cx_expected a)))"

definition popping_cas :: "'a view \<Rightarrow> fast \<Rightarrow> cas_args \<Rightarrow> cas_pc \<Rightarrow> 'a lf_status \<Rightarrow> bool" where
  "popping_cas v t a p st \<longleftrightarrow> cas_ok v (cx_expected a) p \<and> popping v t \<and> cx_expected a = fs_data t \<and>
     (if swapped p then cx_newOne a = 0 \<and> won_ok v t st
      else st = Called Op_Pop \<and> cx_newOne a \<noteq> 0 \<and>
        (\<exists>x. v (packed_ptr (fs_known t)) = Some (fs_data t, Some (cx_newOne a, x))) \<and>
        (p \<noteq> K_Same \<longrightarrow> map_option fst (v (cx_newOne a)) \<noteq> Some (cx_expected a)))"

definition pop_fast :: "'a view \<Rightarrow> fast_pc \<Rightarrow> 'a lf_status \<Rightarrow> bool" where
  "pop_fast v p st \<longleftrightarrow> fast_pc_ok v p \<and>
     (case p of F_Data known \<Rightarrow> st = pop_status (v (packed_ptr known) = Some (0, None)) | _ \<Rightarrow> st = Called Op_Pop)"

fun local_ok :: "'a view \<Rightarrow> 'a lf_pc \<Rightarrow> 'a lf_status \<Rightarrow> bool" where
  "local_ok v S_Idle st = (st = Free)"
| "local_ok v (S_IsEmpty p) st = (fast_pc_ok v p \<and>
     (case p of F_Data known \<Rightarrow> st = Done (R_IsEmpty (v (packed_ptr known) = Some (0, None))) | _ \<Rightarrow> st = Called Op_IsEmpty))"
| "local_ok v (S_New x) st = is_push x st"
| "local_ok v (S_Get b p) st = (get_ok p \<and> new_at v b st)"
| "local_ok v (S_Assign b c) st = (new_at v b st \<and> c \<noteq> 0)"
| "local_ok v (S_Unref b u) st = linked_at v b st"
| "local_ok v (S_Expected b) st = linked_at v b st"
| "local_ok v (S_Dtor u) st = False"
| "local_ok v (S_Pop p) st = pop_fast v p st"
| "local_ok v (S_Prev t) st = (popping v t \<and> st = Called Op_Pop)"
| "local_ok v (S_Copy t b) st = (popping v t \<and> st = Called Op_Pop \<and>
     (\<exists>x. v (packed_ptr (fs_known t)) = Some (fs_data t, Some (b, x))))"
| "local_ok v (S_Again t p) st = (fast_ok v t \<and> pop_fast v p st)"
| "local_ok v (S_AssignTop t p) st = (fast_ok v t \<and> destroy_ok v p \<and> st = pop_status (fs_data t = 0))"
| "local_ok v (S_Cas By_Push a p) st = pushing v a p st"
| "local_ok v (S_Cas (By_Pop t) a p) st = popping_cas v t a p st"
| "local_ok v (S_Drop ok t u) st = (popping v t \<and> (if ok then won_ok v t st else st = Called Op_Pop))"
| "local_ok v (S_Move t) st = (popping v t \<and> won_ok v t st)"
| "local_ok v (S_End r p) st = (destroy_ok v p \<and> st = Done r)"
| "local_ok v (S_Ret r) st = (st = Done r)"

section \<open>The invariant\<close>

fun chain :: "'a view \<Rightarrow> addr \<Rightarrow> (addr \<times> 'a) list \<Rightarrow> bool" where
  "chain v b [] = (\<exists>y. v b = Some (0, y))"
| "chain v b ((c, x) # bs) = (b = c \<and> (\<exists>d p. d \<noteq> 0 \<and> v b = Some (d, Some (p, x)) \<and> chain v p bs))"

definition all_refs :: "nat \<Rightarrow> 'a mem \<Rightarrow> (nat \<Rightarrow> 'a lf_pc) \<Rightarrow> addr multiset" where
  "all_refs n m pcs = {#mhead m#} + vrefs (vis m) + (\<Sum>i<n. owed (pcs i))"

definition counts_ok :: "nat \<Rightarrow> 'a mem \<Rightarrow> (nat \<Rightarrow> 'a lf_pc) \<Rightarrow> bool" where
  "counts_ok n m pcs \<longleftrightarrow> shape (vis m) \<and> (\<forall>b. vis m b \<noteq> None \<longrightarrow> 0 < rc m b) \<and>
     (\<forall>b. rc m b + mlocal m b = count (all_refs n m pcs) b) \<and>
     mcnt m \<le> count (\<Sum>i<n. gens (pcs i)) (mhead m)"

definition locals_ok :: "nat \<Rightarrow> 'a view \<Rightarrow> (nat \<Rightarrow> 'a lf_pc) \<Rightarrow> (nat \<Rightarrow> 'a lf_status) \<Rightarrow> bool" where
  "locals_ok n v pcs st \<longleftrightarrow> (\<forall>i. local_ok v (pcs i) (st i)) \<and> (\<forall>i\<ge>n. pcs i = S_Idle)"

definition owners_ok :: "nat \<Rightarrow> 'a mem \<Rightarrow> (nat \<Rightarrow> 'a lf_pc) \<Rightarrow> bool" where
  "owners_ok n m pcs \<longleftrightarrow>
     (\<forall>i b. fresh (pcs i) = Some b \<longrightarrow> count (all_refs n m pcs) b = 1) \<and>
     (\<forall>i j b. won (pcs i) = Some b \<longrightarrow> won (pcs j) = Some b \<longrightarrow> i = j)"

definition stack_ok :: "'a mem \<Rightarrow> (nat \<Rightarrow> 'a lf_pc) \<Rightarrow> 'a list \<Rightarrow> bool" where
  "stack_ok m pcs st \<longleftrightarrow> (\<exists>bs. chain (vis m) (mhead m) bs \<and> map snd bs = st \<and>
     (\<forall>i b. won (pcs i) = Some b \<longrightarrow> b \<notin> fst ` set bs))"

definition lf_good :: "nat \<Rightarrow> 'a mem \<Rightarrow> (nat \<Rightarrow> 'a lf_pc) \<Rightarrow> (nat \<Rightarrow> 'a lf_status) \<Rightarrow> 'a list \<Rightarrow> bool" where
  "lf_good n m pcs status st \<longleftrightarrow> counts_ok n m pcs \<and> locals_ok n (vis m) pcs status \<and> owners_ok n m pcs \<and> stack_ok m pcs st"

section \<open>Counting\<close>

lemma sum_update:
  fixes f :: "'p \<Rightarrow> 'b::comm_monoid_add" and n :: nat
  assumes "i < n"
  shows "(\<Sum>j<n. f ((g(i := p)) j)) + f (g i) = (\<Sum>j<n. f (g j)) + f p"
proof -
  have r: "(\<Sum>j<n. h j) = h i + (\<Sum>j\<in>{..<n} - {i}. h j)" for h :: "nat \<Rightarrow> 'b"
    using assms by (intro sum.remove) auto
  have "(\<Sum>j\<in>{..<n} - {i}. f ((g(i := p)) j)) = (\<Sum>j\<in>{..<n} - {i}. f (g j))"
    by (intro sum.cong) auto
  then show ?thesis unfolding r by (simp add: ac_simps)
qed

lemma subset_add_mset: "A \<subseteq># B \<Longrightarrow> A \<subseteq># add_mset x B"
  by (rule mset_subset_eqI) (auto dest: mset_subset_eq_count [of A B] intro: le_SucI)

lemma gens_destroy_le: "gen_destroy p \<subseteq># owed_destroy p"
  by (cases p) simp_all

lemma gens_cas_le: "gen_cas p \<subseteq># owed_cas p"
  by (cases p) (simp_all add: gens_destroy_le)

lemma gens_get_le: "gen_get p \<subseteq># owed_get p"
  by (cases p) (simp_all add: subset_add_mset)

lemma gens_le: "gens pc \<subseteq># owed pc"
proof (cases pc)
  case (S_Cas c a p)
  have "caller_share c + gen_cas p \<subseteq># caller_share c + owed_cas p" using gens_cas_le by simp
  also have "\<dots> \<subseteq># caller_share c + ref1 (cx_newOne a) + owed_cas p" by simp
  finally show ?thesis using S_Cas by simp
qed (simp_all add: gens_get_le gens_destroy_le subset_add_mset)

lemma size_shares:
  "size (owed_fast p) \<le> 1" "size (gen_destroy d) \<le> 1" "size (owed_destroy d) \<le> 1" "size (gen_get g) \<le> 1" "size (gen_cas c) \<le> 1"
  "size (caller_share w) \<le> 1" "size (ref1 b) \<le> 1" "size (owed_get g) \<le> 2"
proof -
  show f: "size (owed_fast p) \<le> 1" for p by (cases p) simp_all
  show d: "size (gen_destroy d) \<le> 1" for d by (cases d) simp_all
  show "size (gen_cas c) \<le> 1" by (cases c) (use f d in simp_all)
qed (cases d; simp; fail | cases g; simp; fail | cases w; simp; fail | simp add: ref1_def; fail)+

lemma size_gens: "size (gens pc) \<le> 2"
proof (cases pc)
  case (S_Again t p)
  then show ?thesis using size_shares(1) [of p] by simp
next
  case (S_AssignTop t p)
  then show ?thesis using size_shares(2) [of p] by simp
next
  case (S_Cas c a p)
  then show ?thesis using size_shares(5) [of p] size_shares(6) [of c] by simp
next
  case (S_IsEmpty p)
  then show ?thesis using size_shares(1) [of p] by simp
next
  case (S_Pop p)
  then show ?thesis using size_shares(1) [of p] by simp
next
  case (S_Get b p)
  then show ?thesis using size_shares(4) [of p] by simp
next
  case (S_End r p)
  then show ?thesis using size_shares(2) [of p] by simp
qed simp_all

lemma size_owed_cas:
  assumes "cas_ok v e p"
  shows "size (owed_cas p) \<le> 1001"
proof (cases p)
  case (K_Fast q)
  then show ?thesis using size_shares(1) [of q] by simp
next
  case (K_Destroy ok q)
  then show ?thesis using size_shares(3) [of q] by simp
qed (use assms in simp_all)

lemma size_owed:
  assumes "local_ok v pc st"
  shows "size (owed pc) \<le> 1003"
proof (cases pc)
  case (S_Cas c a p)
  then have "size (owed_cas p) \<le> 1001"
    using assms by (cases c) (auto simp: pushing_def popping_cas_def intro: size_owed_cas)
  then show ?thesis using S_Cas size_shares(6) [of c] size_shares(7) [of "cx_newOne a"] by simp
next
  case (S_Again t p)
  then show ?thesis using size_shares(1) [of p] by simp
next
  case (S_AssignTop t p)
  then show ?thesis using size_shares(3) [of p] by simp
next
  case (S_IsEmpty p)
  then show ?thesis using size_shares(1) [of p] by simp
next
  case (S_Pop p)
  then show ?thesis using size_shares(1) [of p] by simp
next
  case (S_Get b p)
  then show ?thesis using size_shares(8) [of p] by simp
next
  case (S_End r p)
  then show ?thesis using size_shares(3) [of p] by simp
qed simp_all


lemma sum_gens_le: "count (\<Sum>i<n. gens (pcs i)) b \<le> count (\<Sum>i<n. owed (pcs i)) b"
  unfolding count_sum using mset_subset_eq_count [OF gens_le] by (intro sum_mono) auto

lemma counts_alive:
  assumes "counts_ok n m pcs" "b \<in># all_refs n m pcs"
  shows "vis m b \<noteq> None"
proof
  assume dead: "vis m b = None"
  have c: "rc m b + mlocal m b = count (all_refs n m pcs) b" "mcnt m \<le> count (\<Sum>i<n. gens (pcs i)) (mhead m)"
    using assms(1) by (simp_all add: counts_ok_def)
  have pos: "0 < count (all_refs n m pcs) b" using assms(2) by simp
  have "rc m b = 0" using dead by (simp add: rc_def vis_None)
  then have l: "mlocal m b = count (all_refs n m pcs) b" using c(1) by simp
  then have "mlocal m b \<noteq> 0" using pos by linarith
  then have h: "b = mhead m" by (simp add: mlocal_def split: if_splits)
  moreover have "mcnt m = count (all_refs n m pcs) b" using l h by (simp add: mlocal_def)
  moreover have "count (\<Sum>i<n. gens (pcs i)) (mhead m) < count (all_refs n m pcs) (mhead m)"
    using sum_gens_le [where n = n and pcs = pcs and b = "mhead m"] by (simp add: all_refs_def)
  ultimately show False using c(2) by simp
qed

lemma counts_owed_alive: "counts_ok n m pcs \<Longrightarrow> i < n \<Longrightarrow> b \<in># owed (pcs i) \<Longrightarrow> vis m b \<noteq> None"
proof (rule counts_alive)
  assume "i < n" "b \<in># owed (pcs i)"
  then have "count (owed (pcs i)) b \<le> (\<Sum>i<n. count (owed (pcs i)) b)"
    by (intro member_le_sum) auto
  then have "0 < count (\<Sum>i<n. owed (pcs i)) b" using \<open>b \<in># owed (pcs i)\<close> unfolding count_sum
    by (simp only: count_greater_zero_iff [symmetric])
  then show "b \<in># all_refs n m pcs" by (simp add: all_refs_def)
qed

lemma counts_head_alive: "counts_ok n m pcs \<Longrightarrow> vis m (mhead m) \<noteq> None"
  by (rule counts_alive) (auto simp: all_refs_def)

lemma counts_vrefs_alive: "counts_ok n m pcs \<Longrightarrow> b \<in># vrefs (vis m) \<Longrightarrow> vis m b \<noteq> None"
  by (rule counts_alive) (auto simp: all_refs_def)

lemma count_gens: "count (gens pc) b \<le> 2"
  using count_le_size [of "gens pc" b] size_gens [of pc] by linarith

lemma mcnt_bound:
  assumes "counts_ok n m pcs" "n \<le> 500"
  shows "mcnt m \<le> 1000"
proof -
  have "mcnt m \<le> (\<Sum>i<n. count (gens (pcs i)) (mhead m))" using assms(1) by (simp add: counts_ok_def count_sum)
  also have "\<dots> \<le> (\<Sum>i<n. 2)"
    by (intro sum_mono count_gens)
  finally show ?thesis using assms(2) by simp
qed

lemma mcnt_bound_Add:
  assumes "counts_ok n m pcs" "n \<le> 500" "i < n" "size (gens (pcs i)) \<le> 1"
  shows "mcnt m < 1000"
proof -
  have "mcnt m \<le> (\<Sum>i<n. count (gens (pcs i)) (mhead m))" using assms(1) by (simp add: counts_ok_def count_sum)
  also have "\<dots> = count (gens (pcs i)) (mhead m) + (\<Sum>j\<in>{..<n} - {i}. count (gens (pcs j)) (mhead m))"
    using assms(3) by (intro sum.remove) auto
  also have "(\<Sum>j\<in>{..<n} - {i}. count (gens (pcs j)) (mhead m)) \<le> (\<Sum>j\<in>{..<n} - {i}. 2)"
    by (intro sum_mono count_gens)
  also have "count (gens (pcs i)) (mhead m) \<le> 1"
    using count_le_size [of "gens (pcs i)" "mhead m"] assms(4) by linarith
  finally show ?thesis using assms(2,3) by simp
qed

text \<open>The heap of nodes bounds the number of references.\<close>

lemma card_pool: "finite pool" "card pool \<le> 2 ^ 30"
proof -
  have "pool \<subseteq> (\<lambda>k. of_nat (16 * k)) ` {..<(2::nat) ^ 30}"
  proof
    fix a assume "a \<in> pool"
    then have a: "unat a < 2 ^ 34" "unat a mod 16 = 0"
      using unat_pow2 [of 34] by (auto simp: pool_def word_less_nat_alt unat_mod_distrib word_unat_eq_iff)
    then have "unat a div 16 < 2 ^ 30" "16 * (unat a div 16) = unat a" by auto
    then show "a \<in> (\<lambda>k. of_nat (16 * k)) ` {..<(2::nat) ^ 30}"
      by (intro image_eqI [of _ _ "unat a div 16"]) simp_all
  qed
  then show "finite pool" by (rule finite_subset) simp
  have "card pool \<le> card ((\<lambda>k. of_nat (16 * k) :: addr) ` {..<(2::nat) ^ 30})"
    using \<open>pool \<subseteq> _\<close> by (intro card_mono) simp_all
  also have "\<dots> \<le> card {..<(2::nat) ^ 30}" by (rule card_image_le) simp
  finally show "card pool \<le> 2 ^ 30" by simp
qed

lemma card_dom:
  assumes "shape v"
  shows "card (dom v) \<le> Suc (2 ^ 30)"
proof -
  let ?f = "\<lambda>b. fst (the (v b))"
  have "inj_on ?f (dom v)"
    by (rule inj_onI) (use shape_inj [OF assms] in fastforce)
  moreover have "?f ` dom v \<subseteq> insert 0 pool"
    using shapeD(5) [OF assms] by fastforce
  ultimately have "card (dom v) \<le> card (insert 0 pool)"
    using card_pool(1) by (metis card_image card_mono finite_insert)
  also have "\<dots> \<le> Suc (card pool)" using card_pool(1) by (simp add: card_insert_if)
  finally show ?thesis using card_pool(2) by simp
qed


lemma rc_bound:
  assumes c: "counts_ok n m pcs" and l: "locals_ok n (vis m) pcs st" and n: "n \<le> 500"
  shows "rc m b < 2 ^ 31"
proof -
  have "rc m b \<le> count (all_refs n m pcs) b" using c by (metis counts_ok_def le_add1)
  also have "\<dots> \<le> size (all_refs n m pcs)" by (rule count_le_size)
  also have "\<dots> = 1 + size (vrefs (vis m)) + size (\<Sum>i<n. owed (pcs i))" by (simp add: all_refs_def)
  also have "size (vrefs (vis m)) \<le> (\<Sum>b\<in>dom (vis m). 1)"
  proof -
    have "size (vprev y) \<le> 1" for y :: "addr \<times> (addr \<times> 'a) option" by (cases y rule: vprev.cases) (simp_all add: ref1_def)
    then show ?thesis unfolding vrefs_def size_multiset_sum by (intro sum_mono)
  qed
  also have "(\<Sum>b\<in>dom (vis m). 1) \<le> Suc (2 ^ 30)" using card_dom [of "vis m"] c by (simp add: counts_ok_def)
  also have "size (\<Sum>i<n. owed (pcs i)) \<le> (\<Sum>i<n. 1003)"
    unfolding size_multiset_sum using l size_owed by (intro sum_mono) (auto simp: locals_ok_def)
  finally show ?thesis using n by simp
qed

lemma counts_safe:
  assumes c: "counts_ok n m pcs" and l: "locals_ok n (vis m) pcs st" and n: "n \<le> 500" and i: "i < n"
  shows "safe m (owed (pcs i)) (gens (pcs i))"
proof -
  have rc: "rc m b + mlocal m b = count (all_refs n m pcs) b" for b using c by (simp add: counts_ok_def)
  have split: "count (\<Sum>j<n. f (pcs j)) b = count (f (pcs i)) b + (\<Sum>j\<in>{..<n} - {i}. count (f (pcs j)) b)"
    for f :: "'a lf_pc \<Rightarrow> addr multiset" and b
    unfolding count_sum using i by (intro sum.remove) auto
  have "Suc (count (owed (pcs i) - gens (pcs i)) (mhead m)) \<le> rc m (mhead m)"
  proof -
    have "(\<Sum>j\<in>{..<n} - {i}. count (gens (pcs j)) (mhead m)) \<le> (\<Sum>j\<in>{..<n} - {i}. count (owed (pcs j)) (mhead m))"
      using mset_subset_eq_count [OF gens_le] by (intro sum_mono) auto
    moreover have "mcnt m \<le> count (\<Sum>i<n. gens (pcs i)) (mhead m)" using c by (simp add: counts_ok_def)
    moreover have "count (gens (pcs i)) (mhead m) \<le> count (owed (pcs i)) (mhead m)"
      by (rule mset_subset_eq_count [OF gens_le])
    moreover have "rc m (mhead m) + mcnt m = 1 + count (vrefs (vis m)) (mhead m) + count (\<Sum>i<n. owed (pcs i)) (mhead m)"
      using rc [of "mhead m"] by (simp add: all_refs_def mlocal_def)
    ultimately show ?thesis unfolding split [of gens] split [of owed] count_diff by linarith
  qed
  moreover have "count (owed (pcs i)) b \<le> rc m b" if "b \<noteq> mhead m" for b
    using rc [of b] that split [of owed b] by (simp add: all_refs_def mlocal_def)
  ultimately show ?thesis
    using c rc_bound [OF c l n] by (auto simp: safe_def counts_ok_def)
qed

text \<open>A step of one thread that keeps the balance keeps the counts of all.\<close>

lemma all_refs_update:
  assumes "i < n" "eff m m' (owed (pcs i)) (owed pc)"
  shows "rc m' b + mlocal m' b + count (all_refs n m pcs) b = rc m b + mlocal m b + count (all_refs n m' (pcs(i := pc))) b"
proof -
  have "(\<Sum>j<n. owed ((pcs(i := pc)) j)) + owed (pcs i) = (\<Sum>j<n. owed (pcs j)) + owed pc"
    by (rule sum_update [OF assms(1)])
  then have "count (\<Sum>j<n. owed ((pcs(i := pc)) j)) b + count (owed (pcs i)) b =
      count (\<Sum>j<n. owed (pcs j)) b + count (owed pc) b"
    by (simp only: count_union [symmetric])
  moreover have "rc m' b + mlocal m' b + count {#mhead m#} b + count (vrefs (vis m)) b + count (owed (pcs i)) b =
     rc m b + mlocal m b + count {#mhead m'#} b + count (vrefs (vis m')) b + count (owed pc) b"
    using assms(2) unfolding eff_def by blast
  ultimately show ?thesis unfolding all_refs_def count_union by linarith
qed

lemma counts_step:
  assumes "counts_ok n m pcs" "i < n" "eff m m' (owed (pcs i)) (owed pc)" "gen_eff m m' (gens (pcs i)) (gens pc)"
    "shape (vis m')" "\<And>b. vis m' b \<noteq> None \<Longrightarrow> 0 < rc m' b"
  shows "counts_ok n m' (pcs(i := pc))"
proof -
  have "rc m' b + mlocal m' b = count (all_refs n m' (pcs(i := pc))) b" for b
  proof -
    have "rc m b + mlocal m b = count (all_refs n m pcs) b" using assms(1) by (simp add: counts_ok_def)
    then show ?thesis using all_refs_update [where pcs = pcs, OF assms(2,3), of b] by linarith
  qed
  moreover have "mcnt m' \<le> count (\<Sum>j<n. gens ((pcs(i := pc)) j)) (mhead m')"
  proof -
    have "(\<Sum>j<n. gens ((pcs(i := pc)) j)) + gens (pcs i) = (\<Sum>j<n. gens (pcs j)) + gens pc"
      by (rule sum_update [OF assms(2)])
    then have "count (\<Sum>j<n. gens ((pcs(i := pc)) j)) b + count (gens (pcs i)) b =
        count (\<Sum>j<n. gens (pcs j)) b + count (gens pc) b" for b
      by (simp only: count_union [symmetric])
    from this [of "mhead m"] show ?thesis using assms(1,4) by (auto simp: gen_eff_def counts_ok_def)
  qed
  ultimately show ?thesis using assms(5,6) by (simp add: counts_ok_def)
qed

end
