(* ===== verification/Lock_Free_Views.thy ===== *)
theory Lock_Free_Views
  imports Lock_Free_Inv
begin

text \<open>
  What a step of one thread leaves of what the other threads rely on.
\<close>

section \<open>What the others see\<close>

text \<open>
  The part of a block that does not change while someone holds it; only the element of a popped node
  does. A thread's facts depend on this part of the blocks it owes, and on all of its own node.
\<close>

definition skel :: "'a view \<Rightarrow> addr \<Rightarrow> (addr \<times> addr option) option" where
  "skel v b = map_option (\<lambda>(d, y). (d, map_option fst y)) (v b)"

lemma skel_view:
  "v b = Some (d, None) \<longleftrightarrow> skel v b = Some (d, None)"
  "map_option fst (v b) = map_option fst (skel v b)"
  "(\<exists>x. v b = Some (d, Some (p, x))) \<longleftrightarrow> skel v b = Some (d, Some p)"
  "v b = None \<longleftrightarrow> skel v b = None"
  by (cases "v b"; auto simp: skel_def split: prod.splits)+

lemma pub_skel: "pub v b \<longleftrightarrow> skel v b = Some (0, None) \<or> (\<exists>d p. d \<noteq> 0 \<and> p \<noteq> 0 \<and> skel v b = Some (d, Some p))"
  unfolding pub_def skel_view(1) skel_view(3) [symmetric] by blast

lemma fast_ok_skel:
  "fast_ok v f \<longleftrightarrow> fs_foreign f \<and> pub v (packed_ptr (fs_known f)) \<and>
     map_option fst (skel v (packed_ptr (fs_known f))) = Some (fs_data f) \<and> packed_cnt (fs_known f) \<noteq> 0"
  by (simp add: fast_ok_def skel_view(2))

lemmas skel_simps = pub_skel fast_ok_skel skel_view

lemma fast_pc_ok_skel: "\<forall>b\<in>#owed_fast p. skel v' b = skel v b \<Longrightarrow> fast_pc_ok v p \<Longrightarrow> fast_pc_ok v' p"
  by (cases p) (simp_all add: pub_skel)

lemma destroy_ok_skel: "\<forall>b\<in>#owed_destroy p. skel v' b = skel v b \<Longrightarrow> destroy_ok v p \<Longrightarrow> destroy_ok v' p"
  by (cases p) (simp_all add: fast_ok_skel pub_skel)

lemma cas_ok_skel:
  assumes eq: "\<forall>b\<in>#owed_cas p. skel v' b = skel v b" and ok: "cas_ok v e p"
  shows "cas_ok v' e p"
proof -
  have fast: "fast_ok v' h" if "skel v' (packed_ptr (fs_known h)) = skel v (packed_ptr (fs_known h))" "fast_ok v h" for h
    using that by (simp add: fast_ok_skel pub_skel)
  show ?thesis
  proof (cases p)
    case (K_Fast q)
    then show ?thesis using eq ok fast_pc_ok_skel [of q v' v] by simp
  next
    case (K_Destroy x q)
    then show ?thesis using eq ok destroy_ok_skel [of q v' v] by simp
  qed (use eq ok fast in \<open>simp_all add: holder_ok_def\<close>)
qed

lemma pop_fast_skel: "\<forall>b\<in>#owed_fast p. skel v' b = skel v b \<Longrightarrow> pop_fast v p st \<Longrightarrow> pop_fast v' p st"
  by (cases p) (simp_all add: pop_fast_def pub_skel skel_view(1))

lemma popping_skel: "skel v' (packed_ptr (fs_known f)) = skel v (packed_ptr (fs_known f)) \<Longrightarrow> popping v f \<Longrightarrow> popping v' f"
  by (simp add: popping_def fast_ok_skel pub_skel)

text \<open>The predecessor of a node that is not on the stack yet: its data is what \<open>Push\<close> expects.\<close>

definition agrees :: "'a view \<Rightarrow> 'a view \<Rightarrow> 'a lf_pc \<Rightarrow> bool" where
  "agrees v v' pc \<longleftrightarrow> (\<forall>b\<in>#owed pc. skel v' b = skel v b) \<and>
     (\<forall>b. fresh pc = Some b \<longrightarrow> v' b = v b \<and> (\<forall>d q x. v b = Some (d, Some (q, x)) \<longrightarrow> q \<noteq> 0 \<longrightarrow> skel v' q = skel v q)) \<and>
     (\<forall>b. won pc = Some b \<longrightarrow> v' b = v b)"

lemma local_ok_agrees_Cas:
  assumes ok: "local_ok v pc st" and ag: "agrees v v' pc" and S_Cas: "pc = S_Cas c a p"
  shows "local_ok v' pc st"
proof -
  have sk: "\<forall>b\<in>#owed pc. skel v' b = skel v b" using ag by (simp add: agrees_def)
  have fr: "v' b = v b" "v b = Some (d, Some (q, x)) \<Longrightarrow> q \<noteq> 0 \<Longrightarrow> skel v' q = skel v q"
    if "fresh pc = Some b" for b d q x using ag that by (auto simp: agrees_def)
  have wo: "v' b = v b" if "won pc = Some b" for b using ag that by (simp add: agrees_def)
  have cas: "cas_ok v (cx_expected a) p \<Longrightarrow> cas_ok v' (cx_expected a) p"
    using cas_ok_skel [of p v' v] sk S_Cas by simp
  show ?thesis
  proof (cases c)
    case By_Push
    have p: "pushing v a p st" using ok S_Cas By_Push by simp
    show ?thesis
    proof (cases "swapped p")
      case True
      then show ?thesis using p cas S_Cas By_Push by (simp add: pushing_def)
    next
      case False
      then have f: "fresh pc = Some (cx_newOne a)" using S_Cas By_Push by simp
      obtain d q x where q: "d \<noteq> 0" "q \<noteq> 0" "v (cx_newOne a) = Some (d, Some (q, x))" "is_push x st"
        "map_option fst (v q) = Some (cx_expected a)" "p \<noteq> K_Same \<longrightarrow> d \<noteq> cx_expected a"
        using p False by (auto simp: pushing_def)
      have "map_option fst (v' q) = Some (cx_expected a)"
        using fr(2) [OF f q(3,2)] q(5) by (simp add: skel_view(2))
      then have "pushing v' a p st" using p False cas q fr(1) [OF f] by (auto simp: pushing_def)
      then show ?thesis using S_Cas By_Push by simp
    qed
  next
    case (By_Pop t)
    have p: "popping_cas v t a p st" using ok S_Cas By_Pop by simp
    have t: "skel v' (packed_ptr (fs_known t)) = skel v (packed_ptr (fs_known t))" using sk S_Cas By_Pop by simp
    have cas': "cas_ok v' (cx_expected a) p" using p by (intro cas) (auto simp only: popping_cas_def)
    show ?thesis
    proof (cases "swapped p")
      case True
      then show ?thesis using p cas' wo popping_skel [OF t] S_Cas By_Pop by (simp add: popping_cas_def won_ok_def)
    next
      case False
      then have "skel v' (cx_newOne a) = skel v (cx_newOne a)"
        using sk p S_Cas by (simp add: ref1_def popping_cas_def)
      then have "popping_cas v' t a p st"
        using p False cas' popping_skel [OF t] t by (auto simp: popping_cas_def skel_view(2,3))
      then show ?thesis using S_Cas By_Pop by simp
    qed
  qed
qed

lemma local_ok_agrees:
  assumes ok: "local_ok v pc st" and ag: "agrees v v' pc"
  shows "local_ok v' pc st"
proof -
  have sk: "\<forall>b\<in>#owed pc. skel v' b = skel v b" using ag by (simp add: agrees_def)
  have fr: "v' b = v b" "v b = Some (d, Some (q, x)) \<Longrightarrow> q \<noteq> 0 \<Longrightarrow> skel v' q = skel v q"
    if "fresh pc = Some b" for b d q x using ag that by (auto simp: agrees_def)
  have wo: "v' b = v b" if "won pc = Some b" for b using ag that by (simp add: agrees_def)
  show ?thesis
  proof (cases pc)
    case (S_IsEmpty p)
    then show ?thesis using ok sk by (cases p) (simp_all add: pub_skel skel_view(1))
  next
    case (S_Get b p)
    then show ?thesis using ok fr(1) by (simp add: new_at_def)
  next
    case (S_Assign b c)
    then show ?thesis using ok fr(1) by (simp add: new_at_def)
  next
    case (S_Unref b c)
    then show ?thesis using ok fr(1) by (simp add: linked_at_def)
  next
    case (S_Expected b)
    then show ?thesis using ok fr(1) by (simp add: linked_at_def)
  next
    case (S_Pop p)
    then show ?thesis using ok sk pop_fast_skel [of p v' v st] by simp
  next
    case (S_Prev t)
    then show ?thesis using ok sk popping_skel [of v' t v] by simp
  next
    case (S_Copy t b)
    then show ?thesis using ok sk popping_skel [of v' t v] by (simp add: skel_view(3))
  next
    case (S_Again t p)
    then show ?thesis using ok sk pop_fast_skel [of p v' v st] by (simp add: fast_ok_skel pub_skel)
  next
    case (S_AssignTop t p)
    then show ?thesis using ok sk destroy_ok_skel [of p v' v] by (simp add: fast_ok_skel pub_skel)
  next
    case (S_Drop b t u)
    then show ?thesis using ok sk wo popping_skel [of v' t v] by (cases b) (simp_all add: won_ok_def)
  next
    case (S_Move t)
    then show ?thesis using ok sk wo popping_skel [of v' t v] by (simp add: won_ok_def)
  next
    case (S_End r p)
    then show ?thesis using ok sk destroy_ok_skel [of p v' v] by simp
  next
    case (S_Cas c a p)
    then show ?thesis by (rule local_ok_agrees_Cas [OF ok ag])
  qed (use ok in simp_all)
qed


section \<open>Steps that leave the stack alone\<close>

lemma fresh_owed: "fresh pc = Some b \<Longrightarrow> local_ok v pc st \<Longrightarrow> b \<in># owed pc"
proof (cases pc)
  case (S_Cas c a p)
  assume "fresh pc = Some b" "local_ok v pc st"
  then show ?thesis using S_Cas by (cases c) (auto simp: pushing_def ref1_def split: if_splits)
qed (simp_all)

lemma won_owed: "won pc = Some b \<Longrightarrow> b \<in># owed pc"
proof (cases pc)
  case (S_Cas c a p)
  assume "won pc = Some b"
  then show ?thesis using S_Cas by (cases c) (auto split: if_splits)
qed (auto split: if_splits)

lemma vrefs_prev:
  assumes "finite (dom v)" "v b = Some (d, Some (q, x))" "q \<noteq> 0"
  shows "q \<in># vrefs v"
  using vrefs_remove [OF assms(1,2)] assms(3) by (simp add: ref1_def)

lemma vrefs_mono:
  assumes "finite (dom v)" "v' \<subseteq>\<^sub>m v"
  shows "vrefs v' \<subseteq># vrefs v"
proof -
  have d: "dom v' \<subseteq> dom v" using assms(2) by (rule map_le_implies_dom_le)
  have "vrefs v' = (\<Sum>b\<in>dom v'. vprev (the (v b)))"
    unfolding vrefs_def using assms(2) by (intro sum.cong) (auto simp: map_le_def dom_def)
  also have "\<dots> \<subseteq># vrefs v"
    unfolding vrefs_def using sum.subset_diff [OF d assms(1), of "\<lambda>b. vprev (the (v b))"] by simp
  finally show ?thesis .
qed

lemma shape_map_le:
  assumes "shape v" "v' \<subseteq>\<^sub>m v"
  shows "shape v'"
proof -
  have sub: "v b = Some y" if "v' b = Some y" for b y using assms(2) that by (auto simp: map_le_def dom_def)
  have "finite (dom v')" 
    using finite_subset [OF map_le_implies_dom_le [OF assms(2)]] assms(1) by (simp add: shape_def)
  moreover have "b \<noteq> 0 \<and> b < 2 ^ 48 \<and> (d \<noteq> 0 \<longrightarrow> x \<noteq> None \<and> d \<in> pool) \<and> (d = 0 \<longrightarrow> x = None)"
    if "v' b = Some (d, x)" for b d x
    using shapeD [OF assms(1) sub [OF that]] by simp
  moreover have "b = c" if "v' b = Some (d, x)" "v' c = Some (d, y)" for b c d x y
    by (rule shape_inj [OF assms(1) sub [OF that(1)] sub [OF that(2)]])
  moreover have "acyclic (links v')"
  proof (rule acyclic_subset)
    show "acyclic (links v)" using assms(1) by (simp add: shape_def)
    show "links v' \<subseteq> links v" using sub by (auto simp: links_def)
  qed
  ultimately show ?thesis unfolding shape_def by blast
qed

lemma chain_shrink:
  assumes "chain v b bs" "shape v" "v' \<subseteq>\<^sub>m v" "\<And>c. c \<in># vrefs v' \<Longrightarrow> v' c \<noteq> None" "v' b \<noteq> None"
  shows "chain v' b bs"
  using assms(1,5)
proof (induction bs arbitrary: b)
  case Nil
  then show ?case using assms(3) by (auto simp: map_le_def dom_def)
next
  case (Cons e bs)
  obtain c x where e: "e = (c, x)" by (rule prod.exhaust)
  then obtain d p where v: "b = c" "d \<noteq> 0" "v b = Some (d, Some (p, x))" "chain v p bs" using Cons.prems(1) by auto
  have v': "v' b = Some (d, Some (p, x))" using Cons.prems(2) assms(3) v(3) by (auto simp: map_le_def dom_def)
  have "v p \<noteq> None" using v(4) by (cases bs) auto
  then have "p \<noteq> 0" using assms(2) by (auto simp: shape_def)
  moreover have "finite (dom v')" using shape_map_le [OF assms(2,3)] by (simp add: shape_def)
  ultimately have "v' p \<noteq> None" using vrefs_prev [of v'] v' assms(4) by blast
  then show ?case using Cons.IH [OF v(4)] v v' e by simp
qed

definition minor :: "'a mem \<Rightarrow> 'a mem \<Rightarrow> 'a lf_pc \<Rightarrow> 'a lf_pc \<Rightarrow> bool" where
  "minor m m' pc pc' \<longleftrightarrow> sub_eff m m' (owed pc) (owed pc') (gens pc) (gens pc') \<and> (won pc' = None \<or> won pc' = won pc) \<and>
     (\<forall>b. fresh pc' = Some b \<longrightarrow> fresh pc = Some b \<and>
        (\<exists>A B. owed pc = {#b#} + A \<and> owed pc' = {#b#} + B \<and> src m A B))"

lemma agrees_shrink:
  assumes c: "counts_ok n m' pcs" and j: "j < n" and sh: "shape v" and le: "vis m' \<subseteq>\<^sub>m v" and ok: "local_ok v (pcs j) st"
  shows "agrees v (vis m') (pcs j)"
proof -
  have same: "vis m' b = v b" if "vis m' b \<noteq> None" for b using le that by (auto simp: map_le_def dom_def)
  have owed: "vis m' b = v b" if "b \<in># owed (pcs j)" for b using counts_owed_alive [OF c j that] same by simp
  have fin: "finite (dom (vis m'))" using c by (simp add: counts_ok_def shape_def)
  have "vis m' b = v b \<and> (\<forall>d q x. v b = Some (d, Some (q, x)) \<longrightarrow> q \<noteq> 0 \<longrightarrow> skel (vis m') q = skel v q)"
    if f: "fresh (pcs j) = Some b" for b
  proof -
    have b: "vis m' b = v b" using owed fresh_owed [OF f ok] by simp
    have "skel (vis m') q = skel v q" if "v b = Some (d, Some (q, x))" "q \<noteq> 0" for d q x
      using vrefs_prev [OF fin] b that counts_vrefs_alive [OF c] same by (simp add: skel_def)
    with b show ?thesis by blast
  qed
  then show ?thesis using owed won_owed unfolding agrees_def skel_def by metis
qed

lemma minor_fresh:
  assumes c: "counts_ok n m pcs" and l: "locals_ok n (vis m) pcs st" and o: "owners_ok n m pcs"
    and c': "counts_ok n m' (pcs(i := pc'))" and i: "i < n" and mi: "minor m m' (pcs i) pc'"
    and f: "fresh ((pcs(i := pc')) j) = Some b"
  shows "count (all_refs n m' (pcs(i := pc'))) b = 1"
proof -
  have sh: "finite (dom (vis m))" using c by (simp add: counts_ok_def shape_def)
  have s: "mhead m' = mhead m" "vis m' \<subseteq>\<^sub>m vis m" using mi by (simp_all add: minor_def sub_eff_def shrink_def)
  have fj: "fresh (pcs j) = Some b" using f mi by (cases "j = i") (auto simp: minor_def)
  have one: "count (all_refs n m pcs) b = 1" using o fj unfolding owners_ok_def by blast
  have jn: "j < n" using fj l unfolding locals_ok_def by (cases "j < n") auto
  have "b \<in># owed (pcs j)" using fresh_owed [OF fj] l unfolding locals_ok_def by blast
  then have own: "1 \<le> count (owed (pcs j)) b" by (simp add: Suc_le_eq)
  have split: "count (\<Sum>k<n. owed (pcs k)) b = count (owed (pcs j)) b + (\<Sum>k\<in>{..<n} - {j}. count (owed (pcs k)) b)"
    unfolding count_sum using jn by (intro sum.remove) auto
  have tot: "count {#mhead m#} b + count (vrefs (vis m)) b + (count (owed (pcs j)) b + (\<Sum>k\<in>{..<n} - {j}. count (owed (pcs k)) b)) = 1"
    using one unfolding all_refs_def count_union split .
  have zero: "count (owed (pcs j)) b = 1" "count {#mhead m#} b = 0" "count (vrefs (vis m)) b = 0"
     "(\<Sum>k\<in>{..<n} - {j}. count (owed (pcs k)) b) = 0"
    using own tot by linarith+
  have vr: "count (vrefs (vis m')) b = 0" using vrefs_mono [OF sh s(2)] zero(3) mset_subset_eq_count by (metis le_zero_eq)
  have owed: "count (owed pc') b = count (owed (pcs i)) b"
  proof (cases "j = i")
    case True
    then obtain A B where "owed (pcs i) = {#b#} + A" "owed pc' = {#b#} + B" "src m A B"
      using f mi by (auto simp: minor_def)
    moreover have "b \<notin># A" using zero(1) True calculation(1) by (simp add: count_eq_zero_iff)
    moreover have "b \<notin># B" using zero(2,3) calculation by (auto simp: src_def count_eq_zero_iff split: if_splits)
    ultimately show ?thesis by (simp add: not_in_iff)
  next
    case False
    then have "count (owed (pcs i)) b = 0" using zero(4) i by simp
    moreover have "src m (owed (pcs i)) (owed pc')" using mi by (simp add: minor_def sub_eff_def)
    ultimately have "b \<notin># owed pc'" using zero(2,3) by (auto simp: src_def count_eq_zero_iff split: if_splits)
    with \<open>count (owed (pcs i)) b = 0\<close> show ?thesis by (simp add: not_in_iff)
  qed
  have "(\<Sum>k<n. owed ((pcs(i := pc')) k)) + owed (pcs i) = (\<Sum>k<n. owed (pcs k)) + owed pc'" by (rule sum_update [OF i])
  then have "count (\<Sum>k<n. owed ((pcs(i := pc')) k)) b + count (owed (pcs i)) b = count (\<Sum>k<n. owed (pcs k)) b + count (owed pc') b"
    by (simp only: count_union [symmetric])
  then show ?thesis using owed one vr zero(3) unfolding all_refs_def count_union s(1) by linarith
qed

text \<open>The abstract stack as seen from the head.\<close>

lemma chain_Nil: "chain v b bs \<Longrightarrow> bs = [] \<longleftrightarrow> v b = Some (0, None)" if "shape v" for v :: "'a view"
  using shapeD(4) [OF that] by (cases bs) auto

lemma chain_next:
  assumes "chain v b bs" "v b = Some (d, Some (p, x))" "shape v"
  obtains bs' where "bs = (b, x) # bs'" "chain v p bs'"
  using assms(1)
proof (cases bs)
  case Nil
  then show ?thesis using assms shapeD(4) [OF assms(3,2)] by auto
next
  case (Cons e bs')
  then show ?thesis using assms that by (cases e) auto
qed

lemma minor_good:
  assumes g: "lf_good n m pcs status st" and i: "i < n" and mi: "minor m m' (pcs i) pc'"
    and ok: "local_ok (vis m) pc' s'"
  shows "lf_good n m' (pcs(i := pc')) (status(i := s')) st"
proof -
  have c: "counts_ok n m pcs" and l: "locals_ok n (vis m) pcs status" and o: "owners_ok n m pcs" and s: "stack_ok m pcs st"
    using g by (simp_all add: lf_good_def)
  have sh: "shape (vis m)" using c by (simp add: counts_ok_def)
  have mi': "eff m m' (owed (pcs i)) (owed pc')" "gen_eff m m' (gens (pcs i)) (gens pc')" "mhead m' = mhead m"
    "vis m' \<subseteq>\<^sub>m vis m" "\<And>b. vis m' b \<noteq> None \<Longrightarrow> 0 < rc m' b"
    using mi by (simp_all add: minor_def sub_eff_def shrink_def)
  have won: "won (pcs j) = Some b" if "won ((pcs(i := pc')) j) = Some b" for j b
    using that mi by (cases "j = i") (auto simp: minor_def)
  have c': "counts_ok n m' (pcs(i := pc'))"
    by (rule counts_step [OF c i mi'(1,2) shape_map_le [OF sh mi'(4)] mi'(5)])
  have old: "local_ok (vis m) ((pcs(i := pc')) j) ((status(i := s')) j)" for j
    using ok l by (simp add: locals_ok_def)
  have "local_ok (vis m') ((pcs(i := pc')) j) ((status(i := s')) j)" if "j < n" for j
    by (rule local_ok_agrees [OF old agrees_shrink [OF c' that sh mi'(4) old]])
  moreover have "(pcs(i := pc')) j = S_Idle" "status j = Free" if "n \<le> j" for j
    using l i that unfolding locals_ok_def by (auto dest: spec [of _ j])
  ultimately have l': "locals_ok n (vis m') (pcs(i := pc')) (status(i := s'))"
    using i unfolding locals_ok_def by (metis fun_upd_other leI local_ok.simps(1))
  have o': "owners_ok n m' (pcs(i := pc'))"
    using minor_fresh [OF c l o c' i mi] o won unfolding owners_ok_def by metis
  obtain bs where bs: "chain (vis m) (mhead m) bs" "map snd bs = st" "\<And>j b. won (pcs j) = Some b \<Longrightarrow> b \<notin> fst ` set bs"
    using s by (auto simp: stack_ok_def)
  have "chain (vis m') (mhead m') bs"
    using chain_shrink [OF bs(1) sh mi'(4) counts_vrefs_alive [OF c']] counts_head_alive [OF c'] mi'(3) by simp
  then have "stack_ok m' (pcs(i := pc')) st" using bs(2,3) won unfolding stack_ok_def by blast
  then show ?thesis using c' l' o' by (simp add: lf_good_def)
qed

end
