(* ===== verification/Lock_Free_Steps.thy ===== *)
theory Lock_Free_Steps
  imports Lock_Free_Views
begin

text \<open>
  The steps that change the heap of nodes or the head: \<open>new Node()\<close>, the assignment of \<open>prev_\<close>, the
  exchange of the head, and the move out of a popped node.
\<close>

lemma goodD:
  assumes "lf_good n m pcs status st"
  shows "counts_ok n m pcs" "locals_ok n (vis m) pcs status" "owners_ok n m pcs" "stack_ok m pcs st"
    "shape (vis m)" "finite (dom (vis m))" "\<And>i. local_ok (vis m) (pcs i) (status i)"
    "\<And>b. vis m b \<noteq> None \<Longrightarrow> 0 < rc m b" "\<And>b. rc m b + mlocal m b = count (all_refs n m pcs) b"
  using assms by (auto simp: lf_good_def locals_ok_def counts_ok_def shape_def)

lemma busy_lt: "lf_good n m pcs status st \<Longrightarrow> pcs i \<noteq> S_Idle \<Longrightarrow> i < n"
  unfolding lf_good_def locals_ok_def using leI by blast

text \<open>A block that only one thread knows.\<close>

lemma fresh_alone:
  assumes g: "lf_good n m pcs status st" and f: "fresh (pcs i) = Some b"
  shows "rc m b + mlocal m b = 1" "b \<noteq> mhead m" "b \<notin># vrefs (vis m)" "j \<noteq> i \<Longrightarrow> b \<notin># owed (pcs j)" "b \<in># owed (pcs i)"
    "vis m b \<noteq> None" "count (owed (pcs i)) b = 1"
proof -
  have i: "i < n" using busy_lt [OF g, of i] f by (cases "pcs i") auto
  have own: "b \<in># owed (pcs i)" using fresh_owed [OF f goodD(7) [OF g]] .
  then have pos: "1 \<le> count (owed (pcs i)) b" by (simp add: Suc_le_eq)
  have one: "count (all_refs n m pcs) b = 1" using goodD(3) [OF g] f unfolding owners_ok_def by blast
  then show "rc m b + mlocal m b = 1" using goodD(9) [OF g] by simp
  have split: "count (\<Sum>k<n. owed (pcs k)) b = count (owed (pcs i)) b + (\<Sum>k\<in>{..<n} - {i}. count (owed (pcs k)) b)"
    unfolding count_sum using i by (intro sum.remove) auto
  have tot: "count {#mhead m#} b + count (vrefs (vis m)) b + (count (owed (pcs i)) b + (\<Sum>k\<in>{..<n} - {i}. count (owed (pcs k)) b)) = 1"
    using one unfolding all_refs_def count_union split .
  have z: "count {#mhead m#} b = 0" "count (vrefs (vis m)) b = 0" "(\<Sum>k\<in>{..<n} - {i}. count (owed (pcs k)) b) = 0"
    using tot pos by linarith+
  show "count (owed (pcs i)) b = 1" using tot pos by linarith
  from z(1) show "b \<noteq> mhead m" by (auto split: if_splits)
  from z(2) show "b \<notin># vrefs (vis m)" by (simp add: not_in_iff)
  show "b \<in># owed (pcs i)" by (rule own)
  show "vis m b \<noteq> None" by (rule counts_owed_alive [OF goodD(1) [OF g] i own])
  show "b \<notin># owed (pcs j)" if "j \<noteq> i"
  proof (cases "j < n")
    case True
    then have "count (owed (pcs j)) b = 0" using z(3) that by simp
    then show ?thesis by (simp add: not_in_iff)
  next
    case False
    then have "pcs j = S_Idle" using busy_lt [OF g] by blast
    then show ?thesis by simp
  qed
qed

lemma good_step:
  assumes g: "lf_good n m pcs status st" and i: "i < n"
    and e: "eff m m' (owed (pcs i)) (owed pc')" "gen_eff m m' (gens (pcs i)) (gens pc')"
    and sh: "shape (vis m')" and pos: "\<And>b. vis m' b \<noteq> None \<Longrightarrow> 0 < rc m' b"
    and others: "\<And>j. j < n \<Longrightarrow> j \<noteq> i \<Longrightarrow> agrees (vis m) (vis m') (pcs j)"
    and own: "local_ok (vis m') pc' s'"
    and fr: "\<And>j b. fresh ((pcs(i := pc')) j) = Some b \<Longrightarrow> rc m' b + mlocal m' b = 1"
    and wo: "\<And>j b. won pc' = Some b \<Longrightarrow> j \<noteq> i \<Longrightarrow> won (pcs j) \<noteq> Some b"
    and stk: "stack_ok m' (pcs(i := pc')) st'"
  shows "lf_good n m' (pcs(i := pc')) (status(i := s')) st'"
proof -
  have c': "counts_ok n m' (pcs(i := pc'))" by (rule counts_step [OF goodD(1) [OF g] i e sh pos])
  have "local_ok (vis m') ((pcs(i := pc')) j) ((status(i := s')) j)" for j
  proof (cases "j = i")
    case False
    show ?thesis
    proof (cases "j < n")
      case True
      show ?thesis using False local_ok_agrees [OF goodD(7) [OF g] others [OF True False]] by simp
    next
      case j: False
      then have "pcs j = S_Idle" using busy_lt [OF g] by blast
      then show ?thesis using False goodD(7) [OF g, of j] by simp
    qed
  qed (simp add: own)
  then have "locals_ok n (vis m') (pcs(i := pc')) (status(i := s'))"
    using goodD(2) [OF g] i unfolding locals_ok_def by auto
  moreover have "owners_ok n m' (pcs(i := pc'))"
  proof -
    have "count (all_refs n m' (pcs(i := pc'))) b = 1" if "fresh ((pcs(i := pc')) j) = Some b" for j b
      using c' fr [OF that] by (metis counts_ok_def)
    moreover have "j = k" if "won ((pcs(i := pc')) j) = Some b" "won ((pcs(i := pc')) k) = Some b" for j k b
      using that goodD(3) [OF g] wo [of b j] wo [of b k] unfolding owners_ok_def
      by (cases "j = i"; cases "k = i") (auto split: if_splits)
    ultimately show ?thesis unfolding owners_ok_def by blast
  qed
  ultimately show ?thesis using c' stk by (simp add: lf_good_def)
qed

text \<open>The others depend only on blocks that are owed to them or that a node refers to.\<close>

lemma agrees_others:
  assumes g: "lf_good n m pcs status st" and j: "j < n"
    and o: "\<And>b. b \<in># owed (pcs j) \<Longrightarrow> v' b = vis m b" and r: "\<And>b. b \<in># vrefs (vis m) \<Longrightarrow> v' b = vis m b"
  shows "agrees (vis m) v' (pcs j)"
proof -
  have "v' b = vis m b \<and> (\<forall>d q x. vis m b = Some (d, Some (q, x)) \<longrightarrow> q \<noteq> 0 \<longrightarrow> skel v' q = skel (vis m) q)"
    if f: "fresh (pcs j) = Some b" for b
    using o [OF fresh_alone(5) [OF g f]] r vrefs_prev [OF goodD(6) [OF g]] by (simp add: skel_def)
  then show ?thesis using o won_owed unfolding agrees_def skel_def by metis
qed

lemma chain_cong:
  assumes "chain v b bs" "shape v" "v' b = v b" "\<And>c. c \<in># vrefs v \<Longrightarrow> v' c = v c"
  shows "chain v' b bs"
  using assms(1,3)
proof (induction bs arbitrary: b)
  case (Cons e bs)
  obtain c x where e: "e = (c, x)" by (rule prod.exhaust)
  then obtain d p where v: "b = c" "d \<noteq> 0" "v b = Some (d, Some (p, x))" "chain v p bs" using Cons.prems(1) by auto
  have "v p \<noteq> None" using v(4) by (cases bs) auto
  then have "p \<noteq> 0" using assms(2) by (auto simp: shape_def)
  then have "v' p = v p" using vrefs_prev [of v b d p x] v(3) assms(2,4) by (simp add: shape_def)
  then show ?case using Cons.IH [OF v(4)] v e Cons.prems(2) by simp
qed simp

lemma chain_det: "chain v b xs \<Longrightarrow> chain v b ys \<Longrightarrow> xs = ys"
proof (induction xs arbitrary: b ys)
  case Nil
  then show ?case by (cases ys) auto
next
  case (Cons e xs)
  then show ?case by (cases ys; cases e) auto
qed

lemma chain_suffix: "chain v b bs \<Longrightarrow> c \<in> fst ` set bs \<Longrightarrow> \<exists>xs ys. bs = xs @ ys \<and> chain v c ys"
proof (induction bs arbitrary: b)
  case (Cons e bs)
  obtain a x where e: "e = (a, x)" by (rule prod.exhaust)
  show ?case
  proof (cases "c = a")
    case True
    then have "e # bs = [] @ (e # bs) \<and> chain v c (e # bs)" using Cons.prems e by auto
    then show ?thesis by blast
  next
    case False
    then obtain p where "chain v p bs" "c \<in> fst ` set bs" using Cons.prems e by auto
    then obtain xs ys where "bs = xs @ ys" "chain v c ys" using Cons.IH by blast
    then have "e # bs = (e # xs) @ ys \<and> chain v c ys" by simp
    then show ?thesis by blast
  qed
qed simp

text \<open>A chain that ends visits no block twice.\<close>

lemma chain_head_once:
  assumes "chain v b ((b, x) # bs)"
  shows "b \<notin> fst ` set bs"
proof
  assume "b \<in> fst ` set bs"
  moreover obtain p where "chain v p bs" using assms by auto
  ultimately obtain xs ys where "bs = xs @ ys" "chain v b ys" using chain_suffix by blast
  then show False using chain_det [OF assms, of ys] by simp
qed

section \<open>new Node()\<close>

lemma vis_alloc:
  assumes "shape (vis m)" "lf_free na ba m"
  shows "vis (lf_alloc na ba x m) = (vis m)(ba \<mapsto> (na, Some (0, x)))" "rc (lf_alloc na ba x m) = (rc m)(ba := 1)"
    "m_packed (lf_alloc na ba x m) = m_packed m" "vis m ba = None" "\<And>b y. vis m b \<noteq> Some (na, y)"
proof -
  have f: "na \<noteq> 0" "m_nodes m na = None" "m_blocks m ba = None" using assms(2) by (simp_all add: lf_free_def)
  show other: "vis m b \<noteq> Some (na, y)" for b y
  proof
    assume v: "vis m b = Some (na, y)"
    then have "y = None" using f(2) by (auto simp: vis_def)
    then show False using shapeD(3) [OF assms(1) v f(1)] by simp
  qed
  have "vis (lf_alloc na ba x m) b = ((vis m)(ba \<mapsto> (na, Some (0, x)))) b" for b
  proof (cases "b = ba")
    case False
    show ?thesis
    proof (cases "m_blocks m b")
      case (Some blk)
      then have "cb_data blk \<noteq> na" using other [of b] by (fastforce simp: vis_def)
      then show ?thesis using False Some by (simp add: vis_def lf_alloc_def)
    qed (simp add: vis_def lf_alloc_def False)
  qed (simp add: vis_def lf_alloc_def)
  then show "vis (lf_alloc na ba x m) = (vis m)(ba \<mapsto> (na, Some (0, x)))" by blast
  show "rc (lf_alloc na ba x m) = (rc m)(ba := 1)" by (auto simp: rc_def lf_alloc_def fun_eq_iff)
  show "m_packed (lf_alloc na ba x m) = m_packed m" by (simp add: lf_alloc_def)
  show "vis m ba = None" using f(3) by (simp add: vis_None)
qed

lemma alloc_good:
  assumes g: "lf_good n m pcs status st" and pc: "pcs i = S_New x" and f: "lf_free na ba m"
  shows "lf_good n (lf_alloc na ba x m) (pcs(i := S_Get ba G_Add)) (status(i := status i)) st"
proof -
  let ?m = "lf_alloc na ba x m"
  note v = vis_alloc(1-3) [OF goodD(5) [OF g] f, of x] vis_alloc(4,5) [OF goodD(5) [OF g] f]
  have i: "i < n" using busy_lt [OF g] pc by simp
  have ba: "ba \<noteq> 0" "ba < 2 ^ 48" "na \<noteq> 0" "na \<in> pool" using f by (simp_all add: lf_free_def pool_def)
  have nh: "ba \<noteq> mhead m" using counts_head_alive [OF goodD(1) [OF g]] v(4) by metis
  have refs: "vrefs (vis ?m) = vrefs (vis m)"
    unfolding v(1) vrefs_insert [where y = "(na, Some (0, x))", OF goodD(6) [OF g] v(4)] by (simp add: ref1_def)
  have alive: "vis ?m b = vis m b" if "vis m b \<noteq> None" for b using that v(1,4) by auto
  have l0: "mlocal m ba = 0" using nh by (simp add: mlocal_def)
  have st: "is_push x (status i)" using goodD(7) [OF g, of i] pc by simp
  show ?thesis
  proof (rule good_step [OF g i])
    have r0: "rc m ba = 0" using v(4) by (simp add: rc_def vis_None)
    show "eff m ?m (owed (pcs i)) (owed (S_Get ba G_Add))"
      unfolding eff_def
    proof
      fix b
      show "rc ?m b + mlocal ?m b + count {#mhead m#} b + count (vrefs (vis m)) b + count (owed (pcs i)) b =
        rc m b + mlocal m b + count {#mhead ?m#} b + count (vrefs (vis ?m)) b + count (owed (S_Get ba G_Add)) b"
        using pc r0 nh v(2,3) refs by (cases "b = ba") (simp_all add: mlocal_def)
    qed
    show "gen_eff m ?m (gens (pcs i)) (gens (S_Get ba G_Add))" using pc v(3) by (simp add: gen_eff_def)
    show "shape (vis ?m)"
    proof -
      have "finite (dom (vis ?m))" using goodD(6) [OF g] v(1) by simp
      moreover have "b \<noteq> 0 \<and> b < 2 ^ 48 \<and> (d \<noteq> 0 \<longrightarrow> y \<noteq> None \<and> d \<in> pool) \<and> (d = 0 \<longrightarrow> y = None)"
        if "vis ?m b = Some (d, y)" for b d y
        using that v(1) ba shapeD [OF goodD(5) [OF g], of b d y] by (cases "b = ba") auto
      moreover have "b = c" if "vis ?m b = Some (d, y)" "vis ?m c = Some (d, z)" for b c d y z
        using that v(1,5) shape_inj [OF goodD(5) [OF g], of b d y c z] by (cases "b = ba"; cases "c = ba") auto
      moreover have "acyclic (links (vis ?m))"
      proof -
        have "links (vis ?m) \<subseteq> insert (ba, 0) (links (vis m))" using v(1) by (auto simp: links_def split: if_splits)
        moreover have "(0, ba) \<notin> (links (vis m))\<^sup>*"
        proof
          assume "(0, ba) \<in> (links (vis m))\<^sup>*"
          then show False using ba(1) shapeD(1) [OF goodD(5) [OF g]]
            by (cases rule: converse_rtranclE) (auto simp: links_def)
        qed
        ultimately show ?thesis using goodD(5) [OF g] acyclic_subset by (auto simp: shape_def)
      qed
      ultimately show ?thesis unfolding shape_def by blast
    qed
    show "0 < rc ?m b" if "vis ?m b \<noteq> None" for b
      using that v(1,2) goodD(8) [OF g, of b] by (cases "b = ba") auto
    show "agrees (vis m) (vis ?m) (pcs j)" if "j < n" for j
      using alive counts_owed_alive [OF goodD(1) [OF g] that] counts_vrefs_alive [OF goodD(1) [OF g]]
      by (intro agrees_others [OF g that]) blast+
    show "local_ok (vis ?m) (S_Get ba G_Add) (status i)" using st ba v(1) by (auto simp: new_at_def)
    show "rc ?m b + mlocal ?m b = 1" if "fresh ((pcs(i := S_Get ba G_Add)) j) = Some b" for j b
    proof (cases "j = i")
      case True
      then show ?thesis using that v(2,3) l0 by (simp add: mlocal_def split: if_splits)
    next
      case False
      then have "fresh (pcs j) = Some b" using that by simp
      note fa = fresh_alone [OF g this]
      have "b \<noteq> ba" using fa(6) v(4) by metis
      then show ?thesis using fa(1,2) v(2,3) by (simp add: mlocal_def)
    qed
    show "won (S_Get ba G_Add) = Some b \<Longrightarrow> j \<noteq> i \<Longrightarrow> won (pcs j) \<noteq> Some b" for b j by simp
    obtain bs where bs: "chain (vis m) (mhead m) bs" "map snd bs = st" "\<forall>j b. won (pcs j) = Some b \<longrightarrow> b \<notin> fst ` set bs"
      using goodD(4) [OF g] by (auto simp: stack_ok_def)
    have "chain (vis ?m) (mhead ?m) bs"
      using chain_cong [OF bs(1) goodD(5) [OF g], of "vis ?m"] alive counts_vrefs_alive [OF goodD(1) [OF g]]
        counts_head_alive [OF goodD(1) [OF g]] v(3) by simp
    then show "stack_ok ?m (pcs(i := S_Get ba G_Add)) st" using bs(2,3) by (auto simp: stack_ok_def)
  qed
qed

section \<open>Writing a node\<close>

lemma write_node:
  assumes "shape (vis m)" "m_blocks m b = Some blk" "m_nodes m (cb_data blk) = Some nd"
  defines "m' \<equiv> \<lambda>nd'. m\<lparr>m_nodes := (m_nodes m)(cb_data blk \<mapsto> nd')\<rparr>"
  shows "vis (m' nd') = (vis m)(b \<mapsto> (cb_data blk, Some (nd_prev nd', nd_data nd')))" "rc (m' nd') = rc m"
    "m_packed (m' nd') = m_packed m" "vis m b = Some (cb_data blk, Some (nd_prev nd, nd_data nd))"
proof -
  show v: "vis m b = Some (cb_data blk, Some (nd_prev nd, nd_data nd))" using assms(2,3) by (simp add: vis_def)
  have "vis (m' nd') c = ((vis m)(b \<mapsto> (cb_data blk, Some (nd_prev nd', nd_data nd')))) c" for c
  proof (cases "c = b")
    case False
    show ?thesis
    proof (cases "m_blocks m c")
      case (Some blk')
      have "cb_data blk' \<noteq> cb_data blk"
      proof
        assume "cb_data blk' = cb_data blk"
        then have "vis m c = Some (cb_data blk, Some (nd_prev nd, nd_data nd))" using Some assms(3) by (simp add: vis_def)
        then show False using shape_inj [OF assms(1) v] False by blast
      qed
      then show ?thesis using False Some by (simp add: vis_def m'_def)
    qed (simp add: vis_def m'_def False)
  qed (simp add: vis_def m'_def assms(2))
  then show "vis (m' nd') = (vis m)(b \<mapsto> (cb_data blk, Some (nd_prev nd', nd_data nd')))" by blast
  show "rc (m' nd') = rc m" "m_packed (m' nd') = m_packed m" by (auto simp: rc_def m'_def fun_eq_iff)
qed

lemma shape_write:
  assumes "shape v" "v b = Some (d, Some y)" and ac: "acyclic (links (v(b \<mapsto> (d, Some z))))"
  shows "shape (v(b \<mapsto> (d, Some z)))"
proof -
  let ?v = "v(b \<mapsto> (d, Some z))"
  have d: "d \<noteq> 0" using shapeD(4) [OF assms(1,2)] by auto
  have "c \<noteq> 0 \<and> c < 2 ^ 48 \<and> (e \<noteq> 0 \<longrightarrow> x \<noteq> None \<and> e \<in> pool) \<and> (e = 0 \<longrightarrow> x = None)" if "?v c = Some (e, x)" for c e x
    using that d shapeD [OF assms(1,2)] shapeD [OF assms(1), of c e x] by (cases "c = b") auto
  moreover have "c = c'" if c: "?v c = Some (e, x)" "?v c' = Some (e, x')" for c c' e x x'
  proof -
    have "\<exists>y. v a = Some (e, y)" if "?v a = Some (e, z)" for a z
      using that assms(2) by (cases "a = b") auto
    then obtain y y' where "v c = Some (e, y)" "v c' = Some (e, y')" using c by blast
    then show ?thesis by (rule shape_inj [OF assms(1)])
  qed
  moreover have "finite (dom ?v)" using assms(1) by (simp add: shape_def)
  ultimately show ?thesis using ac unfolding shape_def by blast
qed

lemma assign_good:
  assumes g: "lf_good n m pcs status st" and pc: "pcs i = S_Assign b c"
    and blk: "m_blocks m b = Some blk" "m_nodes m (cb_data blk) = Some nd"
  defines "m' \<equiv> m\<lparr>m_nodes := (m_nodes m)(cb_data blk \<mapsto> nd\<lparr>nd_prev := c\<rparr>)\<rparr>"
    and "pc' \<equiv> (if nd_prev nd = 0 then S_Expected b else S_Unref b (nd_prev nd))"
  shows "lf_good n m' (pcs(i := pc')) (status(i := status i)) st"
proof -
  have i: "i < n" using busy_lt [OF g] pc by simp
  have v: "vis m' = (vis m)(b \<mapsto> (cb_data blk, Some (c, nd_data nd)))" "rc m' = rc m" "m_packed m' = m_packed m"
    "vis m b = Some (cb_data blk, Some (nd_prev nd, nd_data nd))"
    using write_node(1-3) [OF goodD(5) [OF g] blk, of "nd\<lparr>nd_prev := c\<rparr>"] write_node(4) [OF goodD(5) [OF g] blk]
    by (simp_all add: m'_def)
  have "local_ok (vis m) (S_Assign b c) (status i)" using goodD(7) [OF g, of i] pc by simp
  then have l: "c \<noteq> 0" "cb_data blk \<noteq> 0" "is_push (nd_data nd) (status i)" using v(4) by (auto simp: new_at_def)
  have fr: "fresh (pcs i) = Some b" using pc by simp
  note fb = fresh_alone [OF g fr]
  have same: "vis m' a = vis m a" if "a \<noteq> b" for a using that v(1) by simp
  have shared: "vis m' a = vis m a" if "a \<in># vrefs (vis m)" for a using same fb(3) that by metis
  have ml: "mlocal m' = mlocal m" using v(3) by (simp add: mlocal_def fun_eq_iff)
  have refs: "vrefs (vis m') + ref1 (nd_prev nd) = vrefs (vis m) + {#c#}"
    using vrefs_replace [where z = "(cb_data blk, Some (c, nd_data nd))", OF goodD(6) [OF g] v(4)] v(1) l(1) by (simp add: ref1_def)
  have owed: "owed pc' = {#b#} + ref1 (nd_prev nd)" "gens pc' = {#}" "won pc' = None" "fresh pc' = Some b"
    by (simp_all add: pc'_def ref1_def)
  show ?thesis
  proof (rule good_step [OF g i])
    show "eff m m' (owed (pcs i)) (owed pc')"
      unfolding eff_def
    proof
      fix a
      have "count (vrefs (vis m')) a + count (ref1 (nd_prev nd)) a = count (vrefs (vis m)) a + count {#c#} a"
        using refs by (simp only: count_union [symmetric])
      moreover have "count (owed (pcs i)) a = count {#b#} a + count {#c#} a" using pc by simp
      moreover have "count (owed pc') a = count {#b#} a + count (ref1 (nd_prev nd)) a" using owed by simp
      ultimately show "rc m' a + mlocal m' a + count {#mhead m#} a + count (vrefs (vis m)) a + count (owed (pcs i)) a =
        rc m a + mlocal m a + count {#mhead m'#} a + count (vrefs (vis m')) a + count (owed pc') a"
        unfolding v(2,3) ml by linarith
    qed
    show "gen_eff m m' (gens (pcs i)) (gens pc')" using pc v(3) owed by (simp add: gen_eff_def)
    have "acyclic (links (vis m'))"
    proof -
      have "links (vis m') \<subseteq> insert (b, c) (links (vis m))" using v(1) by (auto simp: links_def split: if_splits)
      moreover have "(c, b) \<notin> (links (vis m))\<^sup>*"
      proof
        assume "(c, b) \<in> (links (vis m))\<^sup>*"
        moreover have "c \<noteq> b"
          using fb(7) pc by auto
        ultimately obtain a where "(a, b) \<in> links (vis m)" by (meson rtranclE)
        then have "b \<in># vrefs (vis m)" using vrefs_prev [OF goodD(6) [OF g]] shapeD(1) [OF goodD(5) [OF g] v(4)]
          by (auto simp: links_def)
        then show False using fb(3) by simp
      qed
      ultimately show ?thesis using goodD(5) [OF g] acyclic_subset by (auto simp: shape_def)
    qed
    then show "shape (vis m')" unfolding v(1) by (rule shape_write [OF goodD(5) [OF g] v(4)])
    show "0 < rc m' a" if "vis m' a \<noteq> None" for a
      using that v(1,2,4) goodD(8) [OF g, of a] by (cases "a = b") auto
    show "agrees (vis m) (vis m') (pcs j)" if "j < n" "j \<noteq> i" for j
      using same shared fb(4) [OF that(2)] by (intro agrees_others [OF g that(1)]) metis+
    have "linked_at (vis m') b (status i)" using l v(1) by (auto simp: linked_at_def)
    then show "local_ok (vis m') pc' (status i)" by (simp add: pc'_def)
    show "rc m' a + mlocal m' a = 1" if "fresh ((pcs(i := pc')) j) = Some a" for j a
    proof -
      have "fresh (pcs j) = Some a" using that owed(4) fr by (cases "j = i") auto
      then show ?thesis using fresh_alone(1) [OF g] v(2) ml by simp
    qed
    show "won pc' = Some a \<Longrightarrow> j \<noteq> i \<Longrightarrow> won (pcs j) \<noteq> Some a" for a j using owed(3) by simp
    obtain bs where bs: "chain (vis m) (mhead m) bs" "map snd bs = st" "\<forall>j b. won (pcs j) = Some b \<longrightarrow> b \<notin> fst ` set bs"
      using goodD(4) [OF g] by (auto simp: stack_ok_def)
    have "chain (vis m') (mhead m') bs"
      using chain_cong [OF bs(1) goodD(5) [OF g], of "vis m'"] shared same fb(2) v(3) by simp
    then show "stack_ok m' (pcs(i := pc')) st" using bs(2,3) owed(3) unfolding stack_ok_def by (metis fun_upd_apply option.distinct(1))
  qed
qed

lemma chain_avoid:
  assumes "chain v b bs" "w \<notin> fst ` set bs" "v w = Some (d, Some y)" "d \<noteq> 0"
  shows "chain (v(w \<mapsto> z)) b bs"
  using assms(1,2)
proof (induction bs arbitrary: b)
  case Nil
  then show ?case using assms(3,4) by auto
next
  case (Cons e bs)
  then show ?case by (cases e) auto
qed

lemma move_good:
  fixes y :: 'a
  assumes g: "lf_good n m pcs status st" and pc: "pcs i = S_Move t" and nd: "m_nodes m (fs_data t) = Some nd"
  defines "m' \<equiv> m\<lparr>m_nodes := (m_nodes m)(fs_data t \<mapsto> nd\<lparr>nd_data := y\<rparr>)\<rparr>"
  shows "lf_good n m' (pcs(i := lf_end (R_Pop (Some (nd_data nd))) t)) (status(i := status i)) st"
proof -
  let ?w = "packed_ptr (fs_known t)"
  have i: "i < n" using busy_lt [OF g] pc by simp
  have l: "popping (vis m) t" "won_ok (vis m) t (status i)" using goodD(7) [OF g, of i] pc by simp_all
  have wi: "won (pcs i) = Some ?w" using pc by simp
  from l obtain blk where blk: "m_blocks m ?w = Some blk" "cb_data blk = fs_data t" by (auto simp: won_ok_def vis_def)
  have nd': "m_nodes m (cb_data blk) = Some nd" using nd blk(2) by simp
  have v: "vis m' = (vis m)(?w \<mapsto> (fs_data t, Some (nd_prev nd, y)))" "rc m' = rc m" "m_packed m' = m_packed m"
    "vis m ?w = Some (fs_data t, Some (nd_prev nd, nd_data nd))"
    using write_node(1-3) [OF goodD(5) [OF g] blk(1) nd', of "nd\<lparr>nd_data := y\<rparr>"]
      write_node(4) [OF goodD(5) [OF g] blk(1) nd'] blk(2) by (simp_all add: m'_def)
  have d0: "fs_data t \<noteq> 0" using l(1) by (simp add: popping_def)
  have status: "status i = Done (R_Pop (Some (nd_data nd)))" using l(2) v(4) by (auto simp: won_ok_def)
  have sk: "skel (vis m') = skel (vis m)" using v(1,4) by (auto simp: skel_def fun_eq_iff)
  have refs: "vrefs (vis m') = vrefs (vis m)"
    using vrefs_replace [where z = "(fs_data t, Some (nd_prev nd, y))", OF goodD(6) [OF g] v(4)] v(1) by simp
  have f: "fast_ok (vis m') t" using l(1) sk by (simp add: popping_def fast_ok_skel pub_skel)
  let ?pc = "S_End (R_Pop (Some (nd_data nd))) (X_Cas t (fs_known t))"
  have e: "lf_end (R_Pop (Some (nd_data nd))) t = ?pc" "destroy_ok (vis m') (X_Cas t (fs_known t))"
    using destroy_entry_ok [OF f] by (simp_all add: lf_end_def)
  have ml: "mlocal m' = mlocal m" using v(3) by (simp add: mlocal_def fun_eq_iff)
  show ?thesis unfolding e(1)
  proof (rule good_step [OF g i])
    show "eff m m' (owed (pcs i)) (owed ?pc)" using v(2,3) ml refs pc by (simp add: eff_def)
    show "gen_eff m m' (gens (pcs i)) (gens ?pc)" using v(3) pc by (simp add: gen_eff_def)
    have "links (vis m') = links (vis m)" unfolding links_def skel_view(3) sk ..
    then have "acyclic (links (vis m'))" using goodD(5) [OF g] by (simp add: shape_def)
    then show "shape (vis m')" unfolding v(1) by (rule shape_write [OF goodD(5) [OF g] v(4)])
    show "0 < rc m' a" if "vis m' a \<noteq> None" for a
      using that v(1,2,4) goodD(8) [OF g, of a] by (cases "a = ?w") auto
    show "agrees (vis m) (vis m') (pcs j)" if "j < n" "j \<noteq> i" for j
    proof -
      have "vis m' b = vis m b" if "fresh (pcs j) = Some b" for b
        using fresh_alone(4) [OF g that, of i] pc v(1) \<open>j \<noteq> i\<close> by auto
      moreover have "vis m' b = vis m b" if "won (pcs j) = Some b" for b
        using goodD(3) [OF g] wi that \<open>j \<noteq> i\<close> v(1) unfolding owners_ok_def by (metis fun_upd_other)
      ultimately show ?thesis using sk by (simp add: agrees_def)
    qed
    show "local_ok (vis m') ?pc (status i)" using e(2) status by simp
    show "rc m' a + mlocal m' a = 1" if "fresh ((pcs(i := ?pc)) j) = Some a" for j a
      using that fresh_alone(1) [OF g, of j a] v(2) ml by (simp split: if_splits)
    show "won ?pc = Some a \<Longrightarrow> j \<noteq> i \<Longrightarrow> won (pcs j) \<noteq> Some a" for a j by simp
    obtain bs where bs: "chain (vis m) (mhead m) bs" "map snd bs = st" "\<forall>j b. won (pcs j) = Some b \<longrightarrow> b \<notin> fst ` set bs"
      using goodD(4) [OF g] by (auto simp: stack_ok_def)
    have "chain (vis m') (mhead m) bs" unfolding v(1) by (rule chain_avoid [OF bs(1) _ v(4) d0]) (use bs(3) wi in blast)
    then show "stack_ok m' (pcs(i := ?pc)) st" using bs(2,3) v(3) by (auto simp: stack_ok_def)
  qed
qed

section \<open>The exchange of the head\<close>

definition swap_to :: "'a mem \<Rightarrow> addr \<Rightarrow> 'a mem" where
  "swap_to m b = m\<lparr>m_packed := pack b\<rparr>"

text \<open>What both callers of \<open>compareExchange\<close> share.\<close>

lemma swap_good:
  assumes g: "lf_good n m pcs status st" and pc: "pcs i = S_Cas c a (K_Swap h ep)"
    and ep: "m_packed m = ep" and ok: "cas_ok (vis m) (cx_expected a) (K_Swap h ep)" and new: "cx_newOne a \<noteq> 0"
  defines "m' \<equiv> swap_to m (cx_newOne a)" and "pc' \<equiv> S_Cas c (a\<lparr>cx_newOne := 0\<rparr>) (K_Old h ep)"
  assumes own: "local_ok (vis m) pc' s'"
    and wo: "\<And>j b. won pc' = Some b \<Longrightarrow> j \<noteq> i \<Longrightarrow> won (pcs j) \<noteq> Some b"
    and stk: "stack_ok m' (pcs(i := pc')) st'"
  shows "lf_good n m' (pcs(i := pc')) (status(i := s')) st'" "mhead m' = cx_newOne a"
proof -
  have i: "i < n" using busy_lt [OF g] pc by simp
  have h: "packed_ptr ep = packed_ptr (fs_known h)" "packed_cnt ep = 0" using ok by simp_all
  have alive: "vis m (cx_newOne a) \<noteq> None"
    using counts_owed_alive [OF goodD(1) [OF g] i, of "cx_newOne a"] pc new by (simp add: ref1_def)
  then have "cx_newOne a < 2 ^ 48" using shapeD(2) [OF goodD(5) [OF g], of "cx_newOne a"] by auto
  note p = packed_pack [OF this]
  show hd: "mhead m' = cx_newOne a" by (simp add: m'_def swap_to_def p)
  have v: "vis m' = vis m" "rc m' = rc m" "mcnt m' = 0" by (simp_all add: m'_def swap_to_def p)
  have ml: "mlocal m' = mlocal m" using h(2) ep v(3) by (auto simp: mlocal_def fun_eq_iff)
  have nf: "fresh pc' = None" by (cases c) (simp_all add: pc'_def)
  show "lf_good n m' (pcs(i := pc')) (status(i := s')) st'"
  proof (rule good_step [OF g i])
    have A: "owed (pcs i) = caller_share c + {#cx_newOne a#} + fshare h" using pc new by (simp add: ref1_def)
    have B: "owed pc' = caller_share c + (fshare h + {#mhead m#})" using ep by (simp add: pc'_def ref1_def)
    show "eff m m' (owed (pcs i)) (owed pc')" unfolding eff_def A B hd v ml count_union by simp
    show "gen_eff m m' (gens (pcs i)) (gens pc')" using v(3) by (simp add: gen_eff_def)
    show "shape (vis m')" using v(1) goodD(5) [OF g] by simp
    show "0 < rc m' b" if "vis m' b \<noteq> None" for b using that v goodD(8) [OF g] by simp
    show "agrees (vis m) (vis m') (pcs j)" for j by (simp add: agrees_def v(1))
    show "local_ok (vis m') pc' s'" using own v(1) by simp
    show "rc m' b + mlocal m' b = 1" if "fresh ((pcs(i := pc')) j) = Some b" for j b
      using that fresh_alone(1) [OF g, of j b] v(2) ml nf by (simp split: if_splits)
  qed (use wo stk in auto)
qed

lemma swap_push_good:
  assumes g: "lf_good n m pcs status st" and pc: "pcs i = S_Cas By_Push a (K_Swap h ep)" and ep: "m_packed m = ep"
  obtains x where "is_push x (status i)" "cx_newOne a \<noteq> mhead m"
    "lf_good n (swap_to m (cx_newOne a)) (pcs(i := S_Cas By_Push (a\<lparr>cx_newOne := 0\<rparr>) (K_Old h ep)))
       (status(i := Done R_Push)) (x # st)"
proof -
  let ?N = "cx_newOne a"
  have "pushing (vis m) a (K_Swap h ep) (status i)" using goodD(7) [OF g, of i] pc by simp
  then obtain d q x where l: "cas_ok (vis m) (cx_expected a) (K_Swap h ep)" "?N \<noteq> 0" "d \<noteq> 0" "q \<noteq> 0"
    "vis m ?N = Some (d, Some (q, x))" "is_push x (status i)" "map_option fst (vis m q) = Some (cx_expected a)"
    by (auto simp: pushing_def)
  have fr: "fresh (pcs i) = Some ?N" using pc by simp
  note fN = fresh_alone [OF g fr]
  have h: "holder_ok (vis m) (cx_expected a) h" "packed_ptr ep = packed_ptr (fs_known h)" using l(1) by simp_all
  obtain y z where "vis m q = Some (cx_expected a, y)" "vis m (mhead m) = Some (cx_expected a, z)"
    using h l(7) ep by (auto simp: holder_ok_def fast_ok_def)
  then have q: "q = mhead m" by (rule shape_inj [OF goodD(5) [OF g]])
  obtain bs where bs: "chain (vis m) (mhead m) bs" "map snd bs = st" "\<forall>j b. won (pcs j) = Some b \<longrightarrow> b \<notin> fst ` set bs"
    using goodD(4) [OF g] by (auto simp: stack_ok_def)
  let ?m = "swap_to m ?N" and ?pc = "S_Cas By_Push (a\<lparr>cx_newOne := 0\<rparr>) (K_Old h ep) :: 'a lf_pc"
  have "won (pcs j) \<noteq> Some ?N" for j
    using fN(4) [of j] won_owed [of "pcs j" ?N] pc by (cases "j = i") auto
  moreover have "?N < 2 ^ 48" using shapeD(2) [OF goodD(5) [OF g] l(5)] .
  ultimately have "stack_ok ?m (pcs(i := ?pc)) (x # st)"
    unfolding stack_ok_def using bs l(3,5) q packed_pack(1)
    by (intro exI [of _ "(?N, x) # bs"]) (auto simp: swap_to_def)
  moreover have "local_ok (vis m) ?pc (Done R_Push)" using h by (simp add: pushing_def holder_ok_def)
  ultimately have "lf_good n ?m (pcs(i := ?pc)) (status(i := Done R_Push)) (x # st)"
    by (intro swap_good(1) [OF g pc ep l(1,2)]) simp_all
  then show thesis using that [OF l(6) fN(2)] by simp
qed

lemma swap_pop_good:
  assumes g: "lf_good n m pcs status st" and pc: "pcs i = S_Cas (By_Pop t) a (K_Swap h ep)" and ep: "m_packed m = ep"
  obtains x st' where "st = x # st'" "status i = Called Op_Pop" "cx_newOne a \<noteq> mhead m"
    "lf_good n (swap_to m (cx_newOne a)) (pcs(i := S_Cas (By_Pop t) (a\<lparr>cx_newOne := 0\<rparr>) (K_Old h ep)))
       (status(i := Done (R_Pop (Some x)))) st'"
proof -
  let ?N = "cx_newOne a" and ?w = "packed_ptr (fs_known t)"
  have "popping_cas (vis m) t a (K_Swap h ep) (status i)" using goodD(7) [OF g, of i] pc by simp
  then obtain x where l: "cas_ok (vis m) (cx_expected a) (K_Swap h ep)" "?N \<noteq> 0" "popping (vis m) t"
    "cx_expected a = fs_data t" "vis m ?w = Some (fs_data t, Some (?N, x))" "status i = Called Op_Pop"
    "map_option fst (vis m ?N) \<noteq> Some (cx_expected a)"
    by (auto simp: popping_cas_def)
  have h: "holder_ok (vis m) (cx_expected a) h" "packed_ptr ep = packed_ptr (fs_known h)" using l(1) by simp_all
  obtain z where hd: "vis m (mhead m) = Some (fs_data t, z)"
    using h l(4) ep by (auto simp: holder_ok_def fast_ok_def)
  have w: "?w = mhead m" by (rule shape_inj [OF goodD(5) [OF g] l(5) hd])
  obtain bs where bs: "chain (vis m) (mhead m) bs" "map snd bs = st" "\<forall>j b. won (pcs j) = Some b \<longrightarrow> b \<notin> fst ` set bs"
    using goodD(4) [OF g] by (auto simp: stack_ok_def)
  obtain bs' where bs': "bs = (mhead m, x) # bs'" "chain (vis m) ?N bs'"
    using chain_next [OF bs(1) l(5) [unfolded w] goodD(5) [OF g]] by blast
  have once: "mhead m \<notin> fst ` set bs'" by (rule chain_head_once [OF bs(1) [unfolded bs'(1)]])
  let ?m = "swap_to m ?N" and ?pc = "S_Cas (By_Pop t) (a\<lparr>cx_newOne := 0\<rparr>) (K_Old h ep) :: 'a lf_pc"
  have alive: "vis m ?N \<noteq> None" using bs'(2) by (cases bs') auto
  then have "?N < 2 ^ 48" using shapeD(2) [OF goodD(5) [OF g], of ?N] by auto
  then have stk: "stack_ok ?m (pcs(i := ?pc)) (map snd bs')"
    unfolding stack_ok_def using bs' bs(3) once packed_pack(1) w
    by (intro exI [of _ bs']) (auto simp: swap_to_def)
  have "local_ok (vis m) ?pc (Done (R_Pop (Some x)))"
    using h l(3,4,5) by (auto simp: popping_cas_def holder_ok_def won_ok_def)
  moreover have "won (pcs j) \<noteq> Some b" if "won ?pc = Some b" for j b
    using that bs(3) bs'(1) w by auto
  ultimately have "lf_good n ?m (pcs(i := ?pc)) (status(i := Done (R_Pop (Some x)))) (map snd bs')"
    using stk by (intro swap_good(1) [OF g pc ep l(1,2)]) auto
  moreover have "st = x # map snd bs'" using bs(2) bs'(1) by simp
  moreover have "?N \<noteq> mhead m" using l(4,7) hd by auto
  ultimately show thesis using that l(6) by blast
qed

end
