(* ===== verification/Lock_Free_Access.thy ===== *)
theory Lock_Free_Access
  imports Lock_Free_Steps
begin

text \<open>
  Every access of every operation of \<open>UnboundedLockFreeStack\<close> keeps the invariant, and those that are
  marked do the abstract operation.
\<close>

definition next_ok :: "nat \<Rightarrow> 'a mem \<Rightarrow> (nat \<Rightarrow> 'a lf_pc) \<Rightarrow> (nat \<Rightarrow> 'a lf_status) \<Rightarrow> 'a list \<Rightarrow> nat \<Rightarrow> bool \<Rightarrow> 'a lf_pc \<Rightarrow> bool" where
  "next_ok n m' pcs status st i lin pc' \<longleftrightarrow> (\<exists>s' st'. lf_good n m' (pcs(i := pc')) (status(i := s')) st' \<and>
     (if lin then \<exists>op r. status i = Called op \<and> lf_apply op st = (r, st') \<and> s' = Done r else s' = status i \<and> st' = st))"

definition access_ok :: "nat \<Rightarrow> 'a mem \<Rightarrow> (nat \<Rightarrow> 'a lf_pc) \<Rightarrow> (nat \<Rightarrow> 'a lf_status) \<Rightarrow> 'a list \<Rightarrow> nat \<Rightarrow>
    ('a lf_pc, 'a lf_res) sub \<Rightarrow> 'a mem \<Rightarrow> bool" where
  "access_ok n m pcs status st i r m' \<longleftrightarrow> sub_post
     (\<lambda>pc'. next_ok n m' pcs status st i (lf_marks (pcs i) m pc') pc')
     (\<lambda>x. status i = Done x \<and> lf_good n m' (pcs(i := S_Idle)) (status(i := Free)) st) r"

lemma silent:
  assumes g: "lf_good n m pcs status st" and i: "i < n" and mi: "minor m m' (pcs i) pc'" and ok: "local_ok (vis m) pc' (status i)"
  shows "next_ok n m' pcs status st i False pc'"
  using minor_good [OF g i mi ok] by (auto simp: next_ok_def)

lemma marked:
  assumes g: "lf_good n m pcs status st" and i: "i < n" and mi: "minor m m' (pcs i) pc'"
    and op: "status i = Called op" "lf_apply op st = (r, st)" and ok: "local_ok (vis m) pc' (Done r)"
  shows "next_ok n m' pcs status st i True pc'"
  unfolding next_ok_def using minor_good [OF g i mi ok] op by auto

lemma minorI: "sub_eff m m' (owed pc) (owed pc') (gens pc) (gens pc') \<Longrightarrow> fresh pc' = None \<Longrightarrow> won pc' = None \<Longrightarrow> minor m m' pc pc'"
  by (simp add: minor_def)

text \<open>What a thread may rely on at its program point, and a part of it.\<close>

lemma good_safe:
  assumes g: "lf_good n m pcs status st" and n: "n \<le> 500" and i: "i < n"
    and o: "owed (pcs i) = A + C" "gens (pcs i) = G + D" "D \<subseteq># C" "G \<subseteq># A"
  shows "safe m A G"
  using safe_mono [of m A C G D] counts_safe [OF goodD(1,2) [OF g] n i] o by simp

lemma good_refl: "lf_good n m pcs status st \<Longrightarrow> sub_eff m m A A G G"
  using goodD(8) by (intro sub_eff_refl) blast

section \<open>getFast\<close>

lemma lf_end_ok:
  assumes "fast_ok v f"
  shows "local_ok v (lf_end r f) (Done r)" "owed (lf_end r f) = fshare f" "gens (lf_end r f) = fshare f"
    "fresh (lf_end r f) = None" "won (lf_end r f) = None"
  using destroy_entry_ok [OF assms] by (auto simp: lf_end_def)

lemma lf_top_ok:
  fixes v :: "'a view"
  assumes "fast_ok v f"
  shows "local_ok v (lf_top f) (pop_status (fs_data f = 0))" "owed (lf_top f :: 'a lf_pc) = fshare f" "gens (lf_top f :: 'a lf_pc) = fshare f"
    "fresh (lf_top f :: 'a lf_pc) = None" "won (lf_top f :: 'a lf_pc) = None"
  using lf_end_ok [OF assms, of "R_Pop None"] assms by (auto simp: lf_top_def pop_status_def popping_def)

lemma fast_data:
  assumes "safe m {#packed_ptr known#} G" "fast_pc_ok (vis m) (F_Data known)"
  obtains f where "fast_step (F_Data known) m = (Return f, m)" "fs_known f = known" "fast_ok (vis m) f"
    "fs_data f = 0 \<longleftrightarrow> vis m (packed_ptr known) = Some (0, None)"
proof -
  let ?b = "packed_ptr known"
  obtain blk x where blk: "m_blocks m ?b = Some blk" "vis m ?b = Some (cb_data blk, x)"
    using safe_vis [OF assms(1), of ?b] by (auto simp: vis_def)
  have k: "packed_cnt known \<noteq> 0" "cnt known \<le> 1000" "pub (vis m) ?b" using assms(2) by auto
  have "\<not> packed_cnt known > 1000" using k(2) by (simp add: word_less_nat_alt not_less)
  then have step: "fast_step (F_Data known) m = (Return \<lparr>fs_known = known, fs_foreign = True, fs_data = cb_data blk\<rparr>, m)"
    using blk(1) by (simp add: fast_loop_def)
  have z: "cb_data blk = 0 \<longleftrightarrow> vis m ?b = Some (0, None)" using k(3) blk(2) by (auto simp: pub_def)
  show thesis by (rule that [OF step]) (use k blk(2) z in \<open>auto simp: fast_ok_def\<close>)
qed

lemma fast_add:
  assumes g: "lf_good n m pcs status st" and n: "n \<le> 500" and i: "i < n" and one: "size (gens (pcs i)) \<le> 1"
  defines "m' \<equiv> m\<lparr>m_packed := m_packed m + 1\<rparr>"
  shows "sub_eff m m' {#} {#mhead m#} {#} {#mhead m#}" "fast_pc_ok (vis m) (F_Data (m_packed m + 1))"
    "packed_ptr (m_packed m + 1) = mhead m" "lf_head_empty m \<longleftrightarrow> st = []" "vis m (mhead m) = Some (0, None) \<longleftrightarrow> st = []"
proof -
  have less: "mcnt m < 1000" by (rule mcnt_bound_Add [OF goodD(1) [OF g] n i one])
  obtain bs where bs: "chain (vis m) (mhead m) bs" "map snd bs = st" using goodD(4) [OF g] by (auto simp: stack_ok_def)
  show e: "vis m (mhead m) = Some (0, None) \<longleftrightarrow> st = []" using chain_Nil [OF goodD(5) [OF g] bs(1)] bs(2) by auto
  have hd: "mhead m \<noteq> 0" using counts_head_alive [OF goodD(1) [OF g]] shapeD(1) [OF goodD(5) [OF g]] by auto
  have "vis m (mhead m) = Some (0, None) \<longleftrightarrow> (\<exists>y. vis m (mhead m) = Some (0, y))"
    using shapeD(4) [OF goodD(5) [OF g]] by blast
  then show "lf_head_empty m \<longleftrightarrow> st = []" using e hd by (auto simp: lf_head_empty_def SharedPtr_get_def vis_def)
  have p: "packed_ptr (m_packed m + 1) = mhead m" "cnt (m_packed m + 1) = Suc (mcnt m)"
    using packed_Suc [of "m_packed m"] less by simp_all
  have "pub (vis m) (mhead m)"
  proof (cases bs)
    case Nil
    then show ?thesis using e bs by (simp add: pub_def)
  next
    case (Cons c bs')
    then obtain d q x where v: "d \<noteq> 0" "vis m (mhead m) = Some (d, Some (q, x))" "chain (vis m) q bs'"
      using bs(1) by (cases c) auto
    have "vis m q \<noteq> None" using v(3) by (cases bs') auto
    then have "q \<noteq> 0" using shapeD(1) [OF goodD(5) [OF g]] by auto
    then show ?thesis using v by (auto simp: pub_def)
  qed
  then show "fast_pc_ok (vis m) (F_Data (m_packed m + 1))" using p less by auto
  show "packed_ptr (m_packed m + 1) = mhead m" by (rule p)
  show "sub_eff m m' {#} {#mhead m#} {#} {#mhead m#}"
    unfolding m'_def
    by (rule fast_Add_eff(1) [OF good_safe [OF g n i, of "{#}" "owed (pcs i)" "{#}" "gens (pcs i)"] less])
      (simp_all add: gens_le)
qed

lemma fast_pc_cases:
  assumes "fast_pc_ok v p"
  obtains "p = F_Add" | known where "p = F_Data known"
  using assms by (cases p) auto

lemma access_IsEmpty:
  assumes g: "lf_good n m pcs status st" and n: "n \<le> 500" and pc: "pcs i = S_IsEmpty p"
    and acc: "lf_access moved weak (pcs i) m = Some (r, m')"
  shows "access_ok n m pcs status st i r m'"
proof -
  have i: "i < n" using busy_lt [OF g] pc by simp
  have l: "local_ok (vis m) (S_IsEmpty p) (status i)" using goodD(7) [OF g, of i] pc by simp
  then have "fast_pc_ok (vis m) p" by simp
  then show ?thesis
  proof (cases rule: fast_pc_cases)
    case 1
    have r: "r = Go (S_IsEmpty (F_Data (m_packed m + 1)))" "m' = m\<lparr>m_packed := m_packed m + 1\<rparr>"
      using acc pc 1 by (simp_all add: Let_def)
    have f: "sub_eff m m' {#} {#mhead m#} {#} {#mhead m#}" "fast_pc_ok (vis m) (F_Data (m_packed m + 1))"
      "packed_ptr (m_packed m + 1) = mhead m" "vis m (mhead m) = Some (0, None) \<longleftrightarrow> st = []"
      using fast_add [OF g n i] pc 1 r(2) by auto
    have "minor m m' (pcs i) (S_IsEmpty (F_Data (m_packed m + 1)))" using f(1,3) pc 1 by (intro minorI) simp_all
    moreover have "status i = Called Op_IsEmpty" using l 1 by simp
    ultimately have "next_ok n m' pcs status st i True (S_IsEmpty (F_Data (m_packed m + 1)))"
      using f(2-4) by (intro marked [OF g i, where op = Op_IsEmpty and r = "R_IsEmpty (st = [])"]) simp_all
    then show ?thesis using r pc 1 by (simp add: access_ok_def)
  next
    case (2 known)
    have s: "safe m {#packed_ptr known#} {#packed_ptr known#}"
      by (rule good_safe [OF g n i, of _ "{#}" _ "{#}"]) (simp_all add: pc 2)
    obtain f where f: "fast_step (F_Data known) m = (Return f, m)" "fs_known f = known" "fast_ok (vis m) f"
      "fs_data f = 0 \<longleftrightarrow> vis m (packed_ptr known) = Some (0, None)"
      using fast_data [OF s] \<open>fast_pc_ok (vis m) p\<close> 2 by blast
    let ?q = "lf_end (R_IsEmpty (fs_data f = 0)) f"
    have r: "r = Go ?q" "m' = m" using acc pc 2 f(1) by (simp_all del: fast_step.simps)
    have "minor m m (pcs i) ?q" using good_refl [OF g] lf_end_ok [OF f(3)] pc 2 f(2) by (intro minorI) simp_all
    moreover have "local_ok (vis m) ?q (status i)" using l 2 f(4) lf_end_ok(1) [OF f(3)] by simp
    ultimately have "next_ok n m pcs status st i False ?q" by (rule silent [OF g i])
    then show ?thesis using r pc 2 by (simp add: access_ok_def)
  qed
qed

lemma access_Pop:
  assumes g: "lf_good n m pcs status st" and n: "n \<le> 500" and pc: "pcs i = S_Pop p"
    and acc: "lf_access moved weak (pcs i) m = Some (r, m')"
  shows "access_ok n m pcs status st i r m'"
proof -
  have i: "i < n" using busy_lt [OF g] pc by simp
  have l: "pop_fast (vis m) p (status i)" using goodD(7) [OF g, of i] pc by simp
  then have "fast_pc_ok (vis m) p" by (simp add: pop_fast_def)
  then show ?thesis
  proof (cases rule: fast_pc_cases)
    case 1
    let ?q = "S_Pop (F_Data (m_packed m + 1)) :: 'a lf_pc"
    have r: "r = Go ?q" "m' = m\<lparr>m_packed := m_packed m + 1\<rparr>" using acc pc 1 by (simp_all add: Let_def)
    have f: "sub_eff m m' {#} {#mhead m#} {#} {#mhead m#}" "fast_pc_ok (vis m) (F_Data (m_packed m + 1))"
      "packed_ptr (m_packed m + 1) = mhead m" "lf_head_empty m \<longleftrightarrow> st = []" "vis m (mhead m) = Some (0, None) \<longleftrightarrow> st = []"
      using fast_add [OF g n i] pc 1 r(2) by auto
    have mi: "minor m m' (pcs i) ?q" using f(1,3) pc 1 by (intro minorI) simp_all
    have c: "status i = Called Op_Pop" using l 1 by (simp add: pop_fast_def)
    have q: "local_ok (vis m) ?q (pop_status (st = []))" using f(2,3,5) by (simp add: pop_fast_def)
    have "next_ok n m' pcs status st i (st = []) ?q"
    proof (cases "st = []")
      case True
      then show ?thesis using marked [OF g i mi c, of "R_Pop None"] q by (simp add: pop_status_def)
    next
      case False
      then show ?thesis using silent [OF g i mi] c q by (simp add: pop_status_def)
    qed
    then show ?thesis using r pc 1 f(4) by (simp add: access_ok_def)
  next
    case (2 known)
    have s: "safe m {#packed_ptr known#} {#packed_ptr known#}"
      by (rule good_safe [OF g n i, of _ "{#}" _ "{#}"]) (simp_all add: pc 2)
    obtain f where f: "fast_step (F_Data known) m = (Return f, m)" "fs_known f = known" "fast_ok (vis m) f"
      "fs_data f = 0 \<longleftrightarrow> vis m (packed_ptr known) = Some (0, None)"
      using fast_data [OF s] \<open>fast_pc_ok (vis m) p\<close> 2 by blast
    have r: "r = Go (lf_top f)" "m' = m" using acc pc 2 f(1) by (simp_all del: fast_step.simps)
    have "minor m m (pcs i) (lf_top f)" using good_refl [OF g] lf_top_ok [OF f(3)] pc 2 f(2) by (intro minorI) simp_all
    moreover have "local_ok (vis m) (lf_top f) (status i)" using l 2 f(4) lf_top_ok(1) [OF f(3)] by (simp add: pop_fast_def)
    ultimately have "next_ok n m pcs status st i False (lf_top f)" by (rule silent [OF g i])
    then show ?thesis using r pc 2 by (simp add: access_ok_def)
  qed
qed

lemma access_Again:
  assumes g: "lf_good n m pcs status st" and n: "n \<le> 500" and pc: "pcs i = S_Again t p"
    and acc: "lf_access moved weak (pcs i) m = Some (r, m')"
  shows "access_ok n m pcs status st i r m'"
proof -
  have i: "i < n" using busy_lt [OF g] pc by simp
  have l: "fast_ok (vis m) t" "pop_fast (vis m) p (status i)" using goodD(7) [OF g, of i] pc by simp_all
  then have "fast_pc_ok (vis m) p" by (simp add: pop_fast_def)
  then show ?thesis
  proof (cases rule: fast_pc_cases)
    case 1
    let ?q = "S_Again t (F_Data (m_packed m + 1)) :: 'a lf_pc"
    have r: "r = Go ?q" "m' = m\<lparr>m_packed := m_packed m + 1\<rparr>" using acc pc 1 by (simp_all add: Let_def)
    have f: "sub_eff m m' {#} {#mhead m#} {#} {#mhead m#}" "fast_pc_ok (vis m) (F_Data (m_packed m + 1))"
      "packed_ptr (m_packed m + 1) = mhead m" "lf_head_empty m \<longleftrightarrow> st = []" "vis m (mhead m) = Some (0, None) \<longleftrightarrow> st = []"
      using fast_add [OF g n i] pc 1 r(2) by auto
    have mi: "minor m m' (pcs i) ?q"
      using sub_eff_frame [OF f(1), of "fshare t" "fshare t"] f(3) pc 1 by (intro minorI) (simp_all add: add_mset_commute)
    have c: "status i = Called Op_Pop" using l 1 by (simp add: pop_fast_def)
    have q: "local_ok (vis m) ?q (pop_status (st = []))" using f(2,3,5) l(1) by (simp add: pop_fast_def)
    have "next_ok n m' pcs status st i (st = []) ?q"
    proof (cases "st = []")
      case True
      then show ?thesis using marked [OF g i mi c, of "R_Pop None"] q by (simp add: pop_status_def)
    next
      case False
      then show ?thesis using silent [OF g i mi] c q by (simp add: pop_status_def)
    qed
    then show ?thesis using r pc 1 f(4) by (simp add: access_ok_def)
  next
    case (2 known)
    have s: "safe m {#packed_ptr known#} {#packed_ptr known#}"
      by (rule good_safe [OF g n i, of _ "fshare t" _ "fshare t"]) (simp_all add: pc 2 add_mset_commute)
    obtain f where f: "fast_step (F_Data known) m = (Return f, m)" "fs_known f = known" "fast_ok (vis m) f"
      "fs_data f = 0 \<longleftrightarrow> vis m (packed_ptr known) = Some (0, None)"
      using fast_data [OF s] \<open>fast_pc_ok (vis m) p\<close> 2 by blast
    let ?q = "S_AssignTop f (X_Cas t (fs_known t)) :: 'a lf_pc"
    have d: "destroy_ok (vis m) (X_Cas t (fs_known t))" "lf_again t f = ?q"
      using destroy_entry_ok [OF l(1)] by (simp_all add: lf_again_def fast_move_def)
    have r: "r = Go ?q" "m' = m" using acc pc 2 f(1) d(2) by (simp_all del: fast_step.simps)
    have "minor m m (pcs i) ?q" using good_refl [OF g] pc 2 f(2) by (intro minorI) (simp_all add: add_mset_commute)
    moreover have "local_ok (vis m) ?q (status i)" using l 2 f(3,4) d(1) by (simp add: pop_fast_def)
    ultimately have "next_ok n m pcs status st i False ?q" by (rule silent [OF g i])
    then show ?thesis using r pc 2 by (simp add: access_ok_def)
  qed
qed

section \<open>Push up to compareExchange\<close>

lemma minor_freshI:
  assumes e: "sub_eff m m' A B G H" and o: "owed pc = {#b#} + A" "owed pc' = {#b#} + B" "gens pc = G" "gens pc' = H"
    and f: "fresh pc = Some b" "fresh pc' = Some b" "won pc' = None"
  shows "minor m m' pc pc'"
proof -
  have "sub_eff m m' (owed pc) (owed pc') (gens pc) (gens pc')"
    using sub_eff_frame [OF e, of "{#b#}" "{#}"] o by (simp add: ac_simps)
  moreover have "src m A B" using e by (simp add: sub_eff_def)
  ultimately show ?thesis using o(1,2) f unfolding minor_def by (metis option.inject)
qed

lemma access_Get:
  assumes g: "lf_good n m pcs status st" and n: "n \<le> 500" and pc: "pcs i = S_Get b p"
    and acc: "lf_access moved weak (pcs i) m = Some (r, m')"
  shows "access_ok n m pcs status st i r m'"
proof -
  have i: "i < n" using busy_lt [OF g] pc by simp
  have l: "get_ok p" "new_at (vis m) b (status i)" using goodD(7) [OF g, of i] pc by simp_all
  obtain r' m2 where "get_step weak p m = (r', m2)" by (rule prod.exhaust)
  with acc pc have r: "get_step weak p m = (r', m')" "r = bind_sub (S_Get b) (\<lambda>c. Go (S_Assign b c)) r'" by auto
  have s: "safe m (owed_get p) (gen_get p)"
    by (rule good_safe [OF g n i, of _ "{#b#}" _ "{#}"]) (simp_all add: pc gens_get_le)
  have "mcnt m < 1000" if "p = G_Add" by (rule mcnt_bound_Add [OF goodD(1) [OF g] n i]) (use pc that in simp)
  note post = get_step_ok [OF s l(1) this r(1)]
  show ?thesis
  proof (cases r')
    case (Go q)
    have "minor m m' (pcs i) (S_Get b q)" using post pc Go by (intro minor_freshI [of m m' "owed_get p" "owed_get q"]) simp_all
    then have "next_ok n m' pcs status st i False (S_Get b q)"
      by (rule silent [OF g i]) (use post l(2) Go in simp)
    then show ?thesis using r(2) pc Go by (simp add: access_ok_def)
  next
    case (Return c)
    have "minor m m' (pcs i) (S_Assign b c)" using post pc Return by (intro minor_freshI [of m m' "owed_get p" "{#c#}"]) simp_all
    then have "next_ok n m' pcs status st i False (S_Assign b c)"
      by (rule silent [OF g i]) (use post l(2) Return in simp)
    then show ?thesis using r(2) pc Return by (simp add: access_ok_def)
  qed (use post in simp)
qed

lemma new_at_mem:
  assumes "new_at (vis m) b s"
  obtains blk nd where "m_blocks m b = Some blk" "m_nodes m (cb_data blk) = Some nd"
    "vis m b = Some (cb_data blk, Some (nd_prev nd, nd_data nd))" "cb_data blk \<noteq> 0" "is_push (nd_data nd) s"
  using assms by (auto simp: new_at_def vis_def)

lemma access_Assign:
  assumes g: "lf_good n m pcs status st" and n: "n \<le> 500" and pc: "pcs i = S_Assign b c"
    and acc: "lf_access moved weak (pcs i) m = Some (r, m')"
  shows "access_ok n m pcs status st i r m'"
proof -
  have i: "i < n" using busy_lt [OF g] pc by simp
  have l: "new_at (vis m) b (status i)" "c \<noteq> 0" using goodD(7) [OF g, of i] pc by simp_all
  obtain blk nd where blk: "m_blocks m b = Some blk" "m_nodes m (cb_data blk) = Some nd"
    "vis m b = Some (cb_data blk, Some (nd_prev nd, nd_data nd))" "cb_data blk \<noteq> 0" "is_push (nd_data nd) (status i)"
    by (rule new_at_mem [OF l(1)])
  show ?thesis
  proof (cases "nd_prev nd = c")
    case True
    have nd: "nd\<lparr>nd_prev := c\<rparr> = nd" "(m_nodes m)(cb_data blk \<mapsto> nd) = m_nodes m" using True blk(2) by auto
    have r: "r = Go (S_Unref b c)" "m' = m" using acc pc blk(1,2) True l(2) nd by (auto simp: unref_entry_def move_assign_def)
    have "minor m m (pcs i) (S_Unref b c)"
      using pc good_refl [OF g] by (intro minor_freshI [of m m "{#c#}" "{#c#}"]) simp_all
    moreover have "local_ok (vis m) (S_Unref b c) (status i)" using blk(3-5) True l(2) by (simp add: linked_at_def)
    ultimately have "next_ok n m pcs status st i False (S_Unref b c)" by (rule silent [OF g i])
    then show ?thesis using r pc by (simp add: access_ok_def)
  next
    case False
    let ?q = "if nd_prev nd = 0 then S_Expected b else S_Unref b (nd_prev nd) :: 'a lf_pc"
    have r: "r = Go ?q" "m' = m\<lparr>m_nodes := (m_nodes m)(cb_data blk \<mapsto> nd\<lparr>nd_prev := c\<rparr>)\<rparr>"
      using acc pc blk(1,2) False by (auto simp: unref_entry_def move_assign_def)
    have "next_ok n m' pcs status st i False ?q"
      using assign_good [OF g pc blk(1,2)] unfolding next_ok_def r(2)
      by (intro exI [of _ "status i"] exI [of _ st]) (simp only: if_False simp_thms)
    then show ?thesis using r pc by (simp add: access_ok_def)
  qed
qed

lemma access_Unref:
  assumes g: "lf_good n m pcs status st" and n: "n \<le> 500" and pc: "pcs i = S_Unref b u"
    and acc: "lf_access moved weak (pcs i) m = Some (r, m')"
  shows "access_ok n m pcs status st i r m'"
proof -
  have i: "i < n" using busy_lt [OF g] pc by simp
  have l: "linked_at (vis m) b (status i)" using goodD(7) [OF g, of i] pc by simp
  obtain r' m2 where "unref_step u m = (r', m2)" by (rule prod.exhaust)
  with acc pc have r: "unref_step u m = (r', m')" "r = bind_sub (S_Unref b) (\<lambda>_. Go (S_Expected b)) r'" by auto
  have s: "safe m {#u#} {#}" by (rule good_safe [OF g n i, of _ "{#b#}" _ "{#}"]) (simp_all add: pc add_mset_commute)
  note post = unref_step_ok [OF s r(1)]
  show ?thesis
  proof (cases r')
    case (Go c)
    have "minor m m' (pcs i) (S_Unref b c)" using post pc Go by (intro minor_freshI [of m m' "{#u#}" "{#c#}"]) simp_all
    then have "next_ok n m' pcs status st i False (S_Unref b c)" by (rule silent [OF g i]) (simp add: l)
    then show ?thesis using r(2) pc Go by (simp add: access_ok_def)
  next
    case (Return x)
    have "minor m m' (pcs i) (S_Expected b)" using post pc Return by (intro minor_freshI [of m m' "{#u#}" "{#}"]) simp_all
    then have "next_ok n m' pcs status st i False (S_Expected b)" by (rule silent [OF g i]) (simp add: l)
    then show ?thesis using r(2) pc Return by (simp add: access_ok_def)
  qed (use post in simp)
qed

lemma access_Expected:
  assumes g: "lf_good n m pcs status st" and n: "n \<le> 500" and pc: "pcs i = S_Expected b"
    and acc: "lf_access moved weak (pcs i) m = Some (r, m')"
  shows "access_ok n m pcs status st i r m'"
proof -
  have i: "i < n" using busy_lt [OF g] pc by simp
  have l: "linked_at (vis m) b (status i)" using goodD(7) [OF g, of i] pc by simp
  have "new_at (vis m) b (status i)" using l by (auto simp: linked_at_def new_at_def)
  then obtain blk nd where blk: "m_blocks m b = Some blk" "m_nodes m (cb_data blk) = Some nd"
    "vis m b = Some (cb_data blk, Some (nd_prev nd, nd_data nd))" "cb_data blk \<noteq> 0" "is_push (nd_data nd) (status i)"
    by (rule new_at_mem)
  have q: "nd_prev nd \<noteq> 0" using l blk(3) by (auto simp: linked_at_def)
  have "vis m (nd_prev nd) \<noteq> None"
    using counts_vrefs_alive [OF goodD(1) [OF g]] vrefs_prev [OF goodD(6) [OF g] blk(3) q] by blast
  then obtain qb where qb: "m_blocks m (nd_prev nd) = Some qb" by (auto simp: vis_None)
  then obtain y where "vis m (nd_prev nd) = Some (cb_data qb, y)" by (simp add: vis_def)
  have b: "b \<noteq> 0" using shapeD(1) [OF goodD(5) [OF g] blk(3)] .
  let ?q = "S_Cas By_Push \<lparr>cx_expected = cb_data qb, cx_newOne = b\<rparr> K_Same :: 'a lf_pc"
  have r: "r = Go ?q" "m' = m" using acc pc blk(1,2) q qb by (simp_all add: SharedPtr_get_def)
  have "minor m m (pcs i) ?q"
    using pc good_refl [OF g] b by (intro minor_freshI [of m m "{#}" "{#}"]) (simp_all add: ref1_def)
  moreover have "local_ok (vis m) ?q (status i)"
    using blk(3-5) q b \<open>vis m (nd_prev nd) = Some (cb_data qb, y)\<close> by (simp add: pushing_def)
  ultimately have "next_ok n m pcs status st i False ?q" by (rule silent [OF g i])
  then show ?thesis using r pc by (simp add: access_ok_def)
qed

section \<open>Pop around compareExchange\<close>

lemma popping_node:
  assumes "popping (vis m) t" "shape (vis m)"
  obtains nd where "m_nodes m (fs_data t) = Some nd" "nd_prev nd \<noteq> 0"
    "vis m (packed_ptr (fs_known t)) = Some (fs_data t, Some (nd_prev nd, nd_data nd))"
proof -
  have "pub (vis m) (packed_ptr (fs_known t))" "map_option fst (vis m (packed_ptr (fs_known t))) = Some (fs_data t)" "fs_data t \<noteq> 0"
    using assms(1) by (simp_all add: popping_def fast_ok_def)
  then obtain q x where "q \<noteq> 0" "vis m (packed_ptr (fs_known t)) = Some (fs_data t, Some (q, x))" by (auto simp: pub_def)
  then show thesis using that by (auto simp: vis_def)
qed

lemma access_Prev:
  assumes g: "lf_good n m pcs status st" and n: "n \<le> 500" and pc: "pcs i = S_Prev t"
    and acc: "lf_access moved weak (pcs i) m = Some (r, m')"
  shows "access_ok n m pcs status st i r m'"
proof -
  have i: "i < n" using busy_lt [OF g] pc by simp
  have l: "popping (vis m) t" "status i = Called Op_Pop" using goodD(7) [OF g, of i] pc by simp_all
  obtain nd where nd: "m_nodes m (fs_data t) = Some nd" "nd_prev nd \<noteq> 0"
    "vis m (packed_ptr (fs_known t)) = Some (fs_data t, Some (nd_prev nd, nd_data nd))"
    by (rule popping_node [OF l(1) goodD(5) [OF g]])
  let ?q = "S_Copy t (nd_prev nd) :: 'a lf_pc"
  have r: "r = Go ?q" "m' = m" using acc pc nd(1,2) by (simp_all add: copy_entry_def)
  have "minor m m (pcs i) ?q" using good_refl [OF g] pc by (intro minorI) simp_all
  moreover have "local_ok (vis m) ?q (status i)" using l nd(3) by simp
  ultimately have "next_ok n m pcs status st i False ?q" by (rule silent [OF g i])
  then show ?thesis using r pc by (simp add: access_ok_def)
qed

lemma access_Copy:
  assumes g: "lf_good n m pcs status st" and n: "n \<le> 500" and pc: "pcs i = S_Copy t b"
    and acc: "lf_access moved weak (pcs i) m = Some (r, m')"
  shows "access_ok n m pcs status st i r m'"
proof -
  have i: "i < n" using busy_lt [OF g] pc by simp
  have "local_ok (vis m) (S_Copy t b) (status i)" using goodD(7) [OF g, of i] pc by simp
  then obtain x where l: "popping (vis m) t" "status i = Called Op_Pop"
    "vis m (packed_ptr (fs_known t)) = Some (fs_data t, Some (b, x))" by auto
  obtain nd where "m_nodes m (fs_data t) = Some nd" "nd_prev nd \<noteq> 0"
    "vis m (packed_ptr (fs_known t)) = Some (fs_data t, Some (nd_prev nd, nd_data nd))"
    by (rule popping_node [OF l(1) goodD(5) [OF g]])
  then have b: "b \<noteq> 0" using l(3) by simp
  have ref: "b \<in># vrefs (vis m)" by (rule vrefs_prev [OF goodD(6) [OF g] l(3) b])
  have alive: "\<forall>c. vis m c \<noteq> None \<longrightarrow> 0 < rc m c" using goodD(8) [OF g] by blast
  have rc0: "0 < rc m b" using counts_vrefs_alive [OF goodD(1) [OF g] ref] alive by blast
  have small: "rc m b < 2 ^ 31" by (rule rc_bound [OF goodD(1,2) [OF g] n])
  then have "rc m b + unat (1::size_t) < 2 ^ 64" by simp
  then obtain prior m1 where add: "ref_add b 1 m = Some (prior, m1)" "unat prior = rc m b" "vis m1 = vis m"
    "m_packed m1 = m_packed m" "rc m1 = (rc m)(b := rc m b + unat (1::size_t))" by (rule ref_add_ok [OF rc0])
  have p: "(ucast prior :: int32) \<noteq> 0" using int32_prior [of prior] add(2) small rc0 by simp
  let ?q = "S_Cas (By_Pop t) \<lparr>cx_expected = fs_data t, cx_newOne = b\<rparr> K_Same :: 'a lf_pc"
  have r: "r = Go ?q" "m' = m1" using acc pc add(1) p by (simp_all add: copy_step_def)
  have "sub_eff m m1 (fshare t) (fshare t + replicate_mset 1 b) (fshare t) (fshare t)"
    using add ref by (intro add_share [OF rc0 _ _ _ alive]) simp_all
  then have "minor m m1 (pcs i) ?q" using pc b by (intro minorI) (simp_all add: ref1_def add_mset_commute)
  moreover have "local_ok (vis m) ?q (status i)" using l b by (simp add: popping_cas_def)
  ultimately have "next_ok n m1 pcs status st i False ?q" by (rule silent [OF g i])
  then show ?thesis using r pc by (simp add: access_ok_def)
qed

lemma access_AssignTop:
  assumes g: "lf_good n m pcs status st" and n: "n \<le> 500" and pc: "pcs i = S_AssignTop t p"
    and acc: "lf_access moved weak (pcs i) m = Some (r, m')"
  shows "access_ok n m pcs status st i r m'"
proof -
  have i: "i < n" using busy_lt [OF g] pc by simp
  have l: "fast_ok (vis m) t" "destroy_ok (vis m) p" "status i = pop_status (fs_data t = 0)"
    using goodD(7) [OF g, of i] pc by simp_all
  obtain r' m2 where "destroy_step weak p m = (r', m2)" by (rule prod.exhaust)
  with acc pc have r: "destroy_step weak p m = (r', m')" "r = bind_sub (S_AssignTop t) (\<lambda>_. Go (lf_top t)) r'" by auto
  have s: "safe m (owed_destroy p) (gen_destroy p)"
    by (rule good_safe [OF g n i, of _ "fshare t" _ "fshare t"]) (simp_all add: pc gens_destroy_le)
  note post = destroy_step_ok [OF s l(2) r(1)]
  show ?thesis
  proof (cases r')
    case (Go q)
    have "minor m m' (pcs i) (S_AssignTop t q)"
      using post pc Go sub_eff_frame [of m m' "owed_destroy p" "owed_destroy q" "gen_destroy p" "gen_destroy q" "fshare t" "fshare t"]
      by (intro minorI) (simp_all add: ac_simps)
    then have "next_ok n m' pcs status st i False (S_AssignTop t q)" by (rule silent [OF g i]) (use l post Go in simp)
    then show ?thesis using r(2) pc Go by (simp add: access_ok_def)
  next
    case (Return x)
    have "minor m m' (pcs i) (lf_top t)"
      using post pc Return sub_eff_frame [of m m' "owed_destroy p" "{#}" "gen_destroy p" "{#}" "fshare t" "fshare t"] lf_top_ok [OF l(1)]
      by (intro minorI) (simp_all add: ac_simps)
    then have "next_ok n m' pcs status st i False (lf_top t)"
      by (rule silent [OF g i]) (use l lf_top_ok(1) [OF l(1)] in simp)
    then show ?thesis using r(2) pc Return by (simp add: access_ok_def)
  qed (use post in simp)
qed

lemma access_End:
  assumes g: "lf_good n m pcs status st" and n: "n \<le> 500" and pc: "pcs i = S_End res p"
    and acc: "lf_access moved weak (pcs i) m = Some (r, m')"
  shows "access_ok n m pcs status st i r m'"
proof -
  have i: "i < n" using busy_lt [OF g] pc by simp
  have l: "destroy_ok (vis m) p" "status i = Done res" using goodD(7) [OF g, of i] pc by simp_all
  obtain r' m2 where "destroy_step weak p m = (r', m2)" by (rule prod.exhaust)
  with acc pc have r: "destroy_step weak p m = (r', m')" "r = bind_sub (S_End res) (\<lambda>_. Go (S_Ret res)) r'" by auto
  have s: "safe m (owed_destroy p) (gen_destroy p)"
    by (rule good_safe [OF g n i, of _ "{#}" _ "{#}"]) (simp_all add: pc gens_destroy_le)
  note post = destroy_step_ok [OF s l(1) r(1)]
  show ?thesis
  proof (cases r')
    case (Go q)
    have "minor m m' (pcs i) (S_End res q)" using post pc Go by (intro minorI) simp_all
    then have "next_ok n m' pcs status st i False (S_End res q)" by (rule silent [OF g i]) (use l post Go in simp)
    then show ?thesis using r(2) pc Go by (simp add: access_ok_def)
  next
    case (Return x)
    have "minor m m' (pcs i) (S_Ret res)" using post pc Return by (intro minorI) simp_all
    then have "next_ok n m' pcs status st i False (S_Ret res)" by (rule silent [OF g i]) (use l in simp)
    then show ?thesis using r(2) pc Return by (simp add: access_ok_def)
  qed (use post in simp)
qed

lemma access_Drop:
  assumes g: "lf_good n m pcs status st" and n: "n \<le> 500" and pc: "pcs i = S_Drop ok t u"
    and acc: "lf_access moved weak (pcs i) m = Some (r, m')"
  shows "access_ok n m pcs status st i r m'"
proof -
  have i: "i < n" using busy_lt [OF g] pc by simp
  have l: "popping (vis m) t" "if ok then won_ok (vis m) t (status i) else status i = Called Op_Pop"
    using goodD(7) [OF g, of i] pc by simp_all
  obtain r' m2 where "unref_step u m = (r', m2)" by (rule prod.exhaust)
  with acc pc have r: "unref_step u m = (r', m')" "r = bind_sub (S_Drop ok t) (\<lambda>_. Go (lf_popped ok t)) r'" by auto
  have s: "safe m {#u#} {#}"
    by (rule good_safe [OF g n i, of _ "fshare t" _ "fshare t"]) (simp_all add: pc add_mset_commute)
  note post = unref_step_ok [OF s r(1)]
  show ?thesis
  proof (cases r')
    case (Go c)
    have "minor m m' (pcs i) (S_Drop ok t c)"
      using post pc Go sub_eff_frame [of m m' "{#u#}" "{#c#}" "{#}" "{#}" "fshare t" "fshare t"]
      by (auto simp: minor_def add_mset_commute)
    then have "next_ok n m' pcs status st i False (S_Drop ok t c)" by (rule silent [OF g i]) (use l in simp)
    then show ?thesis using r(2) pc Go by (simp add: access_ok_def)
  next
    case (Return x)
    have "minor m m' (pcs i) (lf_popped ok t)"
      using post pc Return sub_eff_frame [of m m' "{#u#}" "{#}" "{#}" "{#}" "fshare t" "fshare t"]
      by (auto simp: minor_def lf_popped_def add_mset_commute)
    then have "next_ok n m' pcs status st i False (lf_popped ok t)"
      by (rule silent [OF g i]) (use l in \<open>auto simp: lf_popped_def popping_def pop_fast_def split: if_splits\<close>)
    then show ?thesis using r(2) pc Return by (simp add: access_ok_def)
  qed (use post in simp)
qed

lemma access_Move:
  assumes g: "lf_good n m pcs status st" and n: "n \<le> 500" and pc: "pcs i = S_Move t"
    and acc: "lf_access moved weak (pcs i) m = Some (r, m')"
  shows "access_ok n m pcs status st i r m'"
proof -
  have l: "popping (vis m) t" using goodD(7) [OF g, of i] pc by simp
  obtain nd where nd: "m_nodes m (fs_data t) = Some nd" by (rule popping_node [OF l goodD(5) [OF g]])
  let ?q = "lf_end (R_Pop (Some (nd_data nd))) t"
  have r: "r = Go ?q" "m' = m\<lparr>m_nodes := (m_nodes m)(fs_data t \<mapsto> nd\<lparr>nd_data := moved (nd_data nd)\<rparr>)\<rparr>"
    using acc pc nd by simp_all
  have "next_ok n m' pcs status st i False ?q"
    using move_good [OF g pc nd] unfolding next_ok_def r(2) by (intro exI [of _ "status i"] exI [of _ st]) (simp only: if_False simp_thms)
  then show ?thesis using r pc by (simp add: access_ok_def)
qed

lemma access_Ret:
  assumes g: "lf_good n m pcs status st" and n: "n \<le> 500" and pc: "pcs i = S_Ret res"
    and acc: "lf_access moved weak (pcs i) m = Some (r, m')"
  shows "access_ok n m pcs status st i r m'"
proof -
  have i: "i < n" using busy_lt [OF g] pc by simp
  have "minor m m (pcs i) S_Idle" using good_refl [OF g] pc by (intro minorI) simp_all
  then have "lf_good n m (pcs(i := S_Idle)) (status(i := Free)) st" by (rule minor_good [OF g i]) simp
  moreover have "status i = Done res" using goodD(7) [OF g, of i] pc by simp
  ultimately show ?thesis using acc pc by (auto simp: access_ok_def)
qed

section \<open>compareExchange\<close>

lemma cas_local:
  assumes "local_ok v (S_Cas c a p) s" "cas_ok v (cx_expected a) q" "swapped q = swapped p" "q \<noteq> K_Same"
    "p = K_Same \<Longrightarrow> map_option fst (v (cx_newOne a)) \<noteq> Some (cx_expected a)"
  shows "local_ok v (S_Cas c a q) s"
proof (cases c)
  case By_Push
  have "pushing v a p s" using assms(1) By_Push by simp
  then have "pushing v a q s" using assms(2-5) by (cases "p = K_Same") (auto simp: pushing_def)
  then show ?thesis using By_Push by simp
next
  case (By_Pop t)
  have "popping_cas v t a p s" using assms(1) By_Pop by simp
  then have "popping_cas v t a q s" using assms(2-5) by (cases "p = K_Same") (auto simp: popping_cas_def)
  then show ?thesis using By_Pop by simp
qed

lemma cas_newOne:
  assumes "local_ok v (S_Cas c a p) s"
  shows "swapped p \<longleftrightarrow> cx_newOne a = 0"
  using assms by (cases c) (auto simp: pushing_def popping_cas_def split: if_splits)

lemma cas_minor:
  assumes l: "local_ok v (S_Cas c a p) s" and e: "sub_eff m m' (owed_cas p) (owed_cas q) (gen_cas p) (gen_cas q)"
    and sw: "swapped q = swapped p"
  shows "minor m m' (S_Cas c a p :: 'a lf_pc) (S_Cas c a q)"
proof (cases c)
  case By_Push
  show ?thesis
  proof (cases "swapped p")
    case True
    then show ?thesis using cas_newOne [OF l] e sw By_Push by (intro minorI) (simp_all add: ref1_def)
  next
    case False
    then show ?thesis using cas_newOne [OF l] sw By_Push by (intro minor_freshI [OF e]) (simp_all add: ref1_def)
  qed
next
  case (By_Pop t)
  have "sub_eff m m' (owed_cas p + (fshare t + ref1 (cx_newOne a))) (owed_cas q + (fshare t + ref1 (cx_newOne a)))
      (gen_cas p + fshare t) (gen_cas q + fshare t)" by (rule sub_eff_frame [OF e])
  then show ?thesis using By_Pop sw by (simp add: minor_def ac_simps)
qed

text \<open>The early return for equal pointers is not taken, and the assertion on the new head holds.\<close>

lemma cas_same_data:
  assumes g: "lf_good n m pcs status st" and pc: "pcs i = S_Cas c a K_Same"
  shows "map_option fst (vis m (cx_newOne a)) \<noteq> Some (cx_expected a)"
proof
  assume "map_option fst (vis m (cx_newOne a)) = Some (cx_expected a)"
  then obtain y where y: "vis m (cx_newOne a) = Some (cx_expected a, y)" by auto
  have l: "local_ok (vis m) (S_Cas c a K_Same) (status i)" using goodD(7) [OF g, of i] pc by simp
  show False
  proof (cases c)
    case By_Push
    then obtain d q x z where p: "vis m (cx_newOne a) = Some (d, Some (q, x))" "vis m q = Some (cx_expected a, z)"
      using l by (auto simp: pushing_def)
    have "q = cx_newOne a" by (rule shape_inj [OF goodD(5) [OF g] p(2) y])
    then show False using shape_no_loop [OF goodD(5) [OF g]] p(1) by blast
  next
    case (By_Pop t)
    then obtain x where p: "vis m (packed_ptr (fs_known t)) = Some (cx_expected a, Some (cx_newOne a, x))"
      using l by (auto simp: popping_cas_def)
    have "packed_ptr (fs_known t) = cx_newOne a" by (rule shape_inj [OF goodD(5) [OF g] p y])
    then show False using shape_no_loop [OF goodD(5) [OF g]] p by metis
  qed
qed

lemma swap_differs:
  assumes g: "lf_good n m pcs status st" and pc: "pcs i = S_Cas c a (K_Swap h ep)"
  shows "cx_newOne a \<noteq> 0" "packed_ptr (pack (cx_newOne a)) = cx_newOne a" "cx_newOne a \<noteq> packed_ptr ep"
    "holder_ok (vis m) (cx_expected a) h" "packed_ptr ep = packed_ptr (fs_known h)"
proof -
  have i: "i < n" using busy_lt [OF g] pc by simp
  have l: "local_ok (vis m) (S_Cas c a (K_Swap h ep)) (status i)" using goodD(7) [OF g, of i] pc by simp
  show z: "cx_newOne a \<noteq> 0" using cas_newOne [OF l] by simp
  have "vis m (cx_newOne a) \<noteq> None"
    using counts_owed_alive [OF goodD(1) [OF g] i, of "cx_newOne a"] pc z by (simp add: ref1_def)
  then show "packed_ptr (pack (cx_newOne a)) = cx_newOne a"
    using shapeD(2) [OF goodD(5) [OF g], of "cx_newOne a"] packed_pack(1) by auto
  have "cas_ok (vis m) (cx_expected a) (K_Swap h ep)" using l by (cases c) (auto simp: pushing_def popping_cas_def)
  then show h: "holder_ok (vis m) (cx_expected a) h" "packed_ptr ep = packed_ptr (fs_known h)" by simp_all
  show "cx_newOne a \<noteq> packed_ptr ep"
  proof (cases c)
    case By_Push
    then have "fresh (pcs i) = Some (cx_newOne a)" using pc by simp
    then have "count (owed (pcs i)) (cx_newOne a) = 1" by (rule fresh_alone(7) [OF g])
    then show ?thesis using pc By_Push z h(2) by (auto simp: ref1_def)
  next
    case (By_Pop t)
    then show ?thesis using l h by (auto simp: popping_cas_def holder_ok_def fast_ok_def)
  qed
qed

lemma access_Swap:
  assumes g: "lf_good n m pcs status st" and n: "n \<le> 500" and pc: "pcs i = S_Cas c a (K_Swap h ep)"
    and acc: "lf_access moved weak (pcs i) m = Some (r, m')"
  shows "access_ok n m pcs status st i r m'"
proof -
  have i: "i < n" using busy_lt [OF g] pc by simp
  have l: "local_ok (vis m) (S_Cas c a (K_Swap h ep)) (status i)" using goodD(7) [OF g, of i] pc by simp
  note d = swap_differs [OF g pc]
  show ?thesis
  proof (cases "m_packed m = ep \<and> \<not> weak")
    case True
    let ?q = "S_Cas c (a\<lparr>cx_newOne := 0\<rparr>) (K_Old h ep) :: 'a lf_pc"
    have r: "r = Go ?q" "m' = swap_to m (cx_newOne a)" using acc pc d True by (auto simp: swap_to_def)
    have "next_ok n m' pcs status st i True ?q"
    proof (cases c)
      case By_Push
      obtain x where x: "is_push x (status i)" "cx_newOne a \<noteq> mhead m"
        "lf_good n (swap_to m (cx_newOne a)) (pcs(i := S_Cas By_Push (a\<lparr>cx_newOne := 0\<rparr>) (K_Old h ep)))
           (status(i := Done R_Push)) (x # st)"
        using swap_push_good [OF g pc [unfolded By_Push]] True by blast
      have "\<exists>op. status i = Called op \<and> lf_apply op st = (R_Push, x # st)" using x(1) by (auto simp: is_push_def)
      then show ?thesis using x(3) By_Push r(2) by (auto simp: next_ok_def)
    next
      case (By_Pop t)
      obtain x st' where x: "st = x # st'" "status i = Called Op_Pop" "cx_newOne a \<noteq> mhead m"
        "lf_good n (swap_to m (cx_newOne a)) (pcs(i := S_Cas (By_Pop t) (a\<lparr>cx_newOne := 0\<rparr>) (K_Old h ep)))
           (status(i := Done (R_Pop (Some x)))) st'"
        using swap_pop_good [OF g pc [unfolded By_Pop]] True by blast
      then show ?thesis using By_Pop r(2) by (auto simp: next_ok_def)
    qed
    then show ?thesis using r pc by (simp add: access_ok_def)
  next
    case False
    obtain q where q: "cas_loop h (m_packed m) = Go q" "cas_ok (vis m) (cx_expected a) q" "owed_cas q = fshare h"
      "gen_cas q = fshare h" "\<not> swapped q" "q \<noteq> K_Same"
      using cas_loop_ok [OF d(4) mcnt_bound [OF goodD(1) [OF g] n]] by blast
    have r: "r = Go (S_Cas c a q)" "m' = m" using acc pc d False q(1) by auto
    have "minor m m (pcs i) (S_Cas c a q)"
      unfolding pc by (rule cas_minor [OF l]) (use good_refl [OF g] q in simp_all)
    moreover have "local_ok (vis m) (S_Cas c a q) (status i)" by (rule cas_local [OF l q(2)]) (use q in simp_all)
    ultimately have "next_ok n m pcs status st i False (S_Cas c a q)" by (rule silent [OF g i])
    moreover have "\<not> lf_marks (pcs i) m (S_Cas c a q)" using pc q(5) by (cases q) simp_all
    ultimately show ?thesis using r by (simp add: access_ok_def)
  qed
qed

lemma cas_return_ok:
  fixes st :: "'a lf_status"
  assumes l: "local_ok (vis m) (S_Cas c a p) st" and p: "p \<noteq> K_Same"
    and b: "b = swapped p" "sub_eff m m' (owed_cas p) {#} (gen_cas p) {#}"
  shows "minor m m' (S_Cas c a p) (lf_cas_return c (cx_newOne a) b) \<and> local_ok (vis m) (lf_cas_return c (cx_newOne a) b) st"
proof (cases c)
  case By_Push
  show ?thesis
  proof (cases "swapped p")
    case True
    then have "minor m m' (S_Cas c a p) (lf_cas_return c (cx_newOne a) b)"
      using cas_newOne [OF l] b By_Push by (intro minorI) (simp_all add: unref_entry_def ref1_def)
    then show ?thesis using True l b cas_newOne [OF l] By_Push by (simp add: unref_entry_def pushing_def)
  next
    case False
    then have "minor m m' (S_Cas c a p) (lf_cas_return c (cx_newOne a) b)"
      using cas_newOne [OF l] b By_Push by (intro minor_freshI [OF b(2)]) (simp_all add: ref1_def)
    moreover have "new_at (vis m) (cx_newOne a) st"
      using False l By_Push by (auto simp: pushing_def new_at_def)
    ultimately show ?thesis using False b By_Push by simp
  qed
next
  case (By_Pop t)
  have e: "sub_eff m m' (owed_cas p + (fshare t + ref1 (cx_newOne a))) ({#} + (fshare t + ref1 (cx_newOne a)))
      (gen_cas p + fshare t) ({#} + fshare t)" by (rule sub_eff_frame [OF b(2)])
  show ?thesis
  proof (cases "swapped p")
    case True
    then have "minor m m' (S_Cas c a p) (lf_cas_return c (cx_newOne a) b)"
      using e cas_newOne [OF l] b By_Pop by (simp add: minor_def unref_entry_def ref1_def lf_popped_def ac_simps)
    then show ?thesis using True l b cas_newOne [OF l] By_Pop by (simp add: unref_entry_def popping_cas_def lf_popped_def)
  next
    case False
    then have "minor m m' (S_Cas c a p) (lf_cas_return c (cx_newOne a) b)"
      using e cas_newOne [OF l] b By_Pop by (simp add: minor_def unref_entry_def ref1_def ac_simps)
    then show ?thesis using False l b cas_newOne [OF l] By_Pop by (simp add: unref_entry_def popping_cas_def)
  qed
qed

lemma access_Cas:
  assumes g: "lf_good n m pcs status st" and n: "n \<le> 500" and pc: "pcs i = S_Cas c a p"
    and acc: "lf_access moved weak (pcs i) m = Some (r, m')" and noswap: "\<And>h ep. p \<noteq> K_Swap h ep"
  shows "access_ok n m pcs status st i r m'"
proof -
  have i: "i < n" using busy_lt [OF g] pc by simp
  have l: "local_ok (vis m) (S_Cas c a p) (status i)" using goodD(7) [OF g, of i] pc by simp
  obtain r' a' m2 where "cas_step weak a p m = (r', a', m2)" by (metis prod.exhaust)
  with acc pc have r: "cas_step weak a p m = (r', a', m')"
    "r = bind_sub (S_Cas c a') (\<lambda>ok. Go (lf_cas_return c (cx_newOne a') ok)) r'" by auto
  have ok: "cas_ok (vis m) (cx_expected a) p" using l by (cases c) (auto simp: pushing_def popping_cas_def)
  have s: "safe m (ref1 (cx_newOne a) + owed_cas p) (gen_cas p)"
    by (rule good_safe [OF g n i, of _ "caller_share c" _ "caller_share c"])
      (simp_all add: pc ac_simps gens_cas_le subset_mset.add_increasing2)
  have add: "mcnt m < 1000 \<and> pub (vis m) (mhead m)" if "p = K_Fast F_Add"
  proof -
    have one: "size (gens (pcs i)) \<le> 1" using size_shares(6) [of c] pc that by simp
    then show ?thesis using fast_add(2,3) [OF g n i] mcnt_bound_Add [OF goodD(1) [OF g] n i] by simp
  qed
  have a': "a' = a" and post: "sub_post
    (\<lambda>q. q \<noteq> K_Same \<and> cas_ok (vis m) (cx_expected a) q \<and> swapped q = swapped p \<and>
      (p = K_Same \<longrightarrow> (\<exists>d. SharedPtr_get (cx_newOne a) m = Some d \<and> d \<noteq> cx_expected a)) \<and>
      sub_eff m m' (owed_cas p) (owed_cas q) (gen_cas p) (gen_cas q))
    (\<lambda>ok. (p = K_Same \<longrightarrow> SharedPtr_get (cx_newOne a) m = Some (cx_expected a)) \<and> (p \<noteq> K_Same \<longrightarrow> ok = swapped p) \<and>
      sub_eff m m' (owed_cas p) {#} (gen_cas p) {#}) r'"
    using cas_step_ok [OF s ok noswap mcnt_bound [OF goodD(1) [OF g] n] add r(1)] by simp_all
  have differs: "map_option fst (vis m (cx_newOne a)) \<noteq> Some (cx_expected a)" if "p = K_Same"
    using cas_same_data [OF g] pc that by blast
  show ?thesis
  proof (cases r')
    case (Go q)
    have q: "q \<noteq> K_Same" "cas_ok (vis m) (cx_expected a) q" "swapped q = swapped p"
      "sub_eff m m' (owed_cas p) (owed_cas q) (gen_cas p) (gen_cas q)" using post Go by simp_all
    have "minor m m' (pcs i) (S_Cas c a q)" unfolding pc by (rule cas_minor [OF l q(4,3)])
    then have "next_ok n m' pcs status st i False (S_Cas c a q)"
      by (rule silent [OF g i]) (rule cas_local [OF l q(2,3,1) differs])
    moreover have "\<not> lf_marks (pcs i) m (S_Cas c a q)" using pc noswap [of "fs" ep for fs ep] by (cases p) auto
    ultimately show ?thesis using r(2) a' Go by (simp add: access_ok_def)
  next
    case (Return b)
    have "p \<noteq> K_Same"
    proof
      assume same: "p = K_Same"
      then have "SharedPtr_get (cx_newOne a) m = Some (cx_expected a)" using post Return by simp
      then have "map_option fst (vis m (cx_newOne a)) = Some (cx_expected a)"
        using cas_newOne [OF l] same by (auto simp: SharedPtr_get_def vis_def split: if_splits)
      then show False using differs same by simp
    qed
    then have b: "b = swapped p" "sub_eff m m' (owed_cas p) {#} (gen_cas p) {#}" using post Return by simp_all
    let ?q = "lf_cas_return c (cx_newOne a) b :: 'a lf_pc"
    have "minor m m' (pcs i) ?q \<and> local_ok (vis m) ?q (status i)"
      unfolding pc by (rule cas_return_ok [OF l \<open>p \<noteq> K_Same\<close> b])
    then have "next_ok n m' pcs status st i False ?q" by (intro silent [OF g i]) simp_all
    moreover have "\<not> lf_marks (pcs i) m ?q" using pc noswap [of "fs" ep for fs ep] by (cases p) auto
    ultimately show ?thesis using r(2) a' Return by (simp add: access_ok_def)
  qed (use post in simp)
qed

text \<open>No access fails, and every one keeps the invariant.\<close>

lemma access_good:
  assumes g: "lf_good n m pcs status st" and n: "n \<le> 500"
    and acc: "lf_access moved weak (pcs i) m = Some (r, m')"
  shows "access_ok n m pcs status st i r m'"
proof (cases "pcs i")
  case (S_Cas c a p)
  show ?thesis
  proof (cases "\<exists>h ep. p = K_Swap h ep")
    case True
    then show ?thesis using access_Swap [OF g n _ acc] S_Cas by blast
  next
    case False
    then show ?thesis using access_Cas [OF g n S_Cas acc] by blast
  qed
next
  case (S_Dtor u)
  then show ?thesis using goodD(7) [OF g, of i] by simp
next
  case (S_Ret res)
  then show ?thesis by (rule access_Ret [OF g n _ acc])
qed (use acc in \<open>simp_all add: access_IsEmpty [OF g n _ acc] access_Pop [OF g n _ acc] access_Again [OF g n _ acc]
    access_Get [OF g n _ acc] access_Assign [OF g n _ acc] access_Unref [OF g n _ acc] access_Expected [OF g n _ acc]
    access_Prev [OF g n _ acc] access_Copy [OF g n _ acc] access_AssignTop [OF g n _ acc] access_End [OF g n _ acc]
    access_Drop [OF g n _ acc] access_Move [OF g n _ acc]\<close>)

end
