(* ===== verification/Lock_Free_Correct.thy ===== *)
theory Lock_Free_Correct
  imports Lock_Free_Access
begin

text \<open>
  What the invariant of \<open>UnboundedLockFreeStack\<close> gives: the stack is linearizable and no access to its memory
  fails, the counts are exact, nothing is left behind, and popped nodes have one owner.
\<close>

section \<open>The simulation\<close>

definition lf_rel :: "nat \<Rightarrow> 'a lf_sys \<Rightarrow> 'a lf_spec_state \<Rightarrow> bool" where
  "lf_rel n s a \<longleftrightarrow> n \<le> 500 \<and> lf_good n (lf_mem s) (lf_pcs s) (sp_status a) (sp_stack a)"

definition lf_start :: "'a lf_spec_state" where
  "lf_start = \<lparr>sp_stack = [], sp_status = (\<lambda>i. Free)\<rparr>"

definition lf_init :: "nat \<Rightarrow> 'a lf_sys \<Rightarrow> 'a lf_spec_state \<Rightarrow> bool" where
  "lf_init n s a \<longleftrightarrow> n \<le> 500 \<and> a = lf_start \<and> (\<exists>block. block \<noteq> 0 \<and> block < 2 ^ 48 \<and> s = lf_new block)"

lemma new_good:
  assumes "block \<noteq> 0" "block < 2 ^ 48"
  shows "lf_good n (AtomicSharedPtr_new block) (\<lambda>i. S_Idle) (\<lambda>i. Free) ([] :: 'a list)"
proof -
  let ?m = "AtomicSharedPtr_new block :: 'a mem"
  have v: "vis ?m = [block \<mapsto> (0, None)]" "rc ?m = (\<lambda>b. if b = block then 1 else 0)" "m_packed ?m = pack block"
    by (auto simp: vis_def rc_def AtomicSharedPtr_new_def fun_eq_iff)
  note p = packed_pack [OF assms(2)]
  have ml: "mlocal ?m b = 0" for b using v(3) p by (simp add: mlocal_def)
  have refs: "vrefs (vis ?m) = {#}" unfolding v(1) by (simp add: vrefs_def)
  have none: "links (vis ?m) = {}" unfolding v(1) by (auto simp: links_def split: if_splits)
  have "shape (vis ?m)"
  proof -
    have "finite (dom (vis ?m))" using v(1) by simp
    moreover have "acyclic (links (vis ?m))" using none by (simp add: acyclic_def)
    ultimately show ?thesis using assms v(1) unfolding shape_def by (auto split: if_splits)
  qed
  moreover have "0 < rc ?m b" if "vis ?m b \<noteq> None" for b using that v(1,2) by (simp split: if_splits)
  moreover have "rc ?m b + mlocal ?m b = count (all_refs n ?m (\<lambda>i. S_Idle)) b" for b
    using v(2,3) p refs ml by (simp add: all_refs_def)
  ultimately have "counts_ok n ?m (\<lambda>i. S_Idle)" using v(3) p by (simp add: counts_ok_def)
  moreover have "stack_ok ?m (\<lambda>i. S_Idle) ([] :: 'a list)" using v p by (simp add: stack_ok_def)
  ultimately show ?thesis by (simp add: lf_good_def locals_ok_def owners_ok_def)
qed

lemma lf_entry_ok:
  fixes op :: "'a lf_op"
  shows "local_ok v (lf_entry op) (Called op)" "owed (lf_entry op) = {#}" "gens (lf_entry op) = {#}" "fresh (lf_entry op) = None"
  "won (lf_entry op) = None" "lf_entry op \<noteq> S_Idle"
  by (cases op; simp add: is_push_def pop_fast_def)+

lemma call_good:
  assumes g: "lf_good n m pcs status st" and pc: "pcs i = S_Idle" and i: "i < n"
  shows "lf_good n m (pcs(i := lf_entry op)) (status(i := Called op)) st"
proof -
  have "minor m m (pcs i) (lf_entry op)" using good_refl [OF g] pc by (intro minorI) (simp_all add: lf_entry_ok)
  then show ?thesis by (rule minor_good [OF g i]) (rule lf_entry_ok)
qed

lemma accepts_one [simp]: "accepts spec [e] a = spec e a"
  by (simp split: option.split)

lemma lf_step_rel:
  assumes rel: "lf_rel n s a" and step: "lf_step n moved ch s = Some (es, t)"
  shows "\<exists>b. accepts lf_spec es a = Some b \<and> lf_rel n t b"
proof -
  have n: "n \<le> 500" and g: "lf_good n (lf_mem s) (lf_pcs s) (sp_status a) (sp_stack a)"
    using rel by (simp_all add: lf_rel_def)
  show ?thesis
  proof (cases ch)
    case (LCall i op)
    have c: "lf_pcs s i = S_Idle" "i < n" "es = [Call i op]" "t = s\<lparr>lf_pcs := (lf_pcs s)(i := lf_entry op)\<rparr>"
      using step LCall by (auto split: lf_pc.splits if_splits)
    have "sp_status a i = Free" using goodD(7) [OF g, of i] c(1) by simp
    then show ?thesis using call_good [OF g c(1,2), of op] n c(3,4) by (simp add: lf_rel_def)
  next
    case (LAlloc i na ba)
    then obtain x where c: "lf_pcs s i = S_New x" "lf_free na ba (lf_mem s)" "es = []"
      "t = s\<lparr>lf_mem := lf_alloc na ba x (lf_mem s), lf_pcs := (lf_pcs s)(i := S_Get ba G_Add)\<rparr>"
      using step by (auto split: lf_pc.splits if_splits)
    show ?thesis using alloc_good [OF g c(1,2)] n c(3,4) by (simp add: lf_rel_def)
  next
    case (LStep i weak)
    then obtain r m where acc: "lf_access moved weak (lf_pcs s i) (lf_mem s) = Some (r, m)"
      using step by (auto split: option.splits)
    note ok = access_good [OF g n acc]
    show ?thesis
    proof (cases r)
      case (Go p)
      let ?lin = "lf_marks (lf_pcs s i) (lf_mem s) p"
      have t: "es = (if ?lin then [Lin i] else [])" "t = s\<lparr>lf_mem := m, lf_pcs := (lf_pcs s)(i := p)\<rparr>"
        using step LStep acc Go by auto
      obtain s' st' where u: "lf_good n m ((lf_pcs s)(i := p)) ((sp_status a)(i := s')) st'"
        "if ?lin then \<exists>op r. sp_status a i = Called op \<and> lf_apply op (sp_stack a) = (r, st') \<and> s' = Done r
         else s' = sp_status a i \<and> st' = sp_stack a"
        using ok Go by (auto simp: access_ok_def next_ok_def)
      show ?thesis
      proof (cases ?lin)
        case True
        then show ?thesis using u t n by (auto simp: lf_rel_def)
      next
        case False
        then show ?thesis using u t n by (simp add: lf_rel_def)
      qed
    next
      case (Return x)
      then show ?thesis using step LStep acc ok n by (auto simp: access_ok_def lf_rel_def)
    next
      case Crash
      then show ?thesis using ok by (simp add: access_ok_def)
    qed
  qed
qed

interpretation lf: simulation "lf_step n moved" "lf_init n" "lf_rel n" lf_spec for n moved
proof unfold_locales
  show "lf_init n s a \<Longrightarrow> lf_rel n s a" for s a
    using new_good by (auto simp: lf_init_def lf_rel_def lf_new_def lf_start_def)
  show "lf_rel n s a \<Longrightarrow> lf_step n moved ch s = Some (e, t) \<Longrightarrow> \<exists>b. accepts lf_spec e a = Some b \<and> lf_rel n t b" for s a ch e t
    by (rule lf_step_rel)
qed

lemma lf_reaches:
  assumes "n \<le> 500" "block \<noteq> 0" "block < 2 ^ 48" "reaches (lf_step n moved) (lf_new block) es s"
  obtains a where "accepts lf_spec es lf_start = Some a" "lf_good n (lf_mem s) (lf_pcs s) (sp_status a) (sp_stack a)"
proof -
  have "lf_init n (lf_new block) lf_start" using assms(1-3) by (auto simp: lf_init_def)
  from lf.simulates [OF this assms(4)] show thesis using that by (auto simp: lf_rel_def)
qed

section \<open>Linearizability and memory safety\<close>

text \<open>
  Property C1. \<open>UnboundedLockFreeStack\<close> is linearizable: in every interleaving of the accesses of up to 500
  threads, allocations returning any free address and weak compare-exchanges failing at will, there is a point
  inside each operation at which it does what it does on a sequential stack, and it returns that result.
\<close>

theorem lf_linearizable:
  assumes "n \<le> 500" "block \<noteq> 0" "block < 2 ^ 48" "reaches (lf_step n moved) (lf_new block) es s"
  shows "\<exists>a. accepts lf_spec es \<lparr>sp_stack = [], sp_status = (\<lambda>i. Free)\<rparr> = Some a \<and>
    (\<forall>i r. lf_pcs s i = S_Ret r \<longrightarrow> sp_status a i = Done r) \<and>
    (\<forall>i. lf_pcs s i = S_Idle \<longrightarrow> sp_status a i = Free)"
proof -
  obtain a where a: "accepts lf_spec es lf_start = Some a" "lf_good n (lf_mem s) (lf_pcs s) (sp_status a) (sp_stack a)"
    by (rule lf_reaches [OF assms])
  have "sp_status a i = Done r" if "lf_pcs s i = S_Ret r" for i r using goodD(7) [OF a(2), of i] that by simp
  moreover have "sp_status a i = Free" if "lf_pcs s i = S_Idle" for i using goodD(7) [OF a(2), of i] that by simp
  ultimately show ?thesis using a(1) by (auto simp: lf_start_def)
qed

text \<open>
  Property C3. No access of the stack is invalid: no thread touches a control block or a node that was freed or
  was never allocated, none is freed twice, and no assertion of \<open>SharedPtr\<close> or \<open>AtomicSharedPtr\<close> fails.
\<close>

theorem lf_memory_safe:
  assumes "n \<le> 500" "block \<noteq> 0" "block < 2 ^ 48" "reaches (lf_step n moved) (lf_new block) es s"
  shows "Fault i \<notin> set es \<and>
    (case lf_access moved weak (lf_pcs s i) (lf_mem s) of Some (Crash, m) \<Rightarrow> False | _ \<Rightarrow> True)"
proof -
  obtain a where a: "accepts lf_spec es lf_start = Some a" "lf_good n (lf_mem s) (lf_pcs s) (sp_status a) (sp_stack a)"
    by (rule lf_reaches [OF assms])
  have "Fault i \<notin> set fs" if "accepts lf_spec fs b \<noteq> None" for fs and b :: "'a lf_spec_state"
    using that by (induction fs arbitrary: b) (auto split: option.splits)
  then have "Fault i \<notin> set es" using a(1) by blast
  moreover have "r \<noteq> Crash" if "lf_access moved weak (lf_pcs s i) (lf_mem s) = Some (r, m)" for r m
    using access_good [OF a(2) assms(1) that] by (auto simp: access_ok_def)
  ultimately show ?thesis by (auto split: option.split sub.split)
qed

text \<open>
  Property C4. The counts are exact: for every control block, \<open>refCount\<close> together with the local count of the
  packed word, if the head points to the block, is the number of references to it: the head's, those of
  the \<open>prev_\<close> of the nodes, and those the threads hold; a block is allocated exactly as long as \<open>refCount\<close> is positive.
\<close>

theorem lf_refcount_exact:
  assumes "n \<le> 500" "block \<noteq> 0" "block < 2 ^ 48" "reaches (lf_step n moved) (lf_new block) es s"
  shows "rc (lf_mem s) b + mlocal (lf_mem s) b = count (all_refs n (lf_mem s) (lf_pcs s)) b \<and>
    (m_blocks (lf_mem s) b \<noteq> None \<longleftrightarrow> 0 < rc (lf_mem s) b) \<and> rc (lf_mem s) b < 2 ^ 31"
proof -
  obtain a where a: "accepts lf_spec es lf_start = Some a" "lf_good n (lf_mem s) (lf_pcs s) (sp_status a) (sp_stack a)"
    by (rule lf_reaches [OF assms])
  show ?thesis
    using goodD(8,9) [OF a(2), of b] rc_pos_alive [of "lf_mem s" b] rc_bound [OF goodD(1,2) [OF a(2)] assms(1)]
    by (auto simp: vis_None)
qed

text \<open>
  Property C9. The element of a node has one owner: two threads are never both about to move the element
  out of the same node, and a node that is being moved from is not on the stack any more.
\<close>

theorem lf_move_exclusive:
  assumes "n \<le> 500" "block \<noteq> 0" "block < 2 ^ 48" "reaches (lf_step n moved) (lf_new block) es s"
    and "lf_pcs s i = S_Move t"
  shows "(lf_pcs s j = S_Move u \<and> fs_data u = fs_data t \<longrightarrow> j = i) \<and>
    (\<exists>bs. chain (vis (lf_mem s)) (mhead (lf_mem s)) bs \<and> packed_ptr (fs_known t) \<notin> fst ` set bs)"
proof -
  obtain a where a: "accepts lf_spec es lf_start = Some a" "lf_good n (lf_mem s) (lf_pcs s) (sp_status a) (sp_stack a)"
    by (rule lf_reaches [OF assms(1-4)])
  have w: "won (lf_pcs s i) = Some (packed_ptr (fs_known t))" using assms(5) by simp
  have "j = i" if u: "lf_pcs s j = S_Move u" "fs_data u = fs_data t"
  proof -
    obtain x y where "vis (lf_mem s) (packed_ptr (fs_known u)) = Some (fs_data t, x)"
      "vis (lf_mem s) (packed_ptr (fs_known t)) = Some (fs_data t, y)"
      using goodD(7) [OF a(2), of j] goodD(7) [OF a(2), of i] unfolding u(1) assms(5)
      by (auto simp: won_ok_def u(2))
    then have "packed_ptr (fs_known u) = packed_ptr (fs_known t)" by (rule shape_inj [OF goodD(5) [OF a(2)]])
    then show ?thesis using goodD(3) [OF a(2)] w u(1) unfolding owners_ok_def by auto
  qed
  moreover have "\<exists>bs. chain (vis (lf_mem s)) (mhead (lf_mem s)) bs \<and> packed_ptr (fs_known t) \<notin> fst ` set bs"
    using goodD(4) [OF a(2)] w unfolding stack_ok_def by blast
  ultimately show ?thesis by blast
qed

section \<open>Concrete runs\<close>

text \<open>
  Thread 0 pushes 7. Then it pushes 8 while thread 1 pops, taking turns; the exchange of the pop fails
  and it tries again.
\<close>

definition lf_example_push :: "nat lf_choice list" where
  "lf_example_push = [LCall 0 (Op_Push_copy 7), LAlloc 0 16 64] @ replicate 19 (LStep 0 False)"

definition lf_example_both :: "nat lf_choice list" where
  "lf_example_both = lf_example_push @ [LCall 0 (Op_Push_move 8), LCall 1 Op_Pop, LAlloc 0 32 192] @
     concat (replicate 18 [LStep 0 False, LStep 1 False])"

lemma run_case:
  "(case run step cs s of None \<Rightarrow> False | Some (es, t) \<Rightarrow> P es t) \<Longrightarrow> \<exists>es t. reaches step s es t \<and> P es t"
  by (auto split: option.splits dest: run_reaches)

lemma lf_example_done:
  "\<exists>es s. reaches (lf_step 2 (\<lambda>x. 0)) (lf_new 128) es s \<and>
     es = [Call 0 (Op_Push_copy 7), Lin 0, Ret 0 R_Push, Call 0 (Op_Push_move 8), Call 1 Op_Pop, Lin 0,
       Ret 0 R_Push, Lin 1, Ret 1 (R_Pop (Some (8::nat)))] \<and> lf_pcs s 0 = S_Idle \<and> lf_pcs s 1 = S_Idle \<and>
     m_blocks (lf_mem s) 192 = None \<and> m_blocks (lf_mem s) 64 = Some \<lparr>cb_data = 16, cb_refs = 1\<rparr>"
  by (rule run_case [where cs = "lf_example_both @ replicate 23 (LStep 1 False)"]) code_simp

lemma lf_example_moving:
  "\<exists>es (s :: nat lf_sys) t. reaches (lf_step 2 (\<lambda>x. 0)) (lf_new 128) es s \<and> lf_pcs s 1 = S_Move t \<and> fs_data t = 32"
proof -
  have "\<exists>es (s :: nat lf_sys). reaches (lf_step 2 (\<lambda>x. 0)) (lf_new 128) es s \<and>
     (case lf_pcs s 1 of S_Move t \<Rightarrow> fs_data t = 32 | _ \<Rightarrow> False)"
    by (rule run_case [where cs = "lf_example_both @ replicate 18 (LStep 1 False)"]) code_simp
  then obtain es and s :: "nat lf_sys" where s: "reaches (lf_step 2 (\<lambda>x. 0)) (lf_new 128) es s"
     "case lf_pcs s 1 of S_Move t \<Rightarrow> fs_data t = 32 | _ \<Rightarrow> False" by blast
  then obtain t where "lf_pcs s 1 = S_Move t" "fs_data t = 32" by (cases "lf_pcs s 1") simp_all
  with s(1) show ?thesis by blast
qed

lemma lf_linearizable_witness:
  "\<exists>a. accepts lf_spec [Call 0 (Op_Push_copy 7), Lin 0, Ret 0 R_Push, Call 0 (Op_Push_move 8), Call 1 Op_Pop, Lin 0,
       Ret 0 R_Push, Lin 1, Ret 1 (R_Pop (Some (8::nat)))] \<lparr>sp_stack = [], sp_status = (\<lambda>i. Free)\<rparr> = Some a \<and>
     sp_stack a = [7] \<and> sp_status a 0 = Free \<and> sp_status a 1 = Free"
proof -
  obtain s where s: "reaches (lf_step 2 (\<lambda>x. 0)) (lf_new 128)
      [Call 0 (Op_Push_copy 7), Lin 0, Ret 0 R_Push, Call 0 (Op_Push_move 8), Call 1 Op_Pop, Lin 0,
       Ret 0 R_Push, Lin 1, Ret 1 (R_Pop (Some (8::nat)))] s" "lf_pcs s 0 = S_Idle" "lf_pcs s 1 = S_Idle"
    using lf_example_done by blast
  have "(2::nat) \<le> 500" "(128::addr) \<noteq> 0" "(128::addr) < 2 ^ 48" by simp_all
  from lf_linearizable [OF this s(1)] show ?thesis using s(2,3) by auto
qed

lemma lf_memory_safe_witness:
  "\<exists>es s t. reaches (lf_step 2 (\<lambda>x. 0)) (lf_new 128) es s \<and> lf_pcs s 1 = S_Move t \<and> Fault 1 \<notin> set es \<and>
     (case lf_access (\<lambda>x. 0 :: nat) False (lf_pcs s 1) (lf_mem s) of Some (Crash, m) \<Rightarrow> False | _ \<Rightarrow> True)"
proof -
  obtain es and s :: "nat lf_sys" and t where s: "reaches (lf_step 2 (\<lambda>x. 0)) (lf_new 128) es s" "lf_pcs s 1 = S_Move t"
    using lf_example_moving by blast
  have "(2::nat) \<le> 500" "(128::addr) \<noteq> 0" "(128::addr) < 2 ^ 48" by simp_all
  from lf_memory_safe [OF this s(1), where i = 1 and weak = False] show ?thesis using s by blast
qed

lemma lf_refcount_exact_witness:
  "\<exists>es (s :: nat lf_sys). reaches (lf_step 2 (\<lambda>x. 0)) (lf_new 128) es s \<and> rc (lf_mem s) 64 = 1 \<and>
     rc (lf_mem s) 192 = 0 \<and> count (all_refs 2 (lf_mem s) (lf_pcs s)) 64 = 1 + mlocal (lf_mem s) 64"
proof -
  obtain es and s :: "nat lf_sys" where s: "reaches (lf_step 2 (\<lambda>x. 0)) (lf_new 128) es s"
    "m_blocks (lf_mem s) 192 = None" "m_blocks (lf_mem s) 64 = Some \<lparr>cb_data = 16, cb_refs = 1\<rparr>"
    using lf_example_done by blast
  have "(2::nat) \<le> 500" "(128::addr) \<noteq> 0" "(128::addr) < 2 ^ 48" by simp_all
  from lf_refcount_exact [OF this s(1), of 64] have "count (all_refs 2 (lf_mem s) (lf_pcs s)) 64 = 1 + mlocal (lf_mem s) 64"
    using s(3) by (simp add: rc_def)
  moreover have "rc (lf_mem s) 64 = 1" "rc (lf_mem s) 192 = 0" using s(2,3) by (simp_all add: rc_def)
  ultimately show ?thesis using s(1) by blast
qed

lemma lf_move_exclusive_witness:
  "\<exists>es (s :: nat lf_sys) t. reaches (lf_step 2 (\<lambda>x. 0)) (lf_new 128) es s \<and> lf_pcs s 1 = S_Move t \<and> fs_data t = 32 \<and>
     (\<exists>bs. chain (vis (lf_mem s)) (mhead (lf_mem s)) bs \<and> packed_ptr (fs_known t) \<notin> fst ` set bs)"
proof -
  obtain es and s :: "nat lf_sys" and t where s: "reaches (lf_step 2 (\<lambda>x. 0)) (lf_new 128) es s"
    "lf_pcs s 1 = S_Move t" "fs_data t = 32"
    using lf_example_moving by blast
  have "(2::nat) \<le> 500" "(128::addr) \<noteq> 0" "(128::addr) < 2 ^ 48" by simp_all
  from lf_move_exclusive [OF this s(1,2)] show ?thesis using s by blast
qed

end
