(* ===== verification/Lock_Free_Release.thy ===== *)
theory Lock_Free_Release
  imports Lock_Free_Correct
begin

text \<open>
  Nothing leaks: while no operation is running, the memory holds the control blocks and the nodes of the stack
  and nothing else, and the destructor frees all of them.
\<close>

section \<open>Every node belongs to a control block\<close>

definition bdata :: "'a mem \<Rightarrow> addr \<Rightarrow> addr option" where
  "bdata m b = map_option cb_data (m_blocks m b)"

definition owned_nodes :: "'a mem \<Rightarrow> bool" where
  "owned_nodes m \<longleftrightarrow> m_nodes m 0 = None \<and> (\<forall>a. m_nodes m a \<noteq> None \<longrightarrow> (\<exists>b. bdata m b = Some a))"

lemma owned_cong: "bdata m' = bdata m \<Longrightarrow> m_nodes m' = m_nodes m \<Longrightarrow> owned_nodes m' = owned_nodes m"
  by (simp add: owned_nodes_def)

lemma owned_packed [simp]: "owned_nodes (m\<lparr>m_packed := w\<rparr>) = owned_nodes m"
  by (rule owned_cong) (simp_all add: bdata_def fun_eq_iff)

lemma bdata_ref:
  "ref_add b k m = Some (prior, m') \<Longrightarrow> bdata m' = bdata m \<and> m_nodes m' = m_nodes m"
  "ref_sub b k m = Some (prior, m') \<Longrightarrow> bdata m' = bdata m \<and> m_nodes m' = m_nodes m"
  by (auto simp: ref_add_def ref_sub_def bdata_def fun_eq_iff split: option.splits)

lemma owned_ref:
  "ref_add b k m = Some (prior, m') \<Longrightarrow> owned_nodes m' = owned_nodes m"
  "ref_sub b k m = Some (prior, m') \<Longrightarrow> owned_nodes m' = owned_nodes m"
  using bdata_ref owned_cong by blast+

lemma owned_delete:
  assumes "delete_both d b m = Some (p, m')" "bdata m b = Some d" "owned_nodes m"
  shows "owned_nodes m'"
proof -
  have m': "m_blocks m' = (m_blocks m)(b := None)" "\<And>a. m_nodes m' a = (if a = d \<and> d \<noteq> 0 then None else m_nodes m a)"
    using assms(1) by (auto simp: delete_both_def Let_def split: if_splits option.splits)
  have "\<exists>c. bdata m' c = Some a" if a: "m_nodes m' a \<noteq> None" for a
  proof -
    have n: "m_nodes m a \<noteq> None" "a = 0 \<or> a \<noteq> d" using a m'(2) by (auto split: if_splits)
    have "a \<noteq> 0" using n(1) assms(3) by (auto simp: owned_nodes_def)
    obtain c where c: "bdata m c = Some a" using n(1) assms(3) unfolding owned_nodes_def by blast
    then have "c \<noteq> b" using n(2) \<open>a \<noteq> 0\<close> assms(2) by auto
    then have "bdata m' c = Some a" using c m'(1) by (simp add: bdata_def)
    then show ?thesis ..
  qed
  then show ?thesis using m'(2) assms(3) unfolding owned_nodes_def by simp
qed

lemma owned_release:
  assumes "ref_sub b k m = Some (prior, m1)" "delete_both d b m1 = Some (p, m')" "bdata m b = Some d" "owned_nodes m"
  shows "owned_nodes m'"
  using owned_delete [OF assms(2)] bdata_ref(2) [OF assms(1)] owned_ref(2) [OF assms(1)] assms(3,4) by simp

lemma owned_release_block:
  assumes "m_blocks m b = Some blk" "ref_sub b k m = Some (prior, m1)" "delete_both (cb_data blk) b m1 = Some (p, m')"
    "owned_nodes m"
  shows "owned_nodes m'"
proof -
  have "bdata m b = Some (cb_data blk)" using assms(1) by (simp add: bdata_def)
  then show ?thesis by (rule owned_release [OF assms(2,3) _ assms(4)])
qed

lemma unref_owned: "unref_step b m = (r, m') \<Longrightarrow> owned_nodes m \<Longrightarrow> owned_nodes m'"
  by (auto simp: unref_step_def Let_def owned_ref split: option.splits if_splits intro: owned_release_block)

lemma destroyOld_owned: "destroyOldControlBlock old m = (r, m') \<Longrightarrow> owned_nodes m \<Longrightarrow> owned_nodes m'"
  by (auto simp: destroyOldControlBlock_def Let_def owned_ref split: option.splits if_splits intro: owned_release_block)

lemma fast_owned: "fast_step p m = (r, m') \<Longrightarrow> owned_nodes m \<Longrightarrow> owned_nodes m'"
  by (cases p) (auto simp: Let_def owned_ref split: option.splits if_splits)

lemma get_owned: "get_step weak p m = (r, m') \<Longrightarrow> owned_nodes m \<Longrightarrow> owned_nodes m'"
  by (cases p) (auto simp: Let_def owned_ref split: option.splits if_splits)

lemma destroy_owned:
  assumes "destroy_step weak p m = (r, m')" "destroy_ok (vis m) p" "owned_nodes m"
  shows "owned_nodes m'"
proof (cases p)
  case (X_Cas f e)
  then show ?thesis using assms by (auto simp: Let_def split: if_splits)
next
  case (X_Sub f)
  have "bdata m (packed_ptr (fs_known f)) = Some (fs_data f)"
    using assms(2) X_Sub by (auto simp: fast_ok_def bdata_def vis_def)
  then show ?thesis using assms(1,3) X_Sub
    by (auto simp: Let_def owned_ref split: option.splits if_splits intro: owned_release)
next
  case (X_Unref b)
  then show ?thesis using assms by (auto split: prod.splits intro: unref_owned)
qed

lemma cas_owned:
  assumes "cas_step weak a p m = (r, a', m')" "cas_ok (vis m) e p" "owned_nodes m"
  shows "owned_nodes m'"
proof (cases p)
  case (K_Fast q)
  then show ?thesis using assms by (auto split: prod.splits intro: fast_owned)
next
  case (K_Old h ep)
  then show ?thesis using assms by (auto split: prod.splits intro: destroyOld_owned)
next
  case (K_OldUnref h b)
  then show ?thesis using assms by (auto split: prod.splits intro: unref_owned)
next
  case (K_Destroy ok q)
  then show ?thesis using assms by (auto split: prod.splits intro: destroy_owned)
qed (use assms in \<open>auto simp: owned_ref split: option.splits if_splits\<close>)

lemma access_owned:
  assumes "lf_access moved weak pc m = Some (r, m')" "local_ok (vis m) pc st" "owned_nodes m"
  shows "owned_nodes m'"
proof (cases pc)
  case (S_IsEmpty p)
  then show ?thesis using assms by (auto split: prod.splits intro: fast_owned)
next
  case (S_Get b p)
  then show ?thesis using assms by (auto split: prod.splits intro: get_owned)
next
  case (S_Assign b c)
  have "bdata (m\<lparr>m_nodes := f\<rparr>) = bdata m" for f by (simp add: bdata_def fun_eq_iff)
  then show ?thesis using assms(1,3) S_Assign
    by (auto simp: owned_nodes_def move_assign_def split: option.splits if_splits)
next
  case (S_Unref b u)
  then show ?thesis using assms by (auto split: prod.splits intro: unref_owned)
next
  case (S_Expected b)
  then show ?thesis using assms by (auto split: option.splits)
next
  case (S_Dtor u)
  then show ?thesis using assms by (auto split: prod.splits intro: unref_owned)
next
  case (S_Pop p)
  then show ?thesis using assms by (auto split: prod.splits intro: fast_owned)
next
  case (S_Prev t)
  then show ?thesis using assms by (auto split: option.splits if_splits)
next
  case (S_Copy t b)
  then show ?thesis using assms by (auto simp: copy_step_def owned_ref split: option.splits if_splits)
next
  case (S_Again t p)
  then show ?thesis using assms by (auto split: prod.splits intro: fast_owned)
next
  case (S_AssignTop t p)
  then show ?thesis using assms by (auto split: prod.splits intro: destroy_owned)
next
  case (S_Cas c a p)
  have "cas_ok (vis m) (cx_expected a) p" using assms(2) S_Cas by (cases c) (auto simp: pushing_def popping_cas_def)
  then show ?thesis using assms(1,3) S_Cas by (auto split: prod.splits intro: cas_owned)
next
  case (S_Drop ok t u)
  then show ?thesis using assms by (auto split: prod.splits intro: unref_owned)
next
  case (S_Move t)
  have "bdata (m\<lparr>m_nodes := f\<rparr>) = bdata m" for f by (simp add: bdata_def fun_eq_iff)
  then show ?thesis using assms(1,3) S_Move
    by (auto simp: owned_nodes_def split: option.splits if_splits)
next
  case (S_End r p)
  then show ?thesis using assms by (auto split: prod.splits intro: destroy_owned)
qed (use assms in auto)

lemma alloc_owned:
  assumes "lf_free na ba m" "owned_nodes m"
  shows "owned_nodes (lf_alloc na ba x m)"
proof -
  have f: "na \<noteq> 0" "m_blocks m ba = None" using assms(1) by (simp_all add: lf_free_def)
  have b: "bdata (lf_alloc na ba x m) = (bdata m)(ba \<mapsto> na)" by (auto simp: bdata_def lf_alloc_def fun_eq_iff)
  have "\<exists>b. bdata (lf_alloc na ba x m) b = Some a" if "m_nodes (lf_alloc na ba x m) a \<noteq> None" for a
  proof (cases "a = na")
    case True
    then show ?thesis using b by auto
  next
    case False
    then have "m_nodes m a \<noteq> None" using that by (simp add: lf_alloc_def)
    then obtain c where c: "bdata m c = Some a" using assms(2) unfolding owned_nodes_def by blast
    then have "c \<noteq> ba" using f(2) by (auto simp: bdata_def)
    then show ?thesis using c b by (auto intro: exI [of _ c])
  qed
  then show ?thesis using f(1) assms(2) by (simp add: owned_nodes_def lf_alloc_def)
qed

lemma step_owned:
  assumes "lf_rel n s a" "lf_step n moved ch s = Some (es, t)" "owned_nodes (lf_mem s)"
  shows "owned_nodes (lf_mem t)"
proof (cases ch)
  case (LCall i op)
  then show ?thesis using assms(2,3) by (auto split: lf_pc.splits if_splits)
next
  case (LAlloc i na ba)
  then show ?thesis using assms(2,3) alloc_owned by (auto split: lf_pc.splits if_splits)
next
  case (LStep i weak)
  then obtain r m where acc: "lf_access moved weak (lf_pcs s i) (lf_mem s) = Some (r, m)" and "lf_mem t = m"
    using assms(2) by (auto split: option.splits sub.splits)
  moreover have "local_ok (vis (lf_mem s)) (lf_pcs s i) (sp_status a i)" using assms(1) goodD(7) by (auto simp: lf_rel_def)
  ultimately show ?thesis using access_owned [OF acc] assms(3) by blast
qed

lemma lf_reaches_owned:
  assumes "n \<le> 500" "block \<noteq> 0" "block < 2 ^ 48" "reaches (lf_step n moved) (lf_new block) es s"
  shows "owned_nodes (lf_mem s)"
proof -
  have init: "lf_init n (lf_new block) lf_start" using assms(1-3) by (auto simp: lf_init_def)
  have "owned_nodes (lf_mem u)" if "reaches (lf_step n moved) v fs u" "v = lf_new block" for v fs u
    using that
  proof (induction rule: reaches.induct)
    case (reaches_start s)
    then show ?case by (simp add: lf_new_def AtomicSharedPtr_new_def owned_nodes_def)
  next
    case (reaches_step s es t c e u)
    obtain a where "lf_rel n t a" using lf.simulates [OF init] reaches_step.hyps(1) reaches_step.prems by blast
    then show ?case using step_owned reaches_step by blast
  qed
  then show ?thesis using assms(4) by blast
qed

section \<open>The blocks of the stack\<close>

text \<open>The control blocks that the head leads to, the one without data last.\<close>

fun trail :: "'a view \<Rightarrow> addr \<Rightarrow> (addr \<times> 'a) list \<Rightarrow> addr list" where
  "trail v b [] = [b]"
| "trail v b (e # bs) = b # (case v b of Some (d, Some (p, x)) \<Rightarrow> trail v p bs | _ \<Rightarrow> [])"

declare trail.simps(2) [simp del]

lemma trail_Cons:
  assumes "chain v b (e # bs)"
  obtains d p x where "v b = Some (d, Some (p, x))" "d \<noteq> 0" "chain v p bs" "trail v b (e # bs) = b # trail v p bs" "e = (b, x)"
proof -
  obtain c x where e: "e = (c, x)" by (rule prod.exhaust)
  with assms obtain d p where "b = c" "d \<noteq> 0" "v b = Some (d, Some (p, x))" "chain v p bs" by auto
  then show thesis using that [of d p x] e by (simp add: trail.simps(2))
qed

lemma trail_suffix: "chain v b bs \<Longrightarrow> c \<in> set (trail v b bs) \<Longrightarrow> \<exists>cs. chain v c cs \<and> length cs \<le> length bs"
proof (induction bs arbitrary: b)
  case (Cons e bs)
  obtain d p x where t: "v b = Some (d, Some (p, x))" "d \<noteq> 0" "chain v p bs" "trail v b (e # bs) = b # trail v p bs" "e = (b, x)"
    by (rule trail_Cons [OF Cons.prems(1)])
  show ?case
  proof (cases "c = b")
    case True
    then show ?thesis using Cons.prems(1) by blast
  next
    case False
    then have "c \<in> set (trail v p bs)" using Cons.prems(2) t(4) by simp
    then show ?thesis using Cons.IH [OF t(3)] by fastforce
  qed
qed auto

lemma trail_length: "chain v b bs \<Longrightarrow> length (trail v b bs) = Suc (length bs)"
proof (induction bs arbitrary: b)
  case (Cons e bs)
  obtain d p x where "v b = Some (d, Some (p, x))" "d \<noteq> 0" "chain v p bs" "trail v b (e # bs) = b # trail v p bs" "e = (b, x)"
    by (rule trail_Cons [OF Cons.prems])
  then show ?case using Cons.IH by simp
qed simp

lemma trail_once: "chain v b (e # bs) \<Longrightarrow> v b = Some (d, Some (p, x)) \<Longrightarrow> b \<notin> set (trail v p bs)"
proof
  assume c: "chain v b (e # bs)" and v: "v b = Some (d, Some (p, x))" and i: "b \<in> set (trail v p bs)"
  have "chain v p bs" using c v by (cases e) auto
  from trail_suffix [OF this i] obtain cs where "chain v b cs" "length cs \<le> length bs" by blast
  then show False using chain_det [OF c, of cs] by auto
qed

lemma trail_distinct: "chain v b bs \<Longrightarrow> distinct (trail v b bs)"
proof (induction bs arbitrary: b)
  case (Cons e bs)
  obtain d p x where "v b = Some (d, Some (p, x))" "d \<noteq> 0" "chain v p bs" "trail v b (e # bs) = b # trail v p bs" "e = (b, x)"
    by (rule trail_Cons [OF Cons.prems])
  then show ?case using Cons.IH trail_once [OF Cons.prems] by simp
qed simp

lemma trail_refs:
  assumes "chain v b bs" "shape v"
  shows "(\<Sum>c\<in>set (trail v b bs). vprev (the (v c))) + {#b#} = mset (trail v b bs)"
  using assms(1)
proof (induction bs arbitrary: b)
  case Nil
  then obtain y where "v b = Some (0, y)" by auto
  then show ?case using shapeD(4) [OF assms(2), of b 0 y] by simp
next
  case (Cons e bs)
  obtain d p x where t: "v b = Some (d, Some (p, x))" "d \<noteq> 0" "chain v p bs" "trail v b (e # bs) = b # trail v p bs" "e = (b, x)"
    by (rule trail_Cons [OF Cons.prems])
  have "v p \<noteq> None" using t(3) by (cases bs) auto
  then have "p \<noteq> 0" using assms(2) by (auto simp: shape_def)
  then have "(\<Sum>c\<in>set (trail v b (e # bs)). vprev (the (v c))) = {#p#} + (\<Sum>c\<in>set (trail v p bs). vprev (the (v c)))"
    using t(1,4) trail_once [OF Cons.prems t(1)] by (simp add: ref1_def)
  then show ?case using Cons.IH [OF t(3)] t(4) by (simp add: add.commute)
qed

lemma trail_closed: "chain v b bs \<Longrightarrow> c \<in> set (trail v b bs) \<Longrightarrow> v c = Some (d, Some (q, x)) \<Longrightarrow> shape v \<Longrightarrow> q \<in> set (trail v b bs)"
proof (induction bs arbitrary: b)
  case Nil
  then show ?case using shapeD(4) [of v b d] by auto
next
  case (Cons e bs)
  obtain d' p x' where t: "v b = Some (d', Some (p, x'))" "d' \<noteq> 0" "chain v p bs" "trail v b (e # bs) = b # trail v p bs" "e = (b, x')"
    by (rule trail_Cons [OF Cons.prems(1)])
  have "p \<in> set (trail v p bs)" by (cases bs) (simp_all add: trail.simps(2))
  then show ?case using Cons.IH [OF t(3) _ Cons.prems(3,4)] Cons.prems(2,3) t(1,4) by auto
qed

lemma trail_alive: "chain v b bs \<Longrightarrow> c \<in> set (trail v b bs) \<Longrightarrow> v c \<noteq> None"
  using trail_suffix [of v b bs c] by (metis chain.elims(2) option.distinct(1))

text \<open>Blocks that are all referenced, by the head or by one of them, are those the head leads to.\<close>

lemma trail_all:
  assumes ch: "chain v h bs" and sh: "shape v" and ref: "\<And>b. v b \<noteq> None \<Longrightarrow> b \<in># {#h#} + vrefs v"
  shows "dom v = set (trail v h bs)"
proof
  show "set (trail v h bs) \<subseteq> dom v" using trail_alive [OF ch] by blast
  have fin: "finite (links v)"
  proof (rule finite_subset)
    show "links v \<subseteq> (\<lambda>b. (b, case v b of Some (d, Some (p, x)) \<Rightarrow> p | _ \<Rightarrow> 0)) ` dom v"
      by (force simp: links_def)
    show "finite ((\<lambda>b. (b, case v b of Some (d, Some (p, x)) \<Rightarrow> p | _ \<Rightarrow> 0)) ` dom v)"
      using sh by (simp add: shape_def)
  qed
  have wf: "wf (links v)" using fin sh by (intro finite_acyclic_wf) (simp_all add: shape_def)
  have "b \<in> set (trail v h bs)" if "v b \<noteq> None" for b
    using wf that
  proof (induction b)
    case (less b)
    show ?case
    proof (cases "b = h")
      case True
      then show ?thesis by (cases bs) (simp_all add: trail.simps(2))
    next
      case False
      then have "b \<in># vrefs v" using ref [OF less.prems] by auto
      have "\<exists>c\<in>dom v. b \<in># vprev (the (v c))"
      proof (rule ccontr)
        assume "\<not> ?thesis"
        then have "count (vrefs v) b = (\<Sum>c\<in>dom v. 0)"
          unfolding vrefs_def count_sum by (intro sum.cong) (auto simp: not_in_iff)
        then show False using \<open>b \<in># vrefs v\<close> by (simp add: count_eq_zero_iff)
      qed
      then obtain c where c: "c \<in> dom v" "b \<in># vprev (the (v c))" by blast
      then obtain d p x where v: "v c = Some (d, Some (p, x))" "b \<in># ref1 p"
        by (cases "the (v c)" rule: vprev.cases) auto
      then have "p = b" by (auto simp: ref1_def split: if_splits)
      then have "c \<in> set (trail v h bs)" using less.IH [of c] v(1) c(1) by (auto simp: links_def)
      then show ?thesis using trail_closed [OF ch _ v(1) sh] \<open>p = b\<close> by blast
    qed
  qed
  then show "dom v \<subseteq> set (trail v h bs)" by blast
qed

lemma quiet_state:
  assumes g: "lf_good n m pcs status st" and idle: "\<And>i. pcs i = S_Idle"
  obtains bs where "chain (vis m) (mhead m) bs" "map snd bs = st" "dom (vis m) = set (trail (vis m) (mhead m) bs)"
    "\<forall>b. vis m b \<noteq> None \<longrightarrow> rc m b = 1" "packed_cnt (m_packed m) = 0"
proof -
  obtain bs where bs: "chain (vis m) (mhead m) bs" "map snd bs = st" using goodD(4) [OF g] by (auto simp: stack_ok_def)
  have c0: "mcnt m = 0" using goodD(1) [OF g] idle by (simp add: counts_ok_def)
  then have refs: "rc m b = count ({#mhead m#} + vrefs (vis m)) b" for b
    using goodD(9) [OF g, of b] idle c0 by (auto simp: mlocal_def all_refs_def)
  have dom: "dom (vis m) = set (trail (vis m) (mhead m) bs)"
    using goodD(8) [OF g] unfolding refs by (intro trail_all [OF bs(1) goodD(5) [OF g]]) (simp only: count_greater_zero_iff)
  then have "vrefs (vis m) + {#mhead m#} = mset (trail (vis m) (mhead m) bs)"
    using trail_refs [OF bs(1) goodD(5) [OF g]] by (simp only: vrefs_def)
  then have "rc m b = count (mset (trail (vis m) (mhead m) bs)) b" for b
    unfolding refs by (simp only: add.commute)
  then have "\<forall>b. vis m b \<noteq> None \<longrightarrow> rc m b = 1"
    using trail_distinct [OF bs(1)] dom by (auto simp: distinct_count_atmost_1)
  moreover have "packed_cnt (m_packed m) = 0" using c0 by (simp only: unat_eq_zero)
  ultimately show thesis using that bs dom by blast
qed

lemma nodes_card:
  assumes sh: "shape (vis m)" and o: "owned_nodes m" and ch: "chain (vis m) h bs" and dom: "dom (vis m) = set (trail (vis m) h bs)"
  shows "card (dom (m_blocks m)) = Suc (length bs)" "card (dom (m_nodes m)) = length bs"
proof -
  have v: "dom (m_blocks m) = dom (vis m)" by (auto simp: vis_def)
  show c: "card (dom (m_blocks m)) = Suc (length bs)"
    unfolding v dom using trail_distinct [OF ch] trail_length [OF ch] by (simp add: distinct_card)
  let ?f = "\<lambda>b. fst (the (vis m b))"
  have inj: "inj_on ?f (dom (vis m))"
    using shape_inj [OF sh] by (intro inj_onI) (metis domD eq_fst_iff option.sel)
  have "?f ` dom (vis m) = insert 0 (dom (m_nodes m))"
  proof
    have "?f b = 0 \<or> m_nodes m (?f b) \<noteq> None" if "vis m b = Some (d, x)" for b d x
    proof (cases "d = 0")
      case False
      then show ?thesis using shapeD(3) [OF sh that] that by (auto simp: vis_def)
    qed (simp add: that)
    then show "?f ` dom (vis m) \<subseteq> insert 0 (dom (m_nodes m))" by fastforce
    have "a \<in> ?f ` dom (vis m)" if a: "m_nodes m a \<noteq> None" for a
    proof -
      obtain b where "bdata m b = Some a" using o a unfolding owned_nodes_def by blast
      then have "vis m b \<noteq> None" "?f b = a" by (auto simp: bdata_def vis_def)
      then show ?thesis by blast
    qed
    moreover have "0 \<in> ?f ` dom (vis m)"
    proof -
      have "\<exists>c\<in>set (trail (vis m) h bs). \<exists>y. vis m c = Some (0, y)"
        using ch
      proof (induction bs arbitrary: h)
        case (Cons e bs)
        obtain d p x where "vis m h = Some (d, Some (p, x))" "d \<noteq> 0" "chain (vis m) p bs"
          "trail (vis m) h (e # bs) = h # trail (vis m) p bs" "e = (h, x)" by (rule trail_Cons [OF Cons.prems])
        then show ?case using Cons.IH by simp
      qed simp
      then show ?thesis unfolding dom [symmetric] by force
    qed
    ultimately show "insert 0 (dom (m_nodes m)) \<subseteq> ?f ` dom (vis m)" by blast
  qed
  moreover have "card (?f ` dom (vis m)) = Suc (length bs)" using card_image [OF inj] c v by simp
  moreover have "finite (dom (m_nodes m))" using calculation sh by (metis finite_imageI finite_insert shape_def)
  moreover have "0 \<notin> dom (m_nodes m)" using o by (simp add: owned_nodes_def domIff)
  ultimately show "card (dom (m_nodes m)) = length bs" by simp
qed

section \<open>The destructor\<close>

lemma release_one:
  assumes sh: "shape (vis m)" and v: "vis m b = Some (d, x)" and one: "rc m b = 1"
  obtains p m' where "unref_step b m = (unref_entry p, m')" "vis m' = (vis m)(b := None)" "rc m' = (rc m)(b := 0)"
    "vprev (d, x) = ref1 p" "\<And>old. packed_ptr old = b \<Longrightarrow> destroyOldControlBlock old m = (unref_entry p, m')"
proof -
  obtain blk where blk: "m_blocks m b = Some blk" "cb_data blk = d" using v by (auto simp: vis_def)
  have "0 < rc m b" "unat (1::size_t) \<le> rc m b" using one by simp_all
  then obtain prior m1 where sub: "ref_sub b 1 m = Some (prior, m1)" "unat prior = rc m b" "vis m1 = vis m"
    "m_packed m1 = m_packed m" "rc m1 = (rc m)(b := rc m b - unat (1::size_t))" by (rule ref_sub_ok)
  obtain p m2 where del: "delete_both d b m1 = Some (p, m2)" "vis m2 = (vis m1)(b := None)" "rc m2 = (rc m1)(b := 0)"
    "vprev (d, x) = ref1 p" using delete_both_ok [of m1 b d x] sh v sub(3) by metis
  have prior: "prior = 1" using sub(2) one by (simp add: word_unat_eq_iff)
  show thesis
  proof (rule that [of p m2])
    show "unref_step b m = (unref_entry p, m2)" using blk sub(1) del(1) prior by (simp add: unref_step_def Let_def)
    show "destroyOldControlBlock old m = (unref_entry p, m2)" if "packed_ptr old = b" for old
      using blk sub(1) del(1) prior that by (simp add: destroyOldControlBlock_def Let_def)
  qed (use del sub in simp_all)
qed

lemma trail_remove:
  assumes "chain v p bs" "b \<notin> set (trail v p bs)"
  shows "chain (v(b := None)) p bs \<and> trail (v(b := None)) p bs = trail v p bs"
  using assms
proof (induction bs arbitrary: p)
  case (Cons e bs)
  obtain d q x where t: "v p = Some (d, Some (q, x))" "d \<noteq> 0" "chain v q bs" "trail v p (e # bs) = p # trail v q bs" "e = (p, x)"
    by (rule trail_Cons [OF Cons.prems(1)])
  then have "p \<noteq> b" "b \<notin> set (trail v q bs)" using Cons.prems(2) by auto
  then show ?case using Cons.IH [OF t(3)] t by (auto simp: trail.simps(2))
qed auto

lemma dtor_unref:
  assumes "chain (vis m) b bs" "shape (vis m)" "dom (vis m) = set (trail (vis m) b bs)"
    "\<And>c. vis m c \<noteq> None \<Longrightarrow> rc m c = 1" "owned_nodes m"
  shows "\<exists>m'. solo dtor_step (Suc (length bs)) (D_Unref b) m = (Return (), m') \<and>
    m_blocks m' = Map.empty \<and> m_nodes m' = Map.empty"
  using assms
proof (induction bs arbitrary: b m)
  case Nil
  obtain y where "vis m b = Some (0, y)" using Nil.prems(1) by auto
  then have v: "vis m b = Some (0, None)" using shapeD(4) [OF Nil.prems(2)] by blast
  obtain p m' where r: "unref_step b m = (unref_entry p, m')" "vis m' = (vis m)(b := None)" "rc m' = (rc m)(b := 0)"
    "vprev (0, None :: (addr \<times> 'a) option) = ref1 p"
    using release_one [OF Nil.prems(2) v] Nil.prems(4) v by (metis option.distinct(1))
  have p: "p = 0" using r(4) by (simp add: ref1_def split: if_splits)
  have "vis m' c = None" for c using r(2) Nil.prems(3) by (cases "c = b") auto
  then have b: "m_blocks m' = Map.empty" by (simp add: vis_None fun_eq_iff)
  have "owned_nodes m'" using unref_owned [OF r(1) Nil.prems(5)] .
  then have "m_nodes m' = Map.empty" using b by (auto simp: owned_nodes_def bdata_def fun_eq_iff)
  then show ?case using r(1) p b by (simp add: unref_entry_def)
next
  case (Cons e bs)
  obtain d q x where t: "vis m b = Some (d, Some (q, x))" "d \<noteq> 0" "chain (vis m) q bs"
    "trail (vis m) b (e # bs) = b # trail (vis m) q bs" "e = (b, x)" by (rule trail_Cons [OF Cons.prems(1)])
  obtain p m' where r: "unref_step b m = (unref_entry p, m')" "vis m' = (vis m)(b := None)" "rc m' = (rc m)(b := 0)"
    "vprev (d, Some (q, x)) = ref1 p"
    using release_one [OF Cons.prems(2) t(1)] Cons.prems(4) t(1) by (metis option.distinct(1))
  have "vis m q \<noteq> None" using t(3) by (cases bs) auto
  then have q: "q \<noteq> 0" using Cons.prems(2) by (auto simp: shape_def)
  then have p: "p = q" using r(4) by (simp add: ref1_def split: if_splits)
  have nb: "b \<notin> set (trail (vis m) q bs)" by (rule trail_once [OF Cons.prems(1) t(1)])
  note tr = trail_remove [OF t(3) nb]
  have "\<exists>m''. solo dtor_step (Suc (length bs)) (D_Unref q) m' = (Return (), m'') \<and>
    m_blocks m'' = Map.empty \<and> m_nodes m'' = Map.empty"
  proof (rule Cons.IH)
    show "chain (vis m') q bs" using tr r(2) by simp
    show "shape (vis m')" by (rule shape_map_le [OF Cons.prems(2)]) (simp add: r(2) map_le_def)
    show "dom (vis m') = set (trail (vis m') q bs)" using tr r(2) Cons.prems(3) t(4) nb by auto
    show "rc m' c = 1" if "vis m' c \<noteq> None" for c
      using that r(2,3) Cons.prems(4) [of c] by (cases "c = b") auto
    show "owned_nodes m'" by (rule unref_owned [OF r(1) Cons.prems(5)])
  qed
  then show ?case using r(1) p q by (simp add: unref_entry_def)
qed

section \<open>No leaks\<close>

text \<open>
  Property C5. When no operation is running, the memory is that of a sequential stack: as many nodes as the stack has
  elements and one control block more, each with a reference count of 1, and a local count of 0. So every node
  that was popped has been freed.
\<close>

theorem lf_no_leak:
  assumes "n \<le> 500" "block \<noteq> 0" "block < 2 ^ 48" "reaches (lf_step n moved) (lf_new block) es s"
    and "\<forall>i. lf_pcs s i = S_Idle"
  shows "\<exists>a. accepts lf_spec es \<lparr>sp_stack = [], sp_status = (\<lambda>i. Free)\<rparr> = Some a \<and>
    card (dom (m_nodes (lf_mem s))) = length (sp_stack a) \<and>
    card (dom (m_blocks (lf_mem s))) = Suc (length (sp_stack a)) \<and>
    (\<forall>b blk. m_blocks (lf_mem s) b = Some blk \<longrightarrow> cb_refs blk = 1) \<and> packed_cnt (m_packed (lf_mem s)) = 0"
proof -
  obtain a where a: "accepts lf_spec es lf_start = Some a" "lf_good n (lf_mem s) (lf_pcs s) (sp_status a) (sp_stack a)"
    by (rule lf_reaches [OF assms(1-4)])
  obtain bs where bs: "chain (vis (lf_mem s)) (mhead (lf_mem s)) bs" "map snd bs = sp_stack a"
    "dom (vis (lf_mem s)) = set (trail (vis (lf_mem s)) (mhead (lf_mem s)) bs)"
    "\<forall>b. vis (lf_mem s) b \<noteq> None \<longrightarrow> rc (lf_mem s) b = 1" "packed_cnt (m_packed (lf_mem s)) = 0"
    by (rule quiet_state [OF a(2) assms(5) [rule_format]])
  note c = nodes_card [OF goodD(5) [OF a(2)] lf_reaches_owned [OF assms(1-4)] bs(1,3)]
  have len: "length (sp_stack a) = length bs" using bs(2) by (metis length_map)
  have "cb_refs blk = 1" if "m_blocks (lf_mem s) b = Some blk" for b blk
    using bs(4) [rule_format, of b] that by (simp add: vis_def rc_def word_unat_eq_iff)
  then show ?thesis using a(1) bs(5) c len by (auto simp: lf_start_def)
qed

text \<open>
  Property C7. The destructor of a stack that no thread is using terminates and frees everything: after one access
  more than there are control blocks it has returned, and no control block and no node is left.
\<close>

theorem lf_destructor_frees:
  assumes "n \<le> 500" "block \<noteq> 0" "block < 2 ^ 48" "reaches (lf_step n moved) (lf_new block) es s"
    and "\<forall>i. lf_pcs s i = S_Idle"
  shows "\<exists>m'. solo dtor_step (Suc (card (dom (m_blocks (lf_mem s))))) D_Load (lf_mem s) = (Return (), m') \<and>
    m_blocks m' = Map.empty \<and> m_nodes m' = Map.empty"
proof -
  let ?m = "lf_mem s"
  obtain a where a: "accepts lf_spec es lf_start = Some a" "lf_good n ?m (lf_pcs s) (sp_status a) (sp_stack a)"
    by (rule lf_reaches [OF assms(1-4)])
  note sh = goodD(5) [OF a(2)] and o = lf_reaches_owned [OF assms(1-4)]
  obtain bs where bs: "chain (vis ?m) (mhead ?m) bs" "map snd bs = sp_stack a"
    "dom (vis ?m) = set (trail (vis ?m) (mhead ?m) bs)"
    "\<forall>b. vis ?m b \<noteq> None \<longrightarrow> rc ?m b = 1" "packed_cnt (m_packed ?m) = 0"
    by (rule quiet_state [OF a(2) assms(5) [rule_format]])
  have card: "card (dom (m_blocks ?m)) = Suc (length bs)" by (rule nodes_card [OF sh o bs(1,3)])
  obtain m' where m': "solo dtor_step (Suc (length bs)) (D_Unref (mhead ?m)) ?m = (Return (), m')"
    "m_blocks m' = Map.empty" "m_nodes m' = Map.empty"
    using dtor_unref [OF bs(1) sh bs(3) _ o] bs(4) by blast
  have alive: "vis ?m (mhead ?m) \<noteq> None" by (rule counts_head_alive [OF goodD(1) [OF a(2)]])
  then obtain d x where v: "vis ?m (mhead ?m) = Some (d, x)" by auto
  obtain p m1 where "unref_step (mhead ?m) ?m = (unref_entry p, m1)"
    "destroyOldControlBlock (m_packed ?m) ?m = (unref_entry p, m1)"
    by (rule release_one [OF sh v bs(4) [rule_format, OF alive]]) blast
  then have same: "dtor_step (D_Old (m_packed ?m)) ?m = dtor_step (D_Unref (mhead ?m)) ?m" by simp
  have "solo dtor_step (Suc (length bs)) (D_Old (m_packed ?m)) ?m = solo dtor_step (Suc (length bs)) (D_Unref (mhead ?m)) ?m"
    by (simp only: solo.simps same)
  moreover have "dtor_step D_Load ?m = (Go (D_Old (m_packed ?m)), ?m)" using bs(5) by simp
  ultimately have "solo dtor_step (Suc (Suc (length bs))) D_Load ?m = (Return (), m')"
    unfolding solo.simps(2) [of dtor_step "Suc (length bs)"] using m'(1) by simp
  then show ?thesis using m'(2,3) card by auto
qed

section \<open>The types of the heap\<close>

text \<open>
  Property C6. The heap is well formed in every reachable state: the head and every \<open>prev_\<close> that is not null point to allocated control blocks, which have
  addresses that can be packed; a control block has no data or an allocated node; every node belongs to exactly one
  control block; and following \<open>prev_\<close> never leads back.
\<close>

theorem lf_heap_typed:
  assumes "n \<le> 500" "block \<noteq> 0" "block < 2 ^ 48" "reaches (lf_step n moved) (lf_new block) es s"
  shows "m_blocks (lf_mem s) (packed_ptr (m_packed (lf_mem s))) \<noteq> None \<and>
    (\<forall>b blk. m_blocks (lf_mem s) b = Some blk \<longrightarrow> b \<noteq> 0 \<and> b < 2 ^ 48 \<and>
      (cb_data blk \<noteq> 0 \<longrightarrow> m_nodes (lf_mem s) (cb_data blk) \<noteq> None)) \<and>
    (\<forall>b d nd. bdata (lf_mem s) b = Some d \<and> m_nodes (lf_mem s) d = Some nd \<longrightarrow>
      nd_prev nd = 0 \<or> m_blocks (lf_mem s) (nd_prev nd) \<noteq> None) \<and>
    (\<forall>d. m_nodes (lf_mem s) d \<noteq> None \<longrightarrow> (\<exists>!b. bdata (lf_mem s) b = Some d)) \<and>
    acyclic {(b, p). \<exists>d nd. bdata (lf_mem s) b = Some d \<and> m_nodes (lf_mem s) d = Some nd \<and> p = nd_prev nd}"
proof -
  let ?m = "lf_mem s"
  obtain a where "accepts lf_spec es lf_start = Some a" and a: "lf_good n ?m (lf_pcs s) (sp_status a) (sp_stack a)"
    by (rule lf_reaches [OF assms(1-4)])
  note sh = goodD(5) [OF a] and c = goodD(1) [OF a]
  have v: "vis ?m b = Some (d, map_option (\<lambda>nd. (nd_prev nd, nd_data nd)) (m_nodes ?m d))" if "bdata ?m b = Some d" for b d
    using that by (auto simp: bdata_def vis_def)
  have "m_blocks ?m (mhead ?m) \<noteq> None" using counts_head_alive [OF c] by (simp add: vis_None)
  moreover have "b \<noteq> 0 \<and> b < 2 ^ 48 \<and> (cb_data blk \<noteq> 0 \<longrightarrow> m_nodes ?m (cb_data blk) \<noteq> None)" if "m_blocks ?m b = Some blk" for b blk
    using shapeD(1-3) [OF sh v [of b "cb_data blk"]] that by (auto simp: bdata_def)
  moreover have "nd_prev nd = 0 \<or> m_blocks ?m (nd_prev nd) \<noteq> None" if "bdata ?m b = Some d" "m_nodes ?m d = Some nd" for b d nd
  proof -
    have "vis ?m b = Some (d, Some (nd_prev nd, nd_data nd))" using v [OF that(1)] that(2) by simp
    then have "nd_prev nd \<noteq> 0 \<Longrightarrow> nd_prev nd \<in># vrefs (vis ?m)" by (rule vrefs_prev [OF goodD(6) [OF a]])
    then show ?thesis using counts_vrefs_alive [OF c] by (auto simp: vis_None)
  qed
  moreover have "\<exists>!b. bdata ?m b = Some d" if n: "m_nodes ?m d \<noteq> None" for d
  proof -
    obtain b where b: "bdata ?m b = Some d" using lf_reaches_owned [OF assms(1-4)] n unfolding owned_nodes_def by blast
    moreover have "e = b" if "bdata ?m e = Some d" for e by (rule shape_inj [OF sh v [OF that] v [OF b]])
    ultimately show ?thesis by blast
  qed
  moreover have "acyclic {(b, p). \<exists>d nd. bdata ?m b = Some d \<and> m_nodes ?m d = Some nd \<and> p = nd_prev nd}"
  proof (rule acyclic_subset)
    show "acyclic (links (vis ?m))" using sh by (simp add: shape_def)
    show "{(b, p). \<exists>d nd. bdata ?m b = Some d \<and> m_nodes ?m d = Some nd \<and> p = nd_prev nd} \<subseteq> links (vis ?m)"
      using v by (fastforce simp: links_def)
  qed
  ultimately show ?thesis by blast
qed

section \<open>Concrete runs\<close>

lemma lf_example_idle:
  obtains s :: "nat lf_sys" where "reaches (lf_step 2 (\<lambda>x. 0)) (lf_new 128)
      [Call 0 (Op_Push_copy 7), Lin 0, Ret 0 R_Push, Call 0 (Op_Push_move 8), Call 1 Op_Pop, Lin 0,
       Ret 0 R_Push, Lin 1, Ret 1 (R_Pop (Some 8))] s" "\<forall>i. lf_pcs s i = S_Idle"
proof -
  obtain s :: "nat lf_sys" where s: "reaches (lf_step 2 (\<lambda>x. 0)) (lf_new 128)
      [Call 0 (Op_Push_copy 7), Lin 0, Ret 0 R_Push, Call 0 (Op_Push_move 8), Call 1 Op_Pop, Lin 0,
       Ret 0 R_Push, Lin 1, Ret 1 (R_Pop (Some 8))] s" "lf_pcs s 0 = S_Idle" "lf_pcs s 1 = S_Idle"
    using lf_example_done by blast
  have p: "(2::nat) \<le> 500" "(128::addr) \<noteq> 0" "(128::addr) < 2 ^ 48" by simp_all
  obtain a :: "nat lf_spec_state" where "lf_good 2 (lf_mem s) (lf_pcs s) (sp_status a) (sp_stack a)" by (rule lf_reaches [OF p s(1)])
  then have "lf_pcs s i = S_Idle" if "2 \<le> i" for i using that by (auto simp: lf_good_def locals_ok_def)
  moreover have "i = 0 \<or> i = 1 \<or> 2 \<le> i" for i :: nat by linarith
  ultimately have "\<forall>i. lf_pcs s i = S_Idle" using s(2,3) by metis
  with s(1) show thesis using that by blast
qed

lemma lf_no_leak_witness:
  "\<exists>es (s :: nat lf_sys). reaches (lf_step 2 (\<lambda>x. 0)) (lf_new 128) es s \<and>
     card (dom (m_nodes (lf_mem s))) = 1 \<and> card (dom (m_blocks (lf_mem s))) = 2"
proof -
  have p: "(2::nat) \<le> 500" "(128::addr) \<noteq> 0" "(128::addr) < 2 ^ 48" by simp_all
  obtain s :: "nat lf_sys" where s: "reaches (lf_step 2 (\<lambda>x. 0)) (lf_new 128)
      [Call 0 (Op_Push_copy 7), Lin 0, Ret 0 R_Push, Call 0 (Op_Push_move 8), Call 1 Op_Pop, Lin 0,
       Ret 0 R_Push, Lin 1, Ret 1 (R_Pop (Some 8))] s" "\<forall>i. lf_pcs s i = S_Idle" by (rule lf_example_idle)
  from lf_no_leak [OF p s] have "card (dom (m_nodes (lf_mem s))) = 1 \<and> card (dom (m_blocks (lf_mem s))) = 2" by auto
  with s(1) show ?thesis by blast
qed

lemma lf_destructor_frees_witness:
  "\<exists>es (s :: nat lf_sys) m'. reaches (lf_step 2 (\<lambda>x. 0)) (lf_new 128) es s \<and> m_blocks (lf_mem s) \<noteq> Map.empty \<and>
     solo dtor_step (Suc (card (dom (m_blocks (lf_mem s))))) D_Load (lf_mem s) = (Return (), m') \<and> m_blocks m' = Map.empty"
proof -
  have p: "(2::nat) \<le> 500" "(128::addr) \<noteq> 0" "(128::addr) < 2 ^ 48" by simp_all
  obtain s :: "nat lf_sys" where s: "reaches (lf_step 2 (\<lambda>x. 0)) (lf_new 128)
      [Call 0 (Op_Push_copy 7), Lin 0, Ret 0 R_Push, Call 0 (Op_Push_move 8), Call 1 Op_Pop, Lin 0,
       Ret 0 R_Push, Lin 1, Ret 1 (R_Pop (Some 8))] s" "\<forall>i. lf_pcs s i = S_Idle" by (rule lf_example_idle)
  obtain a :: "nat lf_spec_state" where a: "lf_good 2 (lf_mem s) (lf_pcs s) (sp_status a) (sp_stack a)" by (rule lf_reaches [OF p s(1)])
  have "m_blocks (lf_mem s) \<noteq> Map.empty" using counts_head_alive [OF goodD(1) [OF a]] by (auto simp: vis_None)
  with lf_destructor_frees [OF p s] s(1) show ?thesis by blast
qed

lemma lf_heap_typed_witness:
  "\<exists>es (s :: nat lf_sys). reaches (lf_step 2 (\<lambda>x. 0)) (lf_new 128) es s \<and> m_nodes (lf_mem s) \<noteq> Map.empty \<and>
     (\<forall>d. m_nodes (lf_mem s) d \<noteq> None \<longrightarrow> (\<exists>!b. bdata (lf_mem s) b = Some d))"
proof -
  have p: "(2::nat) \<le> 500" "(128::addr) \<noteq> 0" "(128::addr) < 2 ^ 48" by simp_all
  obtain s :: "nat lf_sys" and es where s: "reaches (lf_step 2 (\<lambda>x. 0)) (lf_new 128) es s"
    "m_blocks (lf_mem s) 64 = Some \<lparr>cb_data = 16, cb_refs = 1\<rparr>" using lf_example_done by blast
  note t = lf_heap_typed [OF p s(1)]
  then have "m_nodes (lf_mem s) 16 \<noteq> None" using s(2) by fastforce
  then have "m_nodes (lf_mem s) \<noteq> Map.empty" by auto
  with t s(1) show ?thesis by blast
qed

end
