(* ===== verification/Lock_Free_Solo.thy ===== *)
theory Lock_Free_Solo
  imports Lock_Free_Release
begin

text \<open>
  An operation of \<open>UnboundedLockFreeStack\<close> that no other thread disturbs any more finishes, from whatever state the others
  left: every access lowers a rank, or frees a control block.
\<close>

section \<open>Allocated blocks\<close>

abbreviation alive :: "'a mem \<Rightarrow> addr set" where
  "alive m \<equiv> dom (m_blocks m)"

lemma alive_ref:
  "ref_add b k m = Some (prior, m') \<Longrightarrow> alive m' = alive m \<and> m_packed m' = m_packed m"
  "ref_sub b k m = Some (prior, m') \<Longrightarrow> alive m' = alive m \<and> m_packed m' = m_packed m"
  by (auto simp: ref_add_def ref_sub_def split: option.splits if_splits)

lemma alive_delete: "delete_both d b m = Some (p, m') \<Longrightarrow> alive m' = alive m - {b} \<and> m_packed m' = m_packed m"
  by (auto simp: delete_both_def Let_def split: if_splits option.splits)

text \<open>Releasing goes on only if it has freed a block.\<close>

definition releases :: "'a mem \<Rightarrow> ('p, 'r) sub \<Rightarrow> 'a mem \<Rightarrow> bool" where
  "releases m r m' \<longleftrightarrow> m_packed m' = m_packed m \<and> finite (alive m') \<and>
     (case r of Go c \<Rightarrow> card (alive m') < card (alive m) | _ \<Rightarrow> card (alive m') \<le> card (alive m))"

lemma releases_cases:
  assumes "m_blocks m b = Some blk" "ref_sub b k m = Some (prior, m1)" "finite (alive m)"
  shows "delete_both d b m1 = Some (p, m') \<Longrightarrow> releases m (unref_entry p) m'" "releases m (Return x) m1"
proof -
  show "releases m (Return x) m1" using alive_ref(2) [OF assms(2)] assms(3) by (simp add: releases_def)
  assume d: "delete_both d b m1 = Some (p, m')"
  have a: "alive m' = alive m - {b}" "m_packed m' = m_packed m"
    using alive_delete [OF d] alive_ref(2) [OF assms(2)] by simp_all
  have "b \<in> alive m" using assms(1) by auto
  then have "card (alive m') < card (alive m)" unfolding a(1) by (rule card_Diff1_less [OF assms(3)])
  then show "releases m (unref_entry p) m'" using a assms(3) by (simp add: releases_def unref_entry_def)
qed

lemma releases_refl: "finite (alive m) \<Longrightarrow> releases m Crash m"
  by (simp add: releases_def)

lemma releases_crash: "ref_sub b k m = Some (prior, m1) \<Longrightarrow> finite (alive m) \<Longrightarrow> releases m Crash m1"
  by (auto simp: releases_def dest!: alive_ref(2))

lemma unref_releases: "unref_step b m = (r, m') \<Longrightarrow> finite (alive m) \<Longrightarrow> releases m r m'"
  by (auto simp: unref_step_def Let_def releases_refl releases_crash releases_cases split: option.splits if_splits)

lemma destroyOld_releases: "destroyOldControlBlock old m = (r, m') \<Longrightarrow> finite (alive m) \<Longrightarrow> releases m r m'"
  by (auto simp: destroyOldControlBlock_def Let_def releases_refl releases_crash releases_cases split: option.splits if_splits)

section \<open>Ranks\<close>

text \<open>
  \<open>w\<close> is the packed word. A program point that has just read it is nearer to the end than one with an older value,
  and a compareExchange that still has to move local shares is further from it than one that has not.
\<close>

fun destroy_rank :: "size_t \<Rightarrow> destroy_pc \<Rightarrow> nat" where
  "destroy_rank w (X_Cas f e) = (if e = w then 1 else 3)"
| "destroy_rank w (X_Sub f) = 2"
| "destroy_rank w (X_Unref b) = 1"

fun get_rank :: "size_t \<Rightarrow> get_pc \<Rightarrow> nat" where
  "get_rank w G_Add = 4"
| "get_rank w (G_Ref c) = 3"
| "get_rank w (G_Cas c e) = (if e = w then 1 else 2)"
| "get_rank w (G_Sub c) = 1"

fun fast_rank :: "fast_pc \<Rightarrow> nat" where
  "fast_rank F_Add = 2"
| "fast_rank p = 1"

fun cas_rank :: "size_t \<Rightarrow> cas_pc \<Rightarrow> nat" where
  "cas_rank w K_Same = 19"
| "cas_rank w (K_Fast p) = 16 + fast_rank p"
| "cas_rank w (K_RefAdd h ep) = (if ep = w then 11 else if packed_cnt w = 0 then 9 else 14)"
| "cas_rank w (K_Clear h ep) = (if ep = w then 10 else if packed_cnt w = 0 then 8 else 13)"
| "cas_rank w (K_RefSub h ep d) = (if ep = w then (if packed_cnt w = 0 then 7 else 12) else if packed_cnt w = 0 then 10 else 16)"
| "cas_rank w (K_Swap h ep) = (if ep = w then 6 else if packed_cnt w = 0 then 7 else 15)"
| "cas_rank w (K_Old h ep) = 5"
| "cas_rank w (K_OldUnref h b) = 4"
| "cas_rank w (K_Destroy ok p) = destroy_rank w p"

definition lowers :: "('p \<Rightarrow> nat) \<Rightarrow> ('q \<Rightarrow> nat) \<Rightarrow> 'a mem \<Rightarrow> 'p \<Rightarrow> ('q, 'r) sub \<Rightarrow> 'a mem \<Rightarrow> bool" where
  "lowers rank rank' m p r m' \<longleftrightarrow> finite (alive m') \<and> card (alive m') \<le> card (alive m) \<and>
     (case r of Go q \<Rightarrow> rank' q + card (alive m') < rank p + card (alive m) | _ \<Rightarrow> True)"

lemma destroy_rank_bounds: "1 \<le> destroy_rank w p" "destroy_rank w p \<le> 3"
  by (cases p; simp)+

lemma get_rank_bounds: "1 \<le> get_rank w p" "get_rank w p \<le> 4"
  by (cases p; simp)+

lemma cas_rank_bounds: "1 \<le> cas_rank w p" "cas_rank w p \<le> 19"
proof -
  have f: "fast_rank q \<le> 2" for q by (cases q) simp_all
  have "1 \<le> cas_rank w p \<and> cas_rank w p \<le> 19"
  proof (cases p)
    case (K_Fast q)
    then show ?thesis using f [of q] by simp
  next
    case (K_Destroy ok q)
    then show ?thesis using destroy_rank_bounds [of w q] by simp
  qed simp_all
  then show "1 \<le> cas_rank w p" "cas_rank w p \<le> 19" by simp_all
qed

lemma destroy_lowers:
  assumes "destroy_step False p m = (r, m')" "finite (alive m)"
  shows "lowers (destroy_rank (m_packed m)) (destroy_rank (m_packed m')) m p r m'"
proof (cases p)
  case (X_Cas f e)
  then show ?thesis using assms by (auto simp: lowers_def Let_def split: if_splits)
next
  case (X_Sub f)
  show ?thesis
  proof (cases "ref_sub (packed_ptr (fs_known f)) 1 m")
    case None
    then show ?thesis using assms X_Sub by (simp add: lowers_def)
  next
    case (Some pm)
    obtain prior m1 where s: "ref_sub (packed_ptr (fs_known f)) 1 m = Some (prior, m1)" using Some by (cases pm) auto
    note a = alive_ref(2) [OF s]
    show ?thesis
    proof (cases "prior = 1")
      case False
      then show ?thesis using assms X_Sub s a by (auto simp: lowers_def)
    next
      case one: True
      show ?thesis
      proof (cases "delete_both (fs_data f) (packed_ptr (fs_known f)) m1")
        case None
        then show ?thesis using assms X_Sub s a one by (auto simp: lowers_def)
      next
        case (Some qm)
        obtain c m2 where d: "delete_both (fs_data f) (packed_ptr (fs_known f)) m1 = Some (c, m2)" using Some by (cases qm) auto
        have "r = bind_sub X_Unref Return (unref_entry c)" "m' = m2" using assms(1) X_Sub s one d by (simp_all add: Let_def)
        moreover have "finite (alive m2)" "card (alive m2) \<le> card (alive m)"
          using alive_delete [OF d] a assms(2) by (simp_all add: card_Diff1_le)
        ultimately show ?thesis using X_Sub by (simp add: lowers_def unref_entry_def)
      qed
    qed
  qed
next
  case (X_Unref b)
  obtain r1 m1 where u: "unref_step b m = (r1, m1)" by (rule prod.exhaust)
  then have "r = bind_sub X_Unref Return r1" "m' = m1" using assms(1) X_Unref by simp_all
  then show ?thesis using unref_releases [OF u assms(2)] X_Unref by (cases r1) (auto simp: lowers_def releases_def)
qed

lemma get_lowers:
  assumes "get_step False p m = (r, m')" "finite (alive m)"
  shows "lowers (get_rank (m_packed m)) (get_rank (m_packed m')) m p r m'"
proof (cases p)
  case (G_Ref c)
  then show ?thesis using assms by (auto simp: lowers_def split: option.splits if_splits dest!: alive_ref(1))
next
  case (G_Sub c)
  then show ?thesis using assms by (auto simp: lowers_def split: option.splits if_splits dest!: alive_ref(2))
qed (use assms in \<open>auto simp: lowers_def Let_def split: if_splits\<close>)

lemma cas_finish_go: "fs_foreign h \<Longrightarrow> cas_finish ok h = Go (K_Destroy ok (X_Cas h (fs_known h)))"
  by (simp add: cas_finish_def destroy_entry_def)

lemma cas_loop_go:
  assumes "fs_foreign h"
  obtains q where "cas_loop h ep = Go q"
    "cas_rank w q \<le> (if ep = w then (if packed_cnt w = 0 then 6 else 11) else if packed_cnt w = 0 then 9 else 15)"
proof -
  have "\<exists>q. cas_loop h ep = Go q \<and>
    cas_rank w q \<le> (if ep = w then (if packed_cnt w = 0 then 6 else 11) else if packed_cnt w = 0 then 9 else 15)"
    by (auto simp: cas_loop_def cas_finish_go assms)
  then show thesis using that by blast
qed

lemma fast_data_step:
  assumes "fast_pc_ok v (F_Data known)" "fast_step (F_Data known) m = (r, m')"
  shows "m' = m" "r = Crash \<or> (\<exists>f. r = Return f \<and> fs_foreign f \<and> fs_known f = known)"
proof -
  have "\<not> packed_cnt known > 1000" using assms(1) by (simp add: word_less_nat_alt not_less)
  then show "m' = m" "r = Crash \<or> (\<exists>f. r = Return f \<and> fs_foreign f \<and> fs_known f = known)"
    using assms(2) by (auto simp: fast_loop_def split: option.splits)
qed

lemma lowersI:
  "finite (alive m') \<Longrightarrow> card (alive m') \<le> card (alive m) \<Longrightarrow> rank' q < rank p \<Longrightarrow> lowers rank rank' m p (Go q) m'"
  by (simp add: lowers_def)

lemma cas_lowers_K_Fast:
  assumes step: "cas_step False a p m = (r, a', m')" and fin: "finite (alive m)" and ok: "cas_ok v (cx_expected a) p"
    and K_Fast: "p = K_Fast q"
  shows "lowers (cas_rank (m_packed m)) (cas_rank (m_packed m')) m p r m'"
proof -
  obtain r1 m1 where f: "fast_step q m = (r1, m1)" by (rule prod.exhaust)
  then have r: "r = bind_sub K_Fast (cas_enter (cx_expected a)) r1" "m' = m1" using step K_Fast by auto
  have "fast_pc_ok v q" using ok K_Fast by simp
  then show ?thesis
  proof (cases rule: fast_pc_cases)
    case 1
    then show ?thesis using f r K_Fast fin by (auto simp: lowers_def Let_def)
  next
    case (2 known)
    note fd = fast_data_step [OF \<open>fast_pc_ok v q\<close> [unfolded 2] f [unfolded 2]]
    from fd(2) show ?thesis
    proof
      assume "r1 = Crash"
      then show ?thesis using r fd(1) fin by (simp add: lowers_def)
    next
      assume "\<exists>f. r1 = Return f \<and> fs_foreign f \<and> fs_known f = known"
      then obtain h where h: "r1 = Return h" "fs_foreign h" by blast
      let ?ep = "pack (packed_ptr (fs_known h))"
      obtain c where loop: "cas_loop h ?ep = Go c" "cas_rank (m_packed m) c \<le> (if ?ep = m_packed m then
          (if packed_cnt (m_packed m) = 0 then 6 else 11) else if packed_cnt (m_packed m) = 0 then 9 else 15)"
        by (rule cas_loop_go [OF h(2)])
      then have c: "cas_loop h ?ep = Go c" "cas_rank (m_packed m) c \<le> 15" by (simp_all split: if_splits)
      show ?thesis using r h c fd(1) fin K_Fast 2
        by (auto simp: lowers_def cas_enter_def cas_finish_go)
    qed
  qed
qed

lemma cas_lowers_K_Clear:
  assumes step: "cas_step False a p m = (r, a', m')" and fin: "finite (alive m)" and ok: "cas_ok v (cx_expected a) p"
    and K_Clear: "p = K_Clear h ep"
  shows "lowers (cas_rank (m_packed m)) (cas_rank (m_packed m')) m p r m'"
proof -
  have h: "fs_foreign h" using ok K_Clear by (simp add: holder_ok_def fast_ok_def)
  show ?thesis
  proof (cases "m_packed m = ep")
    case True
    then have r: "r = cas_loop h ep" "m' = m\<lparr>m_packed := ep AND NOT kMagicMask\<rparr>" using step K_Clear by simp_all
    obtain q where q: "cas_loop h ep = Go q" "cas_rank (m_packed m') q \<le> (if ep = m_packed m' then
        (if packed_cnt (m_packed m') = 0 then 6 else 11) else if packed_cnt (m_packed m') = 0 then 9 else 15)"
      by (rule cas_loop_go [OF h])
    have "packed_cnt (m_packed m') = 0" using packed_clear(2) [of ep] r(2) by simp
    then have "cas_rank (m_packed m') q \<le> 9" using q(2) by (simp split: if_splits)
    then show ?thesis using r q(1) fin K_Clear True by (simp add: lowers_def)
  next
    case False
    then have "r = Go (K_RefSub h (m_packed m) (packed_cnt ep))" "m' = m" using step K_Clear by auto
    then show ?thesis using fin K_Clear False by (simp add: lowers_def)
  qed
qed

lemma cas_lowers_K_RefSub:
  assumes step: "cas_step False a p m = (r, a', m')" and fin: "finite (alive m)" and ok: "cas_ok v (cx_expected a) p"
    and K_RefSub: "p = K_RefSub h ep d"
  shows "lowers (cas_rank (m_packed m)) (cas_rank (m_packed m')) m p r m'"
proof -
  have h: "fs_foreign h" using ok K_RefSub by (simp add: holder_ok_def fast_ok_def)
  show ?thesis
  proof (cases "ref_sub (packed_ptr (fs_known h)) d m")
    case None
    then show ?thesis using step K_RefSub fin by (simp add: lowers_def)
  next
    case (Some pm)
    obtain prior m1 where s: "ref_sub (packed_ptr (fs_known h)) d m = Some (prior, m1)" using Some by (cases pm) auto
    have r: "r = cas_loop h ep" "m' = m1" using step K_RefSub s by simp_all
    obtain q where q: "cas_loop h ep = Go q" "cas_rank (m_packed m) q \<le>
        (if ep = m_packed m then (if packed_cnt (m_packed m) = 0 then 6 else 11) else if packed_cnt (m_packed m) = 0 then 9 else 15)"
      by (rule cas_loop_go [OF h])
    have "cas_rank (m_packed m) q < cas_rank (m_packed m) p" using q(2) K_RefSub by (simp split: if_splits)
    then show ?thesis using r q(1) alive_ref(2) [OF s] fin by (simp add: lowers_def)
  qed
qed

lemma cas_lowers_K_Swap:
  assumes step: "cas_step False a p m = (r, a', m')" and fin: "finite (alive m)" and ok: "cas_ok v (cx_expected a) p"
    and K_Swap: "p = K_Swap h ep"
  shows "lowers (cas_rank (m_packed m)) (cas_rank (m_packed m')) m p r m'"
proof -
  have h: "fs_foreign h" "packed_cnt ep = 0" "packed_ptr ep = packed_ptr (fs_known h)" using ok K_Swap by (simp_all add: holder_ok_def fast_ok_def)
  show ?thesis
  proof (cases "packed_ptr ep = packed_ptr (pack (cx_newOne a))")
    case True
    then show ?thesis using step K_Swap fin by (simp add: lowers_def)
  next
    case False
    show ?thesis
    proof (cases "m_packed m = ep")
      case True
      then show ?thesis using step K_Swap False h fin by (auto simp: lowers_def)
    next
      case stale: False
      have r: "r = cas_loop h (m_packed m)" "m' = m" using step K_Swap False stale by auto
      obtain q where q: "cas_loop h (m_packed m) = Go q" "cas_rank (m_packed m) q \<le> (if m_packed m = m_packed m then
          (if packed_cnt (m_packed m) = 0 then 6 else 11) else if packed_cnt (m_packed m) = 0 then 9 else 15)"
        by (rule cas_loop_go [OF h(1)])
      then have "cas_rank (m_packed m) q < cas_rank (m_packed m) p" using K_Swap stale by (simp split: if_splits)
      then show ?thesis using r q(1) fin by (simp add: lowers_def)
    qed
  qed
qed

lemma cas_lowers:
  assumes step: "cas_step False a p m = (r, a', m')" and fin: "finite (alive m)" and ok: "cas_ok v (cx_expected a) p"
  shows "lowers (cas_rank (m_packed m)) (cas_rank (m_packed m')) m p r m'"
proof (cases p)
  case K_Same
  then show ?thesis using step fin by (auto simp: lowers_def split: option.splits if_splits)
next
  case (K_Fast q)
  then show ?thesis by (rule cas_lowers_K_Fast [OF step fin ok])
next
  case (K_RefAdd h ep)
  then show ?thesis using step fin by (auto simp: lowers_def split: option.splits dest!: alive_ref(1))
next
  case (K_Clear h ep)
  then show ?thesis by (rule cas_lowers_K_Clear [OF step fin ok])
next
  case (K_RefSub h ep d)
  then show ?thesis by (rule cas_lowers_K_RefSub [OF step fin ok])
next
  case (K_Swap h ep)
  then show ?thesis by (rule cas_lowers_K_Swap [OF step fin ok])
next
  case (K_Old h ep)
  have h: "fs_foreign h" using ok K_Old by (simp add: fast_ok_def)
  obtain r1 m1 where u: "destroyOldControlBlock ep m = (r1, m1)" by (rule prod.exhaust)
  then have "r = bind_sub (K_OldUnref h) (\<lambda>_. cas_finish True h) r1" "m' = m1" using step K_Old by auto
  then show ?thesis using destroyOld_releases [OF u fin] K_Old h
    by (cases r1) (auto simp: lowers_def releases_def cas_finish_go)
next
  case (K_OldUnref h b)
  have h: "fs_foreign h" using ok K_OldUnref by (simp add: fast_ok_def)
  obtain r1 m1 where u: "unref_step b m = (r1, m1)" by (rule prod.exhaust)
  then have "r = bind_sub (K_OldUnref h) (\<lambda>_. cas_finish True h) r1" "m' = m1" using step K_OldUnref by auto
  then show ?thesis using unref_releases [OF u fin] K_OldUnref h
    by (cases r1) (auto simp: lowers_def releases_def cas_finish_go)
next
  case (K_Destroy b q)
  obtain r1 m1 where u: "destroy_step False q m = (r1, m1)" by (rule prod.exhaust)
  then have "r = bind_sub (K_Destroy b) (\<lambda>_. Return b) r1" "m' = m1" using step K_Destroy by auto
  then show ?thesis using destroy_lowers [OF u fin] K_Destroy by (cases r1) (auto simp: lowers_def)
qed

end
