(* ===== verification/Lock_Free_Progress.thy ===== *)
theory Lock_Free_Progress
  imports Lock_Free_Solo
begin

text \<open>
  \<open>UnboundedLockFreeStack\<close> is obstruction free. An attempt of an operation is doomed once the head has changed under it; only a doomed
  attempt goes round the loop of \<open>Push\<close> or \<open>Pop\<close>, and running alone the next one is not.
\<close>

section \<open>Doomed attempts\<close>

definition head_data :: "'a mem \<Rightarrow> addr option" where
  "head_data m = bdata m (mhead m)"

definition prev_of :: "'a mem \<Rightarrow> addr \<Rightarrow> addr option" where
  "prev_of m b = (case bdata m b of None \<Rightarrow> None | Some d \<Rightarrow> map_option nd_prev (m_nodes m d))"

fun fast_doomed :: "'a mem \<Rightarrow> fast_pc \<Rightarrow> bool" where
  "fast_doomed m (F_Data k) = (packed_ptr k \<noteq> mhead m)"
| "fast_doomed m p = False"

fun get_doomed :: "'a mem \<Rightarrow> get_pc \<Rightarrow> bool" where
  "get_doomed m G_Add = False"
| "get_doomed m (G_Ref c) = (packed_ptr c \<noteq> mhead m)"
| "get_doomed m (G_Cas c e) = (packed_ptr c \<noteq> mhead m)"
| "get_doomed m (G_Sub c) = (packed_ptr c \<noteq> mhead m)"

abbreviation stale :: "'a mem \<Rightarrow> fast \<Rightarrow> bool" where
  "stale m h \<equiv> packed_ptr (fs_known h) \<noteq> mhead m"

fun cas_doomed :: "'a mem \<Rightarrow> addr \<Rightarrow> cas_pc \<Rightarrow> bool" where
  "cas_doomed m e K_Same = (head_data m \<noteq> Some e)"
| "cas_doomed m e (K_Fast p) = (fast_doomed m p \<or> head_data m \<noteq> Some e)"
| "cas_doomed m e (K_RefAdd h ep) = stale m h"
| "cas_doomed m e (K_Clear h ep) = stale m h"
| "cas_doomed m e (K_RefSub h ep d) = (stale m h \<or> packed_ptr ep \<noteq> mhead m)"
| "cas_doomed m e (K_Swap h ep) = stale m h"
| "cas_doomed m e (K_Old h ep) = False"
| "cas_doomed m e (K_OldUnref h b) = False"
| "cas_doomed m e (K_Destroy ok p) = (\<not> ok)"

fun doomed :: "'a mem \<Rightarrow> 'a lf_pc \<Rightarrow> bool" where
  "doomed m (S_Get b p) = get_doomed m p"
| "doomed m (S_Assign b c) = (c \<noteq> mhead m)"
| "doomed m (S_Unref b u) = (prev_of m b \<noteq> Some (mhead m))"
| "doomed m (S_Expected b) = (prev_of m b \<noteq> Some (mhead m))"
| "doomed m (S_Pop p) = fast_doomed m p"
| "doomed m (S_Again t p) = fast_doomed m p"
| "doomed m (S_Prev t) = stale m t"
| "doomed m (S_Copy t b) = stale m t"
| "doomed m (S_AssignTop t p) = stale m t"
| "doomed m (S_Cas c a p) = cas_doomed m (cx_expected a) p"
| "doomed m pc = False"

section \<open>What the accesses of one thread keep\<close>

definition keeps :: "'a mem \<Rightarrow> 'a mem \<Rightarrow> bool" where
  "keeps m m' \<longleftrightarrow> bdata m' \<subseteq>\<^sub>m bdata m \<and> m_nodes m' \<subseteq>\<^sub>m m_nodes m \<and> mhead m' = mhead m"

lemma keeps_refl: "keeps m m"
  by (simp add: keeps_def)

lemma keeps_ref:
  "ref_add b k m = Some (prior, m') \<Longrightarrow> keeps m m'"
  "ref_sub b k m = Some (prior, m') \<Longrightarrow> keeps m m'"
  by (auto simp: keeps_def dest: bdata_ref alive_ref)

lemma keeps_delete:
  assumes "delete_both d b m = Some (p, m')"
  shows "keeps m m'"
proof -
  have "m_blocks m' = (m_blocks m)(b := None)" "m_packed m' = m_packed m" "\<And>a. m_nodes m' a = (if a = d \<and> d \<noteq> 0 then None else m_nodes m a)"
    using assms by (auto simp: delete_both_def Let_def split: if_splits option.splits)
  then show ?thesis by (auto simp: keeps_def bdata_def map_le_def split: if_splits)
qed

lemma keeps_trans: "keeps m m1 \<Longrightarrow> keeps m1 m2 \<Longrightarrow> keeps m m2"
  by (auto simp: keeps_def intro: map_le_trans)

lemma keeps_release: "ref_sub b k m = Some (prior, m1) \<Longrightarrow> delete_both d b m1 = Some (p, m') \<Longrightarrow> keeps m m'"
  by (rule keeps_trans [OF keeps_ref(2) keeps_delete])

lemma unref_keeps: "unref_step b m = (r, m') \<Longrightarrow> keeps m m'"
  by (auto simp: unref_step_def Let_def keeps_refl keeps_ref keeps_release split: option.splits if_splits)

lemma destroy_head:
  assumes "destroy_step False p m = (r, m')" "destroy_ok (vis m) p"
  shows "mhead m' = mhead m"
proof (cases p)
  case (X_Cas f e)
  then have "packed_cnt e \<noteq> 0" using assms(2) by simp
  then show ?thesis using assms(1) X_Cas by (auto simp: Let_def packed_pred(1) split: if_splits)
next
  case (X_Sub f)
  then show ?thesis using assms(1)
    by (auto simp: Let_def split: option.splits if_splits dest!: keeps_ref(2) keeps_delete simp: keeps_def)
next
  case (X_Unref b)
  then show ?thesis using assms(1) by (auto split: prod.splits dest!: unref_keeps simp: keeps_def)
qed

lemma prev_of_keeps:
  assumes "keeps m m'" "vis m' b = Some (d, Some (q, x))"
  shows "prev_of m' b = prev_of m b"
proof -
  obtain blk where blk: "m_blocks m' b = Some blk" "cb_data blk = d" "map_option (\<lambda>nd. (nd_prev nd, nd_data nd)) (m_nodes m' d) = Some (q, x)"
    using assms(2) by (auto simp: vis_def split: if_splits option.splits)
  then obtain nd where nd: "m_nodes m' d = Some nd" by auto
  have "bdata m' b = Some d" using blk by (simp add: bdata_def)
  moreover have "bdata m b = bdata m' b" using assms(1) calculation unfolding keeps_def map_le_def by (metis domI)
  moreover have "m_nodes m d = m_nodes m' d" using assms(1) nd unfolding keeps_def map_le_def by (metis domI)
  ultimately show ?thesis by (simp add: prev_of_def)
qed

lemma vis_bdata: "vis m b = Some (d, x) \<Longrightarrow> bdata m b = Some d"
  by (auto simp: vis_def bdata_def split: option.splits if_splits)

section \<open>An attempt that is not doomed stays so\<close>

lemma fast_step_doom:
  assumes "fast_step p m = (Go q, m')" "fast_pc_ok v p" "mcnt m \<le> 1000"
  shows "\<not> fast_doomed m' q"
  using assms by (cases p) (auto simp: Let_def fast_loop_def packed_Suc(1) word_less_nat_alt split: option.splits if_splits)

lemma fast_step_known:
  assumes "fast_step p m = (Return f, m')" "fast_pc_ok v p" "\<not> fast_doomed m p"
  shows "m' = m \<and> fs_foreign f \<and> packed_ptr (fs_known f) = mhead m \<and> head_data m = Some (fs_data f)"
  using assms
  by (cases p) (auto simp: Let_def fast_loop_def head_data_def bdata_def word_less_nat_alt split: option.splits if_splits)

lemma get_step_doom:
  assumes "get_step False p m = (r, m')" "get_ok p" "mcnt m \<le> 1000" "\<not> get_doomed m p"
  shows "case r of Go q \<Rightarrow> \<not> get_doomed m' q | Return b \<Rightarrow> b = mhead m' | Crash \<Rightarrow> True"
proof (cases p)
  case G_Add
  then show ?thesis using assms(1,3) packed_Suc(1) [of "m_packed m"] by auto
next
  case (G_Ref c)
  then show ?thesis using assms(1,4) by (auto split: option.splits if_splits dest!: alive_ref(1))
next
  case (G_Cas c e)
  have e: "packed_cnt e \<noteq> 0" "packed_ptr (e - 1) = packed_ptr e" using assms(2) packed_pred(1) [of e] G_Cas by auto
  show ?thesis
  proof (cases "m_packed m = e")
    case True
    then show ?thesis using assms(1,4) G_Cas e by auto
  next
    case False
    then show ?thesis using assms(1,4) G_Cas e by (auto simp: Let_def split: if_splits)
  qed
next
  case (G_Sub c)
  then show ?thesis using assms(1,4) by (auto split: option.splits if_splits dest!: alive_ref(2))
qed

lemma cas_loop_doom:
  assumes "cas_loop h ep = Go q" "\<not> stale m h" "packed_ptr ep = mhead m"
  shows "\<not> cas_doomed m e q"
  using assms by (auto simp: cas_loop_def split: if_splits)

lemma cas_finish_doom: "cas_finish True h = Go q \<Longrightarrow> \<not> cas_doomed m e q"
  by (auto simp: cas_finish_def destroy_entry_def split: if_splits)

lemma packed_ptr_lt: "packed_ptr w < 2 ^ 48"
  using unat_lt64 [of w] by (simp add: word_less_nat_alt unat_packed_ptr)

lemma cas_step_doom:
  assumes step: "cas_step False a p m = (r, a', m')" and ok: "cas_ok v (cx_expected a) p"
    and head: "mcnt m \<le> 1000" "m_blocks m (mhead m) \<noteq> None" and d: "\<not> cas_doomed m (cx_expected a) p"
  shows "case r of Go q \<Rightarrow> \<not> cas_doomed m' (cx_expected a) q | Return b \<Rightarrow> b | Crash \<Rightarrow> True"
proof (cases p)
  case K_Same
  then show ?thesis using step d by (auto split: option.splits if_splits)
next
  case (K_Fast fp)
  obtain r1 m1 where f: "fast_step fp m = (r1, m1)" by (rule prod.exhaust)
  then have r: "r = bind_sub K_Fast (cas_enter (cx_expected a)) r1" "m' = m1" using step K_Fast by auto
  have fok: "fast_pc_ok v fp" and nd: "\<not> fast_doomed m fp" "head_data m = Some (cx_expected a)" using ok d K_Fast by simp_all
  show ?thesis
  proof (cases r1)
    case (Go q)
    have "fp = F_Add" using fok f Go by (cases fp) (auto simp: fast_loop_def word_less_nat_alt split: option.splits if_splits)
    then have "head_data m' = head_data m" using f r(2) head(1) by (auto simp: head_data_def bdata_def Let_def packed_Suc(1))
    then show ?thesis using fast_step_doom [OF f [unfolded Go] fok head(1)] r Go nd by simp
  next
    case (Return h)
    note k = fast_step_known [OF f [unfolded Return] fok nd(1)]
    have "packed_ptr (pack (packed_ptr (fs_known h))) = mhead m'"
      using k r(2) packed_pack(1) [OF packed_ptr_lt [of "fs_known h"]] by simp
    then show ?thesis using k r nd(2) Return by (auto simp: cas_enter_def cas_loop_def)
  qed (use r in simp)
next
  case (K_RefAdd h ep)
  then show ?thesis using step d by (auto split: option.splits dest!: alive_ref(1))
next
  case (K_Clear h ep)
  note c = packed_clear(1) [of ep]
  have h: "packed_ptr ep = packed_ptr (fs_known h)" using ok K_Clear by simp
  show ?thesis
  proof (cases "m_packed m = ep")
    case True
    then have "r = cas_loop h ep" "m' = m\<lparr>m_packed := ep AND NOT kMagicMask\<rparr>" using step K_Clear by simp_all
    then show ?thesis using h c by (simp add: cas_loop_def)
  next
    case False
    then show ?thesis using step d K_Clear by auto
  qed
next
  case (K_RefSub h ep k)
  then show ?thesis using step d by (auto simp: cas_loop_def split: option.splits if_splits dest!: alive_ref(2))
next
  case (K_Swap h ep)
  then show ?thesis using step d by (auto simp: cas_loop_def split: if_splits)
next
  case (K_Old h ep)
  obtain r1 m1 where "destroyOldControlBlock ep m = (r1, m1)" by (rule prod.exhaust)
  then have "r = bind_sub (K_OldUnref h) (\<lambda>_. cas_finish True h) r1" using step K_Old by auto
  then show ?thesis by (cases r1) (auto simp: cas_finish_def destroy_entry_def)
next
  case (K_OldUnref h b)
  obtain r1 m1 where "unref_step b m = (r1, m1)" by (rule prod.exhaust)
  then have "r = bind_sub (K_OldUnref h) (\<lambda>_. cas_finish True h) r1" using step K_OldUnref by auto
  then show ?thesis by (cases r1) (auto simp: cas_finish_def destroy_entry_def)
next
  case (K_Destroy fin q)
  obtain r1 m1 where "destroy_step False q m = (r1, m1)" by (rule prod.exhaust)
  then have "r = bind_sub (K_Destroy fin) (\<lambda>_. Return fin) r1" using step K_Destroy by auto
  then show ?thesis using d K_Destroy by (cases r1) auto
qed

text \<open>No access makes a doomed attempt of one that is not.\<close>

lemma lf_end_doom: "\<not> doomed m (lf_end r f)"
  by (simp add: lf_end_def split: sub.split)

lemma lf_top_doom: "\<not> stale m f \<Longrightarrow> \<not> doomed m (lf_top f)"
  by (simp add: lf_top_def lf_end_doom)

lemma lf_again_doom: "\<not> stale m f \<Longrightarrow> \<not> doomed m (lf_again old f)"
  by (simp add: lf_again_def fast_move_def lf_top_doom split: sub.split)

lemma lf_popped_doom: "\<not> doomed m (lf_popped ok f)"
  by (simp add: lf_popped_def)

lemma lf_cas_return_doom: "\<not> doomed m (lf_cas_return c b ok)"
  by (cases c) (simp_all add: lf_popped_doom split: sub.split)

lemma access_doom:
  assumes acc: "lf_access moved False pc m = Some (Go pc', m')" and ok: "local_ok (vis m) pc st" and ok': "local_ok (vis m') pc' st'"
    and head: "mcnt m \<le> 1000" "vis m (mhead m) \<noteq> None" "mhead m \<noteq> 0" and nd: "\<not> doomed m pc"
  shows "\<not> doomed m' pc'"
proof (cases pc)
  case (S_IsEmpty p)
  obtain r1 m1 where "fast_step p m = (r1, m1)" by (rule prod.exhaust)
  then show ?thesis using acc S_IsEmpty by (cases r1) (auto simp: lf_end_doom)
next
  case (S_Get b p)
  obtain r1 m1 where f: "get_step False p m = (r1, m1)" by (rule prod.exhaust)
  have "get_ok p" "\<not> get_doomed m p" using ok nd S_Get by simp_all
  from get_step_doom [OF f this(1) head(1) this(2)] show ?thesis using f acc S_Get by (cases r1) auto
next
  case (S_Assign b c)
  then show ?thesis using acc nd
    by (auto simp: move_assign_def prev_of_def bdata_def unref_entry_def split: option.splits if_splits)
next
  case (S_Unref b u)
  obtain r1 m1 where f: "unref_step u m = (r1, m1)" by (rule prod.exhaust)
  note k = unref_keeps [OF f]
  have pc': "m' = m1" "(\<exists>u'. pc' = S_Unref b u') \<or> pc' = S_Expected b" using f acc S_Unref by (cases r1; auto)+
  then obtain d q x where "vis m' b = Some (d, Some (q, x))" using ok' by (auto simp: linked_at_def)
  from prev_of_keeps [OF k [folded pc'(1)] this] have "prev_of m' b = prev_of m b" .
  then show ?thesis using pc' nd S_Unref k by (auto simp: keeps_def)
next
  case (S_Expected b)
  then show ?thesis using acc nd head(3)
    by (auto simp: prev_of_def bdata_def head_data_def SharedPtr_get_def split: option.splits if_splits)
next
  case (S_Dtor u)
  obtain r1 m1 where "unref_step u m = (r1, m1)" by (rule prod.exhaust)
  then show ?thesis using acc S_Dtor by (cases r1) auto
next
  case (S_Pop p)
  obtain r1 m1 where f: "fast_step p m = (r1, m1)" by (rule prod.exhaust)
  have k: "fast_pc_ok (vis m) p" "\<not> fast_doomed m p" using ok nd S_Pop by (auto simp: pop_fast_def)
  show ?thesis
  proof (cases r1)
    case (Go q)
    then show ?thesis using fast_step_doom [OF f [unfolded Go] k(1) head(1)] f acc S_Pop by auto
  next
    case (Return h)
    then show ?thesis using fast_step_known [OF f [unfolded Return] k] f acc S_Pop by (auto simp: lf_top_doom)
  qed (use f acc S_Pop in auto)
next
  case (S_Again t p)
  obtain r1 m1 where f: "fast_step p m = (r1, m1)" by (rule prod.exhaust)
  have k: "fast_pc_ok (vis m) p" "\<not> fast_doomed m p" using ok nd S_Again by (auto simp: pop_fast_def)
  show ?thesis
  proof (cases r1)
    case (Go q)
    then show ?thesis using fast_step_doom [OF f [unfolded Go] k(1) head(1)] f acc S_Again by auto
  next
    case (Return h)
    then show ?thesis using fast_step_known [OF f [unfolded Return] k] f acc S_Again by (auto simp: lf_again_doom)
  qed (use f acc S_Again in auto)
next
  case (S_Prev t)
  have "head_data m = Some (fs_data t)" using ok nd S_Prev by (auto simp: popping_def fast_ok_def head_data_def dest: vis_bdata)
  then show ?thesis using acc nd S_Prev by (auto split: option.splits sub.splits)
next
  case (S_Copy t b)
  obtain r1 m1 where f: "copy_step b m = (r1, m1)" by (rule prod.exhaust)
  have k: "mhead m1 = mhead m" "bdata m1 = bdata m"
    using f by (auto simp: copy_step_def split: option.splits if_splits dest: alive_ref(1) bdata_ref(1))
  have "head_data m = Some (fs_data t)" using ok nd S_Copy by (auto simp: popping_def fast_ok_def head_data_def dest: vis_bdata)
  then show ?thesis using acc nd S_Copy f k by (cases r1) (auto simp: head_data_def)
next
  case (S_AssignTop t p)
  obtain r1 m1 where f: "destroy_step False p m = (r1, m1)" by (rule prod.exhaust)
  have "destroy_ok (vis m) p" using ok S_AssignTop by simp
  from destroy_head [OF f this] show ?thesis using acc nd S_AssignTop f by (cases r1) (auto simp: lf_top_doom)
next
  case (S_Cas c a p)
  obtain r1 a1 m1 where f: "cas_step False a p m = (r1, a1, m1)" by (metis prod.exhaust)
  have k: "cas_ok (vis m) (cx_expected a) p" using ok S_Cas by (cases c) (auto simp: pushing_def popping_cas_def)
  have "m_blocks m (mhead m) \<noteq> None" using head(2) by (simp add: vis_None)
  from cas_step_doom [OF f k head(1) this] have d: "case r1 of Go q \<Rightarrow> \<not> cas_doomed m1 (cx_expected a) q | Return b \<Rightarrow> b | Crash \<Rightarrow> True"
    using nd S_Cas by simp
  have "cx_expected a1 = cx_expected a" using f by (cases p) (auto split: option.splits prod.splits if_splits)
  then show ?thesis using d acc f S_Cas by (cases r1) (auto simp: lf_cas_return_doom)
next
  case (S_Drop fin t u)
  obtain r1 m1 where "unref_step u m = (r1, m1)" by (rule prod.exhaust)
  then show ?thesis using acc S_Drop by (cases r1) (auto simp: lf_popped_doom)
next
  case (S_Move t)
  then show ?thesis using acc by (auto simp: lf_end_doom split: option.splits)
next
  case (S_End res p)
  obtain r1 m1 where "destroy_step False p m = (r1, m1)" by (rule prod.exhaust)
  then show ?thesis using acc S_End by (cases r1) auto
qed (use acc in auto)

section \<open>The rank of a program point\<close>

fun lf_rank :: "size_t \<Rightarrow> 'a lf_pc \<Rightarrow> nat" where
  "lf_rank w S_Idle = 0"
| "lf_rank w (S_IsEmpty p) = 4 + fast_rank p"
| "lf_rank w (S_New x) = 0"
| "lf_rank w (S_Get b p) = 24 + get_rank w p"
| "lf_rank w (S_Assign b c) = 24"
| "lf_rank w (S_Unref b u) = 23"
| "lf_rank w (S_Expected b) = 22"
| "lf_rank w (S_Dtor u) = 2"
| "lf_rank w (S_Pop p) = 27 + fast_rank p"
| "lf_rank w (S_Prev t) = 27"
| "lf_rank w (S_Copy t b) = 26"
| "lf_rank w (S_Again t p) = 30 + fast_rank p"
| "lf_rank w (S_AssignTop t p) = 27 + destroy_rank w p"
| "lf_rank w (S_Cas By_Push a p) = 2 + cas_rank w p"
| "lf_rank w (S_Cas (By_Pop t) a p) = 6 + cas_rank w p"
| "lf_rank w (S_Drop ok t u) = (if ok then 6 else 33)"
| "lf_rank w (S_Move t) = 5"
| "lf_rank w (S_End r p) = 1 + destroy_rank w p"
| "lf_rank w (S_Ret r) = 1"

abbreviation descends :: "'a mem \<Rightarrow> 'a lf_pc \<Rightarrow> 'a mem \<Rightarrow> 'a lf_pc \<Rightarrow> bool" where
  "descends m pc m' pc' \<equiv> finite (alive m') \<and>
     lf_rank (m_packed m') pc' + card (alive m') < lf_rank (m_packed m) pc + card (alive m)"

lemma lf_end_rank: "lf_rank w (lf_end r f) \<le> 4"
  by (auto simp: lf_end_def destroy_rank_bounds split: sub.split intro: order_trans [OF destroy_rank_bounds(2)])

lemma lf_top_rank: "lf_rank w (lf_top f) \<le> 27"
  by (auto simp: lf_top_def intro: order_trans [OF lf_end_rank])

lemma lf_again_rank: "lf_rank w (lf_again old f) \<le> 30"
  by (auto simp: lf_again_def fast_move_def destroy_rank_bounds split: sub.split intro: order_trans [OF lf_top_rank])

lemma lf_popped_rank: "lf_rank w (lf_popped ok f) \<le> (if ok then 5 else 32)"
  by (simp add: lf_popped_def)

lemma lf_cas_return_rank:
  "lf_rank w (lf_cas_return By_Push b True) \<le> 2"
  "lf_rank w (lf_cas_return (By_Pop t) b True) \<le> 6"
  "lf_rank w (lf_cas_return c b False) \<le> 33"
proof -
  show "lf_rank w (lf_cas_return By_Push b True) \<le> 2" by (simp split: sub.split)
  show "lf_rank w (lf_cas_return (By_Pop t) b True) \<le> 6" by (simp add: lf_popped_def split: sub.split)
  show "lf_rank w (lf_cas_return c b False) \<le> 33" by (cases c) (simp_all add: lf_popped_def split: sub.split)
qed

lemma fast_alive:
  "fast_step p m = (r, m') \<Longrightarrow> fast_pc_ok v p \<Longrightarrow> alive m' = alive m"
  "fast_step p m = (Go q, m') \<Longrightarrow> fast_pc_ok v p \<Longrightarrow> fast_rank q < fast_rank p"
  by (cases p; auto simp: Let_def fast_loop_def word_less_nat_alt split: option.splits if_splits)+

lemma bind_descends:
  assumes "lowers rank rank' m p r m'" "bind_sub f g r = Go pc'"
    and "lf_rank (m_packed m) pc = k + rank p" "\<And>q. lf_rank (m_packed m') (f q) = k + rank' q"
    and "\<And>x q. g x = Go q \<Longrightarrow> lf_rank (m_packed m') q < k + rank p"
  shows "descends m pc m' pc'"
proof (cases r)
  case (Go q)
  then show ?thesis using assms by (auto simp: lowers_def)
next
  case (Return x)
  then have "g x = Go pc'" using assms(2) by simp
  from assms(5) [OF this] show ?thesis using assms(1,3) Return by (simp add: lowers_def)
qed (use assms(2) in simp)

lemma unref_descends:
  assumes "unref_step u m = (r, m')" "finite (alive m)" "bind_sub f g r = Go pc'"
    and "lf_rank (m_packed m) pc = k" "\<And>q. lf_rank (m_packed m') (f q) = k" "\<And>x q. g x = Go q \<Longrightarrow> lf_rank (m_packed m') q < k"
  shows "descends m pc m' pc'"
proof (cases r)
  case (Go q)
  then show ?thesis using unref_releases [OF assms(1,2)] assms(3-5) by (auto simp: releases_def)
next
  case (Return x)
  then have "g x = Go pc'" using assms(3) by simp
  from assms(6) [OF this] show ?thesis using unref_releases [OF assms(1,2)] assms(4) Return by (simp add: releases_def)
qed (use assms(3) in simp)

lemma fast_descends:
  assumes "fast_step p m = (r, m')" "fast_pc_ok v p" "finite (alive m)" "bind_sub f g r = Go pc'"
    and "lf_rank (m_packed m) pc = k + fast_rank p" "\<And>q. lf_rank (m_packed m') (f q) = k + fast_rank q"
    and "\<And>x q. g x = Go q \<Longrightarrow> lf_rank (m_packed m') q \<le> k"
  shows "descends m pc m' pc'"
proof (cases r)
  case (Go q)
  then show ?thesis using fast_alive(1) [OF assms(1,2)] fast_alive(2) [OF assms(1) [unfolded Go] assms(2)] assms(3-6) by auto
next
  case (Return x)
  then have "g x = Go pc'" using assms(4) by simp
  moreover have "1 \<le> fast_rank p" by (cases p) simp_all
  ultimately show ?thesis using assms(7) [of x pc'] fast_alive(1) [OF assms(1,2)] assms(3,5) by simp
qed (use assms(4) in simp)

lemma access_descends:
  fixes pc pc' :: "'a lf_pc"
  assumes acc: "lf_access moved False pc m = Some (Go pc', m')" and ok: "local_ok (vis m) pc st" and fin: "finite (alive m)"
    and noswap: "\<And>c a p. pc \<noteq> S_Cas c a p"
  shows "descends m pc m' pc'"
proof (cases pc)
  case (S_IsEmpty p)
  obtain r1 m1 where f: "fast_step p m = (r1, m1)" by (rule prod.exhaust)
  have m1: "m1 = m'" "bind_sub S_IsEmpty (\<lambda>ftop. Go (lf_end (R_IsEmpty (fs_data ftop = 0)) ftop)) r1 = (Go pc' :: ('a lf_pc, 'a lf_res) sub)"
    using acc S_IsEmpty f by simp_all
  show ?thesis
    by (rule fast_descends [OF f [unfolded m1(1)] _ fin m1(2), where k = 4 and v = "vis m"])
      (use ok S_IsEmpty in \<open>auto simp: lf_end_rank\<close>)
next
  case (S_Get b p)
  obtain r1 m1 where f: "get_step False p m = (r1, m1)" by (rule prod.exhaust)
  have m1: "m1 = m'" "bind_sub (S_Get b) (\<lambda>x. Go (S_Assign b x)) r1 = (Go pc' :: ('a lf_pc, 'a lf_res) sub)" using acc S_Get f by simp_all
  show ?thesis
    by (rule bind_descends [OF get_lowers [OF f [unfolded m1(1)] fin] m1(2), where k = 24])
      (use S_Get get_rank_bounds(1) [of "m_packed m" p] in auto)
next
  case (S_Assign b c)
  then show ?thesis using acc fin by (auto split: option.splits prod.splits sub.splits)
next
  case (S_Unref b u)
  obtain r1 m1 where f: "unref_step u m = (r1, m1)" by (rule prod.exhaust)
  have m1: "m1 = m'" "bind_sub (S_Unref b) (\<lambda>_. Go (S_Expected b)) r1 = (Go pc' :: ('a lf_pc, 'a lf_res) sub)" using acc S_Unref f by simp_all
  show ?thesis by (rule unref_descends [OF f [unfolded m1(1)] fin m1(2), where k = 23]) (use S_Unref in auto)
next
  case (S_Expected b)
  then show ?thesis using acc fin by (auto split: option.splits)
next
  case (S_Dtor u)
  obtain r1 m1 where f: "unref_step u m = (r1, m1)" by (rule prod.exhaust)
  have m1: "m1 = m'" "bind_sub S_Dtor (\<lambda>_. Go (S_Ret R_Push)) r1 = (Go pc' :: ('a lf_pc, 'a lf_res) sub)" using acc S_Dtor f by simp_all
  show ?thesis by (rule unref_descends [OF f [unfolded m1(1)] fin m1(2), where k = 2]) (use S_Dtor in auto)
next
  case (S_Pop p)
  obtain r1 m1 where f: "fast_step p m = (r1, m1)" by (rule prod.exhaust)
  have m1: "m1 = m'" "bind_sub S_Pop (\<lambda>ftop. Go (lf_top ftop)) r1 = (Go pc' :: ('a lf_pc, 'a lf_res) sub)" using acc S_Pop f by simp_all
  show ?thesis
    by (rule fast_descends [OF f [unfolded m1(1)] _ fin m1(2), where k = 27 and v = "vis m"])
      (use ok S_Pop in \<open>auto simp: lf_top_rank pop_fast_def\<close>)
next
  case (S_Again t p)
  obtain r1 m1 where f: "fast_step p m = (r1, m1)" by (rule prod.exhaust)
  have m1: "m1 = m'" "bind_sub (S_Again t) (\<lambda>ftop. Go (lf_again t ftop)) r1 = (Go pc' :: ('a lf_pc, 'a lf_res) sub)" using acc S_Again f by simp_all
  show ?thesis
    by (rule fast_descends [OF f [unfolded m1(1)] _ fin m1(2), where k = 30 and v = "vis m"])
      (use ok S_Again in \<open>auto simp: lf_again_rank pop_fast_def\<close>)
next
  case (S_Prev t)
  then show ?thesis using acc fin cas_rank_bounds(2) by (auto split: option.splits sub.splits)
next
  case (S_Copy t b)
  obtain r1 m1 where f: "copy_step b m = (r1, m1)" by (rule prod.exhaust)
  have "alive m1 = alive m" using f by (fastforce simp: copy_step_def split: option.splits if_splits dest!: alive_ref(1))
  moreover have "\<And>q. r1 \<noteq> Go q" using f by (auto simp: copy_step_def split: option.splits if_splits)
  ultimately show ?thesis using acc fin f S_Copy by (cases r1) auto
next
  case (S_AssignTop t p)
  obtain r1 m1 where f: "destroy_step False p m = (r1, m1)" by (rule prod.exhaust)
  have m1: "m1 = m'" "bind_sub (S_AssignTop t) (\<lambda>_. Go (lf_top t)) r1 = (Go pc' :: ('a lf_pc, 'a lf_res) sub)" using acc S_AssignTop f by simp_all
  show ?thesis
    by (rule bind_descends [OF destroy_lowers [OF f [unfolded m1(1)] fin] m1(2), where k = 27])
      (use S_AssignTop destroy_rank_bounds(1) [of "m_packed m" p] in \<open>auto intro: le_less_trans [OF lf_top_rank]\<close>)
next
  case (S_Drop fin' t u)
  obtain r1 m1 where f: "unref_step u m = (r1, m1)" by (rule prod.exhaust)
  have m1: "m1 = m'" "bind_sub (S_Drop fin' t) (\<lambda>_. Go (lf_popped fin' t)) r1 = (Go pc' :: ('a lf_pc, 'a lf_res) sub)" using acc S_Drop f by simp_all
  show ?thesis by (rule unref_descends [OF f [unfolded m1(1)] fin m1(2), where k = "if fin' then 6 else 33"])
    (use S_Drop in \<open>auto simp: lf_popped_def\<close>)
next
  case (S_Move t)
  have "lf_rank w (lf_end r t :: 'a lf_pc) < 5" for w r by (rule le_less_trans [OF lf_end_rank]) simp
  then show ?thesis using acc fin S_Move by (auto split: option.splits)
next
  case (S_End res p)
  obtain r1 m1 where f: "destroy_step False p m = (r1, m1)" by (rule prod.exhaust)
  have m1: "m1 = m'" "bind_sub (S_End res) (\<lambda>_. Go (S_Ret res)) r1 = (Go pc' :: ('a lf_pc, 'a lf_res) sub)" using acc S_End f by simp_all
  show ?thesis
    by (rule bind_descends [OF destroy_lowers [OF f [unfolded m1(1)] fin] m1(2), where k = 1])
      (use S_End destroy_rank_bounds(1) [of "m_packed m" p] in auto)
qed (use acc noswap in auto)

section \<open>Every access of an undisturbed thread lowers the total\<close>

definition lf_total :: "'a mem \<Rightarrow> 'a lf_pc \<Rightarrow> nat" where
  "lf_total m pc = lf_rank (m_packed m) pc + (if doomed m pc then 34 else 0) + card (alive m)"

lemma lf_rank_bound: "lf_rank w pc \<le> 33"
proof (cases pc)
  case (S_Cas c a p)
  then show ?thesis using cas_rank_bounds(2) [of w p] by (cases c) auto
next
  case (S_IsEmpty p)
  then show ?thesis by (cases p) auto
next
  case (S_Pop p)
  then show ?thesis by (cases p) auto
next
  case (S_Again t p)
  then show ?thesis by (cases p) auto
next
  case (S_Get b p)
  then show ?thesis using get_rank_bounds(2) [of w p] by simp
next
  case (S_AssignTop t p)
  then show ?thesis using destroy_rank_bounds(2) [of w p] by simp
next
  case (S_End r p)
  then show ?thesis using destroy_rank_bounds(2) [of w p] by simp
qed simp_all

lemma lf_total_bound: "lf_total m pc \<le> 67 + card (alive m)"
  using lf_rank_bound [of "m_packed m" pc] by (simp add: lf_total_def)

lemma descends_total: "descends m pc m' pc' \<Longrightarrow> (\<not> doomed m pc \<Longrightarrow> \<not> doomed m' pc') \<Longrightarrow> lf_total m' pc' < lf_total m pc"
  by (auto simp: lf_total_def)

lemma cas_total:
  fixes pc' :: "'a lf_pc"
  assumes acc: "lf_access moved False (S_Cas c a p) m = Some (Go pc', m')" and ok: "local_ok (vis m) (S_Cas c a p) st"
    and head: "mcnt m \<le> 1000" "vis m (mhead m) \<noteq> None" and fin: "finite (alive m)"
    and doom: "\<not> doomed m (S_Cas c a p) \<Longrightarrow> \<not> doomed m' pc'"
  shows "lf_total m' pc' < lf_total m (S_Cas c a p :: 'a lf_pc)"
proof -
  obtain r1 a1 m1 where "cas_step False a p m = (r1, a1, m1)" by (metis prod.exhaust)
  moreover from this have "m1 = m'" using acc by simp
  ultimately have f: "cas_step False a p m = (r1, a1, m')" by simp
  have k: "cas_ok (vis m) (cx_expected a) p" using ok by (cases c) (auto simp: pushing_def popping_cas_def)
  note low = cas_lowers [OF f fin k]
  have pc': "bind_sub (S_Cas c a1) (\<lambda>fin. Go (lf_cas_return c (cx_newOne a1) fin)) r1 = (Go pc' :: ('a lf_pc, 'a lf_res) sub)"
    using acc f by simp
  show ?thesis
  proof (cases r1)
    case (Go q)
    then have "descends m (S_Cas c a p :: 'a lf_pc) m' pc'" using low pc' by (cases c) (auto simp: lowers_def)
    then show ?thesis using doom by (rule descends_total)
  next
    case (Return b)
    have q: "pc' = lf_cas_return c (cx_newOne a1) b" using pc' Return by simp
    have card: "card (alive m') \<le> card (alive m)" using low by (simp add: lowers_def)
    note one = cas_rank_bounds(1) [of "m_packed m" p]
    have nd: "\<not> doomed m' pc'" using q by (simp add: lf_cas_return_doom)
    show ?thesis
    proof (cases b)
      case True
      have "lf_rank (m_packed m') pc' < lf_rank (m_packed m) (S_Cas c a p :: 'a lf_pc)"
      proof (cases c)
        case By_Push
        have "lf_rank (m_packed m') pc' \<le> 2" using True unfolding q By_Push by (simp only: lf_cas_return_rank(1))
        then show ?thesis using one By_Push by simp
      next
        case (By_Pop t)
        have "lf_rank (m_packed m') pc' \<le> 6" using True unfolding q By_Pop by (simp only: lf_cas_return_rank(2))
        then show ?thesis using one By_Pop by simp
      qed
      then show ?thesis using card nd by (simp add: lf_total_def)
    next
      case False
      have "m_blocks m (mhead m) \<noteq> None" using head(2) by (simp add: vis_None)
      from cas_step_doom [OF f k head(1) this] have "doomed m (S_Cas c a p :: 'a lf_pc)" using False Return by auto
      moreover have "lf_rank (m_packed m') pc' \<le> 33" using False unfolding q by (simp only: lf_cas_return_rank(3))
      moreover have "3 \<le> lf_rank (m_packed m) (S_Cas c a p :: 'a lf_pc)" using one by (cases c) simp_all
      ultimately show ?thesis using card nd by (simp add: lf_total_def)
    qed
  qed (use pc' in simp)
qed

lemma access_total:
  assumes g: "lf_good n m pcs status st" and n: "n \<le> 500" and acc: "lf_access moved False (pcs i) m = Some (Go pc', m')"
  shows "lf_total m' pc' < lf_total m (pcs i)"
proof -
  obtain s' st' where g': "lf_good n m' (pcs(i := pc')) (status(i := s')) st'"
    using access_good [OF g n acc] by (auto simp: access_ok_def next_ok_def)
  have ok: "local_ok (vis m) (pcs i) (status i)" by (rule goodD(7) [OF g])
  have ok': "local_ok (vis m') pc' s'" using goodD(7) [OF g', of i] by simp
  have cnt: "mcnt m \<le> 1000" by (rule mcnt_bound [OF goodD(1) [OF g] n])
  have hd: "vis m (mhead m) \<noteq> None" by (rule counts_head_alive [OF goodD(1) [OF g]])
  then have nz: "mhead m \<noteq> 0" using shapeD(1) [OF goodD(5) [OF g]] by auto
  have "dom (vis m) = alive m" by (auto simp: vis_def)
  then have fin: "finite (alive m)" using goodD(6) [OF g] by simp
  have doom: "\<not> doomed m (pcs i) \<Longrightarrow> \<not> doomed m' pc'" by (rule access_doom [OF acc ok ok' cnt hd nz])
  show ?thesis
  proof (cases "\<exists>c a p. pcs i = S_Cas c a p")
    case True
    then show ?thesis using cas_total [OF _ _ cnt hd fin] acc ok doom by metis
  next
    case False
    then have "descends m (pcs i) m' pc'" using access_descends [OF acc ok fin] by blast
    then show ?thesis using doom by (rule descends_total)
  qed
qed

section \<open>Obstruction freedom\<close>

text \<open>Inside an operation, the allocation of a node done.\<close>

fun in_flight :: "'a lf_pc \<Rightarrow> bool" where
  "in_flight S_Idle = False"
| "in_flight (S_New x) = False"
| "in_flight pc = True"

lemma flight_access:
  assumes "in_flight pc"
  obtains r m' where "lf_access moved weak pc m = Some (r, m')"
proof -
  have "lf_access moved weak pc m \<noteq> None" using assms by (cases pc) (auto split: prod.split)
  then show thesis using that by auto
qed

lemma lf_end_flight [simp]: "in_flight (lf_end r f)"
  by (simp add: lf_end_def split: sub.split)

lemma lf_top_flight [simp]: "in_flight (lf_top f)"
  by (simp add: lf_top_def)

lemma lf_again_flight [simp]: "in_flight (lf_again old f)"
  by (simp add: lf_again_def fast_move_def split: sub.split)

lemma lf_cas_return_flight [simp]: "in_flight (lf_cas_return c b ok)"
  by (cases c) (simp_all add: lf_popped_def split: sub.split)

lemma bind_Go: "bind_sub f g r = Go q \<Longrightarrow> (\<exists>p. q = f p) \<or> (\<exists>z. g z = Go q)"
  by (cases r) auto

lemma access_flight:
  assumes "lf_access moved weak pc m = Some (Go pc', m')"
  shows "in_flight pc'"
  using assms by (cases pc) (auto split: prod.splits option.splits sub.splits dest!: bind_Go simp: lf_popped_def)

lemma solo_returns:
  assumes "lf_rel n s a" "in_flight (lf_pcs s i)" "lf_total (lf_mem s) (lf_pcs s i) \<le> k"
  shows "\<exists>j\<le>Suc k. \<exists>es r t. run (lf_step n moved) (replicate j (LStep i False)) s = Some (es @ [Ret i r], t) \<and>
    set es \<subseteq> {Lin i} \<and> lf_pcs t = (lf_pcs s)(i := S_Idle)"
  using assms
proof (induction k arbitrary: s a rule: less_induct)
  case (less k)
  note g = less.prems(1) [unfolded lf_rel_def]
  obtain r m' where acc: "lf_access moved False (lf_pcs s i) (lf_mem s) = Some (r, m')"
    by (rule flight_access [OF less.prems(2)])
  show ?case
  proof (cases r)
    case (Go pc')
    let ?t = "s\<lparr>lf_mem := m', lf_pcs := (lf_pcs s)(i := pc')\<rparr>"
    obtain e where step: "lf_step n moved (LStep i False) s = Some (e, ?t)" "set e \<subseteq> {Lin i}" using acc Go by auto
    obtain b where b: "lf_rel n ?t b" using lf_step_rel [OF less.prems(1) step(1)] by blast
    have "lf_total m' pc' < lf_total (lf_mem s) (lf_pcs s i)" using access_total [of n "lf_mem s" "lf_pcs s"] g acc Go by blast
    then have lt: "lf_total m' pc' < k" using less.prems(3) by simp
    have fl: "in_flight (lf_pcs ?t i)" "lf_total (lf_mem ?t) (lf_pcs ?t i) \<le> lf_total m' pc'"
      using access_flight [OF acc [unfolded Go]] by simp_all
    obtain j es r t where j: "j \<le> Suc (lf_total m' pc')" "run (lf_step n moved) (replicate j (LStep i False)) ?t = Some (es @ [Ret i r], t)"
      "set es \<subseteq> {Lin i}" "lf_pcs t = (lf_pcs ?t)(i := S_Idle)"
      using less.IH [OF lt b fl] by blast
    have "lf_pcs t = (lf_pcs s)(i := S_Idle)" using j(4) by simp
    have "run (lf_step n moved) (replicate (Suc j) (LStep i False)) s = Some ((e @ es) @ [Ret i r], t)" using step(1) j(2) by simp
    moreover have "Suc j \<le> Suc k" "set (e @ es) \<subseteq> {Lin i}" using j lt step(2) by auto
    ultimately show ?thesis using \<open>lf_pcs t = (lf_pcs s)(i := S_Idle)\<close> by blast
  next
    case (Return x)
    have "run (lf_step n moved) (replicate 1 (LStep i False)) s = Some ([] @ [Ret i x], s\<lparr>lf_mem := m', lf_pcs := (lf_pcs s)(i := S_Idle)\<rparr>)"
      using acc Return by simp
    then show ?thesis by (intro exI [of _ 1]) fastforce
  next
    case Crash
    have "access_ok n (lf_mem s) (lf_pcs s) (sp_status a) (sp_stack a) i r m'" by (rule access_good [where moved = moved and weak = False and pcs = "lf_pcs s"]) (use g acc in auto)
    then show ?thesis using Crash by (simp add: access_ok_def)
  qed
qed

text \<open>
  Property C8. The stack is obstruction free: whatever state the other threads have stopped in, a thread that is inside an operation,
  the node of a \<open>Push\<close> allocated, and runs alone without spurious failures of the weak compare-exchanges returns from it; it needs at most
  68 accesses and one for each control block that is allocated.
\<close>

theorem lf_obstruction_free:
  assumes "n \<le> 500" "block \<noteq> 0" "block < 2 ^ 48" "reaches (lf_step n moved) (lf_new block) es s"
    and "in_flight (lf_pcs s i)"
  shows "\<exists>k \<le> 68 + card (dom (m_blocks (lf_mem s))). \<exists>fs r t.
    run (lf_step n moved) (replicate k (LStep i False)) s = Some (fs @ [Ret i r], t) \<and>
    set fs \<subseteq> {Lin i} \<and> lf_pcs t = (lf_pcs s)(i := S_Idle)"
proof -
  have "lf_init n (lf_new block) lf_start" using assms(1-3) by (auto simp: lf_init_def)
  from lf.simulates [OF this assms(4)] obtain a where a: "lf_rel n s a" by blast
  obtain k fs r t where k: "k \<le> Suc (67 + card (alive (lf_mem s)))"
    "run (lf_step n moved) (replicate k (LStep i False)) s = Some (fs @ [Ret i r], t)"
    "set fs \<subseteq> {Lin i}" "lf_pcs t = (lf_pcs s)(i := S_Idle)"
    using solo_returns [OF a assms(5) lf_total_bound] by blast
  moreover have "k \<le> 68 + card (alive (lf_mem s))" using k(1) by simp
  ultimately show ?thesis by blast
qed

text \<open>Thread 1 is popping, thread 0 has pushed in between.\<close>

lemma lf_obstruction_free_witness:
  "\<exists>es (s :: nat lf_sys) k fs r t. reaches (lf_step 2 (\<lambda>x. 0)) (lf_new 128) es s \<and>
     (case lf_pcs s 1 of S_Cas (By_Pop f) a p \<Rightarrow> fs_data f = 16 | _ \<Rightarrow> False) \<and> k \<le> 68 + card (dom (m_blocks (lf_mem s))) \<and>
     run (lf_step 2 (\<lambda>x. 0)) (replicate k (LStep 1 False)) s = Some (fs @ [Ret 1 r], t)"
proof -
  have p: "(2::nat) \<le> 500" "(128::addr) \<noteq> 0" "(128::addr) < 2 ^ 48" by simp_all
  have "\<exists>es (s :: nat lf_sys). reaches (lf_step 2 (\<lambda>x. 0)) (lf_new 128) es s \<and>
      (case lf_pcs s 1 of S_Cas (By_Pop f) a p \<Rightarrow> fs_data f = 16 | _ \<Rightarrow> False)"
    by (rule run_case [where cs = "take 52 lf_example_both"]) code_simp
  then obtain es and s :: "nat lf_sys" where s: "reaches (lf_step 2 (\<lambda>x. 0)) (lf_new 128) es s"
    "case lf_pcs s 1 of S_Cas (By_Pop f) a p \<Rightarrow> fs_data f = 16 | _ \<Rightarrow> False" by blast
  then have "in_flight (lf_pcs s 1)" by (cases "lf_pcs s 1") simp_all
  from lf_obstruction_free [OF p s(1) this] show ?thesis using s by blast
qed

end
