(* ===== verification/Lock_Free_Liveness.thy ===== *)
theory Lock_Free_Liveness
  imports Lock_Free_Progress
begin

text \<open>
  \<open>UnboundedLockFreeStack\<close> is lock free: however the threads are scheduled, operations keep returning. Between two exchanges of the head, the
  packed word can only change as often as local shares are taken and given back, and an attempt takes at most two.
\<close>

section \<open>Writes to the packed word\<close>

text \<open>How many local shares the rest of an attempt takes at most.\<close>

fun fast_adds :: "fast_pc \<Rightarrow> nat" where
  "fast_adds F_Add = 1"
| "fast_adds p = 0"

fun get_adds :: "get_pc \<Rightarrow> nat" where
  "get_adds G_Add = 1"
| "get_adds p = 0"

fun cas_adds :: "cas_pc \<Rightarrow> nat" where
  "cas_adds K_Same = 1"
| "cas_adds (K_Fast p) = fast_adds p"
| "cas_adds p = 0"

text \<open>A write is paid for by a share that is not to be taken any more, or by one that is given back.\<close>

definition pays :: "'a mem \<Rightarrow> 'a mem \<Rightarrow> nat \<Rightarrow> nat \<Rightarrow> bool" where
  "pays m m' k k' \<longleftrightarrow> 2 * k' + mcnt m' \<le> 2 * k + mcnt m \<and>
     (m_packed m' = m_packed m \<or> 2 * k' + mcnt m' < 2 * k + mcnt m)"

lemma pays_same: "m_packed m' = m_packed m \<Longrightarrow> k' \<le> k \<Longrightarrow> pays m m' k k'"
  by (simp add: pays_def)

lemma pays_le: "pays m m' k k' \<Longrightarrow> k + l' \<le> l + k' \<Longrightarrow> pays m m' l l'"
  by (auto simp: pays_def)

abbreviation quiet :: "'a mem \<Rightarrow> 'a mem \<Rightarrow> nat \<Rightarrow> nat \<Rightarrow> bool" where
  "quiet m m' k k' \<equiv> keeps m m' \<and> pays m m' k k'"

abbreviation rest :: "('p \<Rightarrow> nat) \<Rightarrow> ('p, 'r) sub \<Rightarrow> nat" where
  "rest f r \<equiv> (case r of Go q \<Rightarrow> f q | _ \<Rightarrow> 0)"

declare keeps_refl [simp]

lemma bdata_packed [simp]: "bdata (m\<lparr>m_packed := w\<rparr>) = bdata m"
  by (simp add: bdata_def fun_eq_iff)

lemma quiet_refl: "k' \<le> k \<Longrightarrow> quiet m m k k'"
  by (simp add: keeps_refl pays_same)

lemma quiet_ref:
  "ref_add b c m = Some (prior, m') \<Longrightarrow> k' \<le> k \<Longrightarrow> quiet m m' k k'"
  "ref_sub b c m = Some (prior, m') \<Longrightarrow> k' \<le> k \<Longrightarrow> quiet m m' k k'"
  by (auto intro: keeps_ref pays_same dest: alive_ref)

lemma quiet_release:
  assumes "ref_sub b c m = Some (prior, m1)" "delete_both d b m1 = Some (p, m')" "k' \<le> k"
  shows "quiet m m' k k'"
proof -
  have "m_packed m' = m_packed m" using alive_ref(2) [OF assms(1)] alive_delete [OF assms(2)] by simp
  then show ?thesis using keeps_release [OF assms(1,2)] assms(3) by (simp add: pays_same)
qed

lemma unref_quiet: "unref_step b m = (r, m') \<Longrightarrow> quiet m m' 0 0"
  by (auto simp: unref_step_def Let_def split: option.splits if_splits dest: quiet_ref(2) quiet_release intro: keeps_refl pays_same)

lemma destroyOld_quiet: "destroyOldControlBlock old m = (r, m') \<Longrightarrow> quiet m m' 0 0"
  by (auto simp: destroyOldControlBlock_def Let_def split: option.splits if_splits
      dest: quiet_ref(2) quiet_release intro: keeps_refl pays_same)

lemma quiet_inc: "mcnt m \<le> 1000 \<Longrightarrow> m' = m\<lparr>m_packed := m_packed m + 1\<rparr> \<Longrightarrow> quiet m m' 1 0"
  using packed_Suc [of "m_packed m"] by (auto simp: keeps_def pays_def)

lemma quiet_dec:
  assumes "packed_cnt (m_packed m) \<noteq> 0" "m' = m\<lparr>m_packed := m_packed m - 1\<rparr>"
  shows "quiet m m' 0 0"
  using packed_pred [OF assms(1)] assms(2) by (auto simp: keeps_def pays_def)

lemma quiet_clear:
  assumes "m' = m\<lparr>m_packed := m_packed m AND NOT kMagicMask\<rparr>"
  shows "quiet m m' 0 0"
proof -
  note c = packed_clear [of "m_packed m"]
  have "m_packed m' = m_packed m" if "mcnt m = 0" using that c assms by (auto intro: packed_eqI)
  then show ?thesis using c assms by (auto simp: keeps_def pays_def)
qed

lemma fast_quiet:
  assumes "fast_step p m = (r, m')" "fast_pc_ok v p" "mcnt m \<le> 1000"
  shows "quiet m m' (fast_adds p) (rest fast_adds r)"
proof (cases p)
  case F_Add
  then have "m' = m\<lparr>m_packed := m_packed m + 1\<rparr>" "rest fast_adds r = 0" using assms(1) by (auto simp: Let_def)
  then show ?thesis using quiet_inc [OF assms(3)] F_Add by simp
next
  case (F_Data known)
  then have "m' = m" "rest fast_adds r = 0" using assms(1,2)
    by (auto simp: fast_loop_def word_less_nat_alt split: option.splits if_splits)
  then show ?thesis by (simp add: quiet_refl)
qed (use assms(2) in auto)

lemma get_quiet:
  assumes "get_step False p m = (r, m')" "get_ok p" "mcnt m \<le> 1000"
  shows "quiet m m' (get_adds p) (rest get_adds r)"
proof (cases p)
  case G_Add
  then have "m' = m\<lparr>m_packed := m_packed m + 1\<rparr>" "rest get_adds r = 0" using assms(1) by auto
  then show ?thesis using quiet_inc [OF assms(3)] G_Add by simp
next
  case (G_Ref c)
  then have "rest get_adds r = 0" using assms(1) by (auto split: option.splits if_splits)
  moreover have "quiet m m' 0 0" using assms(1) G_Ref
    by (auto split: option.splits if_splits dest: quiet_ref(1) intro: keeps_refl pays_same)
  ultimately show ?thesis using G_Ref by simp
next
  case (G_Cas c e)
  have e: "packed_cnt e \<noteq> 0" using assms(2) G_Cas by simp
  have z: "rest get_adds r = 0" using assms(1) G_Cas by (auto simp: Let_def split: if_splits)
  show ?thesis
  proof (cases "m_packed m = e")
    case True
    then have "quiet m m' 0 0" using assms(1) e G_Cas by (intro quiet_dec) auto
    then show ?thesis using z G_Cas by simp
  next
    case False
    then have "m' = m" using assms(1) G_Cas by (auto simp: Let_def split: if_splits)
    then show ?thesis using z G_Cas by (simp add: quiet_refl)
  qed
next
  case (G_Sub c)
  then have "rest get_adds r = 0" using assms(1) by (auto split: option.splits if_splits)
  moreover have "quiet m m' 0 0" using assms(1) G_Sub
    by (auto split: option.splits if_splits dest: quiet_ref(2) intro: keeps_refl pays_same)
  ultimately show ?thesis using G_Sub by simp
qed

lemma destroy_quiet:
  assumes "destroy_step False p m = (r, m')" "destroy_ok v p"
  shows "quiet m m' 0 0"
proof (cases p)
  case (X_Cas f e)
  show ?thesis
  proof (cases "m_packed m = e")
    case True
    then show ?thesis using assms X_Cas by (intro quiet_dec) auto
  next
    case False
    then have "m' = m" using assms(1) X_Cas by (auto simp: Let_def split: if_splits)
    then show ?thesis by (simp add: quiet_refl)
  qed
next
  case (X_Sub f)
  then show ?thesis using assms(1)
    by (auto simp: Let_def split: option.splits if_splits dest: quiet_ref(2) quiet_release intro: keeps_refl pays_same)
next
  case (X_Unref b)
  obtain r1 m1 where "unref_step b m = (r1, m1)" by (rule prod.exhaust)
  then show ?thesis using unref_quiet assms(1) X_Unref by fastforce
qed

definition swaps :: "cas_pc \<Rightarrow> (cas_pc, bool) sub \<Rightarrow> bool" where
  "swaps p r \<longleftrightarrow> (\<exists>h ep h' ep'. p = K_Swap h ep \<and> r = Go (K_Old h' ep'))"

lemma cas_loop_adds: "rest cas_adds (cas_loop h ep) = 0"
  by (simp add: cas_loop_def cas_finish_def destroy_entry_def)

lemma cas_finish_adds: "rest cas_adds (cas_finish ok h) = 0"
  by (simp add: cas_finish_def destroy_entry_def)

lemma cas_unref_adds: "rest cas_adds (bind_sub (K_OldUnref h) (\<lambda>_. cas_finish True h) r) = 0"
  by (cases r) (simp_all add: cas_finish_adds)

lemma cas_quiet:
  assumes step: "cas_step False a p m = (r, a', m')" and ok: "cas_ok v (cx_expected a) p" and cnt: "mcnt m \<le> 1000" and ns: "\<not> swaps p r"
    and nc: "r \<noteq> Crash"
  shows "quiet m m' (cas_adds p) (rest cas_adds r)"
proof (cases p)
  case K_Same
  then show ?thesis using step by (auto simp: quiet_refl split: option.splits if_splits)
next
  case (K_Fast fp)
  obtain r1 m1 where f: "fast_step fp m = (r1, m1)" by (rule prod.exhaust)
  then have r: "r = bind_sub K_Fast (cas_enter (cx_expected a)) r1" "m' = m1" using step K_Fast by auto
  have q: "quiet m m1 (fast_adds fp) (rest fast_adds r1)" by (rule fast_quiet [OF f _ cnt, where v = v]) (use ok K_Fast in simp)
  have "rest cas_adds r = rest fast_adds r1"
    unfolding r(1) by (cases r1) (simp_all add: cas_enter_def cas_loop_adds cas_finish_adds)
  then show ?thesis using q r(2) K_Fast by simp
next
  case (K_RefAdd h ep)
  then show ?thesis using step by (auto split: option.splits dest: quiet_ref(1) intro: pays_same)
next
  case (K_Clear h ep)
  show ?thesis
  proof (cases "m_packed m = ep")
    case True
    then have "r = cas_loop h ep" "m' = m\<lparr>m_packed := m_packed m AND NOT kMagicMask\<rparr>" using step K_Clear by auto
    then show ?thesis using quiet_clear [of m' m] K_Clear by (simp add: cas_loop_adds)
  next
    case False
    then show ?thesis using step K_Clear by (auto simp: quiet_refl)
  qed
next
  case (K_RefSub h ep d)
  then show ?thesis using step by (auto simp: cas_loop_adds split: option.splits dest: quiet_ref(2) intro: pays_same)
next
  case (K_Swap h ep)
  have "m' = m \<and> r = cas_loop h (m_packed m)"
    using step ns nc K_Swap by (auto simp: swaps_def split: if_splits)
  then show ?thesis using K_Swap by (simp add: quiet_refl cas_loop_adds)
next
  case (K_Old h ep)
  obtain r1 m1 where f: "destroyOldControlBlock ep m = (r1, m1)" by (rule prod.exhaust)
  then have "r = bind_sub (K_OldUnref h) (\<lambda>_. cas_finish True h) r1" "m' = m1" using step K_Old by auto
  then show ?thesis using destroyOld_quiet [OF f] K_Old by (simp add: cas_unref_adds)
next
  case (K_OldUnref h b)
  obtain r1 m1 where f: "unref_step b m = (r1, m1)" by (rule prod.exhaust)
  then have "r = bind_sub (K_OldUnref h) (\<lambda>_. cas_finish True h) r1" "m' = m1" using step K_OldUnref by auto
  then show ?thesis using unref_quiet [OF f] K_OldUnref by (simp add: cas_unref_adds)
next
  case (K_Destroy b q)
  obtain r1 m1 where f: "destroy_step False q m = (r1, m1)" by (rule prod.exhaust)
  have "quiet m m1 0 0" by (rule destroy_quiet [OF f, where v = v]) (use ok K_Destroy in simp)
  moreover have "r = bind_sub (K_Destroy b) (\<lambda>_. Return b) r1" "m' = m1" using f step K_Destroy by auto
  ultimately show ?thesis using K_Destroy by (cases r1) simp_all
qed

section \<open>Shares an attempt still takes\<close>

fun adds :: "'a lf_pc \<Rightarrow> nat" where
  "adds S_Idle = 2"
| "adds (S_New x) = 2"
| "adds (S_IsEmpty p) = fast_adds p"
| "adds (S_Get b p) = 1 + get_adds p"
| "adds (S_Assign b c) = 1"
| "adds (S_Unref b u) = 1"
| "adds (S_Expected b) = 1"
| "adds (S_Pop p) = 1 + fast_adds p"
| "adds (S_Again t p) = 1 + fast_adds p"
| "adds (S_Prev t) = 1"
| "adds (S_Copy t b) = 1"
| "adds (S_AssignTop t p) = 1"
| "adds (S_Cas c a p) = cas_adds p"
| "adds (S_Drop ok t u) = (if ok then 0 else 2)"
| "adds pc = 0"

text \<open>A doomed attempt will be repeated.\<close>

definition incs :: "'a mem \<Rightarrow> 'a lf_pc \<Rightarrow> nat" where
  "incs m pc = adds pc + (if doomed m pc then 2 else 0)"

lemma fast_adds_le: "fast_adds p \<le> Suc 0" "fast_adds p \<le> 2"
  by (cases p; simp)+

lemma adds_le: "adds pc \<le> 2"
proof (cases pc)
  case (S_Get b p)
  then show ?thesis by (cases p) simp_all
next
  case (S_Cas c a p)
  have "cas_adds p \<le> 1" by (cases p) (simp_all add: fast_adds_le)
  then show ?thesis using S_Cas by simp
qed (simp_all add: fast_adds_le)

lemma incs_le: "incs m pc \<le> 4"
  using adds_le [of pc] by (simp add: incs_def)

lemma lf_end_adds: "adds (lf_end r f) = 0"
  by (simp add: lf_end_def split: sub.split)

lemma lf_top_adds: "adds (lf_top f) \<le> Suc 0"
  by (simp add: lf_top_def lf_end_adds)

lemma lf_again_adds: "adds (lf_again old f) \<le> Suc 0"
  by (simp add: lf_again_def fast_move_def lf_top_adds split: sub.split)

lemma lf_popped_adds: "adds (lf_popped ok f) = (if ok then 0 else 2)"
  by (simp add: lf_popped_def)

lemma lf_cas_return_adds: "adds (lf_cas_return c b ok) = (if ok then 0 else 2)"
  by (cases c) (simp_all add: lf_popped_adds split: sub.split)

lemma doomed_incs:
  assumes "pays m m' k k'" "adds pc = c + k" "adds pc' \<le> c + k'" "\<not> doomed m pc \<Longrightarrow> \<not> doomed m' pc'"
  shows "pays m m' (incs m pc) (incs m' pc')"
  by (rule pays_le [OF assms(1)]) (use assms in \<open>auto simp: incs_def\<close>)

lemma bind_incs:
  assumes q: "quiet m m' k (rest f' r)" and b: "bind_sub f g r = Go pc'"
    and a: "adds pc = c + k" "\<And>q. adds (f q) = c + f' q" "\<And>x q. g x = Go q \<Longrightarrow> adds q \<le> c"
    and d: "\<not> doomed m pc \<Longrightarrow> \<not> doomed m' pc'"
  shows "keeps m m' \<and> pays m m' (incs m pc) (incs m' pc')"
proof -
  have "adds pc' \<le> c + rest f' r" using b a(2,3) by (cases r) auto
  then show ?thesis using q doomed_incs [OF _ a(1) _ d, where k' = "rest f' r"] by blast
qed

lemma unref_incs:
  assumes q: "quiet m m' 0 0" and b: "bind_sub f g r = Go pc'" and a: "\<And>q. adds (f q) = adds pc" "\<And>x q. g x = Go q \<Longrightarrow> adds q \<le> adds pc"
    and d: "\<not> doomed m pc \<Longrightarrow> \<not> doomed m' pc'"
  shows "keeps m m' \<and> pays m m' (incs m pc) (incs m' pc')"
  by (rule bind_incs [where k = 0 and f' = "\<lambda>_. 0" and c = "adds pc" and f = f and g = g and r = r])
    (use assms in \<open>auto split: sub.split\<close>)

text \<open>The two accesses that write a node.\<close>

definition writes_node :: "'a lf_pc \<Rightarrow> bool" where
  "writes_node pc \<longleftrightarrow> (\<exists>b c. pc = S_Assign b c) \<or> (\<exists>t. pc = S_Move t)"

definition swap_step :: "'a lf_pc \<Rightarrow> 'a lf_pc \<Rightarrow> bool" where
  "swap_step pc pc' \<longleftrightarrow> (\<exists>c a p q. pc = S_Cas c a p \<and> swaps p (Go q) \<and> (\<exists>a'. pc' = S_Cas c a' q))"

lemma access_incs:
  fixes pc pc' :: "'a lf_pc"
  assumes acc: "lf_access moved False pc m = Some (Go pc', m')" and ok: "local_ok (vis m) pc st" and cnt: "mcnt m \<le> 1000"
    and d: "\<not> doomed m pc \<Longrightarrow> \<not> doomed m' pc'" and ns: "\<not> swap_step pc pc'" and nc: "\<And>c a p. pc \<noteq> S_Cas c a p"
  shows "(keeps m m' \<or> writes_node pc) \<and> pays m m' (incs m pc) (incs m' pc')"
proof (cases pc)
  case (S_IsEmpty p)
  obtain r1 m1 where f: "fast_step p m = (r1, m1)" by (rule prod.exhaust)
  have m1: "m1 = m'" "bind_sub S_IsEmpty (\<lambda>ftop. Go (lf_end (R_IsEmpty (fs_data ftop = 0)) ftop)) r1 = (Go pc' :: ('a lf_pc, 'a lf_res) sub)"
    using acc S_IsEmpty f by simp_all
  have "fast_pc_ok (vis m) p" using ok S_IsEmpty by simp
  from bind_incs [OF fast_quiet [OF f [unfolded m1(1)] this cnt] m1(2), of pc 0] show ?thesis using d S_IsEmpty by (auto simp: lf_end_adds)
next
  case (S_Get b p)
  obtain r1 m1 where f: "get_step False p m = (r1, m1)" by (rule prod.exhaust)
  have m1: "m1 = m'" "bind_sub (S_Get b) (\<lambda>x. Go (S_Assign b x)) r1 = (Go pc' :: ('a lf_pc, 'a lf_res) sub)" using acc S_Get f by simp_all
  have "get_ok p" using ok S_Get by simp
  from bind_incs [OF get_quiet [OF f [unfolded m1(1)] this cnt] m1(2), of pc 1] show ?thesis using d S_Get by auto
next
  case (S_Assign b c)
  then have "m_packed m' = m_packed m" "adds pc' = 1" using acc by (auto split: option.splits prod.splits sub.splits)
  then show ?thesis using doomed_incs [OF pays_same [of m' m 0 0], of pc 1 pc'] d S_Assign by (simp add: writes_node_def)
next
  case (S_Unref b u)
  obtain r1 m1 where f: "unref_step u m = (r1, m1)" by (rule prod.exhaust)
  have m1: "m1 = m'" "bind_sub (S_Unref b) (\<lambda>_. Go (S_Expected b)) r1 = (Go pc' :: ('a lf_pc, 'a lf_res) sub)" using acc S_Unref f by simp_all
  from unref_incs [OF unref_quiet [OF f [unfolded m1(1)]] m1(2), of pc] show ?thesis using d S_Unref by auto
next
  case (S_Expected b)
  then have "m' = m" "adds pc' = 1" using acc by (auto split: option.splits)
  then show ?thesis using doomed_incs [OF pays_same [of m' m 0 0], of pc 1 pc'] d S_Expected by simp
next
  case (S_Dtor u)
  obtain r1 m1 where f: "unref_step u m = (r1, m1)" by (rule prod.exhaust)
  have m1: "m1 = m'" "bind_sub S_Dtor (\<lambda>_. Go (S_Ret R_Push)) r1 = (Go pc' :: ('a lf_pc, 'a lf_res) sub)" using acc S_Dtor f by simp_all
  from unref_incs [OF unref_quiet [OF f [unfolded m1(1)]] m1(2), of pc] show ?thesis using d S_Dtor by auto
next
  case (S_Pop p)
  obtain r1 m1 where f: "fast_step p m = (r1, m1)" by (rule prod.exhaust)
  have m1: "m1 = m'" "bind_sub S_Pop (\<lambda>ftop. Go (lf_top ftop)) r1 = (Go pc' :: ('a lf_pc, 'a lf_res) sub)" using acc S_Pop f by simp_all
  have "fast_pc_ok (vis m) p" using ok S_Pop by (simp add: pop_fast_def)
  from bind_incs [OF fast_quiet [OF f [unfolded m1(1)] this cnt] m1(2), of pc 1] show ?thesis using d S_Pop by (auto simp: lf_top_adds)
next
  case (S_Again t p)
  obtain r1 m1 where f: "fast_step p m = (r1, m1)" by (rule prod.exhaust)
  have m1: "m1 = m'" "bind_sub (S_Again t) (\<lambda>ftop. Go (lf_again t ftop)) r1 = (Go pc' :: ('a lf_pc, 'a lf_res) sub)" using acc S_Again f by simp_all
  have "fast_pc_ok (vis m) p" using ok S_Again by (simp add: pop_fast_def)
  from bind_incs [OF fast_quiet [OF f [unfolded m1(1)] this cnt] m1(2), of pc 1] show ?thesis using d S_Again by (auto simp: lf_again_adds)
next
  case (S_Prev t)
  then have "m' = m" "adds pc' = 1" using acc by (auto split: option.splits sub.splits)
  then show ?thesis using doomed_incs [OF pays_same [of m' m 0 0], of pc 1 pc'] d S_Prev by simp
next
  case (S_Copy t b)
  have "quiet m m' 0 0" using acc S_Copy
    by (auto simp: copy_step_def split: prod.splits option.splits if_splits dest: quiet_ref(1) intro: pays_same)
  moreover have "adds pc' = 1" using acc S_Copy by (auto simp: copy_step_def split: prod.splits option.splits if_splits)
  ultimately show ?thesis using doomed_incs [of m m' 0 0 pc 1 pc'] d S_Copy by simp
next
  case (S_AssignTop t p)
  obtain r1 m1 where f: "destroy_step False p m = (r1, m1)" by (rule prod.exhaust)
  have m1: "m1 = m'" "bind_sub (S_AssignTop t) (\<lambda>_. Go (lf_top t)) r1 = (Go pc' :: ('a lf_pc, 'a lf_res) sub)" using acc S_AssignTop f by simp_all
  have "destroy_ok (vis m) p" using ok S_AssignTop by simp
  from unref_incs [OF destroy_quiet [OF f [unfolded m1(1)] this] m1(2), of pc] show ?thesis using d S_AssignTop by (auto simp: lf_top_adds)
next
  case (S_Drop fin t u)
  obtain r1 m1 where f: "unref_step u m = (r1, m1)" by (rule prod.exhaust)
  have m1: "m1 = m'" "bind_sub (S_Drop fin t) (\<lambda>_. Go (lf_popped fin t)) r1 = (Go pc' :: ('a lf_pc, 'a lf_res) sub)" using acc S_Drop f by simp_all
  from unref_incs [OF unref_quiet [OF f [unfolded m1(1)]] m1(2), of pc] show ?thesis using d S_Drop by (auto simp: lf_popped_adds)
next
  case (S_Move t)
  then have "m_packed m' = m_packed m" "adds pc' = 0" using acc by (auto simp: lf_end_adds split: option.splits)
  then show ?thesis using doomed_incs [OF pays_same [of m' m 0 0], of pc 0 pc'] d S_Move by (simp add: writes_node_def)
next
  case (S_End res p)
  obtain r1 m1 where f: "destroy_step False p m = (r1, m1)" by (rule prod.exhaust)
  have m1: "m1 = m'" "bind_sub (S_End res) (\<lambda>_. Go (S_Ret res)) r1 = (Go pc' :: ('a lf_pc, 'a lf_res) sub)" using acc S_End f by simp_all
  have "destroy_ok (vis m) p" using ok S_End by simp
  from unref_incs [OF destroy_quiet [OF f [unfolded m1(1)] this] m1(2), of pc] show ?thesis using d S_End by auto
qed (use acc nc in auto)

lemma lf_cas_return_not_Cas: "lf_cas_return c b ok \<noteq> S_Cas c' a p"
  by (cases c) (simp_all add: lf_popped_def split: sub.split)

lemma cas_incs:
  fixes pc' :: "'a lf_pc"
  assumes acc: "lf_access moved False (S_Cas c a p) m = Some (Go pc', m')" and ok: "local_ok (vis m) (S_Cas c a p) st"
    and head: "mcnt m \<le> 1000" "vis m (mhead m) \<noteq> None"
    and d: "\<not> doomed m (S_Cas c a p) \<Longrightarrow> \<not> doomed m' pc'" and ns: "\<not> swap_step (S_Cas c a p) pc'"
  shows "keeps m m' \<and> pays m m' (incs m (S_Cas c a p :: 'a lf_pc)) (incs m' pc')"
proof -
  obtain r1 a1 m1 where "cas_step False a p m = (r1, a1, m1)" by (metis prod.exhaust)
  moreover from this have "m1 = m'" using acc by simp
  ultimately have f: "cas_step False a p m = (r1, a1, m')" by simp
  have k: "cas_ok (vis m) (cx_expected a) p" using ok by (cases c) (auto simp: pushing_def popping_cas_def)
  have pc': "bind_sub (S_Cas c a1) (\<lambda>fin. Go (lf_cas_return c (cx_newOne a1) fin)) r1 = (Go pc' :: ('a lf_pc, 'a lf_res) sub)"
    using acc f by simp
  have "\<not> swaps p r1"
  proof
    assume w: "swaps p r1"
    then obtain q where "r1 = Go q" by (auto simp: swaps_def)
    then show False using w ns pc' by (auto simp: swap_step_def)
  qed
  moreover have "r1 \<noteq> Crash" using pc' by auto
  ultimately have q: "quiet m m' (cas_adds p) (rest cas_adds r1)" by (rule cas_quiet [OF f k head(1)])
  show ?thesis
  proof (cases r1)
    case (Go x)
    have w: "pays m m' (cas_adds p) (cas_adds x)" using q Go by simp
    have "pays m m' (incs m (S_Cas c a p :: 'a lf_pc)) (incs m' pc')"
      by (rule doomed_incs [OF w _ _ d, where c = 0]) (use pc' Go in auto)
    then show ?thesis using q by blast
  next
    case (Return b)
    have ret: "pc' = lf_cas_return c (cx_newOne a1) b" using pc' Return by simp
    have nd: "\<not> doomed m' pc'" unfolding ret by (rule lf_cas_return_doom)
    have "m_blocks m (mhead m) \<noteq> None" using head(2) by (simp add: vis_None)
    from cas_step_doom [OF f k head(1) this] have dm: "\<not> b \<Longrightarrow> doomed m (S_Cas c a p :: 'a lf_pc)" using Return by auto
    have "pays m m' (incs m (S_Cas c a p :: 'a lf_pc)) (incs m' pc')"
    proof (rule pays_le)
      show "pays m m' (cas_adds p) 0" using q Return by simp
      show "cas_adds p + incs m' pc' \<le> incs m (S_Cas c a p :: 'a lf_pc) + 0"
        using dm nd unfolding incs_def by (cases b) (simp_all add: ret lf_cas_return_adds)
    qed
    then show ?thesis using q by blast
  qed (use pc' in simp)
qed

lemma step_incs:
  assumes g: "lf_good n m pcs status st" and n: "n \<le> 500" and acc: "lf_access moved False (pcs i) m = Some (Go pc', m')"
    and ns: "\<not> swap_step (pcs i) pc'"
  shows "(keeps m m' \<or> writes_node (pcs i)) \<and> pays m m' (incs m (pcs i)) (incs m' pc')"
proof -
  obtain s' st' where g': "lf_good n m' (pcs(i := pc')) (status(i := s')) st'"
    using access_good [OF g n acc] by (auto simp: access_ok_def next_ok_def)
  have ok: "local_ok (vis m) (pcs i) (status i)" by (rule goodD(7) [OF g])
  have ok': "local_ok (vis m') pc' s'" using goodD(7) [OF g', of i] by simp
  have cnt: "mcnt m \<le> 1000" by (rule mcnt_bound [OF goodD(1) [OF g] n])
  have hd: "vis m (mhead m) \<noteq> None" by (rule counts_head_alive [OF goodD(1) [OF g]])
  then have nz: "mhead m \<noteq> 0" using shapeD(1) [OF goodD(5) [OF g]] by auto
  have doom: "\<not> doomed m (pcs i) \<Longrightarrow> \<not> doomed m' pc'" by (rule access_doom [OF acc ok ok' cnt hd nz])
  show ?thesis
  proof (cases "\<exists>c a p. pcs i = S_Cas c a p")
    case True
    then show ?thesis using cas_incs [OF _ _ cnt hd] acc ok doom ns by metis
  next
    case False
    then show ?thesis using access_incs [OF acc ok cnt doom ns] by blast
  qed
qed

lemma swap_incs:
  assumes g: "lf_good n m pcs status st" and acc: "lf_access moved False (pcs i) m = Some (Go pc', m')" and sw: "swap_step (pcs i) pc'"
  shows "incs m' pc' = 0" "mcnt m' = 0"
proof -
  obtain c a h ep where pc: "pcs i = S_Cas c a (K_Swap h ep)" using sw by (auto simp: swap_step_def swaps_def)
  obtain a' h' ep' where pc': "pc' = S_Cas c a' (K_Old h' ep')" using sw pc by (auto simp: swap_step_def swaps_def)
  show "incs m' pc' = 0" by (simp add: pc' incs_def)
  have i: "i < n" using busy_lt [OF g, of i] pc by simp
  have "local_ok (vis m) (S_Cas c a (K_Swap h ep)) (status i)" using goodD(7) [OF g, of i] pc by simp
  then have "cx_newOne a \<noteq> 0" by (cases c) (auto simp: pushing_def popping_cas_def)
  then have "cx_newOne a \<in># owed (pcs i)" by (simp add: pc ref1_def)
  then have "vis m (cx_newOne a) \<noteq> None" by (rule counts_owed_alive [OF goodD(1) [OF g] i])
  then obtain d x where "vis m (cx_newOne a) = Some (d, x)" by auto
  then have "cx_newOne a < 2 ^ 48" by (rule shapeD(2) [OF goodD(5) [OF g]])
  moreover have "m_packed m' = pack (cx_newOne a)"
    using acc pc pc' by (auto simp: cas_loop_def cas_finish_def destroy_entry_def lf_cas_return_not_Cas split: if_splits)
  ultimately show "mcnt m' = 0" by (simp add: packed_pack(2))
qed

section \<open>What a step does to the other threads\<close>

lemma prev_of_other:
  assumes "keeps m m'" "linked_at (vis m') b st"
  shows "prev_of m' b = prev_of m b"
  using assms by (auto simp: linked_at_def intro: prev_of_keeps)

lemma head_data_keeps:
  assumes "keeps m m'" "vis m' (mhead m') \<noteq> None"
  shows "head_data m' = head_data m"
proof -
  obtain d x where "vis m' (mhead m') = Some (d, x)" using assms(2) by auto
  then have "bdata m' (mhead m') = Some d" by (rule vis_bdata)
  then have "bdata m' (mhead m') = bdata m (mhead m')" using assms(1) unfolding keeps_def map_le_def by (metis domI)
  then show ?thesis using assms(1) by (simp add: head_data_def keeps_def)
qed

text \<open>The attempt of a thread is doomed only by a change of the head.\<close>

lemma doomed_cong:
  assumes "mhead m' = mhead m" "head_data m' = head_data m"
    and "\<And>b. (\<exists>u. pc = S_Unref b u) \<or> pc = S_Expected b \<Longrightarrow> prev_of m' b = prev_of m b"
  shows "doomed m' pc = doomed m pc"
proof -
  have f: "fast_doomed m' p = fast_doomed m p" for p using assms(1) by (cases p) simp_all
  have g: "get_doomed m' p = get_doomed m p" for p using assms(1) by (cases p) simp_all
  have c: "cas_doomed m' e p = cas_doomed m e p" for e p using assms(1,2) f by (cases p) simp_all
  show ?thesis using assms f g c by (cases pc) simp_all
qed

lemma doomed_keeps:
  assumes k: "keeps m m'" and hd: "vis m' (mhead m') \<noteq> None" and ok: "local_ok (vis m') pc st"
  shows "doomed m' pc = doomed m pc"
proof (rule doomed_cong)
  show "mhead m' = mhead m" using k by (simp add: keeps_def)
  show "head_data m' = head_data m" by (rule head_data_keeps [OF k hd])
  show "prev_of m' b = prev_of m b" if "(\<exists>u. pc = S_Unref b u) \<or> pc = S_Expected b" for b
    using prev_of_other [OF k, of b st] ok that by auto
qed

lemma doomed_assign:
  assumes g: "lf_good n m pcs status st" and pc: "pcs i = S_Assign b c" and acc: "lf_access moved False (pcs i) m = Some (Go pc', m')"
    and j: "j \<noteq> i"
  shows "doomed m' (pcs j) = doomed m (pcs j)"
proof -
  obtain blk nd p where blk: "m_blocks m b = Some blk" "m' = m\<lparr>m_nodes := (m_nodes m)(cb_data blk \<mapsto> nd\<lparr>nd_prev := p\<rparr>)\<rparr>"
    using acc pc by (auto split: option.splits prod.splits)
  have bd: "bdata m' = bdata m" "m_packed m' = m_packed m" using blk(2) by (simp_all add: bdata_def fun_eq_iff)
  obtain y where vb: "vis m b = Some (cb_data blk, y)" using blk(1) by (simp add: vis_def)
  show ?thesis
  proof (rule doomed_cong)
    show "mhead m' = mhead m" "head_data m' = head_data m" using bd by (simp_all add: head_data_def)
    show "prev_of m' e = prev_of m e" if e: "(\<exists>u. pcs j = S_Unref e u) \<or> pcs j = S_Expected e" for e
    proof -
      have "e \<in># owed (pcs j)" using e by auto
      moreover have "b \<notin># owed (pcs j)" by (rule fresh_alone(4) [OF g _ j]) (simp add: pc)
      ultimately have ne: "e \<noteq> b" by auto
      have "linked_at (vis m) e (status j)" using goodD(7) [OF g, of j] e by auto
      then obtain d z where ve: "vis m e = Some (d, z)" unfolding linked_at_def by blast
      have "d \<noteq> cb_data blk" using ne shape_inj [OF goodD(5) [OF g] ve] vb by blast
      then show ?thesis using vis_bdata [OF ve] bd(1) blk(2) by (simp add: prev_of_def)
    qed
  qed
qed

lemma doomed_move:
  assumes pc: "pc = S_Move t" and acc: "lf_access moved False pc m = Some (Go pc', m')"
  shows "doomed m' q = doomed m q"
proof -
  obtain nd x where m': "m_nodes m (fs_data t) = Some nd" "m' = m\<lparr>m_nodes := (m_nodes m)(fs_data t \<mapsto> nd\<lparr>nd_data := x\<rparr>)\<rparr>"
    using acc pc by (auto split: option.splits)
  have bd: "bdata m' = bdata m" "m_packed m' = m_packed m" using m'(2) by (simp_all add: bdata_def fun_eq_iff)
  have "prev_of m' e = prev_of m e" for e unfolding prev_of_def bd(1) using m' by (auto split: option.split)
  then show ?thesis using bd by (intro doomed_cong) (simp_all add: head_data_def)
qed

lemma doomed_other:
  assumes g: "lf_good n m pcs status st" and n: "n \<le> 500" and acc: "lf_access moved False (pcs i) m = Some (Go pc', m')"
    and ns: "\<not> swap_step (pcs i) pc'" and j: "j \<noteq> i"
  shows "doomed m' (pcs j) = doomed m (pcs j)"
proof -
  obtain s' st' where g': "lf_good n m' (pcs(i := pc')) (status(i := s')) st'"
    using access_good [OF g n acc] by (auto simp: access_ok_def next_ok_def)
  from step_incs [OF g n acc ns] consider "keeps m m'" | b c where "pcs i = S_Assign b c" | t where "pcs i = S_Move t"
    by (auto simp: writes_node_def)
  then show ?thesis
  proof cases
    case 1
    have "local_ok (vis m') (pcs j) (status j)" using goodD(7) [OF g', of j] j by simp
    then show ?thesis by (rule doomed_keeps [OF 1 counts_head_alive [OF goodD(1) [OF g']]])
  next
    case (2 b c)
    then show ?thesis using doomed_assign [OF g _ acc j] by blast
  next
    case (3 t)
    then show ?thesis using doomed_move [OF _ acc] by blast
  qed
qed

lemma keeps_alloc: "lf_free na ba m \<Longrightarrow> keeps (lf_alloc na ba x m) m"
  by (auto simp: keeps_def lf_alloc_def lf_free_def map_le_def bdata_def)

section \<open>The fuel of a state\<close>

text \<open>What is left to do for a thread, the block it will allocate included.\<close>

definition lf_work :: "'a mem \<Rightarrow> 'a lf_pc \<Rightarrow> nat" where
  "lf_work m pc = (case pc of S_Idle \<Rightarrow> 69 | S_New x \<Rightarrow> 68 | _ \<Rightarrow> lf_rank (m_packed m) pc + (if doomed m pc then 34 else 0))"

definition works :: "nat \<Rightarrow> 'a mem \<Rightarrow> (nat \<Rightarrow> 'a lf_pc) \<Rightarrow> nat" where
  "works n m pcs = (\<Sum>i<n. lf_work m (pcs i))"

text \<open>A bound on the writes to the packed word until the head changes.\<close>

definition writes :: "nat \<Rightarrow> 'a mem \<Rightarrow> (nat \<Rightarrow> 'a lf_pc) \<Rightarrow> nat" where
  "writes n m pcs = 2 * (\<Sum>i<n. incs m (pcs i)) + mcnt m"

text \<open>The threads whose operation has not taken effect, or has not been called.\<close>

definition pending :: "nat \<Rightarrow> (nat \<Rightarrow> 'a lf_status) \<Rightarrow> nat" where
  "pending n status = card {i. i < n \<and> (\<forall>r. status i \<noteq> Done r)}"

definition lf_fuel :: "nat \<Rightarrow> 'a mem \<Rightarrow> (nat \<Rightarrow> 'a lf_pc) \<Rightarrow> (nat \<Rightarrow> 'a lf_status) \<Rightarrow> nat" where
  "lf_fuel n m pcs status =
     works n m pcs + card (alive m) + 33 * n * writes n m pcs + (69 * n + 132 * n * n + 1) * pending n status"

lemma flight_work: "in_flight pc \<Longrightarrow> lf_work m pc + card (alive m) = lf_total m pc"
  by (cases pc) (simp_all add: lf_work_def lf_total_def)

lemma lf_work_bound: "lf_work m pc \<le> 69"
  using lf_rank_bound [of "m_packed m" pc] by (cases pc) (auto simp: lf_work_def)

lemma lf_work_same: "m_packed m' = m_packed m \<Longrightarrow> doomed m' pc = doomed m pc \<Longrightarrow> lf_work m' pc = lf_work m pc"
  by (cases pc) (simp_all add: lf_work_def)

lemma lf_work_other: "doomed m' pc = doomed m pc \<Longrightarrow> lf_work m' pc \<le> lf_work m pc + 33"
  using lf_rank_bound [of "m_packed m'" pc] by (cases pc) (auto simp: lf_work_def)

lemma pending_done:
  assumes "i < n" "\<And>r. status i \<noteq> Done r"
  shows "Suc (pending n (status(i := Done x))) = pending n status"
proof -
  have "{j. j < n \<and> (\<forall>r. (status(i := Done x)) j \<noteq> Done r)} = {j. j < n \<and> (\<forall>r. status j \<noteq> Done r)} - {i}" by auto
  then have "pending n (status(i := Done x)) = card ({j. j < n \<and> (\<forall>r. status j \<noteq> Done r)} - {i})" by (simp only: pending_def)
  also have "Suc \<dots> = card {j. j < n \<and> (\<forall>r. status j \<noteq> Done r)}" by (rule card_Suc_Diff1) (use assms in auto)
  finally show ?thesis by (simp add: pending_def)
qed

lemma pending_call: "status i = Free \<Longrightarrow> pending n (status(i := Called op)) = pending n status"
  unfolding pending_def by (rule arg_cong [where f = card]) auto

lemma pending_le: "pending n status \<le> n"
  unfolding pending_def using card_mono [of "{..<n}" "{i. i < n \<and> (\<forall>r. status i \<noteq> Done r)}"] by auto

text \<open>Sums over the threads, of which one moves.\<close>

lemma sum_one:
  fixes f :: "nat \<Rightarrow> nat"
  assumes "i < n"
  shows "(\<Sum>j<n. f j) = f i + (\<Sum>j\<in>{..<n} - {i}. f j)"
  using assms by (intro sum.remove) auto

lemma sum_moved:
  fixes f f' :: "nat \<Rightarrow> nat"
  assumes "i < n" "\<And>j. j \<noteq> i \<Longrightarrow> f' j \<le> f j + c"
  shows "(\<Sum>j<n. f' j) + f i \<le> (\<Sum>j<n. f j) + f' i + c * n"
proof -
  have "(\<Sum>j\<in>{..<n} - {i}. f' j) \<le> (\<Sum>j\<in>{..<n} - {i}. f j + c)" using assms(2) by (intro sum_mono) auto
  also have "\<dots> \<le> (\<Sum>j\<in>{..<n} - {i}. f j) + c * n" using assms(1) by (simp add: sum.distrib)
  finally show ?thesis unfolding sum_one [OF assms(1), of f] sum_one [OF assms(1), of f'] by linarith
qed

lemma swap_no_idle: "swap_step pc pc' \<Longrightarrow> lf_marks pc m pc'"
  by (auto simp: swap_step_def swaps_def)

lemma step_works:
  assumes g: "lf_good n m pcs status st" and n: "n \<le> 500" and i: "i < n" and acc: "lf_access moved False (pcs i) m = Some (Go pc', m')"
    and d: "\<And>j. j \<noteq> i \<Longrightarrow> lf_work m' (pcs j) \<le> lf_work m (pcs j) + c"
  shows "works n m' (pcs(i := pc')) + card (alive m') < works n m pcs + card (alive m) + c * n"
proof -
  have fl: "in_flight (pcs i)" "in_flight pc'" using acc access_flight [OF acc] by (cases "pcs i"; simp)+
  have "lf_work m' pc' + card (alive m') < lf_work m (pcs i) + card (alive m)"
    using access_total [OF g n acc] by (simp add: flight_work [OF fl(1)] flight_work [OF fl(2)])
  moreover have "works n m' (pcs(i := pc')) + lf_work m (pcs i) \<le> works n m pcs + lf_work m' pc' + c * n"
    using sum_moved [OF i, of "\<lambda>j. lf_work m' ((pcs(i := pc')) j)" "\<lambda>j. lf_work m (pcs j)" c] d by (simp add: works_def)
  ultimately show ?thesis by linarith
qed

lemma step_writes:
  assumes i: "i < n" and p: "pays m m' (incs m (pcs i)) (incs m' pc')"
    and d: "\<And>j. j \<noteq> i \<Longrightarrow> incs m' (pcs j) \<le> incs m (pcs j)"
  shows "writes n m' (pcs(i := pc')) \<le> writes n m pcs"
    "m_packed m' = m_packed m \<or> writes n m' (pcs(i := pc')) < writes n m pcs"
proof -
  have "(\<Sum>j<n. incs m' ((pcs(i := pc')) j)) + incs m (pcs i) \<le> (\<Sum>j<n. incs m (pcs j)) + incs m' pc'"
    using sum_moved [OF i, of "\<lambda>j. incs m' ((pcs(i := pc')) j)" "\<lambda>j. incs m (pcs j)" 0] d by simp
  then show "writes n m' (pcs(i := pc')) \<le> writes n m pcs"
    "m_packed m' = m_packed m \<or> writes n m' (pcs(i := pc')) < writes n m pcs"
    using p unfolding writes_def pays_def by linarith+
qed

lemma access_fuel:
  assumes g: "lf_good n m pcs status st" and n: "n \<le> 500" and i: "i < n" and acc: "lf_access moved False (pcs i) m = Some (Go pc', m')"
    and ns: "\<not> swap_step (pcs i) pc'" and p: "pending n status' \<le> pending n status"
  shows "lf_fuel n m' (pcs(i := pc')) status' < lf_fuel n m pcs status"
proof -
  note d = doomed_other [OF g n acc ns]
  have wr: "writes n m' (pcs(i := pc')) \<le> writes n m pcs"
    "m_packed m' = m_packed m \<or> writes n m' (pcs(i := pc')) < writes n m pcs"
    by (rule step_writes [OF i]; use step_incs [OF g n acc ns] d in \<open>simp add: incs_def\<close>)+
  have pend: "(69 * n + 132 * n * n + 1) * pending n status' \<le> (69 * n + 132 * n * n + 1) * pending n status"
    using p by (rule mult_le_mono2)
  show ?thesis
  proof (cases "m_packed m' = m_packed m")
    case True
    have "works n m' (pcs(i := pc')) + card (alive m') < works n m pcs + card (alive m) + 0 * n"
      by (rule step_works [OF g n i acc]) (simp add: lf_work_same [OF True d])
    moreover have "33 * n * writes n m' (pcs(i := pc')) \<le> 33 * n * writes n m pcs" using wr(1) by (rule mult_le_mono2)
    ultimately show ?thesis using pend unfolding lf_fuel_def by linarith
  next
    case False
    have "works n m' (pcs(i := pc')) + card (alive m') < works n m pcs + card (alive m) + 33 * n"
      by (rule step_works [OF g n i acc]) (rule lf_work_other [OF d])
    moreover have "33 * n * Suc (writes n m' (pcs(i := pc'))) \<le> 33 * n * writes n m pcs"
      using wr(2) False by (intro mult_le_mono2) simp
    ultimately show ?thesis using pend unfolding lf_fuel_def mult_Suc_right by linarith
  qed
qed

text \<open>An exchange of the head may doom all others, but then an operation has taken effect.\<close>

lemma swap_fuel:
  assumes g: "lf_good n m pcs status st" and n: "n \<le> 500" and i: "i < n" and acc: "lf_access moved False (pcs i) m = Some (Go pc', m')"
    and sw: "swap_step (pcs i) pc'" and p: "Suc (pending n status') \<le> pending n status"
  shows "lf_fuel n m' (pcs(i := pc')) status' < lf_fuel n m pcs status"
proof -
  note z = swap_incs [OF g acc sw]
  have "(\<Sum>j<n. incs m' ((pcs(i := pc')) j)) + incs m (pcs i) \<le> (\<Sum>j<n. incs m (pcs j)) + incs m' pc' + 2 * n"
    using sum_moved [OF i, of "\<lambda>j. incs m' ((pcs(i := pc')) j)" "\<lambda>j. incs m (pcs j)" 2] by (simp add: incs_def)
  then have "writes n m' (pcs(i := pc')) \<le> writes n m pcs + 4 * n" unfolding writes_def using z by simp
  then have wr: "33 * n * writes n m' (pcs(i := pc')) \<le> 33 * n * (writes n m pcs + 4 * n)" by (rule mult_le_mono2)
  have "works n m' (pcs(i := pc')) + card (alive m') < works n m pcs + card (alive m) + 69 * n"
    by (rule step_works [OF g n i acc]) (rule trans_le_add2 [OF lf_work_bound])
  moreover have "(69 * n + 132 * n * n + 1) * Suc (pending n status') \<le> (69 * n + 132 * n * n + 1) * pending n status"
    using p by (rule mult_le_mono2)
  moreover have "33 * n * (writes n m pcs + 4 * n) = 33 * n * writes n m pcs + 132 * n * n" by (simp add: algebra_simps)
  ultimately show ?thesis using wr unfolding lf_fuel_def mult_Suc_right by linarith
qed

section \<open>Every step that is not a return uses up fuel\<close>

fun strong :: "'a lf_choice \<Rightarrow> bool" where
  "strong (LStep i weak) = (\<not> weak)"
| "strong c = True"

abbreviation is_ret :: "'a lf_event \<Rightarrow> bool" where
  "is_ret e \<equiv> \<exists>i r. e = Ret i r"

definition sys_fuel :: "nat \<Rightarrow> 'a lf_sys \<Rightarrow> 'a lf_spec_state \<Rightarrow> nat" where
  "sys_fuel n s a = lf_fuel n (lf_mem s) (lf_pcs s) (sp_status a)"

lemma mcnt_two: "counts_ok n m pcs \<Longrightarrow> mcnt m \<le> 2 * n"
proof -
  assume "counts_ok n m pcs"
  then have "mcnt m \<le> (\<Sum>i<n. count (gens (pcs i)) (mhead m))" by (simp add: counts_ok_def count_sum)
  also have "\<dots> \<le> (\<Sum>i<n. 2)" by (intro sum_mono count_gens)
  finally show ?thesis by simp
qed

lemma sum_at_most: "(\<And>i. f i \<le> c) \<Longrightarrow> (\<Sum>i<n. f i) \<le> c * n" for f :: "nat \<Rightarrow> nat" and n :: nat
  using sum_mono [of "{..<n}" f "\<lambda>i. c"] by (simp add: mult.commute)

lemma sys_fuel_bound:
  assumes "lf_rel n s a"
  shows "sys_fuel n s a \<le> card (alive (lf_mem s)) + 70 * n + 399 * n ^ 2 + 132 * n ^ 3"
proof -
  have g: "lf_good n (lf_mem s) (lf_pcs s) (sp_status a) (sp_stack a)" using assms by (simp add: lf_rel_def)
  have w: "works n (lf_mem s) (lf_pcs s) \<le> 69 * n" unfolding works_def by (rule sum_at_most) (rule lf_work_bound)
  have "(\<Sum>i<n. incs (lf_mem s) (lf_pcs s i)) \<le> 4 * n" by (rule sum_at_most) (rule incs_le)
  then have "writes n (lf_mem s) (lf_pcs s) \<le> 10 * n" unfolding writes_def using mcnt_two [OF goodD(1) [OF g]] by linarith
  then have "33 * n * writes n (lf_mem s) (lf_pcs s) \<le> 33 * n * (10 * n)" by (rule mult_le_mono2)
  moreover have "(69 * n + 132 * n * n + 1) * pending n (sp_status a) \<le> (69 * n + 132 * n * n + 1) * n"
    using pending_le by (rule mult_le_mono2)
  moreover have "33 * n * (10 * n) + (69 * n + 132 * n * n + 1) * n = n + 399 * n ^ 2 + 132 * n ^ 3"
    by (simp add: algebra_simps power2_eq_square power3_eq_cube)
  ultimately show ?thesis using w unfolding sys_fuel_def lf_fuel_def by linarith
qed

lemma call_fuel:
  assumes g: "lf_good n m pcs status st" and c: "pcs i = S_Idle" "i < n"
  shows "lf_fuel n m (pcs(i := lf_entry op)) (status(i := Called op)) < lf_fuel n m pcs status"
proof -
  have "status i = Free" using goodD(7) [OF g, of i] c(1) by simp
  then have p: "pending n (status(i := Called op)) = pending n status" by (rule pending_call)
  have e: "lf_work m (lf_entry op) < 69" "incs m (lf_entry op) \<le> 2"
    by (cases op; simp add: lf_work_def incs_def)+
  have "works n m (pcs(i := lf_entry op)) + lf_work m (pcs i) \<le> works n m pcs + lf_work m (lf_entry op) + 0 * n"
    using sum_moved [OF c(2), of "\<lambda>j. lf_work m ((pcs(i := lf_entry op)) j)" "\<lambda>j. lf_work m (pcs j)" 0] by (simp add: works_def)
  moreover have "lf_work m (pcs i) = 69" by (simp add: c(1) lf_work_def)
  ultimately have w: "works n m (pcs(i := lf_entry op)) < works n m pcs" using e(1) by linarith
  have "(\<Sum>j<n. incs m ((pcs(i := lf_entry op)) j)) + incs m (pcs i) \<le> (\<Sum>j<n. incs m (pcs j)) + incs m (lf_entry op) + 0 * n"
    using sum_moved [OF c(2), of "\<lambda>j. incs m ((pcs(i := lf_entry op)) j)" "\<lambda>j. incs m (pcs j)" 0] by simp
  moreover have "incs m (pcs i) = 2" by (simp add: c(1) incs_def)
  ultimately have "writes n m (pcs(i := lf_entry op)) \<le> writes n m pcs" unfolding writes_def using e(2) by linarith
  then have "33 * n * writes n m (pcs(i := lf_entry op)) \<le> 33 * n * writes n m pcs" by (rule mult_le_mono2)
  then show ?thesis using w unfolding lf_fuel_def p by linarith
qed

lemma alloc_fuel:
  assumes g: "lf_good n m pcs status st" and c: "pcs i = S_New x" "lf_free na ba m"
  defines "m' \<equiv> lf_alloc na ba x m"
  shows "lf_fuel n m' (pcs(i := S_Get ba G_Add)) status < lf_fuel n m pcs status"
proof -
  have i: "i < n" using busy_lt [OF g, of i] c(1) by simp
  have k: "keeps m' m" unfolding m'_def by (rule keeps_alloc [OF c(2)])
  have d: "doomed m (pcs j) = doomed m' (pcs j)" for j
    by (rule doomed_keeps [OF k counts_head_alive [OF goodD(1) [OF g]] goodD(7) [OF g]])
  have pk: "m_packed m' = m_packed m" by (simp add: m'_def lf_alloc_def)
  have w: "lf_work m' (pcs j) = lf_work m (pcs j)" for j by (rule lf_work_same [OF pk d [symmetric]])
  have "works n m' (pcs(i := S_Get ba G_Add)) + lf_work m (pcs i) \<le> works n m pcs + lf_work m' (S_Get ba G_Add) + 0 * n"
    using sum_moved [OF i, of "\<lambda>j. lf_work m' ((pcs(i := S_Get ba G_Add)) j)" "\<lambda>j. lf_work m (pcs j)" 0] w by (simp add: works_def)
  moreover have "lf_work m (pcs i) = 68" "lf_work m' (S_Get ba G_Add) = 28" by (simp_all add: c(1) lf_work_def)
  moreover have "card (alive m') \<le> Suc (card (alive m))"
    using card_insert_le_m1 [of "Suc (card (alive m))" "alive m" ba] by (simp add: m'_def lf_alloc_def)
  ultimately have ww: "works n m' (pcs(i := S_Get ba G_Add)) + card (alive m') < works n m pcs + card (alive m)" by linarith
  have "(\<Sum>j<n. incs m' ((pcs(i := S_Get ba G_Add)) j)) + incs m (pcs i) \<le> (\<Sum>j<n. incs m (pcs j)) + incs m' (S_Get ba G_Add) + 0 * n"
    using sum_moved [OF i, of "\<lambda>j. incs m' ((pcs(i := S_Get ba G_Add)) j)" "\<lambda>j. incs m (pcs j)" 0] d by (simp add: incs_def)
  moreover have "incs m (pcs i) = 2" "incs m' (S_Get ba G_Add) = 2" by (simp_all add: c(1) incs_def)
  ultimately have "writes n m' (pcs(i := S_Get ba G_Add)) \<le> writes n m pcs" unfolding writes_def using pk by simp
  then have "33 * n * writes n m' (pcs(i := S_Get ba G_Add)) \<le> 33 * n * writes n m pcs" by (rule mult_le_mono2)
  then show ?thesis using ww unfolding lf_fuel_def by linarith
qed

lemma access_step_fuel:
  assumes rel: "lf_rel n s a" and step: "lf_step n moved (LStep i False) s = Some (es, t)" and nr: "\<not> (\<exists>e\<in>set es. is_ret e)"
    and b: "accepts lf_spec es a = Some b" "lf_rel n t b"
  shows "sys_fuel n t b < sys_fuel n s a"
proof -
  have n: "n \<le> 500" and g: "lf_good n (lf_mem s) (lf_pcs s) (sp_status a) (sp_stack a)"
    using rel by (simp_all add: lf_rel_def)
  obtain r m where acc: "lf_access moved False (lf_pcs s i) (lf_mem s) = Some (r, m)"
    using step by (auto split: option.splits)
  show ?thesis
  proof (cases r)
    case (Go p)
    let ?lin = "lf_marks (lf_pcs s i) (lf_mem s) p"
    note acc' = acc [unfolded Go]
    have t: "es = (if ?lin then [Lin i] else [])" "lf_mem t = m" "lf_pcs t = (lf_pcs s)(i := p)" using step acc Go by auto
    have "lf_pcs s i \<noteq> S_Idle" using acc by auto
    then have i: "i < n" by (rule busy_lt [OF g])
    have st: "?lin \<Longrightarrow> \<exists>op x. sp_status a i = Called op \<and> sp_status b = (sp_status a)(i := Done x)"
      "\<not> ?lin \<Longrightarrow> sp_status b = sp_status a"
      using b(1) t(1) by (auto split: lf_status.splits prod.splits)
    have pend: "Suc (pending n (sp_status b)) = pending n (sp_status a)" if lin: ?lin
    proof -
      obtain op x where "sp_status a i = Called op" "sp_status b = (sp_status a)(i := Done x)" using st(1) [OF lin] by blast
      then show ?thesis using pending_done [OF i, of "sp_status a" x] by simp
    qed
    show ?thesis
    proof (cases "swap_step (lf_pcs s i) p")
      case True
      have "Suc (pending n (sp_status b)) \<le> pending n (sp_status a)" using pend swap_no_idle [OF True] by simp
      from swap_fuel [OF g n i acc' True this] show ?thesis by (simp add: sys_fuel_def t)
    next
      case False
      have "pending n (sp_status b) \<le> pending n (sp_status a)" using pend st(2) by (cases ?lin) auto
      from access_fuel [OF g n i acc' False this] show ?thesis by (simp add: sys_fuel_def t)
    qed
  next
    case (Return x)
    then show ?thesis using step acc nr by auto
  next
    case Crash
    then show ?thesis using step acc b(1) by auto
  qed
qed

lemma step_fuel:
  assumes rel: "lf_rel n s a" and step: "lf_step n moved ch s = Some (es, t)" and ch: "strong ch" and nr: "\<not> (\<exists>e\<in>set es. is_ret e)"
  obtains b where "lf_rel n t b" "sys_fuel n t b < sys_fuel n s a"
proof -
  obtain b where b: "accepts lf_spec es a = Some b" "lf_rel n t b" using lf_step_rel [OF rel step] by blast
  have g: "lf_good n (lf_mem s) (lf_pcs s) (sp_status a) (sp_stack a)" using rel by (simp add: lf_rel_def)
  have "sys_fuel n t b < sys_fuel n s a"
  proof (cases ch)
    case (LCall i op)
    have c: "lf_pcs s i = S_Idle" "i < n" "es = [Call i op]" "t = s\<lparr>lf_pcs := (lf_pcs s)(i := lf_entry op)\<rparr>"
      using step LCall by (auto split: lf_pc.splits if_splits)
    have "sp_status b = (sp_status a)(i := Called op)" using b(1) c(3) by (auto split: if_splits)
    then show ?thesis using call_fuel [OF g c(1,2), of op] c(4) by (simp add: sys_fuel_def)
  next
    case (LAlloc i na ba)
    then obtain x where c: "lf_pcs s i = S_New x" "lf_free na ba (lf_mem s)" "es = []"
      "t = s\<lparr>lf_mem := lf_alloc na ba x (lf_mem s), lf_pcs := (lf_pcs s)(i := S_Get ba G_Add)\<rparr>"
      using step by (auto split: lf_pc.splits if_splits)
    have "b = a" using b(1) c(3) by simp
    then show ?thesis using alloc_fuel [OF g c(1,2)] c(4) by (simp add: sys_fuel_def)
  next
    case (LStep i weak)
    then have "lf_step n moved (LStep i False) s = Some (es, t)" using step ch by simp
    from access_step_fuel [OF rel this nr b] show ?thesis .
  qed
  with b(2) show thesis by (rule that)
qed

lemma run_fuel:
  assumes "lf_rel n s a" "run (lf_step n moved) cs s = Some (es, t)" "\<forall>c\<in>set cs. strong c" "\<not> (\<exists>e\<in>set es. is_ret e)"
  shows "length cs \<le> sys_fuel n s a"
  using assms
proof (induction cs arbitrary: s a es)
  case (Cons c cs)
  obtain e u fs where st: "lf_step n moved c s = Some (e, u)" "run (lf_step n moved) cs u = Some (fs, t)" "es = e @ fs"
    using Cons.prems(2) by (auto split: option.splits)
  have nr: "\<not> (\<exists>x\<in>set e. is_ret x)" "\<not> (\<exists>x\<in>set fs. is_ret x)" using Cons.prems(4) st(3) by auto
  obtain b where b: "lf_rel n u b" "sys_fuel n u b < sys_fuel n s a"
    using step_fuel [OF Cons.prems(1) st(1) _ nr(1)] Cons.prems(3) by auto
  have "length cs \<le> sys_fuel n u b" using Cons.IH [OF b(1) st(2) _ nr(2)] Cons.prems(3) by simp
  then show ?case using b(2) by simp
qed simp

section \<open>Lock freedom\<close>

text \<open>
  Property C2. The stack is lock free: from every reachable state, every schedule of the threads that is longer than a bound, which depends
  on the number of threads and of control blocks only, and in which the weak compare-exchanges do not fail
  spuriously, completes an operation. The bound counts the calls and the allocations too.
\<close>

theorem lf_lock_free:
  assumes "n \<le> 500" "block \<noteq> 0" "block < 2 ^ 48" "reaches (lf_step n moved) (lf_new block) es s"
    and "run (lf_step n moved) cs s = Some (fs, t)" "\<forall>i. LStep i True \<notin> set cs"
    and "card (dom (m_blocks (lf_mem s))) + 70 * n + 399 * n ^ 2 + 132 * n ^ 3 < length cs"
  shows "\<exists>i r. Ret i r \<in> set fs"
proof (rule ccontr)
  assume no: "\<not> (\<exists>i r. Ret i r \<in> set fs)"
  have "lf_init n (lf_new block) lf_start" using assms(1-3) by (auto simp: lf_init_def)
  from lf.simulates [OF this assms(4)] obtain a where a: "lf_rel n s a" by blast
  have "strong c" if "c \<in> set cs" for c using assms(6) that by (cases c) auto
  then have "length cs \<le> sys_fuel n s a" using run_fuel [OF a assms(5)] no by blast
  then show False using sys_fuel_bound [OF a] assms(7) by linarith
qed

text \<open>Two threads that keep asking whether the stack is empty, taking turns.\<close>

definition lf_example_turns :: "nat lf_choice list" where
  "lf_example_turns = [LCall 0 Op_IsEmpty, LCall 1 Op_IsEmpty, LStep 0 False, LStep 1 False, LStep 0 False, LStep 1 False,
     LStep 0 False, LStep 1 False, LStep 0 False, LStep 1 False, LStep 0 False, LStep 0 False]"

lemma lf_example_turns_back:
  "run (lf_step 2 (\<lambda>x. 0)) lf_example_turns (lf_new 128) =
     Some ([Call 0 Op_IsEmpty, Call 1 Op_IsEmpty, Lin 0, Lin 1, Ret 1 (R_IsEmpty True), Ret 0 (R_IsEmpty True)], lf_new 128)"
  by (simp add: lf_example_turns_def lf_new_def AtomicSharedPtr_new_def pack_def packed_ptr_def packed_cnt_def kMagicLen_def kMagicMask_def
      fast_loop_def lf_end_def destroy_entry_def fun_eq_iff)

lemma run_repeat:
  assumes "run step cs s = Some (es, s)"
  shows "run step (concat (replicate k cs)) s = Some (concat (replicate k es), s)"
  by (induction k) (simp_all add: run_append assms)

lemma lf_lock_free_witness:
  "\<exists>cs fs. run (lf_step 2 (\<lambda>x. 0)) cs (lf_new 128) = Some (fs, lf_new 128 :: nat lf_sys) \<and> length cs = 2796 \<and>
     (\<exists>i r. Ret i r \<in> set fs)"
proof -
  let ?cs = "concat (replicate 233 lf_example_turns)"
  have p: "(2::nat) \<le> 500" "(128::addr) \<noteq> 0" "(128::addr) < 2 ^ 48" by simp_all
  have r: "reaches (lf_step 2 (\<lambda>x. 0)) (lf_new 128) [] (lf_new 128 :: nat lf_sys)" by (rule reaches_start)
  obtain fs where fs: "run (lf_step 2 (\<lambda>x. 0)) ?cs (lf_new 128) = Some (fs, lf_new 128)"
    using run_repeat [OF lf_example_turns_back] by blast
  have s: "\<forall>i. LStep i True \<notin> set ?cs" by (auto simp: lf_example_turns_def)
  have len: "length ?cs = 2796" by (simp add: length_concat sum_list_replicate lf_example_turns_def)
  have "dom (m_blocks (lf_mem (lf_new 128 :: nat lf_sys))) = {128}" by (simp add: lf_new_def AtomicSharedPtr_new_def)
  then have "card (dom (m_blocks (lf_mem (lf_new 128 :: nat lf_sys)))) + 70 * 2 + 399 * 2 ^ 2 + 132 * 2 ^ 3 < length ?cs"
    unfolding len by simp
  from lf_lock_free [OF p r fs s this] show ?thesis using fs len by blast
qed

end
