(* ===== verification/Shared_Ptr_Destructor.thy ===== *)
theory Shared_Ptr_Destructor
  imports Atomic_Shared_Ptr
begin

text \<open>
  The destructor of \<open>SharedPtr\<close> with its \<open>thread_local\<close> queue and flag and the destructors that it calls through
  \<open>delete\<close> (\<open>destructor_step\<close>): it does what \<open>unref_step\<close>, which the operations of the stack use, does in one access a block.
\<close>

text \<open>The variables of a thread that is in no destructor, and of one that is in the loop.\<close>

abbreviation thread_idle :: "sp_thread" where
  "thread_idle \<equiv> \<lparr>destructionQueue = [], destructionInProgress = False\<rparr>"

abbreviation thread_busy :: "addr list \<Rightarrow> sp_thread" where
  "thread_busy queue \<equiv> \<lparr>destructionQueue = queue, destructionInProgress = True\<rparr>"

section \<open>Runs\<close>

lemma solo_append: "solo step n p m = (Go q, m1) \<Longrightarrow> solo step (n + k) p m = solo step k q m1"
proof (induction n arbitrary: p m)
  case (Suc n)
  then show ?case by (cases "step p m"; cases "fst (step p m)") auto
qed simp

lemma solo_done: "solo step n p m = (r, m1) \<Longrightarrow> (\<And>q. r \<noteq> Go q) \<Longrightarrow> n \<le> k \<Longrightarrow> solo step k p m = (r, m1)"
proof (induction n arbitrary: p m k)
  case (Suc n)
  then show ?case by (cases k; cases "step p m"; cases "fst (step p m)") auto
qed auto

section \<open>One release\<close>

lemma ref_sub_blocks:
  "ref_sub b k m = Some (prior, m1) \<Longrightarrow> \<exists>blk. m_blocks m b = Some blk \<and>
     m1 = m\<lparr>m_blocks := (m_blocks m)(b \<mapsto> blk\<lparr>cb_refs := cb_refs blk - k\<rparr>)\<rparr>"
  by (auto simp: ref_sub_def split: option.splits)

text \<open>What one release comes to: its steps up to the next one.\<close>

lemma unref_calls:
  assumes "c \<noteq> 0"
  shows "case unref_step c m of
      (Go d, m1) \<Rightarrow> d \<noteq> 0 \<and> solo destructor_step 5 (SP_Unref c # fs, thread_busy []) m = (Go (fs, thread_busy [d]), m1)
    | (Return u, m1) \<Rightarrow> (\<exists>n \<le> 5. solo destructor_step n (SP_Unref c # fs, thread_busy []) m = (Go (fs, thread_busy []), m1) \<or>
        solo destructor_step n (SP_Unref c # fs, thread_busy []) m = (Go (fs, thread_busy [0]), m1))
    | (Crash, m1) \<Rightarrow> fst (solo destructor_step 5 (SP_Unref c # fs, thread_busy []) m) = Crash"
proof (cases "ref_sub c 1 m")
  case None
  then show ?thesis using assms by (simp add: unref_step_def numeral_nat split: option.splits)
next
  case (Some a)
  then obtain prior m1 where a: "ref_sub c 1 m = Some (prior, m1)" by (cases a) auto
  obtain blk where blk: "m_blocks m c = Some blk" "m_blocks m1 c = Some (blk\<lparr>cb_refs := cb_refs blk - 1\<rparr>)" "m_nodes m1 = m_nodes m"
    using ref_sub_blocks [OF a] by auto
  consider "(ucast prior :: int32) = 0" | "(ucast prior :: int32) = 1" | "(ucast prior :: int32) \<noteq> 0" "(ucast prior :: int32) \<noteq> 1" by blast
  then show ?thesis
  proof cases
    case 1
    then show ?thesis using assms by (simp add: unref_step_def a blk numeral_nat)
  next
    case 2
    show ?thesis
    proof (cases "cb_data blk = 0")
      case True
      then have "solo destructor_step 3 (SP_Unref c # fs, thread_busy []) m = (Go (fs, thread_busy []), m1\<lparr>m_blocks := (m_blocks m1)(c := None)\<rparr>)"
        using assms 2 by (simp add: a blk numeral_nat)
      with True show ?thesis using 2
        by (auto simp: unref_step_def a blk delete_both_def unref_entry_def Let_def intro!: exI [of _ 3])
    next
      case False
      show ?thesis
      proof (cases "m_nodes m (cb_data blk)")
        case None
        then show ?thesis using assms 2 False by (simp add: unref_step_def a blk numeral_nat delete_both_def Let_def)
      next
        case (Some nd)
        let ?m2 = "m1\<lparr>m_blocks := (m_blocks m1)(c := None), m_nodes := (m_nodes m1)(cb_data blk := None)\<rparr>"
        have "solo destructor_step 5 (SP_Unref c # fs, thread_busy []) m = (Go (fs, thread_busy [nd_prev nd]), ?m2)"
          using assms 2 False Some by (simp add: a blk numeral_nat)
        then show ?thesis using assms 2 False Some
          by (auto simp: unref_step_def a blk delete_both_def unref_entry_def Let_def intro!: exI [of _ 5])
      qed
    qed
  next
    case 3
    then have "solo destructor_step 1 (SP_Unref c # fs, thread_busy []) m = (Go (fs, thread_busy []), m1)"
      using assms by (simp add: a blk)
    then show ?thesis using 3 by (auto simp: unref_step_def a blk Let_def simp del: solo.simps intro!: exI [of _ 1])
  qed
qed

section \<open>The loop\<close>

text \<open>The loop, from the block that is to be released next.\<close>

lemma loop_empty: "solo destructor_step 1 (SP_Loop # fs, thread_busy []) m = (Go (fs, thread_idle), m)"
  by simp

lemma loop_null: "solo destructor_step 3 (SP_Loop # fs, thread_busy [0]) m = (Go (fs, thread_idle), m)"
  by (simp add: numeral_nat)

lemma loop_next: "solo destructor_step (Suc n) (SP_Loop # fs, thread_busy [c]) m = solo destructor_step n (SP_Unref c # SP_Loop # fs, thread_busy []) m"
  by simp

lemma loop_releases:
  assumes "c \<noteq> 0" "solo unref_step k c m = (Return (), m')"
  shows "\<exists>n \<le> 6 * k + 3. solo destructor_step n (SP_Loop # fs, thread_busy [c]) m = (Go (fs, thread_idle), m')"
  using assms
proof (induction k arbitrary: c m)
  case (Suc k)
  obtain r m1 where u: "unref_step c m = (r, m1)" by (rule prod.exhaust)
  note out = unref_calls [where fs = "SP_Loop # fs" and m = m, OF Suc.prems(1), unfolded u]
  show ?case
  proof (cases r)
    case (Go d)
    then have "d \<noteq> 0" "solo unref_step k d m1 = (Return (), m')" using out Suc.prems(2) u by simp_all
    then obtain n where n: "n \<le> 6 * k + 3" "solo destructor_step n (SP_Loop # fs, thread_busy [d]) m1 = (Go (fs, thread_idle), m')"
      using Suc.IH by blast
    have five: "solo destructor_step 5 (SP_Unref c # SP_Loop # fs, thread_busy []) m = (Go (SP_Loop # fs, thread_busy [d]), m1)"
      using out Go by simp
    have "solo destructor_step (Suc (5 + n)) (SP_Loop # fs, thread_busy [c]) m = (Go (fs, thread_idle), m')"
      unfolding loop_next solo_append [OF five] by (rule n(2))
    then show ?thesis using n(1) by (intro exI [of _ "Suc (5 + n)"]) simp
  next
    case (Return x)
    then have "m1 = m'" using Suc.prems(2) u by simp
    then obtain n q where n: "n \<le> 5" "solo destructor_step n (SP_Unref c # SP_Loop # fs, thread_busy []) m = (Go (SP_Loop # fs, thread_busy q), m')"
      "q = [] \<or> q = [0]" using out Return by auto
    let ?k = "if q = [] then 1 else 3 :: nat"
    have "solo destructor_step ?k (SP_Loop # fs, thread_busy q) m' = (Go (fs, thread_idle), m')"
      using n(3) loop_empty loop_null by (auto simp del: solo.simps)
    then have "solo destructor_step (Suc (n + ?k)) (SP_Loop # fs, thread_busy [c]) m = (Go (fs, thread_idle), m')"
      unfolding loop_next solo_append [OF n(2)] .
    then show ?thesis using n(1) by (intro exI [of _ "Suc (n + ?k)"]) simp
  qed (use Suc.prems(2) u in simp)
qed simp

lemma loop_crashes:
  assumes "c \<noteq> 0" "solo unref_step k c m = (Crash, m')"
  shows "fst (solo destructor_step (6 * k) (SP_Loop # fs, thread_busy [c]) m) = Crash"
  using assms
proof (induction k arbitrary: c m)
  case (Suc k)
  obtain r m1 where u: "unref_step c m = (r, m1)" by (rule prod.exhaust)
  note out = unref_calls [where fs = "SP_Loop # fs" and m = m, OF Suc.prems(1), unfolded u]
  have six: "6 * Suc k = Suc (5 + 6 * k)" by simp
  show ?case
  proof (cases r)
    case (Go d)
    then have "fst (solo destructor_step (6 * k) (SP_Loop # fs, thread_busy [d]) m1) = Crash"
      using Suc.IH out Suc.prems(2) u by simp
    moreover have five: "solo destructor_step 5 (SP_Unref c # SP_Loop # fs, thread_busy []) m = (Go (SP_Loop # fs, thread_busy [d]), m1)"
      using out Go by simp
    ultimately show ?thesis unfolding six loop_next solo_append [OF five] by simp
  next
    case Crash
    then obtain m2 where five: "solo destructor_step 5 (SP_Unref c # SP_Loop # fs, thread_busy []) m = (Crash, m2)"
      using out by (cases "solo destructor_step 5 (SP_Unref c # SP_Loop # fs, thread_busy []) m") simp
    have "solo destructor_step (5 + 6 * k) (SP_Unref c # SP_Loop # fs, thread_busy []) m = (Crash, m2)"
      by (rule solo_done [OF five]) simp_all
    then show ?thesis unfolding six loop_next by simp
  qed (use Suc.prems(2) u in simp)
qed simp

section \<open>What is still to be freed\<close>

text \<open>A node and its block that are still to be freed do not disturb the release of others.\<close>

definition not_yet_freed :: "addr \<Rightarrow> cblock \<Rightarrow> addr \<Rightarrow> 'a node \<Rightarrow> 'a mem \<Rightarrow> 'a mem" where
  "not_yet_freed b blk data nd m = m\<lparr>m_blocks := (m_blocks m)(b \<mapsto> blk), m_nodes := (m_nodes m)(data \<mapsto> nd)\<rparr>"

lemma ref_sub_not_yet_freed:
  assumes "ref_sub c k m = Some (prior, m1)" "m_blocks m b = None" "m_nodes m data = None"
  shows "ref_sub c k (not_yet_freed b blk data nd m) = Some (prior, not_yet_freed b blk data nd m1)"
    "m_blocks m1 b = None" "m_nodes m1 data = None"
  using assms by (auto simp: ref_sub_def not_yet_freed_def fun_upd_twist split: option.splits)

lemma delete_both_not_yet_freed:
  assumes "delete_both d c m = Some (p, m1)" "m_blocks m b = None" "m_nodes m data = None"
  shows "delete_both d c (not_yet_freed b blk data nd m) = Some (p, not_yet_freed b blk data nd m1)"
    "m_blocks m1 b = None" "m_nodes m1 data = None"
  using assms
  by (auto simp: delete_both_def not_yet_freed_def fun_upd_twist Let_def split: option.splits if_splits)

lemma unref_not_yet_freed:
  assumes "unref_step c m = (r, m1)" "r \<noteq> Crash" "m_blocks m b = None" "m_nodes m data = None"
  shows "unref_step c (not_yet_freed b blk data nd m) = (r, not_yet_freed b blk data nd m1) \<and> m_blocks m1 b = None \<and> m_nodes m1 data = None"
proof -
  obtain prior m2 where sub: "ref_sub c 1 m = Some (prior, m2)"
    using assms(1,2) by (auto simp: unref_step_def split: option.splits)
  note s = ref_sub_not_yet_freed [OF sub assms(3,4)]
  obtain cb where cb: "m_blocks m c = Some cb" using ref_sub_blocks [OF sub] by blast
  then have c: "m_blocks (not_yet_freed b blk data nd m) c = Some cb" using assms(3) by (auto simp: not_yet_freed_def)
  show ?thesis
  proof (cases "(ucast prior :: int32) = 1")
    case True
    then obtain p m3 where del: "delete_both (cb_data cb) c m2 = Some (p, m3)"
      using assms(1,2) sub cb by (cases "delete_both (cb_data cb) c m2") (auto simp: unref_step_def)
    show ?thesis using assms(1) True sub cb s(1) c del delete_both_not_yet_freed [OF del s(2,3)]
      by (simp add: unref_step_def)
  next
    case False
    then show ?thesis using assms(1,2) sub cb s c by (auto simp: unref_step_def Let_def split: if_splits)
  qed
qed

lemma solo_not_yet_freed:
  assumes "solo unref_step k c m = (Return (), m')" "m_blocks m b = None" "m_nodes m data = None"
  shows "solo unref_step k c (not_yet_freed b blk data nd m) = (Return (), not_yet_freed b blk data nd m') \<and> m_blocks m' b = None \<and> m_nodes m' data = None"
  using assms
proof (induction k arbitrary: c m)
  case (Suc k)
  obtain r m1 where u: "unref_step c m = (r, m1)" by (rule prod.exhaust)
  then have "r \<noteq> Crash" using Suc.prems(1) by auto
  from unref_not_yet_freed [OF u this Suc.prems(2,3)] Suc u show ?case by (cases r) auto
qed simp

section \<open>The calls that are open\<close>

text \<open>The calls that are open at any time: a queue of at most one block and at most six calls.\<close>

fun frees :: "sp_call list \<Rightarrow> bool" where
  "frees [] = True"
| "frees [SP_Free_block b] = True"
| "frees [SP_Free_node data, SP_Free_block b] = True"
| "frees _ = False"

fun before_next :: "sp_call list \<Rightarrow> bool" where
  "before_next [SP_Unref b] = True"
| "before_next [SP_Delete b] = True"
| "before_next (SP_Enter p # fs) = frees fs"
| "before_next _ = False"

definition calls_ok :: "sp_call list \<times> sp_thread \<Rightarrow> bool" where
  "calls_ok c = (\<exists>fs rest queue. frees rest \<and> (fst c = fs @ SP_Loop # rest \<and> snd c = thread_busy queue \<and>
       (frees fs \<and> length queue \<le> 1 \<or> before_next fs \<and> queue = []) \<or>
     fst c = fs \<and> snd c = thread_idle \<and> (frees fs \<or> before_next fs)))"

lemma frees_cases:
  assumes "frees fs"
  obtains "fs = []" | b where "fs = [SP_Free_block b]" | data b where "fs = [SP_Free_node data, SP_Free_block b]"
  using assms by (cases fs rule: frees.cases) auto

lemma before_next_cases:
  assumes "before_next fs"
  obtains b where "fs = [SP_Unref b]" | b where "fs = [SP_Delete b]" | p gs where "fs = SP_Enter p # gs" "frees gs"
  using assms by (cases fs rule: before_next.cases) auto

lemma calls_idle: "frees fs \<or> before_next fs \<Longrightarrow> calls_ok (fs, thread_idle)"
  unfolding calls_ok_def by (metis frees.simps(1) fst_conv snd_conv)

lemma calls_busy: "frees rest \<Longrightarrow> frees fs \<and> length queue \<le> 1 \<or> before_next fs \<and> queue = [] \<Longrightarrow>
    gs = fs @ SP_Loop # rest \<Longrightarrow> calls_ok (gs, thread_busy queue)"
  unfolding calls_ok_def by auto

lemma calls_ok_busy:
  assumes "frees rest"
  shows "length queue \<le> 1 \<Longrightarrow> calls_ok (SP_Loop # rest, thread_busy queue)"
    "length queue \<le> 1 \<Longrightarrow> calls_ok (SP_Free_block b # SP_Loop # rest, thread_busy queue)"
    "calls_ok (SP_Unref b # SP_Loop # rest, thread_busy [])"
    "calls_ok (SP_Delete b # SP_Loop # rest, thread_busy [])"
    "calls_ok (SP_Enter b # SP_Free_node p # SP_Free_block q # SP_Loop # rest, thread_busy [])"
    "length queue \<le> 1 \<Longrightarrow> frees gs \<Longrightarrow> calls_ok (gs @ SP_Loop # rest, thread_busy queue)"
  using assms
  by (auto intro: calls_busy [of rest "[]"] calls_busy [of rest "[SP_Free_block b]"] calls_busy [of rest "[SP_Unref b]"]
    calls_busy [of rest "[SP_Delete b]"] calls_busy [of rest "[SP_Enter b, SP_Free_node p, SP_Free_block q]"]
    calls_busy [of rest gs])

lemma calls_length: "calls_ok (fs, l) \<Longrightarrow> length fs \<le> 6 \<and> length (destructionQueue l) \<le> 1"
  unfolding calls_ok_def by (auto elim!: frees_cases before_next_cases)

lemma calls_step:
  assumes "calls_ok c" "destructor_step c m = (Go d, m1)"
  shows "calls_ok d"
proof -
  obtain fs rest queue where c: "frees rest" "fst c = fs @ SP_Loop # rest \<and> snd c = thread_busy queue \<and>
       (frees fs \<and> length queue \<le> 1 \<or> before_next fs \<and> queue = []) \<or>
     fst c = fs \<and> snd c = thread_idle \<and> (frees fs \<or> before_next fs)" using assms(1) unfolding calls_ok_def by blast
  note ok = calls_ok_busy [OF c(1)]
  from c(2) show ?thesis
  proof (elim disjE conjE)
    assume s: "fst c = fs @ SP_Loop # rest" "snd c = thread_busy queue" "frees fs" "length queue \<le> 1"
    from s(3) show ?thesis
    proof (cases rule: frees_cases)
      case 1
      with s assms(2) c(1) ok(3) show ?thesis by (cases c; cases queue) (auto intro: calls_idle)
    qed (use s assms(2) ok in \<open>cases c; auto split: if_splits\<close>)+
  next
    assume s: "fst c = fs @ SP_Loop # rest" "snd c = thread_busy queue" "before_next fs" "queue = []"
    from s(3) show ?thesis
      by (cases rule: before_next_cases)
        (use s assms(2) ok in \<open>cases c; auto simp: Let_def split: if_splits option.splits\<close>)+
  next
    assume s: "fst c = fs" "snd c = thread_idle" "frees fs"
    from s(3) show ?thesis
      using s assms(2) by (cases rule: frees_cases; cases c) (auto intro: calls_idle split: if_splits)
  next
    assume s: "fst c = fs" "snd c = thread_idle" "before_next fs"
    from s(3) show ?thesis
    proof (cases rule: before_next_cases)
      case (3 p gs)
      with s assms(2) show ?thesis by (cases c) (auto intro: calls_ok_busy(1))
    qed (use s assms(2) in \<open>cases c; auto intro: calls_idle simp: Let_def split: if_splits option.splits\<close>)+
  qed
qed

lemma calls_bounded:
  "calls_ok c \<Longrightarrow> solo destructor_step j c m = (Go (fs, l), m') \<Longrightarrow> length fs \<le> 6 \<and> length (destructionQueue l) \<le> 1"
proof (induction j arbitrary: c m)
  case (Suc j)
  obtain r m1 where d: "destructor_step c m = (r, m1)" by (rule prod.exhaust)
  with Suc.prems obtain q where "r = Go q" "solo destructor_step j q m1 = (Go (fs, l), m')" by (cases r) auto
  with Suc.IH calls_step [OF Suc.prems(1)] d show ?case by blast
qed (use calls_length in auto)

section \<open>The destructor and the release\<close>

lemma solo_return:
  assumes "solo destructor_step n c m = (Go ([], l), m')" "n < j"
  shows "solo destructor_step j c m = (Return l, m')"
proof -
  have "solo destructor_step (n + 1) c m = (Return l, m')" unfolding solo_append [OF assms(1)] by simp
  then show ?thesis by (rule solo_done) (use assms(2) in simp_all)
qed

lemma enter_releases:
  assumes "b \<noteq> 0" "solo unref_step k b m = (Return (), m')"
  shows "\<exists>n \<le> 6 * k + 4. solo destructor_step n (SP_Enter b # fs, thread_idle) m = (Go (fs, thread_idle), m')"
proof -
  obtain n where "n \<le> 6 * k + 3" "solo destructor_step n (SP_Loop # fs, thread_busy [b]) m = (Go (fs, thread_idle), m')"
    using loop_releases [OF assms] by blast
  then show ?thesis by (intro exI [of _ "Suc n"]) simp
qed

text \<open>The rest of \<open>delete blockToUnref->data; delete blockToUnref\<close>, when the destructor of \<open>prev_\<close> has to run the loop.\<close>

lemma prev_releases:
  assumes "m_blocks m b = None" "m_nodes m data = None"
    "p = 0 \<and> m' = m \<or> p \<noteq> 0 \<and> solo unref_step k p m = (Return (), m')"
  shows "\<exists>n \<le> 6 * k + 6. solo destructor_step n ([SP_Enter p, SP_Free_node data, SP_Free_block b], thread_idle)
    (not_yet_freed b blk data nd m) = (Go ([], thread_idle), m')"
proof -
  let ?late = "not_yet_freed b blk data nd" and ?frees = "[SP_Free_node data, SP_Free_block b]"
  have "\<exists>n \<le> 6 * k + 4. solo destructor_step n (SP_Enter p # ?frees, thread_idle) (?late m) = (Go (?frees, thread_idle), ?late m')
    \<and> m_blocks m' b = None \<and> m_nodes m' data = None"
    using assms(3)
  proof (elim disjE conjE)
    assume "p = 0" "m' = m"
    moreover have "solo destructor_step 4 (SP_Enter 0 # ?frees, thread_idle) (?late m) = (Go (?frees, thread_idle), ?late m)"
      by (simp add: numeral_nat)
    ultimately show ?thesis using assms(1,2) by (intro exI [of _ 4]) simp
  next
    assume p: "p \<noteq> 0" "solo unref_step k p m = (Return (), m')"
    note late = solo_not_yet_freed [OF p(2) assms(1,2), of blk nd]
    show ?thesis using enter_releases [OF p(1) conjunct1 [OF late], of ?frees] late by blast
  qed
  then obtain n where n: "n \<le> 6 * k + 4" "m_blocks m' b = None" "m_nodes m' data = None"
    "solo destructor_step n (SP_Enter p # ?frees, thread_idle) (?late m) = (Go (?frees, thread_idle), ?late m')" by blast
  have "solo destructor_step 2 (?frees, thread_idle) (?late m') = (Go ([], thread_idle), m')"
    using n(2,3) by (simp add: numeral_nat not_yet_freed_def fun_upd_idem)
  then have "solo destructor_step (n + 2) (SP_Enter p # ?frees, thread_idle) (?late m) = (Go ([], thread_idle), m')"
    unfolding solo_append [OF n(4)] .
  then show ?thesis using n(1) by (intro exI [of _ "n + 2"]) simp
qed

text \<open>
  A release that is not within a destructor, as in the assignments: here the destructor of \<open>prev_\<close> runs the loop
  itself, before the node and its block are freed.
\<close>

lemma assignment_releases:
  assumes "b \<noteq> 0" "solo unref_step k b m = (Return (), m')"
  shows "\<exists>n \<le> 6 * k + 4. solo destructor_step n ([SP_Unref b], thread_idle) m = (Go ([], thread_idle), m')"
proof -
  let ?run = "\<lambda>n. solo destructor_step n ([SP_Unref b], thread_idle) m"
  obtain k' where k': "k = Suc k'" using assms(2) by (cases k) simp_all
  obtain r m2 where u: "unref_step b m = (r, m2)" "r \<noteq> Crash" using assms(2) by (cases "unref_step b m"; cases "fst (unref_step b m)") (auto simp: k')
  then obtain prior m1 where sub: "ref_sub b 1 m = Some (prior, m1)" by (auto simp: unref_step_def split: option.splits)
  obtain blk where blk: "m_blocks m b = Some blk" "m_blocks m1 b = Some (blk\<lparr>cb_refs := cb_refs blk - 1\<rparr>)" "m_nodes m1 = m_nodes m"
    using ref_sub_blocks [OF sub] by auto
  have prior: "(ucast prior :: int32) \<noteq> 0" using u sub blk by (auto simp: unref_step_def)
  show ?thesis
  proof (cases "(ucast prior :: int32) = 1")
    case False
    with u sub blk prior have "m2 = m1" "r = Return ()" by (auto simp: unref_step_def)
    then have "m' = m1" using assms(2) u(1) by (simp add: k')
    moreover have "?run 1 = (Go ([], thread_idle), m1)" using sub prior False assms(1) by simp
    ultimately show ?thesis by (intro exI [of _ 1]) simp
  next
    case True
    show ?thesis
    proof (cases "cb_data blk = 0")
      case data: True
      with u sub blk True have "m2 = m1\<lparr>m_blocks := (m_blocks m1)(b := None)\<rparr>" "r = Return ()"
        by (auto simp: unref_step_def delete_both_def unref_entry_def Let_def)
      then have "m' = m1\<lparr>m_blocks := (m_blocks m1)(b := None)\<rparr>" using assms(2) u(1) by (simp add: k')
      moreover have "?run 3 = (Go ([], thread_idle), m1\<lparr>m_blocks := (m_blocks m1)(b := None)\<rparr>)"
        using sub True assms(1) data blk by (simp add: numeral_nat)
      ultimately show ?thesis by (intro exI [of _ 3]) simp
    next
      case data: False
      with u sub blk True obtain nd where nd: "m_nodes m (cb_data blk) = Some nd" "r = unref_entry (nd_prev nd)"
        "m2 = m1\<lparr>m_blocks := (m_blocks m1)(b := None), m_nodes := (m_nodes m1)(cb_data blk := None)\<rparr>"
        by (auto simp: unref_step_def delete_both_def Let_def split: option.splits)
      let ?late = "not_yet_freed b (blk\<lparr>cb_refs := cb_refs blk - 1\<rparr>) (cb_data blk) nd"
      let ?frees = "[SP_Free_node (cb_data blk), SP_Free_block b]"
      have m1: "m1 = ?late m2" using blk nd by (simp add: not_yet_freed_def fun_upd_idem)
      have none: "m_blocks m2 b = None" "m_nodes m2 (cb_data blk) = None" using nd(3) by simp_all
      have two: "?run 2 = (Go (SP_Enter (nd_prev nd) # ?frees, thread_idle), ?late m2)"
        using sub True assms(1) data blk nd(1) m1 by (simp add: numeral_nat)
      have "nd_prev nd = 0 \<and> m' = m2 \<or> nd_prev nd \<noteq> 0 \<and> solo unref_step k' (nd_prev nd) m2 = (Return (), m')"
        using assms(2) u(1) nd(2) by (auto simp: k' unref_entry_def split: if_splits)
      from prev_releases [OF none this] obtain n where n: "n \<le> 6 * k' + 6"
        "solo destructor_step n (SP_Enter (nd_prev nd) # ?frees, thread_idle) (?late m2) = (Go ([], thread_idle), m')" by blast
      then have "?run (2 + n) = (Go ([], thread_idle), m')" unfolding solo_append [OF two] by simp
      then show ?thesis using n(1) k' by (intro exI [of _ "2 + n"]) simp
    qed
  qed
qed

text \<open>
  Property C12. The destructor of \<open>SharedPtr\<close>, with its \<open>destructionQueue\<close>, its \<open>destructionInProgress\<close> and the destructors of
  \<open>prev_\<close> that it calls through \<open>delete\<close>, does what releasing the block and then the block of each deleted node in turn does,
  fails where that fails, and leaves the queue empty and the flag reset, as the next destructor of the thread has to
  find them. So does a release by an assignment, where the nested destructor runs the loop. However long the chain
  is, the queue never holds more than one block and no more than six calls are open.
\<close>

theorem destructor_releases:
  assumes "b \<noteq> 0" "call \<in> {SP_Enter b, SP_Unref b}"
  shows "(solo unref_step k b m = (Return (), m') \<longrightarrow>
      solo destructor_step (6 * k + 5) ([call], thread_idle) m = (Return thread_idle, m')) \<and>
    (solo unref_step k b m = (Crash, m') \<longrightarrow>
      fst (solo destructor_step (6 * k + 5) ([SP_Enter b], thread_idle) m) = Crash) \<and>
    (solo destructor_step j ([call], thread_idle) m = (Go (fs, l), m'') \<longrightarrow> length (destructionQueue l) \<le> 1 \<and> length fs \<le> 6)"
proof (intro conjI impI)
  assume "solo unref_step k b m = (Return (), m')"
  then obtain n where "n \<le> 6 * k + 4" "solo destructor_step n ([call], thread_idle) m = (Go ([], thread_idle), m')"
    using enter_releases [OF assms(1), of k m m' "[]"] assignment_releases [OF assms(1)] assms(2) by blast
  then show "solo destructor_step (6 * k + 5) ([call], thread_idle) m = (Return thread_idle, m')"
    using solo_return [of n "([call], thread_idle)" m "thread_idle" m' "6 * k + 5"] by simp
next
  assume "solo unref_step k b m = (Crash, m')"
  then obtain m2 where "solo destructor_step (6 * k) ([SP_Loop], thread_busy [b]) m = (Crash, m2)"
    using loop_crashes [OF assms(1), of k m m' "[]"] by (metis prod.collapse)
  then have "solo destructor_step (Suc (6 * k)) ([SP_Enter b], thread_idle) m = (Crash, m2)" by simp
  then have "solo destructor_step (6 * k + 5) ([SP_Enter b], thread_idle) m = (Crash, m2)" by (rule solo_done) simp_all
  then show "fst (solo destructor_step (6 * k + 5) ([SP_Enter b], thread_idle) m) = Crash" by simp
next
  have ok: "calls_ok ([call], thread_idle)" using assms(2) calls_idle [of "[call]"] by auto
  assume "solo destructor_step j ([call], thread_idle) m = (Go (fs, l), m'')"
  from calls_bounded [OF ok this] show "length (destructionQueue l) \<le> 1" "length fs \<le> 6" by simp_all
qed

text \<open>A chain of two nodes that nothing else refers to: blocks 1 and 2 and the block 3 without data.\<close>

definition chain_example :: "nat mem" where
  "chain_example =
     \<lparr>m_packed = pack 9, m_blocks = [1 \<mapsto> \<lparr>cb_data = 16, cb_refs = 1\<rparr>, 2 \<mapsto> \<lparr>cb_data = 32, cb_refs = 1\<rparr>,
        3 \<mapsto> \<lparr>cb_data = 0, cb_refs = 1\<rparr>, 9 \<mapsto> \<lparr>cb_data = 0, cb_refs = 2\<rparr>],
      m_nodes = [16 \<mapsto> \<lparr>nd_prev = 2, nd_data = 7\<rparr>, 32 \<mapsto> \<lparr>nd_prev = 3, nd_data = 8\<rparr>]\<rparr>"

lemma destructor_releases_witness:
  "\<exists>m'. solo destructor_step 23 ([SP_Enter 1], thread_idle) chain_example = (Return thread_idle, m') \<and>
     solo destructor_step 23 ([SP_Unref 1], thread_idle) chain_example = (Return thread_idle, m') \<and>
     m_blocks m' 2 = None \<and> m_nodes m' 32 = None"
proof -
  have "fst (solo unref_step 3 1 chain_example) = Return ()" "m_blocks (snd (solo unref_step 3 1 chain_example)) 2 = None"
    "m_nodes (snd (solo unref_step 3 1 chain_example)) 32 = None" by code_simp+
  then obtain m' where m': "solo unref_step 3 1 chain_example = (Return (), m')" "m_blocks m' 2 = None" "m_nodes m' 32 = None"
    by (cases "solo unref_step 3 1 chain_example") auto
  have "solo destructor_step 23 ([call], thread_idle) chain_example = (Return thread_idle, m')"
    if "call \<in> {SP_Enter 1, SP_Unref 1}" for call
    using destructor_releases [OF _ that, of 3 chain_example m'] m'(1) by simp
  with m' show ?thesis by blast
qed

end
