(* ===== verification/Shared_Ptr_Limits.thy ===== *)
theory Shared_Ptr_Limits
  imports Shared_Ptr_Steps Shared_Ptr_Destructor
begin

text \<open>
  Operations of \<open>SharedPtr\<close> and \<open>FastSharedPtr\<close> apart from the stack: the copy assignment, and what happens once more than 1000 readers share a local count.
\<close>

section \<open>The copy assignment\<close>

text \<open>
  The copy assignment of \<open>SharedPtr\<close> moves a share: undisturbed, and unless it releases the last share of
  the old block, it adds one to the count of the new block, takes one from the old one, and frees nothing; assigning
  a pointer to itself changes no count, even if it is the only one.
\<close>

theorem copy_assign_shares:
  assumes "old \<noteq> 0" "b \<noteq> 0" "0 < rc m b" "rc m b + 1 < 2 ^ 31" "rc m old < 2 ^ 31" "1 < rc m old \<or> old = b"
  shows "\<exists>m'. copy_assign_entry old b = Go (A_Copy old b) \<and> solo copy_assign_step 2 (A_Copy old b) m = (Return b, m') \<and>
    vis m' = vis m \<and> m_packed m' = m_packed m \<and>
    (\<forall>c. rc m' c + (if c = old then 1 else 0) = rc m c + (if c = b then 1 else 0))"
proof -
  have lim: "rc m b + unat (1::size_t) < 2 ^ 64" using assms(4) by simp
  obtain prior m1 where add: "ref_add b 1 m = Some (prior, m1)" "unat prior = rc m b" "vis m1 = vis m"
    "m_packed m1 = m_packed m" "rc m1 = (rc m)(b := rc m b + unat (1::size_t))" by (rule ref_add_ok [OF assms(3) lim])
  have "(ucast prior :: int32) \<noteq> 0" using int32_prior(1) [of prior] add(2) assms(3,4) by simp
  then have copy: "copy_assign_step (A_Copy old b) m = (Go (A_Unref b old), m1)"
    using add(1) assms(1) by (simp add: copy_step_def unref_entry_def)
  have two: "1 < rc m1 old" "rc m1 old < 2 ^ 31" using add(5) assms by auto
  then have "0 < rc m1 old" "unat (1::size_t) \<le> rc m1 old" by simp_all
  then obtain prior' m2 where sub: "ref_sub old 1 m1 = Some (prior', m2)" "unat prior' = rc m1 old" "vis m2 = vis m1"
    "m_packed m2 = m_packed m1" "rc m2 = (rc m1)(old := rc m1 old - unat (1::size_t))" by (rule ref_sub_ok)
  have p: "(ucast prior' :: int32) \<noteq> 0" "(ucast prior' :: int32) \<noteq> 1"
    using int32_prior [of prior'] sub(2) two by simp_all
  obtain blk where "m_blocks m1 old = Some blk" using two(1) by (auto simp: rc_def split: option.splits)
  then have "unref_step old m1 = (Return (), m2)" using sub(1) p by (simp add: unref_step_def Let_def)
  then have "solo copy_assign_step 2 (A_Copy old b) m = (Return b, m2)" using copy by (simp add: numeral_2_eq_2)
  moreover have "copy_assign_entry old b = Go (A_Copy old b)" using assms(2) by (simp add: copy_assign_entry_def copy_entry_def)
  moreover have "rc m2 c + (if c = old then 1 else 0) = rc m c + (if c = b then 1 else 0)" for c
    using add(5) sub(5) two(1) by auto
  ultimately show ?thesis using sub(3,4) add(3,4) by auto
qed

section \<open>More than 1000 readers\<close>

text \<open>
  Shares given back one after the other, each by a \<open>SharedPtr\<close> (\<open>unref\<close>) or by that of a \<open>FastSharedPtr\<close>; \<open>None\<close> if a release
  crashes or frees the node and goes on to another block.
\<close>

datatype release = By_SharedPtr | By_FastSharedPtr fast

fun release_step :: "release \<Rightarrow> addr \<Rightarrow> 'a mem \<Rightarrow> 'a mem option" where
  "release_step By_SharedPtr b m = (case solo unref_step 1 b m of (Return _, m) \<Rightarrow> Some m | _ \<Rightarrow> None)"
| "release_step (By_FastSharedPtr f) b m =
     (case destroy_entry f of
        Go p \<Rightarrow> (case solo (destroy_step False) 2 p m of (Return _, m) \<Rightarrow> Some m | _ \<Rightarrow> None)
      | _ \<Rightarrow> Some m)"

fun release_all :: "release list \<Rightarrow> addr \<Rightarrow> 'a mem \<Rightarrow> 'a mem option" where
  "release_all [] b m = Some m"
| "release_all (r # rs) b m = (case release_step r b m of None \<Rightarrow> None | Some m \<Rightarrow> release_all rs b m)"

text \<open>
  A share of the block \<open>b\<close>. A \<open>FastSharedPtr\<close> that owns one knows a packed word with a local count of at least 1, its own.
\<close>

fun shares_block :: "addr \<Rightarrow> release \<Rightarrow> bool" where
  "shares_block b By_SharedPtr = True"
| "shares_block b (By_FastSharedPtr f) \<longleftrightarrow> fs_foreign f \<and> packed_ptr (fs_known f) = b \<and> packed_cnt (fs_known f) \<noteq> 0"

lemma give_back_one:
  assumes "shares_block b r" "mcnt m = 0" "mhead m = b" "1 < rc m b" "rc m b < 2 ^ 32"
  shows "\<exists>m'. release_step r b m = Some m' \<and> vis m' = vis m \<and> m_packed m' = m_packed m \<and> rc m' b = rc m b - 1"
proof -
  have "0 < rc m b" "unat (1::size_t) \<le> rc m b" using assms(4) by simp_all
  then obtain prior m' where sub: "ref_sub b 1 m = Some (prior, m')" "unat prior = rc m b" "vis m' = vis m"
    "m_packed m' = m_packed m" "rc m' = (rc m)(b := rc m b - unat (1::size_t))" by (rule ref_sub_ok)
  obtain blk where blk: "m_blocks m b = Some blk" using assms(4) by (auto simp: rc_def split: option.splits)
  have "unat (ucast prior :: int32) = rc m b"
    using sub(2) assms(5) by (simp add: unsigned_ucast_eq take_bit_nat_eq_self)
  then have "(ucast prior :: int32) \<noteq> 0" "(ucast prior :: int32) \<noteq> 1" using assms(4) by (auto simp: word_unat_eq_iff)
  then have unref: "solo unref_step 1 b m = (Return (), m')" using sub(1) blk by (simp add: unref_step_def)
  show ?thesis
  proof (cases r)
    case By_SharedPtr
    then show ?thesis using unref sub by (simp del: solo.simps)
  next
    case (By_FastSharedPtr f)
    then have f: "fs_foreign f" "packed_ptr (fs_known f) = b" "packed_cnt (fs_known f) \<noteq> 0" using assms(1) by simp_all
    have zero: "packed_cnt (m_packed m) = 0" using assms(2) by (simp add: unat_eq_0)
    then have "m_packed m \<noteq> fs_known f" using f(3) by auto
    moreover have "prior \<noteq> 1" using sub(2) assms(4) by auto
    ultimately have "solo (destroy_step False) 2 (X_Cas f (fs_known f)) m = (Return (), m')"
      using f zero sub(1) by (simp add: numeral_2_eq_2 Let_def)
    then show ?thesis using By_FastSharedPtr f(1) sub by (simp add: destroy_entry_def del: solo.simps)
  qed
qed

lemma give_back_all:
  assumes "\<forall>r\<in>set rs. shares_block b r" "mcnt m = 0" "mhead m = b" "length rs < rc m b" "rc m b < 2 ^ 32"
  shows "\<exists>m'. release_all rs b m = Some m' \<and> vis m' = vis m \<and> rc m' b = rc m b - length rs"
  using assms
proof (induction rs arbitrary: m)
  case (Cons r rs)
  then obtain m1 where m1: "release_step r b m = Some m1" "vis m1 = vis m" "m_packed m1 = m_packed m" "rc m1 b = rc m b - 1"
    using give_back_one [of b r m] by auto
  then show ?case using Cons.IH [of m1] Cons.prems by auto
qed simp

text \<open>
  Property C13. The constructor of \<open>FastSharedPtr\<close> makes a share that nobody gives back when it finds more than 1000 readers: undisturbed,
  it moves all local shares into \<open>refCount\<close>, its own among them, and makes itself a pointer that gives back nothing when it
  is destroyed. If then every share that there was before is given back, by \<open>SharedPtr\<close> or by \<open>FastSharedPtr\<close> and in any order,
  each release returns, and the count is 1 and the block still allocated when nobody has a share any more.
\<close>

theorem fast_many_readers_leak:
  assumes "1000 \<le> mcnt m" "mcnt m < 65535" "0 < rc m (mhead m)" "rc m (mhead m) < 2 ^ 31"
  shows "\<exists>f m'. solo fast_step 4 F_Add m = (Return f, m') \<and> destroy_entry f = Return () \<and>
    mhead m' = mhead m \<and> mcnt m' = 0 \<and> vis m' = vis m \<and>
    rc m' (mhead m) = rc m (mhead m) + mcnt m + 1 \<and>
    (\<forall>rs. (\<forall>r\<in>set rs. shares_block (mhead m) r) \<and> length rs = rc m (mhead m) + mcnt m \<longrightarrow>
      (\<exists>m''. release_all rs (mhead m) m' = Some m'' \<and> rc m'' (mhead m) = 1 \<and> vis m'' = vis m))"
proof -
  let ?k = "m_packed m + 1" and ?b = "mhead m"
  let ?m1 = "m\<lparr>m_packed := ?k\<rparr>"
  have k: "packed_ptr ?k = ?b" "cnt ?k = Suc (mcnt m)" using packed_Suc [of "m_packed m"] assms(2) by simp_all
  have many: "packed_cnt ?k > 1000" using k(2) assms(1) by (simp add: word_less_nat_alt)
  have rc1: "rc ?m1 ?b = rc m ?b" "vis ?m1 = vis m" by simp_all
  have pos: "0 < rc ?m1 ?b" using assms(3) by simp
  have lim: "rc ?m1 ?b + cnt ?k < 2 ^ 64" using assms(2,4) k(2) by simp
  obtain prior m2 where add: "ref_add ?b (packed_cnt ?k) ?m1 = Some (prior, m2)" "unat prior = rc ?m1 ?b" "vis m2 = vis ?m1"
    "m_packed m2 = m_packed ?m1" "rc m2 = (rc ?m1)(?b := rc ?m1 ?b + cnt ?k)" by (rule ref_add_ok [OF pos lim])
  obtain blk where blk: "m_blocks ?m1 ?b = Some blk" using pos by (auto simp: rc_def split: option.splits)
  let ?f = "\<lparr>fs_known = ?k, fs_foreign = True, fs_data = cb_data blk\<rparr>"
  let ?m3 = "m2\<lparr>m_packed := ?k - packed_cnt ?k\<rparr>"
  have "fast_step F_Add m = (Go (F_Data ?k), ?m1)" by (simp add: Let_def)
  moreover have "fast_step (F_Data ?k) ?m1 = (Go (F_RefAdd ?f ?b), ?m1)" using blk k(1) many by (simp add: fast_loop_def)
  moreover have "fast_step (F_RefAdd ?f ?b) ?m1 = (Go (F_Cas ?f ?b), m2)" using add(1) by simp
  moreover have "fast_step (F_Cas ?f ?b) m2 = (Return (?f\<lparr>fs_foreign := False\<rparr>), ?m3)" using add(4) by (simp add: Let_def)
  ultimately have "solo fast_step (Suc (Suc (Suc (Suc 0)))) F_Add m = (Return (?f\<lparr>fs_foreign := False\<rparr>), ?m3)"
    by (simp only: solo.simps prod.case sub.case)
  moreover have "(4::nat) = Suc (Suc (Suc (Suc 0)))" by simp
  ultimately have run: "solo fast_step 4 F_Add m = (Return (?f\<lparr>fs_foreign := False\<rparr>), ?m3)" by metis
  have "unat (?k - packed_cnt ?k) = unat ?k - cnt ?k"
    by (rule unat_sub) (simp add: word_le_nat_alt unat_packed_cnt)
  then have "unat (?k - packed_cnt ?k) = 65536 * (unat ?k div 65536)"
    by (simp only: unat_packed_cnt minus_mod_eq_mult_div)
  then have "packed_ptr (?k - packed_cnt ?k) = packed_ptr ?k" "cnt (?k - packed_cnt ?k) = 0"
    by (simp_all only: word_unat_eq_iff unat_packed_ptr unat_packed_cnt) simp_all
  then have head3: "mhead ?m3 = ?b" and cnt3: "mcnt ?m3 = 0" using k(1) by simp_all
  moreover have rc3: "rc ?m3 ?b = rc m ?b + mcnt m + 1" using add(5) k(2) by simp
  moreover have vis3: "vis ?m3 = vis m" using add(3) by simp
  moreover have "\<exists>m''. release_all rs ?b ?m3 = Some m'' \<and> rc m'' ?b = 1 \<and> vis m'' = vis m"
    if "\<forall>r\<in>set rs. shares_block ?b r" "length rs = rc m ?b + mcnt m" for rs
    using give_back_all [OF that(1) cnt3 head3] that(2) rc3 vis3 assms(2,4) by auto
  ultimately show ?thesis using run by (intro exI [of _ "?f\<lparr>fs_foreign := False\<rparr>"] exI [of _ ?m3]) (simp add: destroy_entry_def)
qed

text \<open>
  It corrupts the head when the exchange fails because another thread moved the local shares first:
  the failed exchange overwrites \<open>knownValue\<close> with a packed pointer whose local count is 0, and the destructor then takes
  one from it, which borrows from the address of the control block.
\<close>

theorem fast_many_readers_corrupt:
  assumes "m_packed m \<noteq> fs_known f" "packed_cnt (m_packed m) = 0" "mhead m = block" "packed_ptr (fs_known f) = block"
    and "fs_foreign f" "block \<noteq> 0" "rc m block < 2 ^ 31" "cnt (fs_known f) < rc m block"
  shows "\<exists>g m'. solo fast_step 2 (F_Cas f block) m = (Return g, m') \<and> fs_known g = m_packed m \<and>
    destroy_entry g = Go (X_Cas g (m_packed m)) \<and>
    fst (destroy_step False (X_Cas g (m_packed m)) m') = Return () \<and>
    mhead (snd (destroy_step False (X_Cas g (m_packed m)) m')) = block - 1"
proof -
  let ?g = "f\<lparr>fs_known := m_packed m\<rparr>"
  have rc0: "0 < rc m block" "cnt (fs_known f) \<le> rc m block" using assms(8) by simp_all
  obtain prior m' where sub: "ref_sub block (packed_cnt (fs_known f)) m = Some (prior, m')" "unat prior = rc m block"
    "vis m' = vis m" "m_packed m' = m_packed m" "rc m' = (rc m)(block := rc m block - cnt (fs_known f))"
    by (rule ref_sub_ok [OF rc0])
  have "fast_step (F_Cas f block) m = (Go (F_RefSub ?g block (packed_cnt (fs_known f))), m)"
    using assms(1) by (simp add: Let_def)
  moreover have "fast_step (F_RefSub ?g block (packed_cnt (fs_known f))) m = (Return ?g, m')"
    using sub(1) assms(2) by (simp add: fast_loop_def)
  ultimately have run: "solo fast_step 2 (F_Cas f block) m = (Return ?g, m')"
    by (simp only: solo.simps numeral_2_eq_2 prod.case sub.case)
  have u: "unat (m_packed m) mod 65536 = 0" "unat (m_packed m) div 65536 = unat block"
    using assms(2,3) by (simp_all flip: unat_packed_cnt unat_packed_ptr)
  have pos: "0 < unat block" using assms(6) by (simp add: unat_gt_0)
  have "m_packed m \<noteq> 0" using u(2) pos by auto
  then have "Suc (unat (m_packed m - 1)) = unat (m_packed m)" by (simp add: unat_minus_one unat_gt_0)
  moreover have "unat (m_packed m) = 65536 * unat block" using u by (metis mult_div_mod_eq add.right_neutral)
  ultimately have "unat (m_packed m - 1) = 65536 * (unat block - 1) + 65535" using pos by (cases "unat block") simp_all
  then have "unat (m_packed m - 1) div 65536 = unat block - 1" by simp
  moreover have "unat (block - 1) = unat block - 1" using assms(6) by (simp add: unat_minus_one)
  ultimately have "packed_ptr (m_packed m - 1) = block - 1" by (simp add: word_unat_eq_iff unat_packed_ptr)
  then have "mhead (snd (destroy_step False (X_Cas ?g (m_packed m)) m')) = block - 1"
    "fst (destroy_step False (X_Cas ?g (m_packed m)) m') = Return ()" using sub(4) by simp_all
  then show ?thesis using run assms(5) by (intro exI [of _ ?g] exI [of _ m']) (simp add: destroy_entry_def del: destroy_step.simps)
qed

section \<open>Concrete inputs\<close>

lemma copy_assign_shares_witness:
  "\<exists>m'. solo copy_assign_step 2 (A_Copy 9 1) chain_example = (Return 1, m') \<and> rc m' 1 = 2 \<and> rc m' 9 = 1"
proof -
  have r: "rc chain_example 1 = 1" "rc chain_example 9 = 2" by code_simp+
  obtain m' where m': "solo copy_assign_step 2 (A_Copy 9 1) chain_example = (Return 1, m')"
    "\<forall>c. rc m' c + (if c = 9 then 1 else 0) = rc chain_example c + (if c = 1 then 1 else 0)"
    using copy_assign_shares [of 9 1 chain_example] r by auto
  have "rc m' 1 = 2" "rc m' 9 = 1" using m'(2) [rule_format, of 1] m'(2) [rule_format, of 9] r by simp_all
  with m'(1) show ?thesis by blast
qed

definition readers_example :: "nat \<Rightarrow> nat mem" where
  "readers_example k =
     \<lparr>m_packed = pack 64 + word_of_nat k, m_blocks = [64 \<mapsto> \<lparr>cb_data = 0, cb_refs = 2000\<rparr>], m_nodes = Map.empty\<rparr>"

text \<open>2000 shares in \<open>refCount\<close> and 1000 local ones, given back in this order.\<close>

definition releases_example :: "release list" where
  "releases_example =
     replicate 2000 By_SharedPtr @ replicate 1000 (By_FastSharedPtr \<lparr>fs_known = pack 64 + 1, fs_foreign = True, fs_data = 0\<rparr>)"

lemma fast_many_readers_leak_witness:
  "\<exists>f m' m''. solo fast_step 4 F_Add (readers_example 1000) = (Return f, m') \<and> destroy_entry f = Return () \<and> rc m' 64 = 3001 \<and>
     release_all releases_example 64 m' = Some m'' \<and> rc m'' 64 = 1"
proof -
  have h: "mhead (readers_example 1000) = 64" "mcnt (readers_example 1000) = 1000" "rc (readers_example 1000) 64 = 2000"
    by (simp_all add: readers_example_def packed_ptr_def packed_cnt_def pack_def kMagicLen_def kMagicMask_def rc_def)
  obtain f m' where m': "solo fast_step 4 F_Add (readers_example 1000) = (Return f, m')" "destroy_entry f = Return ()" "rc m' 64 = 3001"
    "\<forall>rs. (\<forall>r\<in>set rs. shares_block 64 r) \<and> length rs = 2000 + 1000 \<longrightarrow>
      (\<exists>m''. release_all rs 64 m' = Some m'' \<and> rc m'' 64 = 1 \<and> vis m'' = vis (readers_example 1000))"
    using fast_many_readers_leak [of "readers_example 1000"] h by auto
  have "\<forall>r\<in>set releases_example. shares_block 64 r" "length releases_example = 2000 + 1000"
    by (auto simp: releases_example_def packed_ptr_def packed_cnt_def pack_def kMagicLen_def kMagicMask_def)
  with m' show ?thesis by blast
qed

lemma fast_many_readers_corrupt_witness:
  "\<exists>g m'. solo fast_step 2 (F_Cas \<lparr>fs_known = pack 64 + 1001, fs_foreign = True, fs_data = 0\<rparr> 64) (readers_example 0) = (Return g, m') \<and>
     mhead (snd (destroy_step False (X_Cas g (fs_known g)) m')) = 63"
proof -
  let ?f = "\<lparr>fs_known = pack 64 + 1001, fs_foreign = True, fs_data = 0\<rparr>"
  have h: "mhead (readers_example 0) = 64" "packed_cnt (m_packed (readers_example 0)) = 0" "rc (readers_example 0) 64 = 2000"
    "packed_ptr (fs_known ?f) = 64" "cnt (fs_known ?f) = 1001" "m_packed (readers_example 0) \<noteq> fs_known ?f"
    by (simp_all add: readers_example_def packed_ptr_def packed_cnt_def pack_def kMagicLen_def kMagicMask_def rc_def)
  have "\<exists>g m'. solo fast_step 2 (F_Cas ?f 64) (readers_example 0) = (Return g, m') \<and> fs_known g = m_packed (readers_example 0) \<and>
    destroy_entry g = Go (X_Cas g (m_packed (readers_example 0))) \<and>
    fst (destroy_step False (X_Cas g (m_packed (readers_example 0))) m') = Return () \<and>
    mhead (snd (destroy_step False (X_Cas g (m_packed (readers_example 0))) m')) = 64 - 1"
    by (rule fast_many_readers_corrupt) (use h in simp_all)
  then show ?thesis by (auto simp del: destroy_step.simps)
qed

end
