(* ===== verification/Atomic_Store.thy ===== *)
theory Atomic_Store
  imports Shared_Ptr_Counts
begin

text \<open>
  The rest of atomic_shared_ptr.h: the constructors and accessors of \<open>SharedPtr\<close>, and both overloads of
  \<open>AtomicSharedPtr::store\<close>, with what an undisturbed call of them does.
\<close>

section \<open>SharedPtr\<close>

text \<open>The default constructor, the one from a pointer (which allocates a control block at \<open>ba\<close>) and the one from a block.\<close>

definition SharedPtr_null :: addr where
  "SharedPtr_null = 0"

definition ControlBlock_new :: "addr \<Rightarrow> cblock" where
  "ControlBlock_new data = \<lparr>cb_data = data, cb_refs = 1\<rparr>"

definition SharedPtr_new :: "addr \<Rightarrow> addr \<Rightarrow> 'a mem \<Rightarrow> addr \<times> 'a mem" where
  "SharedPtr_new ba data m = (ba, m\<lparr>m_blocks := (m_blocks m)(ba \<mapsto> ControlBlock_new data)\<rparr>)"

definition SharedPtr_of_block :: "addr \<Rightarrow> addr" where
  "SharedPtr_of_block block = block"

text \<open>The move constructor: the new pointer and what is left in the other.\<close>

definition SharedPtr_move :: "addr \<Rightarrow> addr \<times> addr" where
  "SharedPtr_move other = (other, 0)"

text \<open>The access operator dereferences the control block without a test.\<close>

definition SharedPtr_arrow :: "addr \<Rightarrow> 'a mem \<Rightarrow> addr option" where
  "SharedPtr_arrow b m = map_option cb_data (m_blocks m b)"

definition getFast_entry :: fast_pc where
  "getFast_entry = F_Add"

definition fast_get :: "fast \<Rightarrow> addr" where
  "fast_get f = fs_data f"

section \<open>AtomicSharedPtr::store\<close>

text \<open>
  The loop of \<open>store(SharedPtr&&)\<close>: \<open>holder\<close> lives in the body of the loop, so that it is destroyed before the next
  round and before the return. The result is what is left in the argument.
\<close>

datatype store_pc =
    T_Fast addr fast_pc
  | T_Cas fast cas_args cas_pc
  | T_Destroy bool addr destroy_pc

definition store_entry :: "addr \<Rightarrow> store_pc" where
  "store_entry data = T_Fast data getFast_entry"

definition store_next :: "bool \<Rightarrow> addr \<Rightarrow> (store_pc, addr) sub" where
  "store_next ok data = (if ok then Return data else Go (store_entry data))"

definition store_scope :: "fast \<Rightarrow> addr \<Rightarrow> bool \<Rightarrow> (store_pc, addr) sub" where
  "store_scope holder data ok = bind_sub (T_Destroy ok data) (\<lambda>_. store_next ok data) (destroy_entry holder)"

fun store_step :: "bool \<Rightarrow> store_pc \<Rightarrow> 'a mem \<Rightarrow> (store_pc, addr) sub \<times> 'a mem" where
  "store_step weak (T_Fast data p) m =
     (case fast_step p m of (r, m) \<Rightarrow>
        (bind_sub (T_Fast data) (\<lambda>holder. Go (T_Cas holder \<lparr>cx_expected = fast_get holder, cx_newOne = data\<rparr> K_Same)) r, m))"
| "store_step weak (T_Cas holder a p) m =
     (case cas_step weak a p m of (r, a, m) \<Rightarrow> (bind_sub (T_Cas holder a) (store_scope holder (cx_newOne a)) r, m))"
| "store_step weak (T_Destroy ok data p) m =
     (case destroy_step weak p m of (r, m) \<Rightarrow> (bind_sub (T_Destroy ok data) (\<lambda>_. store_next ok data) r, m))"

text \<open>\<open>store(T*)\<close>: the temporary \<open>SharedPtr\<close> of the new control block is stored and then destroyed.\<close>

datatype store_raw_pc = W_Store store_pc | W_Dtor addr

definition store_raw_entry :: "addr \<Rightarrow> addr \<Rightarrow> 'a mem \<Rightarrow> store_raw_pc \<times> 'a mem" where
  "store_raw_entry ba data m = (case SharedPtr_new ba data m of (temp, m) \<Rightarrow> (W_Store (store_entry temp), m))"

fun store_raw_step :: "bool \<Rightarrow> store_raw_pc \<Rightarrow> 'a mem \<Rightarrow> (store_raw_pc, unit) sub \<times> 'a mem" where
  "store_raw_step weak (W_Store p) m =
     (case store_step weak p m of (r, m) \<Rightarrow> (bind_sub W_Store (\<lambda>temp. bind_sub W_Dtor Return (unref_entry temp)) r, m))"
| "store_raw_step weak (W_Dtor b) m = (case unref_step b m of (r, m) \<Rightarrow> (bind_sub W_Dtor Return r, m))"

section \<open>An undisturbed store\<close>

lemma pack_counts:
  assumes "b < 2 ^ 48"
  defines "w \<equiv> pack b"
  shows "packed_ptr w = b" "packed_cnt w = 0" "packed_ptr (w + 1) = b" "packed_cnt (w + 1) = 1"
    "packed_ptr (w + 2) = b" "packed_cnt (w + 2) = 2" "(w + 2) AND NOT kMagicMask = w"
proof -
  note p = packed_pack [OF assms(1), folded w_def]
  show "packed_ptr w = b" "packed_cnt w = 0" by (rule p)+
  have one: "packed_ptr (w + 1) = b" "cnt (w + 1) = 1" using packed_Suc [of w] p by simp_all
  then have two: "packed_ptr (w + 1 + 1) = b" "cnt (w + 1 + 1) = 2" using packed_Suc [of "w + 1"] by simp_all
  moreover have s: "w + 1 + 1 = w + 2" by simp
  ultimately show "packed_ptr (w + 1) = b" "packed_ptr (w + 2) = b" using one by simp_all
  show "packed_cnt (w + 1) = 1" using one(2) by (simp add: word_unat_eq_iff)
  show "packed_cnt (w + 2) = 2" using two(2) unfolding s by (simp add: word_unat_eq_iff)
  show "(w + 2) AND NOT kMagicMask = w"
    using packed_clear [of "w + 2"] two(1) p unfolding s by (auto intro: packed_eqI)
qed

lemma solo_go: "step p m = (Go q, m1) \<Longrightarrow> solo step (Suc k) p m = solo step k q m1"
  by simp

lemma solo_end: "step p m = (Return r, m1) \<Longrightarrow> solo step (Suc k) p m = (Return r, m1)"
  by simp

text \<open>The memory with a packed word and a count of the block \<open>b\<close> replaced.\<close>

definition with_head :: "addr \<Rightarrow> addr \<Rightarrow> 'a mem \<Rightarrow> size_t \<Rightarrow> size_t \<Rightarrow> 'a mem" where
  "with_head b d m w r = m\<lparr>m_packed := w, m_blocks := (m_blocks m)(b \<mapsto> \<lparr>cb_data = d, cb_refs = r\<rparr>)\<rparr>"

lemma with_head_simps:
  "m_packed (with_head b d m w r) = w" "m_blocks (with_head b d m w r) b = Some \<lparr>cb_data = d, cb_refs = r\<rparr>"
  "c \<noteq> b \<Longrightarrow> m_blocks (with_head b d m w r) c = m_blocks m c"
  "(with_head b d m w r)\<lparr>m_packed := w'\<rparr> = with_head b d m w' r"
  "ref_add b k (with_head b d m w r) = Some (r, with_head b d m w (r + k))"
  "ref_sub b k (with_head b d m w r) = Some (r, with_head b d m w (r - k))"
  by (simp_all add: with_head_def ref_add_def ref_sub_def)

lemma with_head_self: "m_packed m = w \<Longrightarrow> m_blocks m b = Some \<lparr>cb_data = d, cb_refs = r\<rparr> \<Longrightarrow> with_head b d m w r = m"
  unfolding with_head_def by (cases m) (auto simp: fun_upd_idem)

text \<open>
  The accesses of a store over a block with \<open>r\<close> shares: two readers of its own, an attempt that finds their local shares, moves them
  to the count and clears them, a second round that adds and takes them again, the exchange, and three shares to give back.
\<close>

lemma store_run:
  fixes m :: "'a mem"
  assumes b: "b < 2 ^ 48" and c: "c < 2 ^ 48" "c \<noteq> b" and d: "SharedPtr_get c m = Some d'" "d' \<noteq> d"
    and r: "0 < unat r" "unat r < 2 ^ 31"
  defines "M \<equiv> with_head b d m"
  shows "solo (store_step False) (16 + k) (store_entry c) (M (pack b) r) =
    solo (store_step False) k (T_Destroy True 0 (X_Sub \<lparr>fs_known = pack b + 1, fs_foreign = True, fs_data = d\<rparr>)) (M (pack c) r)"
proof -
  let ?w = "pack b"
  let ?h1 = "\<lparr>fs_known = ?w + 1, fs_foreign = True, fs_data = d\<rparr>" and ?h2 = "\<lparr>fs_known = ?w + 2, fs_foreign = True, fs_data = d\<rparr>"
  let ?a = "\<lparr>cx_expected = d, cx_newOne = c\<rparr>"
  note w = pack_counts [OF b] and pc = packed_pack(1) [OF c(1)]
  note M = with_head_simps [where b = b and d = d and m = m, folded M_def]
  have ne: "?w + 2 \<noteq> ?w" "?w \<noteq> ?w + 2" by simp_all
  have nc: "pack c \<noteq> ?w + 2" "pack c \<noteq> ?w + 1" using pc w(3,5) c(2) by auto
  have lr: "unat (r + 2) = unat r + 2" "unat (r + 1) = unat r + 1" using r(2) by (simp_all add: unat_word_ariths)
  have rs: "r + 2 \<noteq> 0" "r + 2 \<noteq> 1" "r + 1 \<noteq> 1" using lr r(1) by (auto simp: word_unat_eq_iff)
  have getc: "SharedPtr_get c (M x y) = Some d'" for x y using d(1) M(3) [OF c(2)] by (simp only: SharedPtr_get_def)
  have x1: "store_step False (store_entry c) (M ?w r) = (Go (T_Fast c (F_Data (?w + 1))), M (?w + 1) r)"
    by (simp add: store_entry_def getFast_entry_def M Let_def)
  have x2: "store_step False (T_Fast c (F_Data (?w + 1))) (M (?w + 1) r) = (Go (T_Cas ?h1 ?a K_Same), M (?w + 1) r)"
    using w by (simp add: M fast_loop_def fast_get_def)
  have x3: "store_step False (T_Cas ?h1 ?a K_Same) (M (?w + 1) r) = (Go (T_Cas ?h1 ?a (K_Fast F_Add)), M (?w + 1) r)"
    using d(2) by (simp add: getc)
  have x4: "store_step False (T_Cas ?h1 ?a (K_Fast F_Add)) (M (?w + 1) r) = (Go (T_Cas ?h1 ?a (K_Fast (F_Data (?w + 2)))), M (?w + 2) r)"
    by (simp add: M Let_def add.assoc)
  have x5: "store_step False (T_Cas ?h1 ?a (K_Fast (F_Data (?w + 2)))) (M (?w + 2) r) = (Go (T_Cas ?h1 ?a (K_Swap ?h2 ?w)), M (?w + 2) r)"
    using w by (simp add: M fast_loop_def cas_enter_def cas_loop_def)
  have x6: "store_step False (T_Cas ?h1 ?a (K_Swap ?h2 ?w)) (M (?w + 2) r) = (Go (T_Cas ?h1 ?a (K_RefAdd ?h2 (?w + 2))), M (?w + 2) r)"
    using w pc c(2) ne by (simp add: M cas_loop_def)
  have x7: "store_step False (T_Cas ?h1 ?a (K_RefAdd ?h2 (?w + 2))) (M x y) = (Go (T_Cas ?h1 ?a (K_Clear ?h2 (?w + 2))), M x (y + 2))" for x y
    using w by (simp add: M)
  have x8: "store_step False (T_Cas ?h1 ?a (K_Clear ?h2 (?w + 2))) (M (?w + 2) (r + 2)) =
      (Go (T_Cas ?h1 ?a (K_RefAdd ?h2 (?w + 2))), M ?w (r + 2))"
    using w by (simp add: M cas_loop_def)
  have x10: "store_step False (T_Cas ?h1 ?a (K_Clear ?h2 (?w + 2))) (M ?w (r + 2 + 2)) =
      (Go (T_Cas ?h1 ?a (K_RefSub ?h2 ?w 2)), M ?w (r + 2 + 2))"
    using w ne by (simp add: M)
  have x11: "store_step False (T_Cas ?h1 ?a (K_RefSub ?h2 ?w 2)) (M ?w (r + 2 + 2)) = (Go (T_Cas ?h1 ?a (K_Swap ?h2 ?w)), M ?w (r + 2))"
    using w by (simp add: M cas_loop_def add.commute)
  have x12: "store_step False (T_Cas ?h1 ?a (K_Swap ?h2 ?w)) (M ?w (r + 2)) = (Go (T_Cas ?h1 (?a\<lparr>cx_newOne := 0\<rparr>) (K_Old ?h2 ?w)), M (pack c) (r + 2))"
    using w pc c(2) by (simp add: M)
  have x13: "store_step False (T_Cas ?h1 (?a\<lparr>cx_newOne := 0\<rparr>) (K_Old ?h2 ?w)) (M (pack c) (r + 2)) =
      (Go (T_Cas ?h1 (?a\<lparr>cx_newOne := 0\<rparr>) (K_Destroy True (X_Cas ?h2 (?w + 2)))), M (pack c) (r + 1))"
    using w rs by (simp add: M destroyOldControlBlock_def cas_finish_def destroy_entry_def add.commute)
  have x14: "store_step False (T_Cas ?h1 (?a\<lparr>cx_newOne := 0\<rparr>) (K_Destroy True (X_Cas ?h2 (?w + 2)))) (M (pack c) (r + 1)) =
      (Go (T_Cas ?h1 (?a\<lparr>cx_newOne := 0\<rparr>) (K_Destroy True (X_Sub ?h2))), M (pack c) (r + 1))"
    using w pc nc c(2) by (simp add: M Let_def)
  have x15: "store_step False (T_Cas ?h1 (?a\<lparr>cx_newOne := 0\<rparr>) (K_Destroy True (X_Sub ?h2))) (M (pack c) (r + 1)) =
      (Go (T_Destroy True 0 (X_Cas ?h1 (?w + 1))), M (pack c) r)"
    using w rs by (simp add: M Let_def store_scope_def destroy_entry_def)
  have x16: "store_step False (T_Destroy True 0 (X_Cas ?h1 (?w + 1))) (M (pack c) r) = (Go (T_Destroy True 0 (X_Sub ?h1)), M (pack c) r)"
    using w pc nc c(2) by (simp add: M Let_def)
  have n: "16 + k = Suc (Suc (Suc (Suc (Suc (Suc (Suc (Suc (Suc (Suc (Suc (Suc (Suc (Suc (Suc (Suc k)))))))))))))))" by simp
  show ?thesis
    unfolding n solo_go [of "store_step False", OF x1] solo_go [of "store_step False", OF x2] solo_go [of "store_step False", OF x3]
      solo_go [of "store_step False", OF x4] solo_go [of "store_step False", OF x5] solo_go [of "store_step False", OF x6]
      solo_go [of "store_step False", OF x7] solo_go [of "store_step False", OF x8] solo_go [of "store_step False", OF x10]
      solo_go [of "store_step False", OF x11] solo_go [of "store_step False", OF x12] solo_go [of "store_step False", OF x13]
      solo_go [of "store_step False", OF x14] solo_go [of "store_step False", OF x15] solo_go [of "store_step False", OF x16]
    by (rule refl)
qed

text \<open>
  Property C10. An undisturbed \<open>store\<close> of a pointer to another object installs its control block and leaves null in the argument; it takes 17
  accesses. The block before it has lost exactly the share of the atomic pointer, and nothing else has changed; if that
  was the last share, its object and the block are deleted, and the block that the object refers to is the next to release.
\<close>

theorem store_installs:
  assumes "m_packed m = pack b" "m_blocks m b = Some \<lparr>cb_data = d, cb_refs = r\<rparr>" "b < 2 ^ 48" "0 < unat r" "unat r < 2 ^ 31"
    and "c < 2 ^ 48" "c \<noteq> b" "SharedPtr_get c m = Some d'" "d' \<noteq> d"
  defines "m1 \<equiv> m\<lparr>m_packed := pack c, m_blocks := (m_blocks m)(b \<mapsto> \<lparr>cb_data = d, cb_refs = r - 1\<rparr>)\<rparr>"
  shows "solo (store_step False) 17 (store_entry c) m =
    (if r \<noteq> 1 then (Return 0, m1)
     else (case delete_both d b m1 of None \<Rightarrow> (Crash, m1)
           | Some (p, m2) \<Rightarrow> (if p = 0 then Return 0 else Go (T_Destroy True 0 (X_Unref p)), m2)))"
proof -
  let ?h = "\<lparr>fs_known = pack b + 1, fs_foreign = True, fs_data = d\<rparr>"
  have m: "with_head b d m (pack b) r = m" by (rule with_head_self [OF assms(1,2)])
  have m1: "with_head b d m (pack c) (r - 1) = m1" by (simp add: with_head_def m1_def)
  have "solo (store_step False) (16 + 1) (store_entry c) m =
      solo (store_step False) 1 (T_Destroy True 0 (X_Sub ?h)) (with_head b d m (pack c) r)"
    using store_run [OF assms(3,6,7,8,9,4,5), of 1] unfolding m .
  moreover have "store_step False (T_Destroy True 0 (X_Sub ?h)) (with_head b d m (pack c) r) =
    (if r \<noteq> 1 then (Return 0, m1)
     else (case delete_both d b m1 of None \<Rightarrow> (Crash, m1)
           | Some (p, m2) \<Rightarrow> (if p = 0 then Return 0 else Go (T_Destroy True 0 (X_Unref p)), m2)))"
    using pack_counts(3) [OF assms(3)]
    by (auto simp: with_head_simps m1 Let_def store_next_def unref_entry_def split: option.split)
  ultimately show ?thesis by (auto split: option.split)
qed

lemma SharedPtr_get_packed [simp]: "SharedPtr_get c (m\<lparr>m_packed := w\<rparr>) = SharedPtr_get c m"
  by (simp add: SharedPtr_get_def)

text \<open>
  A store of a pointer to the object that is installed already does nothing and leaves the argument as it is.
\<close>

lemma store_same:
  assumes "m_packed m = pack b" "m_blocks m b = Some \<lparr>cb_data = d, cb_refs = r\<rparr>" "b < 2 ^ 48" "SharedPtr_get c m = Some d"
  shows "solo (store_step False) 4 (store_entry c) m = (Return c, m)"
proof -
  let ?h = "\<lparr>fs_known = pack b + 1, fs_foreign = True, fs_data = d\<rparr>" and ?m1 = "m\<lparr>m_packed := pack b + 1\<rparr>"
  note w = pack_counts [OF assms(3)]
  have x1: "store_step False (store_entry c) m = (Go (T_Fast c (F_Data (pack b + 1))), ?m1)"
    by (simp add: store_entry_def getFast_entry_def Let_def assms(1))
  have x2: "store_step False (T_Fast c (F_Data (pack b + 1))) ?m1 = (Go (T_Cas ?h \<lparr>cx_expected = d, cx_newOne = c\<rparr> K_Same), ?m1)"
    using w assms(2) by (simp add: fast_loop_def fast_get_def)
  have "SharedPtr_get c ?m1 = Some d" using assms(4) by simp
  then have x3: "store_step False (T_Cas ?h \<lparr>cx_expected = d, cx_newOne = c\<rparr> K_Same) ?m1 = (Go (T_Destroy True c (X_Cas ?h (pack b + 1))), ?m1)"
    by (simp add: store_scope_def destroy_entry_def)
  have "?m1\<lparr>m_packed := pack b\<rparr> = m" using assms(1) by simp
  then have x4: "store_step False (T_Destroy True c (X_Cas ?h (pack b + 1))) ?m1 = (Return c, m)" by (simp add: store_next_def)
  have "(4::nat) = Suc (Suc (Suc (Suc 0)))" by simp
  then show ?thesis
    by (simp only: solo_go [of "store_step False", OF x1] solo_go [of "store_step False", OF x2] solo_go [of "store_step False", OF x3]
        solo_end [of "store_step False", OF x4])
qed

text \<open>
  Property C11. \<open>store(SharedPtr&&)\<close> accepts an empty \<open>SharedPtr\<close> and then installs a null control block, which no operation expects:
  after it, \<open>get\<close> and \<open>getFast\<close> dereference null.
\<close>

theorem store_empty_crashes:
  assumes "m_packed m = pack b" "m_blocks m b = Some \<lparr>cb_data = d, cb_refs = r\<rparr>" "b < 2 ^ 48" "1 < unat r" "unat r < 2 ^ 31"
    and "b \<noteq> 0" "d \<noteq> 0" "m_blocks m 0 = None"
  shows "\<exists>m'. solo (store_step False) 17 (store_entry SharedPtr_null) m = (Return 0, m') \<and>
    fst (solo (get_step False) 2 G_Add m') = Crash \<and> fst (solo fast_step 2 F_Add m') = Crash"
proof -
  let ?m1 = "m\<lparr>m_packed := pack 0, m_blocks := (m_blocks m)(b \<mapsto> \<lparr>cb_data = d, cb_refs = r - 1\<rparr>)\<rparr>"
  have r: "0 < unat r" "r \<noteq> 1" using assms(4) by auto
  have "solo (store_step False) 17 (store_entry 0) m = (Return 0, ?m1)"
    using store_installs [OF assms(1-3) r(1) assms(5), of 0 0] assms(6,7) r(2) by (simp add: SharedPtr_get_def)
  moreover have n: "m_blocks ?m1 0 = None" using assms(6,8) by simp
  have "packed_ptr (pack 0) = 0" "packed_ptr (pack 0 + 1) = 0" using pack_counts(1,3) [of 0] by simp_all
  then have "fst (solo (get_step False) 2 G_Add ?m1) = Crash" "fst (solo fast_step 2 F_Add ?m1) = Crash"
    using n by (simp_all add: numeral_2_eq_2 ref_add_def Let_def)
  ultimately show ?thesis unfolding SharedPtr_null_def by blast
qed

section \<open>Concrete inputs\<close>

text \<open>The atomic pointer holds block 64, of which somebody else has a share; block 128 is to be stored.\<close>

definition store_example :: "nat mem" where
  "store_example =
     \<lparr>m_packed = pack 64, m_blocks = [64 \<mapsto> \<lparr>cb_data = 16, cb_refs = 2\<rparr>, 128 \<mapsto> \<lparr>cb_data = 32, cb_refs = 1\<rparr>],
      m_nodes = [16 \<mapsto> \<lparr>nd_prev = 0, nd_data = 7\<rparr>, 32 \<mapsto> \<lparr>nd_prev = 0, nd_data = 8\<rparr>]\<rparr>"

lemma store_installs_witness:
  "solo (store_step False) 17 (store_entry 128) store_example =
     (Return 0, store_example\<lparr>m_packed := pack 128, m_blocks := (m_blocks store_example)(64 \<mapsto> \<lparr>cb_data = 16, cb_refs = 1\<rparr>)\<rparr>)"
proof -
  have h: "m_packed store_example = pack 64" "m_blocks store_example 64 = Some \<lparr>cb_data = 16, cb_refs = 2\<rparr>"
    "SharedPtr_get 128 store_example = Some 32" by (simp_all add: store_example_def SharedPtr_get_def)
  show ?thesis using store_installs [OF h(1,2) _ _ _ _ _ h(3)] by simp
qed

lemma store_empty_crashes_witness:
  "\<exists>m'. solo (store_step False) 17 (store_entry SharedPtr_null) store_example = (Return 0, m') \<and>
     fst (solo (get_step False) 2 G_Add m') = Crash"
proof -
  have h: "m_packed store_example = pack 64" "m_blocks store_example 64 = Some \<lparr>cb_data = 16, cb_refs = 2\<rparr>"
    "m_blocks store_example 0 = None" by (simp_all add: store_example_def)
  show ?thesis using store_empty_crashes [OF h(1,2) _ _ _ _ _ h(3)] by auto
qed

end
