(* ===== verification/Multicast_Object.thy ===== *)
theory Multicast_Object
  imports Multicast_Queue
begin

text \<open>
  \<open>Reader::Read(T&)\<close> of \<open>BoundedMulticastQueue\<close>, which reads into a message of its own and copies the object out of it,
  whatever \<open>Read\<close> returned.
\<close>

text \<open>One iteration of the loop: the object is assigned when \<open>Read\<close> returns, true or false.\<close>

definition Reader_Read_object_iteration ::
    "nat \<Rightarrow> message \<Rightarrow> mq_reader \<Rightarrow> (nat \<Rightarrow> mq option) \<Rightarrow> (read_result \<times> byte list option \<times> message \<times> mq_reader) option" where
  "Reader_Read_object_iteration sizeof_T queue_message r queues =
     (case Reader_Read_iteration queue_message r queues of None \<Rightarrow> None
      | Some (Read_wait, queue_message, r) \<Rightarrow> Some (Read_wait, None, queue_message, r)
      | Some (result, queue_message, r) \<Rightarrow>
          (case message_Get sizeof_T queue_message of None \<Rightarrow> None
           | Some object \<Rightarrow> Some (result, Some object, queue_message, r)))"

lemma late_message:
  assumes ok: "mq_cells_ok q msgs" and N: "N = unat (mq_size q)" and late: "n + N < length msgs"
  obtains p where "n + N \<le> p" "p < length msgs" "cell_bytes (mq_buffer q ! (n mod N)) = msgs ! p"
proof -
  have pos: "0 < N" "n mod N < N" using ok by (auto simp: mq_cells_ok_def Let_def pow2_size_pos N)
  let ?j = "n mod N" let ?c = "cell_count N ?j (length msgs)"
  have "Suc (n div N) * N + ?j = n + N" by (simp add: algebra_simps)
  then have "Suc (n div N) < ?c" using cell_count_less [OF pos(2), of "Suc (n div N)"] late by simp
  then have c: "Suc (n div N) \<le> ?c - 1" "?c - 1 < ?c" by simp_all
  have "Suc (n div N) * N + ?j \<le> (?c - 1) * N + ?j" using c(1) by (intro add_right_mono mult_le_mono1)
  then have "n + N \<le> (?c - 1) * N + ?j" by (simp add: algebra_simps)
  moreover have "(?c - 1) * N + ?j < length msgs" using cell_count_less [OF pos(2), of "?c - 1"] c(2) by blast
  moreover have "cell_bytes (mq_buffer q ! ?j) = msgs ! ((?c - 1) * N + ?j)"
    using ok pos(2) c by (simp add: mq_cells_ok_def Let_def N)
  ultimately show thesis by (rule that)
qed

text \<open>
  What \<open>Get\<close> takes out of \<open>queue_message\<close> after a load: the bytes that were loaded, and behind them what an earlier
  iteration has left.
\<close>

definition loaded_object :: "nat \<Rightarrow> byte list \<Rightarrow> message \<Rightarrow> byte list" where
  "loaded_object sizeof_T bytes queue_message = take sizeof_T (bytes @ drop (length bytes) (msg_data queue_message))"

lemma Get_loaded:
  assumes "length (cell_bytes c) \<le> Capacity" "k \<le> Capacity" "length (msg_data msg) = Capacity"
  shows "message_Get k (snd (cell_Load c msg)) = Some (loaded_object k (cell_bytes c) msg)"
    "length (msg_data (snd (cell_Load c msg))) = Capacity"
  using assms by (simp_all add: message_Get_def cell_Load_def loaded_object_def)

lemma loaded_object_whole: "sizeof_T = length bytes \<Longrightarrow> loaded_object sizeof_T bytes msg = bytes"
  by (simp add: loaded_object_def)

text \<open>
  Property C32. One iteration of \<open>Read\<close> into an object of \<open>k\<close> bytes, whatever the iterations before it have left in \<open>queue_message\<close>, by a reader
  at the position \<open>p\<close>, in every reachable state in which no cell was written \<open>2 ^ 30 - 1\<close> times. At the end of what was
  written it waits, assigns nothing and leaves a message for the next iteration; if the message at \<open>p\<close> is still in the
  buffer it returns true with the bytes of that message, and is at \<open>p + 1\<close>. To a reader that is late
  it returns false and stays at \<open>p\<close>, and by then the object has been overwritten with the bytes of a message at least one round
  further on. An object as long as the message is the message; of a longer one, the rest is what was in \<open>queue_message\<close>.
\<close>

theorem mq_Read_object:
  fixes i :: nat
  assumes "mq_init s MessagesCount" "reaches (mq_step Capacity) s es t" "mq_bounded t"
    "length (msg_data queue_message) = Capacity" "k \<le> Capacity"
  defines "N \<equiv> unat (the (mq_GetBufferSize MessagesCount))" and "p \<equiv> reader_pos es (\<lambda>i. 0) i" and "W \<equiv> length (writes es)"
  shows "\<exists>msg. length (msg_data msg) = Capacity \<and>
    (p = W \<longrightarrow> Reader_Read_object_iteration k queue_message (mqs_readers t i) (mqs_queues t) =
      Some (Read_wait, None, msg, mqs_readers t i)) \<and>
    (p < W \<and> W \<le> p + N \<longrightarrow> Reader_Read_object_iteration k queue_message (mqs_readers t i) (mqs_queues t) =
      Some (Read_true, Some (loaded_object k (writes es ! p) queue_message), msg, reader_at N (Suc p))) \<and>
    (p + N < W \<longrightarrow> (\<exists>p'. p + N \<le> p' \<and> p' < W \<and>
      Reader_Read_object_iteration k queue_message (mqs_readers t i) (mqs_queues t) =
      Some (Read_false, Some (loaded_object k (writes es ! p') queue_message), msg, mqs_readers t i)))"
proof -
  obtain l where l: "accepts mq_spec es (mq_log_new MessagesCount) = Some l" "mq_rel Capacity t l"
    using mq_ref.simulates mq_bounded_reaches [OF assms(2,3)] assms(1) by blast
  have m: "log_messages l = writes es" "log_window l = N"
    using mq_spec_messages [OF l(1)] by (simp_all add: mq_log_new_def N_def)
  have p: "log_position l i = p" using mq_spec_reader_pos [OF l(1)] by (simp add: mq_log_new_def p_def)
  obtain q where q: "mqs_queues t 0 = Some q" "mq_cells_ok q (writes es)" "N = unat (mq_size q)"
    "mqs_written t = W" "p \<le> W" "mqs_readers t i = reader_at N p" and small: "\<forall>d\<in>set (writes es). length d \<le> Capacity"
    using l(2) m p by (auto simp: mq_rel_def W_def)
  have b: "W div unat (mq_size q) < 2 ^ 30 - 1" using assms(3) q(1,4) by (simp add: mq_bounded_def)
  let ?c = "mq_buffer q ! (p mod N)" and ?m = "snd (cell_Load (mq_buffer q ! (p mod N)) queue_message)"
  have it: "Reader_Read_iteration queue_message (mqs_readers t i) (mqs_queues t) =
    Some (if p = W then (Read_wait, ?m, reader_at N p)
          else if p + N < W then (Read_false, ?m, reader_at N p) else (Read_true, ?m, reader_at N (Suc p)))"
    unfolding q(6) W_def
    by (rule Reader_Read_iteration_at [of "mqs_queues t" q "writes es" p N ?m queue_message, OF q(1,2) q(5) [unfolded W_def] b [unfolded W_def] q(3) refl])
  have "length (cell_bytes ?c) \<le> Capacity" using mq_cells_fit [OF q(2,3) small] by simp
  note load = Get_loaded [OF this assms(5,4)]
  consider "p = W" | "p < W" "W \<le> p + N" | "p + N < W" "p \<noteq> W" using q(5) by linarith
  then show ?thesis
  proof cases
    case 1
    then show ?thesis using it q(6) load by (intro exI [of _ ?m]) (simp add: Reader_Read_object_iteration_def)
  next
    case 2
    then have "cell_bytes ?c = writes es ! p" unfolding W_def by (rule mq_cells_message [OF q(2) _ _ q(3)])
    then show ?thesis using it 2 load by (intro exI [of _ ?m]) (simp add: Reader_Read_object_iteration_def)
  next
    case 3
    obtain p' where "p + N \<le> p'" "p' < W" "cell_bytes ?c = writes es ! p'"
      using late_message [OF q(2,3) 3(1) [unfolded W_def]] unfolding W_def by blast
    then show ?thesis using it 3 q(6) load by (intro exI [of _ ?m]) (auto simp: Reader_Read_object_iteration_def)
  qed
qed

text \<open>Reader 1 of the concrete run is late: its object of three bytes becomes the third message.\<close>

lemma mq_Read_object_witness:
  "\<exists>t msg r. reaches (mq_step 4) (mq_start 2) mq_trace t \<and>
     Reader_Read_object_iteration 3 (message_new 4) (mqs_readers t 1) (mqs_queues t) = Some (Read_false, Some [4, 5, 6], msg, r)"
proof -
  obtain t where t: "run (mq_step 4) (butlast mq_schedule) (mq_start 2) = Some (mq_trace, t)" "mq_bounded t"
    using mq_run by blast
  have c: "reader_pos mq_trace (\<lambda>i. 0) 1 = 0" "unat (the (mq_GetBufferSize 2)) = 2" "writes mq_trace = [[1, 2], [3], [4, 5, 6]]"
    by code_simp+
  let ?w = "[[1, 2], [3], [4, 5, 6]] :: byte list list"
  have new: "length (msg_data (message_new 4)) = 4" "(3::nat) \<le> 4" by (simp_all add: message_new_def)
  obtain msg where "0 + 2 < length ?w \<longrightarrow> (\<exists>p'. 0 + 2 \<le> p' \<and> p' < length ?w \<and>
      Reader_Read_object_iteration 3 (message_new 4) (mqs_readers t 1) (mqs_queues t) =
      Some (Read_false, Some (loaded_object 3 (?w ! p') (message_new 4)), msg, mqs_readers t 1))"
    using mq_Read_object [OF mq_start_init run_reaches [OF t(1)] t(2) new, of 1] unfolding c by blast
  moreover have "0 + 2 < length ?w" by simp
  ultimately obtain p' where p': "0 + 2 \<le> p'" "p' < length ?w"
    and o: "Reader_Read_object_iteration 3 (message_new 4) (mqs_readers t 1) (mqs_queues t) =
      Some (Read_false, Some (loaded_object 3 (?w ! p') (message_new 4)), msg, mqs_readers t 1)" by blast
  have "p' = 2" using p' by simp
  then have "loaded_object 3 (?w ! p') (message_new 4) = [4, 5, 6]" by (simp add: loaded_object_whole)
  then show ?thesis using o run_reaches [OF t(1)] by metis
qed

end
