(* ===== verification/Weak_Memory.thy ===== *)
theory Weak_Memory
  imports Prelude
begin

text \<open>
  A memory with the release and acquire orders of C++, in the form of histories and views. A location
  has the list of all values ever written to it, in its modification order; a thread has a view,
  the least position in each history that it may still read. A write by \<open>memory_order_release\<close> carries the
  view of the writer along, and a read by \<open>memory_order_acquire\<close> takes over the view that the value
  carries. Fences do the same for the relaxed accesses before or after them. Plain objects have histories of accesses: an access that does not come after all earlier
  ones is a data race.
\<close>

section \<open>Orders, views and histories\<close>

datatype memory_order = Relaxed | Acquire | Release | AcqRel

fun acquires :: "memory_order \<Rightarrow> bool" where
  "acquires Relaxed = False"
| "acquires Acquire = True"
| "acquires Release = False"
| "acquires AcqRel = True"

fun releases :: "memory_order \<Rightarrow> bool" where
  "releases Relaxed = False"
| "releases Acquire = False"
| "releases Release = True"
| "releases AcqRel = True"

type_synonym 'l view = "'l \<Rightarrow> nat"

abbreviation no_view :: "'l view" where "no_view \<equiv> (\<lambda>l. 0)"

record ('l, 'v) weak_mem =
  wm_hist :: "'l \<Rightarrow> ('v \<times> 'l view) list"
  wm_view :: "nat \<Rightarrow> 'l view"
  wm_acq :: "nat \<Rightarrow> 'l view"
  wm_rel :: "nat \<Rightarrow> 'l view"

text \<open>
  Beside its view a thread has what its loads have read so far, which the next acquire fence makes its
  view, and its view at the last release fence, which its relaxed stores carry.

  Every location holds one value, which all threads have seen, since they start after the construction.
\<close>

definition wm_new :: "('l \<Rightarrow> 'v) \<Rightarrow> ('l, 'v) weak_mem" where
  "wm_new v = \<lparr>wm_hist = (\<lambda>l. [(v l, no_view)]), wm_view = (\<lambda>i. no_view),
     wm_acq = (\<lambda>i. no_view), wm_rel = (\<lambda>i. no_view)\<rparr>"

text \<open>The position of the latest write, and its value.\<close>

definition wm_top :: "'l \<Rightarrow> ('l, 'v) weak_mem \<Rightarrow> nat" where
  "wm_top l m = length (wm_hist m l) - 1"

definition wm_latest :: "'l \<Rightarrow> ('l, 'v) weak_mem \<Rightarrow> 'v" where
  "wm_latest l m = fst (last (wm_hist m l))"

section \<open>Accesses\<close>

text \<open>
  A load may read any write \<open>k\<close> from the thread's view on. A value read at position \<open>k\<close> is never followed by
  an earlier one.
\<close>

definition wm_load :: "memory_order \<Rightarrow> nat \<Rightarrow> 'l \<Rightarrow> nat \<Rightarrow> ('l, 'v) weak_mem \<Rightarrow> ('v \<times> ('l, 'v) weak_mem) option" where
  "wm_load ord i l k m =
     (let view = wm_view m i
      in if view l \<le> k \<and> k < length (wm_hist m l)
         then let (x, w) = wm_hist m l ! k;
                  seen = if acquires ord then sup (view(l := k)) w else view(l := k)
              in Some (x, m\<lparr>wm_view := (wm_view m)(i := seen), wm_acq := (wm_acq m)(i := sup (wm_acq m i) (sup (view(l := k)) w))\<rparr>)
         else None)"

text \<open>
  A store becomes the last of its location. It could also come before writes that the thread has not
  seen; the locations for which this memory is used are never written by a thread that has missed a
  write other than the read-modify-writes that follow its own, and nothing can come between those.
\<close>

definition wm_store :: "memory_order \<Rightarrow> nat \<Rightarrow> 'l \<Rightarrow> 'v \<Rightarrow> ('l, 'v) weak_mem \<Rightarrow> ('l, 'v) weak_mem" where
  "wm_store ord i l x m =
     (let seen = (wm_view m i)(l := length (wm_hist m l));
          w = if releases ord then seen else (wm_rel m i)(l := length (wm_hist m l))
      in m\<lparr>wm_hist := (wm_hist m)(l := wm_hist m l @ [(x, w)]), wm_view := (wm_view m)(i := seen),
           wm_acq := (wm_acq m)(i := (wm_acq m i)(l := length (wm_hist m l)))\<rparr>)"

text \<open>
  A read-modify-write reads the last write and follows it. It carries on what that write carried (the
  release sequence), whatever its own order is; the thread takes it over only with an order that
  acquires.
\<close>

definition wm_exchange :: "memory_order \<Rightarrow> nat \<Rightarrow> 'l \<Rightarrow> 'v \<Rightarrow> ('l, 'v) weak_mem \<Rightarrow> 'v \<times> ('l, 'v) weak_mem" where
  "wm_exchange ord i l y m =
     (let (x, w) = last (wm_hist m l);
          n = length (wm_hist m l);
          seen = (if acquires ord then sup (wm_view m i) w else wm_view m i)(l := n);
          carried = if releases ord then sup seen w else (sup (wm_rel m i) w)(l := n)
      in (x, m\<lparr>wm_hist := (wm_hist m)(l := wm_hist m l @ [(y, carried)]), wm_view := (wm_view m)(i := seen),
              wm_acq := (wm_acq m)(i := (sup (wm_acq m i) w)(l := n))\<rparr>))"

text \<open>The two fences.\<close>

definition wm_fence_acquire :: "nat \<Rightarrow> ('l, 'v) weak_mem \<Rightarrow> ('l, 'v) weak_mem" where
  "wm_fence_acquire i m = m\<lparr>wm_view := (wm_view m)(i := wm_acq m i)\<rparr>"

definition wm_fence_release :: "nat \<Rightarrow> ('l, 'v) weak_mem \<Rightarrow> ('l, 'v) weak_mem" where
  "wm_fence_release i m = m\<lparr>wm_rel := (wm_rel m)(i := wm_view m i)\<rparr>"

text \<open>
  A plain access reads the object and leaves \<open>f\<close> of what it read. It is a data race (\<open>None\<close>) unless the
  thread has seen all earlier accesses to the object; reads count as accesses too.
\<close>

definition wm_plain :: "nat \<Rightarrow> 'l \<Rightarrow> ('v \<Rightarrow> 'v) \<Rightarrow> ('l, 'v) weak_mem \<Rightarrow> ('v \<times> ('l, 'v) weak_mem) option" where
  "wm_plain i l f m =
     (if wm_top l m \<le> wm_view m i l
      then Some (wm_latest l m, wm_store Relaxed i l (f (wm_latest l m)) m)
      else None)"

section \<open>What the accesses change\<close>

definition wm_ok :: "('l, 'v) weak_mem \<Rightarrow> bool" where
  "wm_ok m \<longleftrightarrow> (\<forall>l. wm_hist m l \<noteq> [])"

lemma wm_ok_new [simp]: "wm_ok (wm_new v)"
  by (simp add: wm_ok_def wm_new_def)

lemma wm_new_simps [simp]:
  "wm_view (wm_new v) i = no_view" "wm_acq (wm_new v) i = no_view" "wm_rel (wm_new v) i = no_view" "wm_top l (wm_new v) = 0" "wm_latest l (wm_new v) = v l"
  "wm_hist (wm_new v) l = [(v l, no_view)]"
  by (simp_all add: wm_new_def wm_top_def wm_latest_def)

lemma length_hist: "wm_ok m \<Longrightarrow> length (wm_hist m l) = Suc (wm_top l m)"
  by (simp add: wm_ok_def wm_top_def)

lemma wm_hist_last: "wm_ok m \<Longrightarrow> wm_hist m l ! wm_top l m = last (wm_hist m l)"
  by (simp add: wm_ok_def wm_top_def last_conv_nth)

lemma wm_load_Some:
  assumes "wm_load ord i l k m = Some (x, m')"
  shows "wm_view m i l \<le> k \<and> k < length (wm_hist m l) \<and> x = fst (wm_hist m l ! k) \<and> wm_hist m' = wm_hist m \<and>
    wm_view m' = (wm_view m)(i := (let v = (wm_view m i)(l := k) in if acquires ord then sup v (snd (wm_hist m l ! k)) else v)) \<and>
    wm_acq m' = (wm_acq m)(i := sup (wm_acq m i) (sup ((wm_view m i)(l := k)) (snd (wm_hist m l ! k)))) \<and> wm_rel m' = wm_rel m"
  using assms by (auto simp: wm_load_def Let_def split: if_splits prod.splits)

lemma wm_store_simps [simp]:
  "wm_hist (wm_store ord i l x m) l' = (if l' = l then wm_hist m l @
     [(x, if releases ord then (wm_view m i)(l := length (wm_hist m l)) else (wm_rel m i)(l := length (wm_hist m l)))]
     else wm_hist m l')"
  "wm_view (wm_store ord i l x m) j = (if j = i then (wm_view m j)(l := length (wm_hist m l)) else wm_view m j)"
  "wm_acq (wm_store ord i l x m) j = (if j = i then (wm_acq m j)(l := length (wm_hist m l)) else wm_acq m j)"
  "wm_rel (wm_store ord i l x m) = wm_rel m"
  by (simp_all add: wm_store_def Let_def)

lemma wm_store_latest [simp]:
  "wm_latest l' (wm_store ord i l x m) = (if l' = l then x else wm_latest l' m)"
  by (simp add: wm_latest_def)

lemma wm_store_top:
  "wm_ok m \<Longrightarrow> wm_top l' (wm_store ord i l x m) = (if l' = l then Suc (wm_top l m) else wm_top l' m)"
  by (simp add: wm_top_def wm_ok_def)

lemma wm_store_ok [simp]: "wm_ok m \<Longrightarrow> wm_ok (wm_store ord i l x m)"
  by (simp add: wm_ok_def)

lemma wm_load_same:
  assumes "wm_load ord i l k m = Some (x, m')"
  shows "wm_top l' m' = wm_top l' m" "wm_latest l' m' = wm_latest l' m" "wm_ok m' = wm_ok m"
  using wm_load_Some [OF assms] by (auto simp: wm_top_def wm_latest_def wm_ok_def)

lemma wm_exchange_simps:
  assumes "wm_exchange ord i l y m = (x, m')"
  shows "x = wm_latest l m"
    "wm_hist m' l' = (if l' = l then wm_hist m l @ [(y,
       let w = snd (last (wm_hist m l)); v = (if acquires ord then sup (wm_view m i) w else wm_view m i)(l := length (wm_hist m l))
       in if releases ord then sup v w else (sup (wm_rel m i) w)(l := length (wm_hist m l)))] else wm_hist m l')"
    "wm_view m' j = (if j = i
       then (if acquires ord then sup (wm_view m i) (snd (last (wm_hist m l))) else wm_view m i)(l := length (wm_hist m l))
       else wm_view m j)"
    "wm_acq m' j = (if j = i then (sup (wm_acq m j) (snd (last (wm_hist m l))))(l := length (wm_hist m l)) else wm_acq m j)"
    "wm_rel m' = wm_rel m"
  using assms by (auto simp: wm_exchange_def wm_latest_def Let_def split: prod.splits)

lemma wm_exchange_latest:
  assumes "wm_exchange ord i l y m = (x, m')"
  shows "wm_latest l' m' = (if l' = l then y else wm_latest l' m)"
    "l' \<noteq> l \<Longrightarrow> wm_top l' m' = wm_top l' m" "wm_ok m \<Longrightarrow> wm_ok m'"
  using wm_exchange_simps(2) [OF assms] by (auto simp: wm_latest_def wm_top_def wm_ok_def)

lemma wm_plain_Some:
  "wm_plain i l f m = Some (x, m') \<longleftrightarrow>
     wm_top l m \<le> wm_view m i l \<and> x = wm_latest l m \<and> m' = wm_store Relaxed i l (f (wm_latest l m)) m"
  by (auto simp: wm_plain_def)

lemma wm_plain_None: "wm_plain i l f m = None \<longleftrightarrow> wm_view m i l < wm_top l m"
  by (simp add: wm_plain_def not_le)

lemma wm_fence_simps [simp]:
  "wm_hist (wm_fence_acquire i m) = wm_hist m" "wm_acq (wm_fence_acquire i m) = wm_acq m" "wm_rel (wm_fence_acquire i m) = wm_rel m"
  "wm_view (wm_fence_acquire i m) = (wm_view m)(i := wm_acq m i)"
  "wm_hist (wm_fence_release i m) = wm_hist m" "wm_acq (wm_fence_release i m) = wm_acq m" "wm_view (wm_fence_release i m) = wm_view m"
  "wm_rel (wm_fence_release i m) = (wm_rel m)(i := wm_view m i)"
  "wm_top l (wm_fence_acquire i m) = wm_top l m" "wm_top l (wm_fence_release i m) = wm_top l m"
  by (simp_all add: wm_fence_acquire_def wm_fence_release_def wm_top_def)

section \<open>Well-formed memories\<close>

text \<open>Nobody has seen, and no value carries, more than there is.\<close>

definition wm_wf :: "('l, 'v) weak_mem \<Rightarrow> bool" where
  "wm_wf m \<longleftrightarrow> wm_ok m \<and> (\<forall>i. wm_rel m i \<le> wm_view m i \<and> wm_view m i \<le> wm_acq m i \<and> (\<forall>l. wm_acq m i l \<le> wm_top l m)) \<and>
     (\<forall>l. \<forall>w \<in> set (wm_hist m l). \<forall>l'. snd w l' \<le> wm_top l' m)"

lemma wm_wf_new: "wm_wf (wm_new v)"
  by (simp add: wm_wf_def)

lemma wm_wf_views:
  assumes "wm_wf m"
  shows "wm_rel m i l \<le> wm_view m i l" "wm_view m i l \<le> wm_acq m i l" "wm_acq m i l \<le> wm_top l m" "wm_view m i l \<le> wm_top l m"
  using assms by (auto simp: wm_wf_def le_fun_def intro: order_trans)

lemma wm_wf_nth: "wm_wf m \<Longrightarrow> k < length (wm_hist m l) \<Longrightarrow> snd (wm_hist m l ! k) l' \<le> wm_top l' m"
  using nth_mem by (fastforce simp: wm_wf_def)

text \<open>How a memory stays well-formed: views and histories only grow.\<close>

lemma wm_wfI:
  assumes "wm_wf m" "\<And>l. \<exists>xs. wm_hist m' l = wm_hist m l @ xs \<and> (\<forall>w\<in>set xs. \<forall>l'. snd w l' \<le> wm_top l' m')"
    and "\<And>j l. wm_rel m' j l \<le> wm_view m' j l \<and> wm_view m' j l \<le> wm_acq m' j l \<and> wm_acq m' j l \<le> wm_top l m'"
  shows "wm_wf m'"
proof -
  have top: "wm_top l m \<le> wm_top l m'" for l using assms(2) [of l] by (auto simp: wm_top_def)
  have "snd w l' \<le> wm_top l' m'" if w: "w \<in> set (wm_hist m' l)" for w l l'
  proof -
    obtain xs where xs: "wm_hist m' l = wm_hist m l @ xs" "\<forall>w\<in>set xs. \<forall>l'. snd w l' \<le> wm_top l' m'" using assms(2) by blast
    show ?thesis
    proof (cases "w \<in> set xs")
      case False
      then have "snd w l' \<le> wm_top l' m" using assms(1) w xs(1) by (auto simp: wm_wf_def)
      then show ?thesis using top [of l'] by linarith
    qed (use xs in blast)
  qed
  moreover have "wm_ok m'" unfolding wm_ok_def
  proof
    show "wm_hist m' l \<noteq> []" for l using assms(2) [of l] assms(1) by (auto simp: wm_wf_def wm_ok_def)
  qed
  ultimately show ?thesis using assms(3) by (simp add: wm_wf_def le_fun_def)
qed

lemma wm_load_view_mono:
  assumes "wm_load ord i l k m = Some (x, m')"
  shows "wm_view m j \<le> wm_view m' j"
  using wm_load_Some [OF assms] by (auto simp: le_fun_def Let_def le_supI1 max.coboundedI1 sup_nat_def)

lemma wm_wf_load:
  assumes "wm_load ord i l k m = Some (x, m')" "wm_wf m"
  shows "wm_wf m'"
proof (rule wm_wfI [OF assms(2)])
  have k: "k < length (wm_hist m l)" "wm_view m i l \<le> k" "wm_hist m' = wm_hist m" and h: "wm_top l' m' = wm_top l' m" for l'
    using wm_load_Some [OF assms(1)] wm_load_same [OF assms(1)] by auto
  have kt: "k \<le> wm_top l m" using k(1) by (simp add: wm_top_def)
  show "\<exists>xs. wm_hist m' l' = wm_hist m l' @ xs \<and> (\<forall>w\<in>set xs. \<forall>l'. snd w l' \<le> wm_top l' m')" for l' using k(3) by simp
  show "wm_rel m' j l' \<le> wm_view m' j l' \<and> wm_view m' j l' \<le> wm_acq m' j l' \<and> wm_acq m' j l' \<le> wm_top l' m'" for j l'
    using wm_load_Some [OF assms(1)] wm_wf_views [OF assms(2), of j l'] wm_wf_nth [OF assms(2) k(1), of l'] k(2) kt
    by (auto simp: h Let_def le_supI1 le_supI2)
qed

lemma wm_wf_store:
  assumes "wm_wf m"
  shows "wm_wf (wm_store ord i l x m)"
proof (rule wm_wfI [OF assms])
  let ?m = "wm_store ord i l x m"
  have ok: "wm_ok m" using assms by (simp add: wm_wf_def)
  note top = wm_store_top [OF ok] length_hist [OF ok]
  show "wm_rel ?m j l' \<le> wm_view ?m j l' \<and> wm_view ?m j l' \<le> wm_acq ?m j l' \<and> wm_acq ?m j l' \<le> wm_top l' ?m" for j l'
    using wm_wf_views [OF assms, of j l'] by (auto simp: top intro: le_SucI order_trans)
  show "\<exists>xs. wm_hist ?m l' = wm_hist m l' @ xs \<and> (\<forall>w\<in>set xs. \<forall>l'. snd w l' \<le> wm_top l' ?m)" for l'
  proof (cases "l' = l")
    case True
    have "wm_rel m i l'' \<le> wm_top l'' m" for l'' using wm_wf_views [OF assms, of i l''] by simp
    then show ?thesis using True wm_wf_views(4) [OF assms, of i] by (auto simp: top)
  qed simp
qed

lemma wm_wf_exchange:
  assumes "wm_exchange ord i l y m = (x, m')" "wm_wf m"
  shows "wm_wf m'"
proof (rule wm_wfI [OF assms(2)])
  have ok: "wm_ok m" using assms(2) by (simp add: wm_wf_def)
  note ex = wm_exchange_simps [OF assms(1)]
  have n: "length (wm_hist m l) = wm_top l m'" and mono: "wm_top l' m \<le> wm_top l' m'" for l'
    using ex(2) [of l] ex(2) [of l'] by (auto simp: wm_top_def)
  have w: "snd (last (wm_hist m l)) l' \<le> wm_top l' m'" for l'
    using wm_wf_nth [OF assms(2), of "wm_top l m" l l'] length_hist [OF ok, of l] wm_hist_last [OF ok, of l] mono [of l'] by simp
  have v: "wm_view m j l' \<le> wm_top l' m'" "wm_acq m j l' \<le> wm_top l' m'" "wm_rel m j l' \<le> wm_top l' m'" for j l'
    using wm_wf_views [OF assms(2), of j l'] mono [of l'] by auto
  show "wm_rel m' j l' \<le> wm_view m' j l' \<and> wm_view m' j l' \<le> wm_acq m' j l' \<and> wm_acq m' j l' \<le> wm_top l' m'" for j l'
    using wm_wf_views [OF assms(2), of j l'] w [of l'] v [of j l'] by (auto simp: ex n le_supI1 le_supI2)
  show "\<exists>xs. wm_hist m' l' = wm_hist m l' @ xs \<and> (\<forall>w\<in>set xs. \<forall>l'. snd w l' \<le> wm_top l' m')" for l'
    using w v by (auto simp: ex(2) n Let_def)
qed

lemma wm_wf_fence:
  assumes "wm_wf m"
  shows "wm_wf (wm_fence_acquire i m)" "wm_wf (wm_fence_release i m)"
proof -
  have "wm_rel m j \<le> wm_acq m j" for j using assms by (auto simp: wm_wf_def intro: order_trans)
  then show "wm_wf (wm_fence_acquire i m)" "wm_wf (wm_fence_release i m)"
    using assms by (auto simp: wm_wf_def wm_ok_def)
qed

lemma wm_store_view_mono:
  assumes "wm_wf m"
  shows "wm_view m j \<le> wm_view (wm_store ord i l x m) j"
proof (rule le_funI)
  fix l'
  have "wm_view m j l' \<le> wm_top l' m" by (rule wm_wf_views [OF assms])
  also have "\<dots> \<le> length (wm_hist m l')" by (simp add: wm_top_def)
  finally show "wm_view m j l' \<le> wm_view (wm_store ord i l x m) j l'" by auto
qed


lemma wm_exchange_view_mono:
  assumes "wm_exchange ord i l y m = (x, m')" "wm_wf m"
  shows "wm_view m j \<le> wm_view m' j"
proof (rule le_funI)
  fix l'
  have "wm_view m j l' \<le> wm_top l' m" by (rule wm_wf_views [OF assms(2)])
  also have "\<dots> \<le> length (wm_hist m l')" by (simp add: wm_top_def)
  finally show "wm_view m j l' \<le> wm_view m' j l'" by (auto simp: wm_exchange_simps(3) [OF assms(1)])
qed

end
