(* ===== verification/SPSC_Weak.thy ===== *)
theory SPSC_Weak
  imports SPSC_Concurrent Weak_Memory
begin

text \<open>
  \<open>BoundedSPSCQueue\<close> (queue/bounded_sp_sc_queue.h) with the memory orders that the code has: every load
  of an index acquires, every store of one releases, and the elements are plain objects. The operations
  are those of \<open>SPSC_Concurrent\<close> on the memory of \<open>Weak_Memory\<close>, in which a thread may read an index of the
  other one that is no longer the latest.
\<close>

section \<open>The queue in a weak memory\<close>

datatype spsc_loc = Tail | Head | Slot nat

datatype 'a spsc_value = Index (index_of: size_t) | Element (element_of: 'a)

text \<open>The cached indices belong to one thread and stay outside the memory. The producer is thread 0.\<close>

record 'a weak_spsc =
  wq_size :: size_t
  wq_cached_head :: size_t
  wq_cached_tail :: size_t
  wq_mem :: "(spsc_loc, 'a spsc_value) weak_mem"
  wq_producer :: "'a producer_pc"
  wq_consumer :: "'a consumer_pc"

datatype 'a weak_spsc_choice =
  WCall_Emplace 'a | WCall_Consumer consumer_op | WStep_Producer nat | WStep_Consumer nat

text \<open>\<open>WFull k\<close> and \<open>WEmpty k\<close> name the write of the other index that the answer rests on.\<close>

datatype 'a weak_spsc_event = WEnq 'a | WFull nat | WDeq 'a | WEmpty nat | WPeek 'a | WRace

definition wq_mask :: "'a weak_spsc \<Rightarrow> size_t" where
  "wq_mask s = wq_size s - 1"

fun weak_producer_step :: "nat \<Rightarrow> 'a producer_pc \<Rightarrow> 'a weak_spsc \<Rightarrow>
    ('a weak_spsc_event list \<times> 'a producer_pc \<times> 'a weak_spsc) option" where
  "weak_producer_step k P_Idle s = None"
| "weak_producer_step k (P_LoadTail x) s =
     (case wm_load Acquire 0 Tail k (wq_mem s) of
        None \<Rightarrow> None
      | Some (v, m) \<Rightarrow>
          (let tail = index_of v; next_tail = (tail + 1) AND wq_mask s
           in Some ([], if next_tail = wq_cached_head s then P_LoadHead tail x else P_Construct tail x, s\<lparr>wq_mem := m\<rparr>)))"
| "weak_producer_step k (P_LoadHead tail x) s =
     (case wm_load Acquire 0 Head k (wq_mem s) of
        None \<Rightarrow> None
      | Some (v, m) \<Rightarrow>
          (let next_tail = (tail + 1) AND wq_mask s; s = s\<lparr>wq_mem := m, wq_cached_head := index_of v\<rparr>
           in if next_tail = wq_cached_head s then Some ([WFull k], P_Idle, s) else Some ([], P_Construct tail x, s)))"
| "weak_producer_step k (P_Construct tail x) s =
     (case wm_plain 0 (Slot (unat tail)) (\<lambda>_. Element x) (wq_mem s) of
        None \<Rightarrow> Some ([WRace], P_Idle, s)
      | Some (v, m) \<Rightarrow> Some ([], P_StoreTail tail x, s\<lparr>wq_mem := m\<rparr>))"
| "weak_producer_step k (P_StoreTail tail x) s =
     Some ([WEnq x], P_Idle, s\<lparr>wq_mem := wm_store Release 0 Tail (Index ((tail + 1) AND wq_mask s)) (wq_mem s)\<rparr>)"

text \<open>\<open>Dequeue()\<close> does not read the element that it discards; the event names it all the same.\<close>

fun weak_consumer_step :: "('a \<Rightarrow> 'a) \<Rightarrow> nat \<Rightarrow> 'a consumer_pc \<Rightarrow> 'a weak_spsc \<Rightarrow>
    ('a weak_spsc_event list \<times> 'a consumer_pc \<times> 'a weak_spsc) option" where
  "weak_consumer_step moved k C_Idle s = None"
| "weak_consumer_step moved k (C_LoadHead cop) s =
     (case wm_load Acquire 1 Head k (wq_mem s) of
        None \<Rightarrow> None
      | Some (v, m) \<Rightarrow>
          (let head = index_of v
           in Some ([], if head = wq_cached_tail s then C_LoadTail cop head else consumer_access cop head, s\<lparr>wq_mem := m\<rparr>)))"
| "weak_consumer_step moved k (C_LoadTail cop head) s =
     (case wm_load Acquire 1 Tail k (wq_mem s) of
        None \<Rightarrow> None
      | Some (v, m) \<Rightarrow>
          (let s = s\<lparr>wq_mem := m, wq_cached_tail := index_of v\<rparr>
           in if head = wq_cached_tail s then Some ([WEmpty k], C_Idle, s) else Some ([], consumer_access cop head, s)))"
| "weak_consumer_step moved k (C_Peek head) s =
     (case wm_plain 1 (Slot (unat head)) id (wq_mem s) of
        None \<Rightarrow> Some ([WRace], C_Idle, s)
      | Some (v, m) \<Rightarrow> Some ([WPeek (element_of v)], C_Idle, s\<lparr>wq_mem := m\<rparr>))"
| "weak_consumer_step moved k (C_Move head) s =
     (case wm_plain 1 (Slot (unat head)) (\<lambda>v. Element (moved (element_of v))) (wq_mem s) of
        None \<Rightarrow> Some ([WRace], C_Idle, s)
      | Some (v, m) \<Rightarrow> Some ([], C_StoreHead head (Some (element_of v)), s\<lparr>wq_mem := m\<rparr>))"
| "weak_consumer_step moved k (C_StoreHead head element) s =
     Some ([WDeq (case element of None \<Rightarrow> element_of (wm_latest (Slot (unat head)) (wq_mem s)) | Some x \<Rightarrow> x)], C_Idle,
       s\<lparr>wq_mem := wm_store Release 1 Head (Index ((head + 1) AND wq_mask s)) (wq_mem s)\<rparr>)"

fun weak_spsc_step :: "('a \<Rightarrow> 'a) \<Rightarrow> 'a weak_spsc_choice \<Rightarrow> 'a weak_spsc \<Rightarrow>
    ('a weak_spsc_event list \<times> 'a weak_spsc) option" where
  "weak_spsc_step moved (WCall_Emplace x) s =
     (if wq_producer s = P_Idle then Some ([], s\<lparr>wq_producer := P_LoadTail x\<rparr>) else None)"
| "weak_spsc_step moved (WCall_Consumer cop) s =
     (if wq_consumer s = C_Idle then Some ([], s\<lparr>wq_consumer := C_LoadHead cop\<rparr>) else None)"
| "weak_spsc_step moved (WStep_Producer k) s =
     (case weak_producer_step k (wq_producer s) s of
        None \<Rightarrow> None
      | Some (es, pc, t) \<Rightarrow> Some (es, t\<lparr>wq_producer := pc\<rparr>))"
| "weak_spsc_step moved (WStep_Consumer k) s =
     (case weak_consumer_step moved k (wq_consumer s) s of
        None \<Rightarrow> None
      | Some (es, pc, t) \<Rightarrow> Some (es, t\<lparr>wq_consumer := pc\<rparr>))"

fun weak_spsc_initial :: "'a \<Rightarrow> spsc_loc \<Rightarrow> 'a spsc_value" where
  "weak_spsc_initial dflt (Slot i) = Element dflt"
| "weak_spsc_initial dflt _ = Index 0"

definition weak_spsc_new :: "'a \<Rightarrow> size_t \<Rightarrow> const_error + 'a weak_spsc" where
  "weak_spsc_new dflt Capacity =
     (case spsc_GetBufferSize Capacity of
        Inl e \<Rightarrow> Inl e
      | Inr n \<Rightarrow> Inr \<lparr>wq_size = n, wq_cached_head = 0, wq_cached_tail = 0,
                     wq_mem = wm_new (weak_spsc_initial dflt), wq_producer = P_Idle, wq_consumer = C_Idle\<rparr>)"

section \<open>What it promises\<close>

text \<open>
  A log of all elements and the number of those taken out. A full or empty answer is right for a state
  of the other index that has been there, the one it read; what is in the log is delivered in order, and
  there is no race.
\<close>

record 'a fifo_log =
  log_cap :: nat
  log_in :: "'a list"
  log_out :: nat

fun log_spec :: "'a weak_spsc_event \<Rightarrow> 'a fifo_log \<Rightarrow> 'a fifo_log option" where
  "log_spec (WEnq x) q =
     (if length (log_in q) - log_out q < log_cap q then Some (q\<lparr>log_in := log_in q @ [x]\<rparr>) else None)"
| "log_spec (WFull k) q = (if k \<le> log_out q \<and> length (log_in q) = k + log_cap q then Some q else None)"
| "log_spec (WDeq x) q =
     (if log_out q < length (log_in q) \<and> log_in q ! log_out q = x then Some (q\<lparr>log_out := Suc (log_out q)\<rparr>) else None)"
| "log_spec (WEmpty k) q = (if k \<le> length (log_in q) \<and> log_out q = k then Some q else None)"
| "log_spec (WPeek x) q = (if log_out q < length (log_in q) \<and> log_in q ! log_out q = x then Some q else None)"
| "log_spec WRace q = None"

section \<open>Views of the two threads\<close>

text \<open>\<open>i\<close> is the only writer of the index \<open>l\<close>: it has seen all of it, and its writes carry what it had seen.\<close>

definition carried :: "nat \<Rightarrow> spsc_loc \<Rightarrow> (spsc_loc, 'v) weak_mem \<Rightarrow> bool" where
  "carried i l m \<longleftrightarrow> wm_view m i l = wm_top l m \<and>
     (\<forall>k < length (wm_hist m l). snd (wm_hist m l ! k) \<le> wm_view m i \<and> snd (wm_hist m l ! k) l \<le> k)"

text \<open>The writes of an index count through the ring.\<close>

definition indexed :: "spsc_loc \<Rightarrow> nat \<Rightarrow> (spsc_loc, 'a spsc_value) weak_mem \<Rightarrow> bool" where
  "indexed l n m \<longleftrightarrow> (\<forall>k < length (wm_hist m l). unat (index_of (fst (wm_hist m l ! k))) = k mod n)"

text \<open>
  The handing over of slots to \<open>j\<close>: the slot of the position \<open>p\<close> has been used by nobody that \<open>j\<close> has not seen,
  once \<open>j\<close> has read a write of \<open>l\<close> later than \<open>p - off\<close>, or would have read it.
\<close>

definition handed :: "nat \<Rightarrow> spsc_loc \<Rightarrow> nat \<Rightarrow> nat \<Rightarrow> nat set \<Rightarrow> (spsc_loc, 'v) weak_mem \<Rightarrow> bool" where
  "handed j l off n P m \<longleftrightarrow> (\<forall>p\<in>P. let c = Slot (p mod n) in
     (\<forall>k < length (wm_hist m l). p < k + off \<longrightarrow> wm_top c m \<le> max (wm_view m j c) (snd (wm_hist m l ! k) c)) \<and>
     (p < wm_view m j l + off \<longrightarrow> wm_top c m \<le> wm_view m j c))"

lemma carried_own_load:
  assumes "carried i l m" "wm_load ord i l k m = Some (x, m')" "wm_wf m"
  shows "x = wm_latest l m" "m' = m" "k = wm_top l m"
proof -
  have k: "k < length (wm_hist m l)" "wm_top l m \<le> k" and x: "x = fst (wm_hist m l ! k)"
    using wm_load_Some [OF assms(2)] assms(1) by (auto simp: carried_def)
  then show "k = wm_top l m" by (simp add: wm_top_def)
  with k(1) x show "x = wm_latest l m" by (cases "wm_hist m l = []") (simp_all add: wm_latest_def wm_top_def last_conv_nth)
  have v: "(wm_view m i)(l := k) = wm_view m i" using assms(1) \<open>k = wm_top l m\<close> by (auto simp: carried_def)
  have w: "snd (wm_hist m l ! k) \<le> wm_view m i" using assms(1) k by (simp add: carried_def)
  moreover have "wm_view m i \<le> wm_acq m i" using assms(3) by (simp add: wm_wf_def)
  ultimately have "sup (wm_view m i) (snd (wm_hist m l ! k)) = wm_view m i"
    "sup (wm_acq m i) (sup (wm_view m i) (snd (wm_hist m l ! k))) = wm_acq m i" by (simp_all add: sup_absorb1)
  then show "m' = m" using assms(2) v by (auto simp: wm_load_def Let_def split: if_splits prod.splits)
qed

lemma carried_load:
  assumes "carried i l m" "wm_load ord j l' k m = Some (x, m')" "wm_wf m"
  shows "carried i l m'"
proof -
  note mono = wm_load_view_mono [OF assms(2), of i]
  have h: "wm_hist m' = wm_hist m" and t: "wm_top l m' = wm_top l m"
    using wm_load_Some [OF assms(2)] wm_load_same [OF assms(2)] by auto
  have "wm_view m' i l \<le> wm_top l m" using wm_wf_views(4) [OF wm_wf_load [OF assms(2,3)], of i l] t by simp
  moreover have "wm_top l m \<le> wm_view m' i l" using assms(1) le_funD [OF mono, of l] by (simp add: carried_def)
  ultimately show ?thesis using assms(1) mono h t order_trans by (fastforce simp: carried_def)
qed

lemma carried_store:
  assumes "carried i l m" "wm_wf m" "l' = l \<longrightarrow> j = i \<and> releases ord"
  shows "carried i l (wm_store ord j l' x m)"
proof -
  let ?m = "wm_store ord j l' x m"
  have ok: "wm_ok m" using assms(2) by (simp add: wm_wf_def)
  have view: "wm_view ?m i l = wm_top l ?m" using assms by (auto simp: carried_def wm_store_top [OF ok] length_hist [OF ok])
  have grown: "wm_view m i \<le> wm_view ?m i" by (rule wm_store_view_mono [OF assms(2)])
  show ?thesis
  proof (cases "l' = l")
    case True
    then have "wm_hist ?m l = wm_hist m l @ [(x, wm_view ?m i)]" using assms(3) by simp
    moreover have "wm_view ?m i l \<le> length (wm_hist m l)" using True assms(3) by simp
    ultimately show ?thesis unfolding carried_def
      using view grown assms(1) by (auto simp del: wm_store_simps simp: nth_append carried_def less_Suc_eq intro: order_trans)
  next
    case False
    then have "wm_hist ?m l = wm_hist m l" by simp
    then show ?thesis unfolding carried_def
      using view grown assms(1) by (auto simp del: wm_store_simps simp: carried_def intro: order_trans)
  qed
qed

lemma handed_cong:
  assumes "handed j l off n P m" "wm_hist m' = wm_hist m" "wm_view m' j = wm_view m j"
  shows "handed j l off n P m'"
  using assms by (simp add: handed_def wm_top_def)

lemma handed_subset: "handed j l off n P m \<Longrightarrow> Q \<subseteq> P \<Longrightarrow> handed j l off n Q m"
  unfolding handed_def by blast

lemma handed_D:
  assumes "handed j l off n P m" "p \<in> P" "p < wm_view m j l + off"
  shows "wm_top (Slot (p mod n)) m \<le> wm_view m j (Slot (p mod n))"
  using assms by (simp add: handed_def Let_def)

text \<open>Reading the other index.\<close>

lemma handed_load:
  assumes h: "handed j l off n P m" and ld: "wm_load Acquire j l k m = Some (x, m')" and c: "carried i l m"
    and l: "\<And>c. l \<noteq> Slot c"
  shows "handed j l off n P m'"
proof -
  have k: "k < length (wm_hist m l)" "wm_view m j l \<le> k" and hist: "wm_hist m' = wm_hist m"
    and view: "wm_view m' j = sup ((wm_view m j)(l := k)) (snd (wm_hist m l ! k))"
    using wm_load_Some [OF ld] by (auto simp: Let_def)
  have "snd (wm_hist m l ! k) l \<le> k" using c k(1) by (simp add: carried_def)
  then have own: "wm_view m' j l = k" by (simp add: view sup_absorb1)
  have slot: "wm_view m' j (Slot c) = max (wm_view m j (Slot c)) (snd (wm_hist m l ! k) (Slot c))" for c
    using l [of c] by (simp add: view sup_nat_def)
  have top: "wm_top c m' = wm_top c m" for c using hist by (simp add: wm_top_def)
  show ?thesis unfolding handed_def Let_def
  proof (intro ballI conjI allI impI)
    fix p q
    assume p: "p \<in> P" and q: "q < length (wm_hist m' l)" "p < q + off"
    have "wm_top (Slot (p mod n)) m \<le> max (wm_view m j (Slot (p mod n))) (snd (wm_hist m l ! q) (Slot (p mod n)))"
      using h p q hist by (simp add: handed_def Let_def)
    then show "wm_top (Slot (p mod n)) m' \<le> max (wm_view m' j (Slot (p mod n))) (snd (wm_hist m' l ! q) (Slot (p mod n)))"
      unfolding top slot hist by (simp add: le_max_iff_disj) blast
  next
    fix p
    assume p: "p \<in> P" "p < wm_view m' j l + off"
    then show "wm_top (Slot (p mod n)) m' \<le> wm_view m' j (Slot (p mod n))"
      using h k(1) unfolding top slot own by (simp add: handed_def Let_def)
  qed
qed

text \<open>Using a slot.\<close>

lemma handed_use:
  assumes h: "handed j l off n P m" and ok: "wm_ok m" and l: "l \<noteq> Slot c"
    and other: "\<And>p. p \<in> P \<Longrightarrow> p mod n = c \<Longrightarrow> i = j"
  shows "handed j l off n P (wm_store ord i (Slot c) x m)"
  unfolding handed_def Let_def
proof (intro ballI conjI allI impI)
  let ?m = "wm_store ord i (Slot c) x m"
  fix p k
  assume p: "p \<in> P" and k: "k < length (wm_hist ?m l)" "p < k + off"
  show "wm_top (Slot (p mod n)) ?m \<le> max (wm_view ?m j (Slot (p mod n))) (snd (wm_hist ?m l ! k) (Slot (p mod n)))"
  proof (cases "p mod n = c")
    case True
    then show ?thesis using other [OF p] ok by (simp add: wm_store_top length_hist)
  next
    case False
    then show ?thesis using h p k l ok by (auto simp: handed_def Let_def wm_store_top)
  qed
next
  let ?m = "wm_store ord i (Slot c) x m"
  fix p
  assume p: "p \<in> P" "p < wm_view ?m j l + off"
  show "wm_top (Slot (p mod n)) ?m \<le> wm_view ?m j (Slot (p mod n))"
  proof (cases "p mod n = c")
    case True
    then show ?thesis using other [OF p(1)] ok by (simp add: wm_store_top length_hist)
  next
    case False
    then show ?thesis using h p l ok by (auto simp: handed_def Let_def wm_store_top split: if_splits)
  qed
qed

text \<open>Publishing an index: the writer hands over the slot of the position \<open>top + off\<close>.\<close>

lemma handed_publish:
  assumes h: "handed j l off n P m" and wf: "wm_wf m" and c: "carried i l m" and ij: "i \<noteq> j" and l: "\<And>c. l \<noteq> Slot c"
    and P: "P' \<subseteq> insert (wm_top l m + off) P"
    and own: "wm_top (Slot ((wm_top l m + off) mod n)) m \<le> wm_view m i (Slot ((wm_top l m + off) mod n))"
  shows "handed j l off n P' (wm_store Release i l x m)"
  unfolding handed_def Let_def
proof (intro ballI conjI allI impI)
  let ?m = "wm_store Release i l x m" and ?t = "wm_top l m"
  have ok: "wm_ok m" using wf by (simp add: wm_wf_def)
  have slots: "wm_top (Slot c) ?m = wm_top (Slot c) m" for c using l [of c] by (simp add: wm_store_top [OF ok])
  fix p k
  assume p: "p \<in> P'" and k: "k < length (wm_hist ?m l)" "p < k + off"
  show "wm_top (Slot (p mod n)) ?m \<le> max (wm_view ?m j (Slot (p mod n))) (snd (wm_hist ?m l ! k) (Slot (p mod n)))"
  proof (cases "k = Suc ?t")
    case True
    have carry: "snd (wm_hist ?m l ! k) (Slot c) = wm_view m i (Slot c)" for c
      using True l [of c] by (simp add: nth_append length_hist [OF ok])
    show ?thesis
    proof (cases "p = ?t + off")
      case False
      have last: "?t < length (wm_hist m l)" by (simp add: length_hist [OF ok])
      then have "snd (wm_hist m l ! ?t) (Slot c) \<le> wm_view m i (Slot c)" for c
        using c by (auto simp: carried_def le_fun_def)
      moreover have "wm_top (Slot (p mod n)) m \<le> max (wm_view m j (Slot (p mod n))) (snd (wm_hist m l ! ?t) (Slot (p mod n)))"
        using h p P False k True last by (auto simp: handed_def Let_def)
      ultimately show ?thesis unfolding slots carry using ij by (simp add: le_max_iff_disj) (meson order_trans)
    qed (use own slots carry in simp)
  next
    case False
    then have "k < length (wm_hist m l)" using k by (simp add: length_hist [OF ok])
    moreover from this have "p \<noteq> ?t + off" using k by (simp add: length_hist [OF ok])
    ultimately show ?thesis using h p P k ij unfolding slots by (auto simp: handed_def Let_def nth_append)
  qed
next
  let ?m = "wm_store Release i l x m" and ?t = "wm_top l m"
  have ok: "wm_ok m" using wf by (simp add: wm_wf_def)
  have slots: "wm_top (Slot c) ?m = wm_top (Slot c) m" for c using l [of c] by (simp add: wm_store_top [OF ok])
  fix p
  assume p: "p \<in> P'" "p < wm_view ?m j l + off"
  have "wm_view m j l \<le> ?t" by (rule wm_wf_views(4) [OF wf])
  with p ij have "p \<noteq> ?t + off" by auto
  then show "wm_top (Slot (p mod n)) ?m \<le> wm_view ?m j (Slot (p mod n))"
    unfolding slots using h p P ij by (auto simp: handed_def Let_def)
qed

text \<open>Publishing the own index takes nothing away.\<close>

lemma handed_own:
  assumes "handed j l off n P m" "wm_ok m" "l' \<noteq> l" "\<And>c. l' \<noteq> Slot c"
  shows "handed j l off n P (wm_store ord i l' x m)"
proof -
  have slots: "wm_top (Slot c) (wm_store ord i l' x m) = wm_top (Slot c) m" for c
    using assms(4) [of c] by (simp add: wm_store_top [OF assms(2)])
  show ?thesis using assms(1,3,4) by (auto simp: handed_def Let_def slots)
qed

section \<open>What the two threads know of each other\<close>

definition views_ok :: "nat \<Rightarrow> (spsc_loc, 'a spsc_value) weak_mem \<Rightarrow> bool" where
  "views_ok n m \<longleftrightarrow> wm_wf m \<and> carried 0 Tail m \<and> carried 1 Head m \<and> indexed Tail n m \<and> indexed Head n m \<and>
     handed 1 Tail 0 n {wm_top Head m..<wm_top Tail m} m \<and>
     handed 0 Head n n {wm_top Tail m..<wm_top Head m + n} m"

lemma views_ok_mem: "views_ok n m \<Longrightarrow> wm_ok m \<and> wm_view m 0 Head \<le> wm_top Head m \<and> wm_view m 1 Tail \<le> wm_top Tail m"
  using wm_wf_views(4) [of m] by (auto simp: views_ok_def wm_wf_def)

lemma views_index:
  assumes "views_ok n m" "wm_load ord i l k m = Some (x, m')" "l = Tail \<or> l = Head"
  shows "unat (index_of x) = k mod n" "wm_view m i l \<le> k" "k \<le> wm_top l m"
  using assms wm_load_Some [OF assms(2)] by (auto simp: views_ok_def indexed_def wm_top_def)

lemma views_latest:
  assumes "views_ok n m"
  shows "unat (index_of (wm_latest Tail m)) = wm_top Tail m mod n" "unat (index_of (wm_latest Head m)) = wm_top Head m mod n"
proof -
  have ok: "wm_ok m" using views_ok_mem [OF assms] by blast
  have "unat (index_of (wm_latest l m)) = wm_top l m mod n" if "indexed l n m" for l
    using that length_hist [OF ok, of l] by (simp add: indexed_def wm_latest_def flip: wm_hist_last [OF ok])
  then show "unat (index_of (wm_latest Tail m)) = wm_top Tail m mod n" "unat (index_of (wm_latest Head m)) = wm_top Head m mod n"
    using assms by (simp_all add: views_ok_def)
qed

lemma views_load:
  assumes v: "views_ok n m" and ld: "wm_load Acquire i l k m = Some (x, m')" and il: "i = 0 \<and> l = Head \<or> i = 1 \<and> l = Tail"
  shows "views_ok n m'" "k \<le> wm_view m' i l" "j \<noteq> i \<Longrightarrow> wm_view m' j = wm_view m j"
proof -
  have h: "wm_hist m' = wm_hist m" and t: "wm_top l' m' = wm_top l' m" for l'
    using wm_load_Some [OF ld] wm_load_same [OF ld] by auto
  have wf: "wm_wf m" using v by (simp add: views_ok_def)
  show other: "j \<noteq> i \<Longrightarrow> wm_view m' j = wm_view m j" for j using wm_load_Some [OF ld] by simp
  show "k \<le> wm_view m' i l" using wm_load_Some [OF ld] by (simp add: Let_def)
  have "handed 1 Tail 0 n {wm_top Head m..<wm_top Tail m} m'"
    using v il handed_load [of 1 Tail 0 n _ m k x m' 0] ld handed_cong [OF _ h other] by (auto simp: views_ok_def)
  moreover have "handed 0 Head n n {wm_top Tail m..<wm_top Head m + n} m'"
    using v il handed_load [of 0 Head n n _ m k x m' 1] ld handed_cong [OF _ h other] by (auto simp: views_ok_def)
  ultimately show "views_ok n m'"
    using v wm_wf_load [OF ld wf] carried_load [OF _ ld wf] h by (simp add: views_ok_def t indexed_def)
qed

lemma views_use:
  assumes v: "views_ok n m" and i: "i = 0 \<or> i = 1"
    and other: "\<And>p. wm_top Head m \<le> p \<Longrightarrow> p < wm_top Tail m \<Longrightarrow> p mod n = c \<Longrightarrow> i = 1"
      "\<And>p. wm_top Tail m \<le> p \<Longrightarrow> p < wm_top Head m + n \<Longrightarrow> p mod n = c \<Longrightarrow> i = 0"
  shows "views_ok n (wm_store Relaxed i (Slot c) x m)"
proof -
  have wf: "wm_wf m" and ok: "wm_ok m" using v by (auto simp: views_ok_def wm_wf_def)
  have t: "wm_top Tail (wm_store Relaxed i (Slot c) x m) = wm_top Tail m"
    "wm_top Head (wm_store Relaxed i (Slot c) x m) = wm_top Head m" by (simp_all add: wm_store_top [OF ok])
  show ?thesis unfolding views_ok_def t
    using v wm_wf_store [OF wf] by (intro conjI carried_store handed_use) (auto simp: views_ok_def wf ok indexed_def other)
qed

lemma views_publish:
  assumes v: "views_ok n m" and x: "unat (index_of x) = Suc (wm_top l m) mod n"
    and l: "i = 0 \<and> l = Tail \<and> wm_top Tail m < wm_view m 0 Head + n \<or> i = 1 \<and> l = Head \<and> wm_top Head m < wm_view m 1 Tail"
  shows "views_ok n (wm_store Release i l x m)"
proof -
  let ?m = "wm_store Release i l x m"
  have wf: "wm_wf m" and ok: "wm_ok m" and c: "carried 0 Tail m" "carried 1 Head m"
    and h: "handed 1 Tail 0 n {wm_top Head m..<wm_top Tail m} m" "handed 0 Head n n {wm_top Tail m..<wm_top Head m + n} m"
    using v by (auto simp: views_ok_def wm_wf_def)
  have views: "wm_view m 0 Head \<le> wm_top Head m" "wm_view m 1 Tail \<le> wm_top Tail m" using views_ok_mem [OF v] by auto
  have top: "wm_top l' ?m = (if l' = l then Suc (wm_top l m) else wm_top l' m)" for l' by (rule wm_store_top [OF ok])
  have il: "l' = l \<longrightarrow> i' = i \<and> releases Release" if "i' = 0 \<and> l' = Tail \<or> i' = 1 \<and> l' = Head" for i' l'
    using that l by auto
  have "handed 1 Tail 0 n {wm_top Head ?m..<wm_top Tail ?m} ?m \<and> handed 0 Head n n {wm_top Tail ?m..<wm_top Head ?m + n} ?m"
  proof (cases "l = Tail")
    case True
    then have i: "i = 0" and lt: "wm_top Tail m < wm_view m 0 Head + n" using l by auto
    have "wm_top (Slot (wm_top Tail m mod n)) m \<le> wm_view m 0 (Slot (wm_top Tail m mod n))"
      using lt views by (intro handed_D [OF h(2)]) auto
    then have "handed 1 Tail 0 n {wm_top Head m..<Suc (wm_top Tail m)} (wm_store Release 0 Tail x m)"
      by (intro handed_publish [OF h(1) wf c(1)]) auto
    moreover have "handed 0 Head n n {Suc (wm_top Tail m)..<wm_top Head m + n} (wm_store Release 0 Tail x m)"
      by (intro handed_own handed_subset [OF h(2)] ok) auto
    ultimately show ?thesis using True i top by simp
  next
    case False
    then have i: "i = 1" and hd: "l = Head" and lt: "wm_top Head m < wm_view m 1 Tail" using l by auto
    have "wm_top (Slot (wm_top Head m mod n)) m \<le> wm_view m 1 (Slot (wm_top Head m mod n))"
      using lt views by (intro handed_D [OF h(1)]) auto
    then have "handed 0 Head n n {wm_top Tail m..<Suc (wm_top Head m) + n} (wm_store Release 1 Head x m)"
      by (intro handed_publish [OF h(2) wf c(2)]) auto
    moreover have "handed 1 Tail 0 n {Suc (wm_top Head m)..<wm_top Tail m} (wm_store Release 1 Head x m)"
      by (intro handed_own handed_subset [OF h(1)] ok) auto
    ultimately show ?thesis using hd i top by simp
  qed
  moreover have "indexed l' n ?m" if "indexed l' n m" for l'
    using that x length_hist [OF ok, of l] by (auto simp: indexed_def nth_append less_Suc_eq)
  moreover have "carried 0 Tail ?m" "carried 1 Head ?m" using c il by (auto intro!: carried_store wf)
  ultimately show ?thesis unfolding views_ok_def using wm_wf_store [OF wf] v by (auto simp: views_ok_def)
qed

section \<open>The invariant\<close>

text \<open>The queue as the latest writes have it.\<close>

definition spsc_of :: "'a weak_spsc \<Rightarrow> 'a spsc" where
  "spsc_of s = \<lparr>spsc_size = wq_size s,
     spsc_buffer = map (\<lambda>i. element_of (wm_latest (Slot i) (wq_mem s))) [0..<unat (wq_size s)],
     spsc_tail = index_of (wm_latest Tail (wq_mem s)), spsc_cached_head = wq_cached_head s,
     spsc_head = index_of (wm_latest Head (wq_mem s)), spsc_cached_tail = wq_cached_tail s\<rparr>"

lemma spsc_of_simps [simp]:
  "spsc_size (spsc_of s) = wq_size s" "spsc_tail (spsc_of s) = index_of (wm_latest Tail (wq_mem s))"
  "spsc_head (spsc_of s) = index_of (wm_latest Head (wq_mem s))" "spsc_cached_head (spsc_of s) = wq_cached_head s"
  "spsc_cached_tail (spsc_of s) = wq_cached_tail s" "spsc_GetIndexMask (spsc_of s) = wq_mask s"
  by (simp_all add: spsc_of_def spsc_GetIndexMask_def wq_mask_def)

lemma spsc_of_cong:
  "wq_size s = wq_size t \<Longrightarrow> wm_hist (wq_mem s) = wm_hist (wq_mem t) \<Longrightarrow> wq_cached_head s = wq_cached_head t \<Longrightarrow>
     wq_cached_tail s = wq_cached_tail t \<Longrightarrow> spsc_of s = spsc_of t"
  by (simp add: spsc_of_def wm_latest_def)

lemma spsc_of_slot:
  assumes "c < unat (wq_size s)"
  shows "spsc_of (s\<lparr>wq_mem := wm_store ord i (Slot c) v (wq_mem s)\<rparr>) =
      (spsc_of s)\<lparr>spsc_buffer := (spsc_buffer (spsc_of s))[c := element_of v]\<rparr>"
    "spsc_buffer (spsc_of s) ! c = element_of (wm_latest (Slot c) (wq_mem s))"
  using assms by (auto simp: spsc_of_def nth_list_update intro!: nth_equalityI)

lemma spsc_of_index:
  "spsc_of (s\<lparr>wq_mem := wm_store ord i Tail v (wq_mem s)\<rparr>) = (spsc_of s)\<lparr>spsc_tail := index_of v\<rparr>"
  "spsc_of (s\<lparr>wq_mem := wm_store ord i Head v (wq_mem s)\<rparr>) = (spsc_of s)\<lparr>spsc_head := index_of v\<rparr>"
  by (simp_all add: spsc_of_def)

abbreviation weak_tail :: "'a weak_spsc \<Rightarrow> nat" where "weak_tail s \<equiv> wm_top Tail (wq_mem s)"

abbreviation weak_head :: "'a weak_spsc \<Rightarrow> nat" where "weak_head s \<equiv> wm_top Head (wq_mem s)"

definition weak_inv :: "'a weak_spsc \<Rightarrow> nat \<Rightarrow> nat \<Rightarrow> bool" where
  "weak_inv s ch ct \<longleftrightarrow> spsc_pos (spsc_of s) ch (weak_head s) ct (weak_tail s) \<and>
     producer_ok (wq_producer s) ch (weak_tail s) (spsc_of s) \<and>
     consumer_ok (wq_consumer s) (weak_head s) ct (spsc_of s) \<and>
     views_ok (unat (wq_size s)) (wq_mem s) \<and> ch \<le> wm_view (wq_mem s) 0 Head \<and> ct \<le> wm_view (wq_mem s) 1 Tail"

text \<open>What is in the log and not yet taken is in the queue.\<close>

definition weak_rel :: "'a weak_spsc \<Rightarrow> 'a fifo_log \<Rightarrow> bool" where
  "weak_rel s a \<longleftrightarrow> (\<exists>ch ct. weak_inv s ch ct) \<and> log_cap a = unat (wq_size s) - 1 \<and>
     length (log_in a) = weak_tail s \<and> log_out a = weak_head s \<and>
     drop (log_out a) (log_in a) = spsc_items (wq_consumer s) (spsc_of s)"

text \<open>The cached index may be any that has been there.\<close>

lemma spsc_pos_cached_head:
  assumes "spsc_pos q ch h ct t" "unat x = k mod unat (spsc_size q)" "ch \<le> k" "k \<le> h"
  shows "spsc_pos (q\<lparr>spsc_cached_head := x\<rparr>) k h ct t"
  using assms by (auto simp: spsc_pos_def)

lemma spsc_pos_cached_tail:
  assumes "spsc_pos q ch h ct t" "unat x = k mod unat (spsc_size q)" "ct \<le> k" "k \<le> t"
  shows "spsc_pos (q\<lparr>spsc_cached_tail := x\<rparr>) ch h k t"
  using assms by (auto simp: spsc_pos_def)

text \<open>
  The events of the log against those of the queue: one that the queue accepts is accepted by the
  log, if it is not an answer.
\<close>

fun as_log :: "'a fifo_event \<Rightarrow> 'a weak_spsc_event option" where
  "as_log (Enq x) = Some (WEnq x)"
| "as_log (Deq x) = Some (WDeq x)"
| "as_log (Peek x) = Some (WPeek x)"
| "as_log _ = None"

lemma log_spec_event:
  assumes "as_log e = Some f" "fifo_spec e \<lparr>fifo_cap = log_cap a, fifo_items = drop (log_out a) (log_in a)\<rparr> = Some q"
    "log_out a \<le> length (log_in a)"
  shows "\<exists>b. log_spec f a = Some b \<and> drop (log_out b) (log_in b) = fifo_items q \<and> log_cap b = log_cap a \<and>
    log_out b = log_out a + (case e of Deq x \<Rightarrow> 1 | _ \<Rightarrow> 0) \<and>
    length (log_in b) = length (log_in a) + (case e of Enq x \<Rightarrow> 1 | _ \<Rightarrow> 0)"
proof (cases e)
  case (Enq x)
  then show ?thesis using assms by (auto split: if_splits)
next
  case (Deq x)
  then obtain ys where ys: "drop (log_out a) (log_in a) = x # ys" "fifo_items q = ys" and f: "f = WDeq x"
    using assms by (auto split: list.splits if_splits)
  then have lt: "log_out a < length (log_in a)" by (metis drop_all list.distinct(1) not_le)
  have "x # ys = log_in a ! log_out a # drop (Suc (log_out a)) (log_in a)"
    using ys(1) Cons_nth_drop_Suc [OF lt] by simp
  then show ?thesis using ys f lt Deq by auto
next
  case (Peek x)
  then obtain ys where ys: "drop (log_out a) (log_in a) = x # ys" "fifo_items q = x # ys" and f: "f = WPeek x"
    using assms by (auto split: list.splits if_splits)
  then have lt: "log_out a < length (log_in a)" by (metis drop_all list.distinct(1) not_le)
  have "x # ys = log_in a ! log_out a # drop (Suc (log_out a)) (log_in a)"
    using ys(1) Cons_nth_drop_Suc [OF lt] by simp
  then show ?thesis using ys f lt Peek by auto
qed (use assms in simp_all)

section \<open>The steps\<close>

lemma spsc_of_pcs [simp]:
  "spsc_of (s\<lparr>wq_producer := pc\<rparr>) = spsc_of s" "spsc_of (s\<lparr>wq_consumer := cpc\<rparr>) = spsc_of s"
  by (simp_all add: spsc_of_def)

text \<open>A step that the queue of the latest writes makes, too.\<close>

lemma weak_rel_silent:
  assumes "weak_rel s a" "weak_inv t ch ct" "wq_size t = wq_size s" "weak_tail t = weak_tail s" "weak_head t = weak_head s"
    "spsc_items (wq_consumer t) (spsc_of t) = spsc_items (wq_consumer s) (spsc_of s)"
  shows "\<exists>b. accepts log_spec [] a = Some b \<and> weak_rel t b"
  using assms by (auto simp: weak_rel_def)

lemma weak_rel_event:
  assumes "weak_rel s a" "weak_inv t ch ct" "wq_size t = wq_size s" "as_log e = Some f"
    and "accepts fifo_spec [e] \<lparr>fifo_cap = unat (wq_size s) - 1, fifo_items = spsc_items (wq_consumer s) (spsc_of s)\<rparr> =
      Some \<lparr>fifo_cap = unat (wq_size t) - 1, fifo_items = spsc_items (wq_consumer t) (spsc_of t)\<rparr>"
    and "weak_tail t = weak_tail s + (case e of Enq x \<Rightarrow> 1 | _ \<Rightarrow> 0)" "weak_head t = weak_head s + (case e of Deq x \<Rightarrow> 1 | _ \<Rightarrow> 0)"
  shows "\<exists>b. accepts log_spec [f] a = Some b \<and> weak_rel t b"
proof -
  have r: "log_cap a = unat (wq_size s) - 1" "length (log_in a) = weak_tail s" "log_out a = weak_head s"
    "drop (log_out a) (log_in a) = spsc_items (wq_consumer s) (spsc_of s)" "weak_head s \<le> weak_tail s"
    using assms(1) by (auto simp: weak_rel_def weak_inv_def spsc_pos_def)
  have "fifo_spec e \<lparr>fifo_cap = log_cap a, fifo_items = drop (log_out a) (log_in a)\<rparr> =
      Some \<lparr>fifo_cap = unat (wq_size t) - 1, fifo_items = spsc_items (wq_consumer t) (spsc_of t)\<rparr>"
    using assms(5) r by (auto split: option.splits)
  moreover have "\<exists>ch ct. weak_inv t ch ct" using assms(2) by blast
  ultimately show ?thesis
    using log_spec_event [OF assms(4)] r assms(3,6,7) by (fastforce simp: weak_rel_def)
qed

text \<open>What the invariant says, and what holds of the slot at the head.\<close>

lemma weak_inv_facts:
  assumes "weak_inv s ch ct"
  shows "spsc_pos (spsc_of s) ch (weak_head s) ct (weak_tail s)" "producer_ok (wq_producer s) ch (weak_tail s) (spsc_of s)"
    "consumer_ok (wq_consumer s) (weak_head s) ct (spsc_of s)" "views_ok (unat (wq_size s)) (wq_mem s)"
    "ch \<le> wm_view (wq_mem s) 0 Head" "ct \<le> wm_view (wq_mem s) 1 Tail" "wm_wf (wq_mem s)" "wm_ok (wq_mem s)"
    "unat (index_of (wm_latest Head (wq_mem s))) = weak_head s mod unat (wq_size s)"
    "ch \<le> weak_head s" "weak_head s \<le> ct" "ct \<le> weak_tail s" "weak_tail s - weak_head s < unat (wq_size s)"
    "weak_tail s - ch < unat (wq_size s)"
proof -
  show v: "views_ok (unat (wq_size s)) (wq_mem s)" using assms by (simp add: weak_inv_def)
  show "unat (index_of (wm_latest Head (wq_mem s))) = weak_head s mod unat (wq_size s)" by (rule views_latest(2) [OF v])
qed (use assms in \<open>auto simp: weak_inv_def spsc_pos_def views_ok_def wm_wf_def\<close>)

lemma weak_head_slot:
  assumes inv: "weak_inv s ch ct" and lt: "weak_head s < ct" and c: "c = weak_head s mod unat (wq_size s)"
  shows "wm_plain 1 (Slot c) f (wq_mem s) =
      Some (wm_latest (Slot c) (wq_mem s), wm_store Relaxed 1 (Slot c) (f (wm_latest (Slot c) (wq_mem s))) (wq_mem s))"
    "views_ok (unat (wq_size s)) (wm_store Relaxed 1 (Slot c) z (wq_mem s))"
    "element_of (wm_latest (Slot c) (wq_mem s)) = spsc_buffer (spsc_of s) ! c"
proof -
  let ?m = "wq_mem s" and ?n = "unat (wq_size s)" and ?t = "weak_tail s" and ?h = "weak_head s"
  note I = weak_inv_facts [OF inv]
  have "wm_top (Slot (?h mod ?n)) ?m \<le> wm_view ?m 1 (Slot (?h mod ?n))"
    using I(4,6,11,12) lt by (intro handed_D [of 1 Tail 0 ?n "{?h..<?t}"]) (auto simp: views_ok_def)
  then show "wm_plain 1 (Slot c) f ?m = Some (wm_latest (Slot c) ?m, wm_store Relaxed 1 (Slot c) (f (wm_latest (Slot c) ?m)) ?m)"
    by (simp add: wm_plain_Some c)
  show "views_ok ?n (wm_store Relaxed 1 (Slot c) z ?m)"
  proof (rule views_use [OF I(4)])
    show "(1::nat) = 0" if "?t \<le> p" "p < ?h + ?n" "p mod ?n = c" for p
    proof -
      have "?h < p" "p - ?h < ?n" using that I(11,12,13) lt by linarith+
      with that(3) show ?thesis using mod_window_eq [of ?h p ?n] c by simp
    qed
  qed simp_all
  show "element_of (wm_latest (Slot c) ?m) = spsc_buffer (spsc_of s) ! c"
    using spsc_of_slot(2) [of c s] I(13) c by simp
qed

lemma weak_P_LoadTail:
  assumes rel: "weak_rel s a" and inv: "weak_inv s ch ct" and P_LoadTail: "wq_producer s = P_LoadTail x"
    and step: "weak_producer_step k (wq_producer s) s = Some (es, pc, t)"
  shows "\<exists>b. accepts log_spec es a = Some b \<and> weak_rel (t\<lparr>wq_producer := pc\<rparr>) b"
proof -
  let ?q = "spsc_of s" and ?m = "wq_mem s" and ?n = "unat (wq_size s)" and ?t = "weak_tail s" and ?h = "weak_head s"
  note I = weak_inv_facts [OF inv]
  note pos = I(1) and pok = I(2) and cok = I(3) and v = I(4) and ch = I(5) and ct = I(6) and wf = I(7) and ok = I(8)
  note seq = producer_step_ok [OF _ pos pok cok]
  from P_LoadTail obtain y m where ld: "wm_load Acquire 0 Tail k ?m = Some (y, m)" using step by (auto split: option.splits)
  have own: "y = wm_latest Tail ?m" "m = ?m" using carried_own_load [OF _ ld wf] v by (auto simp: views_ok_def)
  have t: "es = []" "t = s" "producer_step (wq_producer s) ?q = Some ([], pc, ?q)"
    using step ld own P_LoadTail by (auto simp: Let_def)
  have "weak_inv (s\<lparr>wq_producer := pc\<rparr>) ch ct" using seq [OF t(3)] P_LoadTail v ch ct by (simp add: weak_inv_def)
  with rel show ?thesis unfolding t by (rule weak_rel_silent) simp_all
qed

lemma weak_P_LoadHead:
  assumes rel: "weak_rel s a" and inv: "weak_inv s ch ct" and P_LoadHead: "wq_producer s = P_LoadHead tail x"
    and step: "weak_producer_step k (wq_producer s) s = Some (es, pc, t)"
  shows "\<exists>b. accepts log_spec es a = Some b \<and> weak_rel (t\<lparr>wq_producer := pc\<rparr>) b"
proof -
  let ?q = "spsc_of s" and ?m = "wq_mem s" and ?n = "unat (wq_size s)" and ?t = "weak_tail s" and ?h = "weak_head s"
  note I = weak_inv_facts [OF inv]
  note pos = I(1) and pok = I(2) and cok = I(3) and v = I(4) and ch = I(5) and ct = I(6) and wf = I(7) and ok = I(8)
  note le = I(10,11,12,13,14)
  from P_LoadHead obtain y m where ld: "wm_load Acquire 0 Head k ?m = Some (y, m)" using step by (auto split: option.splits)
  let ?u = "s\<lparr>wq_mem := m, wq_cached_head := index_of y\<rparr>"
  have tail: "tail = index_of (wm_latest Tail ?m)" using pok P_LoadHead by simp
  note k = views_index [OF v ld] and m = views_load [OF v ld] and same = wm_load_same [OF ld]
  have q: "spsc_of ?u = ?q\<lparr>spsc_cached_head := index_of y\<rparr>" by (simp add: spsc_of_def same)
  have p: "spsc_pos (spsc_of ?u) k ?h ct ?t"
    unfolding q using k ch by (intro spsc_pos_cached_head [OF pos]) auto
  have full: "(tail + 1) AND wq_mask s = index_of y \<longleftrightarrow> ?t + 1 - k = ?n"
    using spsc_full_test [OF p] tail by (simp add: same wq_mask_def)
  have cok': "consumer_ok (wq_consumer s) ?h ct (spsc_of ?u)" by (rule consumer_ok_cong [OF cok]) (simp add: same)
  have it: "spsc_items (wq_consumer s) (spsc_of ?u) = spsc_items (wq_consumer s) ?q"
    unfolding q by (intro spsc_items_cong spsc_contents_cong) simp_all
  have lt: "?t - k < ?n" using p by (simp add: spsc_pos_def same)
  have views: "views_ok ?n m" "k \<le> wm_view m 0 Head" "wm_view m 1 = wm_view ?m 1" using m by auto
  have k': "k \<le> ?h" using k by simp
  have inv': "weak_inv (?u\<lparr>wq_producer := pc\<rparr>) k ct" if "producer_ok pc k ?t (spsc_of ?u)" for pc
    using that p cok' views ct by (simp add: weak_inv_def same)
  show ?thesis
  proof (cases "?t + 1 - k = ?n")
    case True
    then have t: "es = [WFull k]" "t = ?u" "pc = P_Idle" using step ld P_LoadHead full by (auto simp: Let_def)
    have "log_spec (WFull k) a = Some a" using rel True k' le lt by (auto simp: weak_rel_def)
    then show ?thesis unfolding t
      using inv' [of P_Idle] rel it by (auto simp: weak_rel_def same)
  next
    case False
    then have t: "es = []" "t = ?u" "pc = P_Construct tail x" using step ld P_LoadHead full by (auto simp: Let_def)
    have "weak_inv (?u\<lparr>wq_producer := pc\<rparr>) k ct" unfolding t using tail False lt by (intro inv') (simp add: same)
    with rel show ?thesis unfolding t by (rule weak_rel_silent) (simp_all add: same it)
  qed
qed

lemma weak_P_Construct:
  assumes rel: "weak_rel s a" and inv: "weak_inv s ch ct" and P_Construct: "wq_producer s = P_Construct tail x"
    and step: "weak_producer_step k (wq_producer s) s = Some (es, pc, t)"
  shows "\<exists>b. accepts log_spec es a = Some b \<and> weak_rel (t\<lparr>wq_producer := pc\<rparr>) b"
proof -
  let ?q = "spsc_of s" and ?m = "wq_mem s" and ?n = "unat (wq_size s)" and ?t = "weak_tail s" and ?h = "weak_head s"
  note I = weak_inv_facts [OF inv]
  note pos = I(1) and pok = I(2) and cok = I(3) and v = I(4) and ch = I(5) and ct = I(6) and wf = I(7) and ok = I(8)
  note le = I(10,11,12,13,14)
  note seq = producer_step_ok [OF _ pos pok cok]
  let ?c = "unat tail"
  have tail: "tail = index_of (wm_latest Tail ?m)" and lt: "?t + 1 - ch < ?n" using pok P_Construct by auto
  have c: "?c = ?t mod ?n" using views_latest [OF v] tail by simp
  have n: "0 < ?n" using le by simp
  have room: "?t < wm_view ?m 0 Head + ?n" "?t < ?h + ?n" using lt ch le by auto
  have "handed 0 Head ?n ?n {?t..<?h + ?n} ?m" using v by (simp add: views_ok_def)
  from handed_D [OF this, of ?t] have "wm_top (Slot ?c) ?m \<le> wm_view ?m 0 (Slot ?c)" using room c by simp
  then have pl: "wm_plain 0 (Slot ?c) (\<lambda>_. Element x) ?m =
    Some (wm_latest (Slot ?c) ?m, wm_store Relaxed 0 (Slot ?c) (Element x) ?m)" by (simp add: wm_plain_Some)
  let ?u = "s\<lparr>wq_mem := wm_store Relaxed 0 (Slot ?c) (Element x) ?m\<rparr>"
  have t: "es = []" "t = ?u" "pc = P_StoreTail tail x" using step pl P_Construct by auto
  have q: "spsc_of ?u = ?q\<lparr>spsc_buffer := (spsc_buffer ?q)[?c := x]\<rparr>"
    using spsc_of_slot(1) [of ?c s Relaxed 0 "Element x"] c n by simp
  have st: "producer_step (wq_producer s) ?q = Some ([], pc, spsc_of ?u)" using P_Construct q t by simp
  have "views_ok ?n (wm_store Relaxed 0 (Slot ?c) (Element x) ?m)"
  proof (rule views_use [OF v])
    show "(0::nat) = 1" if "?h \<le> p" "p < ?t" "p mod ?n = ?c" for p
      using that mod_window_eq [of p ?t ?n] le c by auto
  qed simp_all
  moreover have "wm_top l (wm_store Relaxed 0 (Slot ?c) (Element x) ?m) = wm_top l ?m" if "l = Tail \<or> l = Head" for l
    using that by (auto simp: wm_store_top [OF ok])
  ultimately have "weak_inv (?u\<lparr>wq_producer := pc\<rparr>) ch ct"
    using seq [OF st] P_Construct ch ct by (simp add: weak_inv_def)
  with rel show ?thesis unfolding t
    using seq [OF st] t by (intro weak_rel_silent) (auto simp: wm_store_top [OF ok])
qed

lemma weak_P_StoreTail:
  assumes rel: "weak_rel s a" and inv: "weak_inv s ch ct" and P_StoreTail: "wq_producer s = P_StoreTail tail x"
    and step: "weak_producer_step k (wq_producer s) s = Some (es, pc, t)"
  shows "\<exists>b. accepts log_spec es a = Some b \<and> weak_rel (t\<lparr>wq_producer := pc\<rparr>) b"
proof -
  let ?q = "spsc_of s" and ?m = "wq_mem s" and ?n = "unat (wq_size s)" and ?t = "weak_tail s" and ?h = "weak_head s"
  note I = weak_inv_facts [OF inv]
  note pos = I(1) and pok = I(2) and cok = I(3) and v = I(4) and ch = I(5) and ct = I(6) and wf = I(7) and ok = I(8)
  note seq = producer_step_ok [OF _ pos pok cok]
  let ?next = "(tail + 1) AND wq_mask s"
  let ?u = "s\<lparr>wq_mem := wm_store Release 0 Tail (Index ?next) ?m\<rparr>"
  have tail: "tail = index_of (wm_latest Tail ?m)" and lt: "?t + 1 - ch < ?n" using pok P_StoreTail by auto
  have t: "es = [WEnq x]" "t = ?u" "pc = P_Idle" using step P_StoreTail by auto
  have st: "producer_step (wq_producer s) ?q = Some ([Enq x], pc, spsc_of ?u)"
    using P_StoreTail t by (simp add: spsc_of_index)
  have top: "weak_tail ?u = ?t + 1" "weak_head ?u = ?h" by (simp_all add: wm_store_top [OF ok])
  have "unat ?next = Suc ?t mod ?n"
    using seq [OF st] P_StoreTail by (auto simp: spsc_pos_def spsc_of_index)
  moreover have "?t < wm_view ?m 0 Head + ?n" using lt ch by simp
  ultimately have "views_ok ?n (wm_store Release 0 Tail (Index ?next) ?m)"
    by (intro views_publish [OF v]) simp_all
  then have "weak_inv (?u\<lparr>wq_producer := pc\<rparr>) ch ct"
    using seq [OF st] P_StoreTail ch ct top by (simp add: weak_inv_def)
  with rel show ?thesis unfolding t
    using seq [OF st] t top by (intro weak_rel_event [of s a _ ch ct "Enq x"]) auto
qed

lemma weak_producer_ok:
  assumes rel: "weak_rel s a" and step: "weak_producer_step k (wq_producer s) s = Some (es, pc, t)"
  shows "\<exists>b. accepts log_spec es a = Some b \<and> weak_rel (t\<lparr>wq_producer := pc\<rparr>) b"
proof -
  obtain ch ct where inv: "weak_inv s ch ct" using rel by (auto simp: weak_rel_def)
  show ?thesis
    using step weak_P_LoadTail [OF rel inv _ step] weak_P_LoadHead [OF rel inv _ step] weak_P_Construct [OF rel inv _ step] weak_P_StoreTail [OF rel inv _ step]
    by (cases "wq_producer s") simp_all
qed

lemma weak_C_LoadHead:
  assumes rel: "weak_rel s a" and inv: "weak_inv s ch ct" and C_LoadHead: "wq_consumer s = C_LoadHead cop"
    and step: "weak_consumer_step moved k (wq_consumer s) s = Some (es, pc, t)"
  shows "\<exists>b. accepts log_spec es a = Some b \<and> weak_rel (t\<lparr>wq_consumer := pc\<rparr>) b"
proof -
  let ?q = "spsc_of s" and ?m = "wq_mem s" and ?n = "unat (wq_size s)" and ?t = "weak_tail s" and ?h = "weak_head s"
  note I = weak_inv_facts [OF inv]
  note pos = I(1) and pok = I(2) and cok = I(3) and v = I(4) and ch = I(5) and ct = I(6) and wf = I(7) and ok = I(8)
  note seq = consumer_step_ok [OF _ pos pok cok]
  from C_LoadHead obtain y m where ld: "wm_load Acquire 1 Head k ?m = Some (y, m)" using step by (auto split: option.splits)
  have own: "y = wm_latest Head ?m" "m = ?m" using carried_own_load [OF _ ld wf] v by (auto simp: views_ok_def)
  have t: "es = []" "t = s" "consumer_step moved (wq_consumer s) ?q = Some ([], pc, ?q)"
    using step ld own C_LoadHead by (auto simp: Let_def)
  have "weak_inv (s\<lparr>wq_consumer := pc\<rparr>) ch ct" using seq [OF t(3)] C_LoadHead v ch ct by (simp add: weak_inv_def)
  with rel show ?thesis unfolding t
    using seq [OF t(3)] by (intro weak_rel_silent) auto
qed

lemma weak_C_LoadTail:
  assumes rel: "weak_rel s a" and inv: "weak_inv s ch ct" and C_LoadTail: "wq_consumer s = C_LoadTail cop head"
    and step: "weak_consumer_step moved k (wq_consumer s) s = Some (es, pc, t)"
  shows "\<exists>b. accepts log_spec es a = Some b \<and> weak_rel (t\<lparr>wq_consumer := pc\<rparr>) b"
proof -
  let ?q = "spsc_of s" and ?m = "wq_mem s" and ?n = "unat (wq_size s)" and ?t = "weak_tail s" and ?h = "weak_head s"
  note I = weak_inv_facts [OF inv]
  note pos = I(1) and pok = I(2) and cok = I(3) and v = I(4) and ch = I(5) and ct = I(6) and wf = I(7) and ok = I(8)
  note le = I(11,12,13)
  from C_LoadTail obtain y m where ld: "wm_load Acquire 1 Tail k ?m = Some (y, m)" using step by (auto split: option.splits)
  let ?u = "s\<lparr>wq_mem := m, wq_cached_tail := index_of y\<rparr>"
  have head: "head = index_of (wm_latest Head ?m)" using cok C_LoadTail by simp
  note k = views_index [OF v ld] and m = views_load [OF v ld] and same = wm_load_same [OF ld]
  have q: "spsc_of ?u = ?q\<lparr>spsc_cached_tail := index_of y\<rparr>" by (simp add: spsc_of_def same)
  have p: "spsc_pos (spsc_of ?u) ch ?h k ?t"
    unfolding q using k ct by (intro spsc_pos_cached_tail [OF pos]) auto
  have empty: "head = index_of y \<longleftrightarrow> ?h = k" using spsc_empty_test [OF p] head by (simp add: same)
  have pok': "producer_ok (wq_producer s) ch ?t (spsc_of ?u)"
    by (rule producer_ok_cong [OF pok]) (simp_all add: q same)
  have it: "spsc_items C_Idle (spsc_of ?u) = spsc_items (wq_consumer s) ?q"
    unfolding q C_LoadTail by (simp, intro spsc_contents_cong) simp_all
  have hk: "?h \<le> k" "k \<le> ?t" using p by (simp_all add: spsc_pos_def)
  have views: "views_ok ?n m" "k \<le> wm_view m 1 Tail" "wm_view m 0 = wm_view ?m 0" using m by auto
  have inv': "weak_inv (?u\<lparr>wq_consumer := pc\<rparr>) ch k" if "consumer_ok pc ?h k (spsc_of ?u)" for pc
    using that p pok' views ch by (simp add: weak_inv_def same)
  show ?thesis
  proof (cases "?h = k")
    case True
    then have t: "es = [WEmpty k]" "t = ?u" "pc = C_Idle" using step ld C_LoadTail empty by (auto simp: Let_def)
    have "log_spec (WEmpty k) a = Some a" using rel True hk by (auto simp: weak_rel_def)
    then show ?thesis unfolding t using inv' [of C_Idle] rel it by (auto simp: weak_rel_def same)
  next
    case False
    then have t: "es = []" "t = ?u" "pc = consumer_access cop head" using step ld C_LoadTail empty by (auto simp: Let_def)
    have "weak_inv (?u\<lparr>wq_consumer := pc\<rparr>) ch k" unfolding t using head False hk by (intro inv') (simp add: same)
    with rel show ?thesis unfolding t
      using it by (intro weak_rel_silent) (auto simp: same)
  qed
qed

lemma weak_C_Peek:
  assumes rel: "weak_rel s a" and inv: "weak_inv s ch ct" and C_Peek: "wq_consumer s = C_Peek head"
    and step: "weak_consumer_step moved k (wq_consumer s) s = Some (es, pc, t)"
  shows "\<exists>b. accepts log_spec es a = Some b \<and> weak_rel (t\<lparr>wq_consumer := pc\<rparr>) b"
proof -
  let ?q = "spsc_of s" and ?m = "wq_mem s" and ?n = "unat (wq_size s)" and ?t = "weak_tail s" and ?h = "weak_head s"
  note I = weak_inv_facts [OF inv]
  note pos = I(1) and pok = I(2) and cok = I(3) and v = I(4) and ch = I(5) and ct = I(6) and wf = I(7) and ok = I(8)
  note le = I(11,12,13)
  note hd = I(9)
  note seq = consumer_step_ok [OF _ pos pok cok]
  have head: "head = index_of (wm_latest Head ?m)" and lt: "?h < ct" using cok C_Peek by auto
  note slot = weak_head_slot [OF inv lt refl]
  let ?e = "wm_latest (Slot (?h mod ?n)) ?m"
  let ?u = "s\<lparr>wq_mem := wm_store Relaxed 1 (Slot (?h mod ?n)) ?e ?m\<rparr>"
  have c: "unat head = ?h mod ?n" using head hd by simp
  have t: "es = [WPeek (element_of ?e)]" "t = ?u" "pc = C_Idle" using step slot(1) [of id] C_Peek c by auto
  have q: "spsc_of ?u = ?q"
    using spsc_of_slot(1) [of "?h mod ?n" s Relaxed 1 ?e] le slot(3) by simp
  have st: "consumer_step moved (wq_consumer s) ?q = Some ([Peek (element_of ?e)], pc, spsc_of ?u)"
    using C_Peek t q c slot(3) by simp
  have "weak_inv (?u\<lparr>wq_consumer := pc\<rparr>) ch ct"
    using seq [OF st] C_Peek ch ct slot(2) by (simp add: weak_inv_def wm_store_top [OF ok])
  with rel show ?thesis unfolding t
    using seq [OF st] t by (intro weak_rel_event [of s a _ ch ct "Peek (element_of ?e)"]) (auto simp: wm_store_top [OF ok])
qed

lemma weak_C_Move:
  assumes rel: "weak_rel s a" and inv: "weak_inv s ch ct" and C_Move: "wq_consumer s = C_Move head"
    and step: "weak_consumer_step moved k (wq_consumer s) s = Some (es, pc, t)"
  shows "\<exists>b. accepts log_spec es a = Some b \<and> weak_rel (t\<lparr>wq_consumer := pc\<rparr>) b"
proof -
  let ?q = "spsc_of s" and ?m = "wq_mem s" and ?n = "unat (wq_size s)" and ?t = "weak_tail s" and ?h = "weak_head s"
  note I = weak_inv_facts [OF inv]
  note pos = I(1) and pok = I(2) and cok = I(3) and v = I(4) and ch = I(5) and ct = I(6) and wf = I(7) and ok = I(8)
  note le = I(11,12,13)
  note hd = I(9)
  note seq = consumer_step_ok [OF _ pos pok cok]
  have head: "head = index_of (wm_latest Head ?m)" and lt: "?h < ct" using cok C_Move by auto
  note slot = weak_head_slot [OF inv lt refl]
  let ?e = "wm_latest (Slot (?h mod ?n)) ?m"
  let ?u = "s\<lparr>wq_mem := wm_store Relaxed 1 (Slot (?h mod ?n)) (Element (moved (element_of ?e))) ?m\<rparr>"
  have c: "unat head = ?h mod ?n" using head hd by simp
  have t: "es = []" "t = ?u" "pc = C_StoreHead head (Some (element_of ?e))"
    using step slot(1) [of "\<lambda>v. Element (moved (element_of v))"] C_Move c by auto
  have q: "spsc_of ?u = ?q\<lparr>spsc_buffer := (spsc_buffer ?q)[?h mod ?n := moved (element_of ?e)]\<rparr>"
    using spsc_of_slot(1) [of "?h mod ?n" s Relaxed 1 "Element (moved (element_of ?e))"] le by simp
  have st: "consumer_step moved (wq_consumer s) ?q = Some ([], pc, spsc_of ?u)"
    using C_Move t q c slot(3) by (simp add: Let_def)
  have "weak_inv (?u\<lparr>wq_consumer := pc\<rparr>) ch ct"
    using seq [OF st] C_Move ch ct slot(2) by (simp add: weak_inv_def wm_store_top [OF ok])
  with rel show ?thesis unfolding t
    using seq [OF st] t by (intro weak_rel_silent) (auto simp: wm_store_top [OF ok])
qed

lemma weak_C_StoreHead:
  assumes rel: "weak_rel s a" and inv: "weak_inv s ch ct" and C_StoreHead: "wq_consumer s = C_StoreHead head e"
    and step: "weak_consumer_step moved k (wq_consumer s) s = Some (es, pc, t)"
  shows "\<exists>b. accepts log_spec es a = Some b \<and> weak_rel (t\<lparr>wq_consumer := pc\<rparr>) b"
proof -
  let ?q = "spsc_of s" and ?m = "wq_mem s" and ?n = "unat (wq_size s)" and ?t = "weak_tail s" and ?h = "weak_head s"
  note I = weak_inv_facts [OF inv]
  note pos = I(1) and pok = I(2) and cok = I(3) and v = I(4) and ch = I(5) and ct = I(6) and wf = I(7) and ok = I(8)
  note hd = I(9)
  note seq = consumer_step_ok [OF _ pos pok cok]
  have head: "head = index_of (wm_latest Head ?m)" and lt: "?h < ct" using cok C_StoreHead by auto
  note slot = weak_head_slot [OF inv lt refl]
  let ?next = "(head + 1) AND wq_mask s"
  let ?u = "s\<lparr>wq_mem := wm_store Release 1 Head (Index ?next) ?m\<rparr>"
  let ?x = "case e of None \<Rightarrow> element_of (wm_latest (Slot (unat head)) ?m) | Some x \<Rightarrow> x"
  have c: "unat head = ?h mod ?n" using head hd by simp
  have t: "es = [WDeq ?x]" "t = ?u" "pc = C_Idle" using step C_StoreHead by auto
  have st: "consumer_step moved (wq_consumer s) ?q = Some ([Deq ?x], pc, spsc_of ?u)"
    using C_StoreHead t c slot(3) by (simp add: spsc_of_index split: option.split)
  have top: "weak_tail ?u = ?t" "weak_head ?u = ?h + 1" by (simp_all add: wm_store_top [OF ok])
  have "unat ?next = Suc ?h mod ?n"
    using seq [OF st] C_StoreHead by (auto simp: spsc_pos_def spsc_of_index)
  then have "views_ok ?n (wm_store Release 1 Head (Index ?next) ?m)"
    using lt ct by (intro views_publish [OF v]) simp_all
  then have "weak_inv (?u\<lparr>wq_consumer := pc\<rparr>) ch ct"
    using seq [OF st] C_StoreHead ch ct top by (simp add: weak_inv_def)
  with rel show ?thesis unfolding t
    using seq [OF st] t top by (intro weak_rel_event [of s a _ ch ct "Deq ?x"]) auto
qed

lemma weak_consumer_ok:
  assumes rel: "weak_rel s a" and step: "weak_consumer_step moved k (wq_consumer s) s = Some (es, pc, t)"
  shows "\<exists>b. accepts log_spec es a = Some b \<and> weak_rel (t\<lparr>wq_consumer := pc\<rparr>) b"
proof -
  obtain ch ct where inv: "weak_inv s ch ct" using rel by (auto simp: weak_rel_def)
  show ?thesis
    using step weak_C_LoadHead [OF rel inv _ step] weak_C_LoadTail [OF rel inv _ step] weak_C_Peek [OF rel inv _ step] weak_C_Move [OF rel inv _ step] weak_C_StoreHead [OF rel inv _ step]
    by (cases "wq_consumer s") simp_all
qed

section \<open>The properties\<close>

definition weak_spsc_init :: "'a weak_spsc \<Rightarrow> 'a fifo_log \<Rightarrow> bool" where
  "weak_spsc_init s a \<longleftrightarrow> (\<exists>dflt Capacity. weak_spsc_new dflt Capacity = Inr s) \<and>
     a = \<lparr>log_cap = unat (wq_size s) - 1, log_in = [], log_out = 0\<rparr>"

lemma weak_init_rel:
  assumes "weak_spsc_init s a"
  shows "weak_rel s a"
proof -
  obtain dflt Capacity where new: "weak_spsc_new dflt Capacity = Inr s" using assms by (auto simp: weak_spsc_init_def)
  then obtain n where n: "spsc_GetBufferSize Capacity = Inr n" and s: "s = \<lparr>wq_size = n, wq_cached_head = 0,
      wq_cached_tail = 0, wq_mem = wm_new (weak_spsc_initial dflt), wq_producer = P_Idle, wq_consumer = C_Idle\<rparr>"
    by (cases "spsc_GetBufferSize Capacity") (auto simp: weak_spsc_new_def)
  have q: "spsc_new dflt Capacity = Inr (spsc_of s)"
    using n by (auto simp: spsc_new_def spsc_of_def s map_replicate_const)
  have n0: "0 < unat n" using spsc_pos_facts(2) [OF spsc_new_pos(1) [OF q]] by (simp add: s)
  have "views_ok (unat n) (wm_new (weak_spsc_initial dflt))"
    by (auto simp: views_ok_def wm_wf_new carried_def indexed_def handed_def le_fun_def)
  then have "weak_inv s 0 0" using spsc_new_pos(1) [OF q] by (simp add: weak_inv_def s)
  then have "\<exists>ch ct. weak_inv s ch ct" by blast
  then show ?thesis
    using assms spsc_new_pos(2) [OF q] by (auto simp: weak_rel_def weak_spsc_init_def s)
qed

lemma weak_step_rel:
  assumes rel: "weak_rel s a" and step: "weak_spsc_step moved c s = Some (e, t)"
  shows "\<exists>b. accepts log_spec e a = Some b \<and> weak_rel t b"
proof (cases c)
  case (WCall_Emplace x)
  then have t: "t = s\<lparr>wq_producer := P_LoadTail x\<rparr>" "e = []" using step by (auto split: if_splits)
  obtain ch ct where inv: "weak_inv s ch ct" using rel by (auto simp: weak_rel_def)
  then have "weak_inv (s\<lparr>wq_producer := P_LoadTail x\<rparr>) ch ct" by (simp add: weak_inv_def)
  with rel show ?thesis unfolding t by (intro weak_rel_silent) auto
next
  case (WCall_Consumer cop)
  then have t: "t = s\<lparr>wq_consumer := C_LoadHead cop\<rparr>" "e = []" and idle: "wq_consumer s = C_Idle"
    using step by (auto split: if_splits)
  obtain ch ct where inv: "weak_inv s ch ct" using rel by (auto simp: weak_rel_def)
  then have "weak_inv (s\<lparr>wq_consumer := C_LoadHead cop\<rparr>) ch ct" by (simp add: weak_inv_def)
  with rel show ?thesis unfolding t using idle by (intro weak_rel_silent) auto
next
  case (WStep_Producer k)
  then show ?thesis using step weak_producer_ok [OF rel] by (auto split: option.splits)
next
  case (WStep_Consumer k)
  then show ?thesis using step weak_consumer_ok [OF rel] by (auto split: option.splits)
qed

interpretation weak_spsc: simulation "weak_spsc_step moved" weak_spsc_init weak_rel log_spec
  for moved :: "'a \<Rightarrow> 'a"
  by unfold_locales (fact weak_init_rel, fact weak_step_rel)

lemma log_no_race: "accepts log_spec es a = Some b \<Longrightarrow> WRace \<notin> set es"
  by (induction es arbitrary: a) (auto split: option.splits)

text \<open>
  Property C17. The acquire and release orders of \<open>BoundedSPSCQueue\<close> are enough: in every execution by one producer and one
  consumer in which loads may return indices that are no longer the latest, elements are delivered in
  order and at most once, at most \<open>size - 1\<close> are in the queue, a full or empty answer is right for the
  other thread's index as it was read, and no access to an element is a data race.
\<close>

theorem spsc_release_acquire:
  assumes "weak_spsc_new dflt Capacity = Inr s" "reaches (weak_spsc_step moved) s es t"
  shows "\<exists>log. accepts log_spec es \<lparr>log_cap = unat (wq_size s) - 1, log_in = [], log_out = 0\<rparr> = Some log \<and>
    log_out log = wm_top Head (wq_mem t) \<and> drop (log_out log) (log_in log) = spsc_items (wq_consumer t) (spsc_of t) \<and>
    WRace \<notin> set es"
proof -
  have "weak_spsc_init s \<lparr>log_cap = unat (wq_size s) - 1, log_in = [], log_out = 0\<rparr>"
    using assms(1) by (auto simp: weak_spsc_init_def)
  from weak_spsc.simulates [OF this assms(2)] show ?thesis
    using log_no_race by (fastforce simp: weak_rel_def)
qed

section \<open>A concrete run\<close>

text \<open>
  The queue has eight slots. The producer fills it, the consumer takes one element out, and a producer that
  reads the old index is told that the queue is full; reading the new one, it goes on.
\<close>

definition weak_spsc_example :: "nat weak_spsc" where
  "weak_spsc_example = \<lparr>wq_size = 8, wq_cached_head = 0, wq_cached_tail = 0, wq_mem = wm_new (weak_spsc_initial 0),
     wq_producer = P_Idle, wq_consumer = C_Idle\<rparr>"

definition weak_spsc_schedule :: "nat weak_spsc_choice list" where
  "weak_spsc_schedule =
     concat (map (\<lambda>i. [WCall_Emplace (10 + i), WStep_Producer i, WStep_Producer 0, WStep_Producer 0]) [0..<7]) @
     [WCall_Consumer Op_Dequeue_to, WStep_Consumer 0, WStep_Consumer 7, WStep_Consumer 0, WStep_Consumer 0,
      WCall_Emplace 17, WStep_Producer 7, WStep_Producer 0,
      WCall_Emplace 17, WStep_Producer 7, WStep_Producer 1, WStep_Producer 0, WStep_Producer 0]"

definition weak_spsc_events :: "nat weak_spsc_event list" where
  "weak_spsc_events = map (\<lambda>i. WEnq (10 + i)) [0..<7] @ [WDeq 10, WFull 0, WEnq 17]"

lemma weak_spsc_example_new: "weak_spsc_new 0 5 = Inr weak_spsc_example"
proof -
  have "spsc_GetBufferSize 5 = Inr 8" by code_simp
  then show ?thesis by (simp add: weak_spsc_new_def weak_spsc_example_def)
qed

lemma spsc_release_acquire_witness:
  "\<exists>t log. reaches (weak_spsc_step id) weak_spsc_example weak_spsc_events t \<and>
     accepts log_spec weak_spsc_events \<lparr>log_cap = 7, log_in = [], log_out = 0\<rparr> = Some log \<and> log_out log = wm_top Head (wq_mem t)"
proof -
  have "map_option fst (run (weak_spsc_step id) weak_spsc_schedule weak_spsc_example) = Some weak_spsc_events"
    by code_simp
  then obtain t where t: "run (weak_spsc_step id) weak_spsc_schedule weak_spsc_example = Some (weak_spsc_events, t)"
    by auto
  have n: "unat (wq_size weak_spsc_example) - 1 = 7" by (simp add: weak_spsc_example_def)
  from spsc_release_acquire [OF weak_spsc_example_new run_reaches [OF t]]
  show ?thesis unfolding n using run_reaches [OF t] by blast
qed

end
