(* ===== verification/Spin_Lock_Weak.thy ===== *)
theory Spin_Lock_Weak
  imports Spin_Lock Weak_Memory
begin

text \<open>
  \<open>SpinLock\<close> (lock/spin_lock.h) with the memory orders that the code has, and an object that is only used
  inside the lock. The exchange that takes the lock is a release operation and does not acquire what
  the last owner released: owners exclude each other, but their accesses to the object race.
\<close>

section \<open>The operations with their orders\<close>

datatype guarded = Locked_flag | Guarded_object

datatype 'd guarded_value = Flag (is_set: bool) | Object (the_object: 'd)

type_synonym 'd guarded_mem = "(guarded, 'd guarded_value) weak_mem"

text \<open>The order of both calls of \<open>exchange\<close>.\<close>

definition exchange_order :: memory_order where
  "exchange_order = Release"

text \<open>
  The accesses of \<open>Lock\<close> and \<open>TryLock\<close> as in \<open>Spin_Lock\<close>; \<open>k\<close> is the write that a load reads. The order of the
  exchange is an argument.
\<close>

fun weak_Lock_step :: "memory_order \<Rightarrow> nat \<Rightarrow> nat \<Rightarrow> spin_pc \<Rightarrow> 'd guarded_mem \<Rightarrow> (spin_pc option \<times> 'd guarded_mem) option" where
  "weak_Lock_step ord i k S_Exchange m =
     (let (locked, m') = wm_exchange ord i Locked_flag (Flag True) m
      in Some (if \<not> is_set locked then None else Some S_Wait, m'))"
| "weak_Lock_step ord i k S_Wait m =
     (case wm_load Acquire i Locked_flag k m of
        None \<Rightarrow> None
      | Some (locked, m') \<Rightarrow> Some (if is_set locked then Some S_Wait else Some S_Exchange, m'))"

fun weak_TryLock_step :: "memory_order \<Rightarrow> nat \<Rightarrow> nat \<Rightarrow> try_pc \<Rightarrow> 'd guarded_mem \<Rightarrow> ((bool + try_pc) \<times> 'd guarded_mem) option" where
  "weak_TryLock_step ord i k T_Load m =
     (case wm_load Acquire i Locked_flag k m of
        None \<Rightarrow> None
      | Some (locked, m') \<Rightarrow> Some (if \<not> is_set locked then Inr T_Exchange else Inl False, m'))"
| "weak_TryLock_step ord i k T_Exchange m =
     (let (locked, m') = wm_exchange ord i Locked_flag (Flag True) m
      in Some (Inl (\<not> is_set locked), m'))"

definition weak_Unlock :: "nat \<Rightarrow> 'd guarded_mem \<Rightarrow> 'd guarded_mem" where
  "weak_Unlock i m = wm_store Release i Locked_flag (Flag False) m"

section \<open>Any number of threads\<close>

record 'd weak_spin =
  wsp_mem :: "'d guarded_mem"
  wsp_thread :: "nat \<Rightarrow> spin_thread"

datatype 'd weak_spin_choice = WLock nat | WTryLock nat | WUnlock nat | WStep nat nat | WUse nat 'd

datatype 'd weak_spin_event = Takes nat | Refused nat | Leaves nat | Uses nat 'd 'd | Races nat

text \<open>Inside the lock a thread may read the object and replace it, any number of times.\<close>

fun weak_spin_step :: "memory_order \<Rightarrow> 'd weak_spin_choice \<Rightarrow> 'd weak_spin \<Rightarrow> ('d weak_spin_event list \<times> 'd weak_spin) option" where
  "weak_spin_step ord (WLock i) s =
     (if wsp_thread s i = Outside
      then Some ([], s\<lparr>wsp_thread := (wsp_thread s)(i := Locking S_Exchange)\<rparr>) else None)"
| "weak_spin_step ord (WTryLock i) s =
     (if wsp_thread s i = Outside
      then Some ([], s\<lparr>wsp_thread := (wsp_thread s)(i := Trying T_Load)\<rparr>) else None)"
| "weak_spin_step ord (WUnlock i) s =
     (if wsp_thread s i = Inside
      then Some ([Leaves i], s\<lparr>wsp_mem := weak_Unlock i (wsp_mem s), wsp_thread := (wsp_thread s)(i := Outside)\<rparr>)
      else None)"
| "weak_spin_step ord (WUse i d) s =
     (if wsp_thread s i = Inside
      then (case wm_plain i Guarded_object (\<lambda>_. Object d) (wsp_mem s) of
              None \<Rightarrow> Some ([Races i], s)
            | Some (x, m) \<Rightarrow> Some ([Uses i (the_object x) d], s\<lparr>wsp_mem := m\<rparr>))
      else None)"
| "weak_spin_step ord (WStep i k) s =
     (case wsp_thread s i of
        Locking p \<Rightarrow>
          (case weak_Lock_step ord i k p (wsp_mem s) of
             None \<Rightarrow> None
           | Some (None, m) \<Rightarrow> Some ([Takes i], s\<lparr>wsp_mem := m, wsp_thread := (wsp_thread s)(i := Inside)\<rparr>)
           | Some (Some p', m) \<Rightarrow> Some ([], s\<lparr>wsp_mem := m, wsp_thread := (wsp_thread s)(i := Locking p')\<rparr>))
      | Trying p \<Rightarrow>
          (case weak_TryLock_step ord i k p (wsp_mem s) of
             None \<Rightarrow> None
           | Some (Inl True, m) \<Rightarrow> Some ([Takes i], s\<lparr>wsp_mem := m, wsp_thread := (wsp_thread s)(i := Inside)\<rparr>)
           | Some (Inl False, m) \<Rightarrow> Some ([Refused i], s\<lparr>wsp_mem := m, wsp_thread := (wsp_thread s)(i := Outside)\<rparr>)
           | Some (Inr p', m) \<Rightarrow> Some ([], s\<lparr>wsp_mem := m, wsp_thread := (wsp_thread s)(i := Trying p')\<rparr>))
      | _ \<Rightarrow> None)"

definition weak_spin_new :: "'d \<Rightarrow> 'd weak_spin" where
  "weak_spin_new d = \<lparr>wsp_mem = wm_new (\<lambda>l. case l of Locked_flag \<Rightarrow> Flag False | Guarded_object \<Rightarrow> Object d),
     wsp_thread = (\<lambda>i. Outside)\<rparr>"

section \<open>What the lock is for\<close>

text \<open>
  The specification: the owner and the object. Only the owner uses the object, every use finds what the
  last one left, and there is no race.
\<close>

fun guarded_spec :: "'d weak_spin_event \<Rightarrow> nat option \<times> 'd \<Rightarrow> (nat option \<times> 'd) option" where
  "guarded_spec (Takes i) (own, d) = (if own = None then Some (Some i, d) else None)"
| "guarded_spec (Leaves i) (own, d) = (if own = Some i then Some (None, d) else None)"
| "guarded_spec (Refused i) (own, d) = (if own = Some i then None else Some (own, d))"
| "guarded_spec (Uses i x y) (own, d) = (if own = Some i \<and> x = d then Some (own, y) else None)"
| "guarded_spec (Races i) (own, d) = None"

text \<open>The same without the object: mutual exclusion alone.\<close>

fun exclusion_spec :: "'d weak_spin_event \<Rightarrow> nat option \<Rightarrow> nat option option" where
  "exclusion_spec (Takes i) own = (if own = None then Some (Some i) else None)"
| "exclusion_spec (Leaves i) own = (if own = Some i then Some None else None)"
| "exclusion_spec (Refused i) own = (if own = Some i then None else Some own)"
| "exclusion_spec (Uses i x y) own = (if own = Some i then Some own else None)"
| "exclusion_spec (Races i) own = (if own = Some i then Some own else None)"

definition excl :: "'d guarded_mem \<Rightarrow> (nat \<Rightarrow> spin_thread) \<Rightarrow> nat option \<Rightarrow> bool" where
  "excl m th own \<longleftrightarrow> wm_ok m \<and> (\<forall>i. th i = Inside \<longleftrightarrow> own = Some i) \<and> wm_latest Locked_flag m = Flag (own \<noteq> None)"

abbreviation weak_spin_excl :: "'d weak_spin \<Rightarrow> nat option \<Rightarrow> bool" where
  "weak_spin_excl s \<equiv> excl (wsp_mem s) (wsp_thread s)"

text \<open>
  With an exchange that acquires, the owner has seen every access to the object; while the lock is free,
  the last write of the flag carries a view that has.
\<close>

definition covers :: "'d guarded_mem \<Rightarrow> nat option \<Rightarrow> bool" where
  "covers m own \<longleftrightarrow> wm_top Guarded_object m \<le>
     (case own of None \<Rightarrow> snd (last (wm_hist m Locked_flag)) Guarded_object
                | Some i \<Rightarrow> wm_view m i Guarded_object)"

definition weak_spin_rel :: "'d weak_spin \<Rightarrow> nat option \<times> 'd \<Rightarrow> bool" where
  "weak_spin_rel s a \<longleftrightarrow> weak_spin_excl s (fst a) \<and>
     wm_latest Guarded_object (wsp_mem s) = Object (snd a) \<and> covers (wsp_mem s) (fst a)"

lemma covers_load:
  assumes "wm_load ord i Locked_flag k m = Some (x, m')" "covers m own"
  shows "covers m' own"
  using assms(2) wm_load_Some [OF assms(1)] wm_load_same(1) [OF assms(1)]
  by (cases own) (auto simp: covers_def Let_def le_supI1)

lemma covers_refused:
  assumes "wm_exchange ord i Locked_flag y m = (x, m')" "covers m (Some j)"
  shows "covers m' (Some j)"
  using assms(2) wm_exchange_simps(3) [OF assms(1)] wm_exchange_latest(2) [OF assms(1)]
  by (auto simp: covers_def le_supI1)

lemma covers_taken:
  assumes "wm_exchange ord i Locked_flag y m = (x, m')" "covers m None" "acquires ord"
  shows "covers m' (Some i)"
  using assms(2,3) wm_exchange_simps(3) [OF assms(1)] wm_exchange_latest(2) [OF assms(1)]
  by (auto simp: covers_def le_supI2)

lemma covers_left: "wm_ok m \<Longrightarrow> covers m (Some i) \<Longrightarrow> covers (weak_Unlock i m) None"
  by (simp add: covers_def weak_Unlock_def wm_store_top)

lemma covers_used: "wm_ok m \<Longrightarrow> covers (wm_store ord i Guarded_object x m) (Some i)"
  by (simp add: covers_def wm_store_top length_hist)

lemma excl_inside: "excl m th own \<Longrightarrow> th i = Inside \<longleftrightarrow> own = Some i"
  by (simp add: excl_def)

lemma excl_flag: "excl m th own \<Longrightarrow> is_set (wm_latest Locked_flag m) \<longleftrightarrow> own \<noteq> None"
  by (simp add: excl_def)

lemma excl_move:
  assumes "excl m th own" "th i \<noteq> Inside" "pc \<noteq> Inside" "wm_ok m'" "wm_latest Locked_flag m' = wm_latest Locked_flag m"
  shows "excl m' (th(i := pc)) own"
  using assms by (auto simp: excl_def)

lemma excl_own:
  assumes "excl m th own" "wm_ok m'" "wm_latest Locked_flag m' = Flag (own' \<noteq> None)"
    "own = None \<and> own' = Some i \<and> pc = Inside \<or> own = Some i \<and> own' = None \<and> pc = Outside"
  shows "excl m' (th(i := pc)) own'"
  using assms by (auto simp: excl_def)

lemma excl_used: "excl m th own \<Longrightarrow> excl (wm_store ord i Guarded_object x m) th own"
  by (simp add: excl_def)

section \<open>The steps\<close>

text \<open>What a step of \<open>Lock\<close> or \<open>TryLock\<close> comes to, when the thread is not inside.\<close>

definition spin_move :: "'d weak_spin \<Rightarrow> nat \<Rightarrow> 'd weak_spin_event list \<Rightarrow> 'd weak_spin \<Rightarrow> bool" where
  "spin_move s i e t \<longleftrightarrow> (\<exists>pc. pc \<noteq> Inside \<and> (e = [] \<or> e = [Refused i]) \<and> wsp_thread t = (wsp_thread s)(i := pc))"

lemma spin_moveI:
  "wsp_thread t = (wsp_thread s)(i := pc) \<Longrightarrow> pc \<noteq> Inside \<Longrightarrow> e = [] \<or> e = [Refused i] \<Longrightarrow> spin_move s i e t"
  by (auto simp: spin_move_def)

lemma weak_spin_step_cases:
  assumes step: "weak_spin_step ord (WStep i k) s = Some (e, t)"
  shows "wsp_thread s i \<noteq> Inside \<and>
    ((\<exists>x. wm_load Acquire i Locked_flag k (wsp_mem s) = Some (x, wsp_mem t) \<and> spin_move s i e t) \<or>
     (\<exists>x. wm_exchange ord i Locked_flag (Flag True) (wsp_mem s) = (x, wsp_mem t) \<and>
        (if is_set x then spin_move s i e t else e = [Takes i] \<and> wsp_thread t = (wsp_thread s)(i := Inside))))"
proof -
  obtain x m where x: "wm_exchange ord i Locked_flag (Flag True) (wsp_mem s) = (x, m)" by fastforce
  consider (lx) "wsp_thread s i = Locking S_Exchange" | (tx) "wsp_thread s i = Trying T_Exchange"
    | (lw) "wsp_thread s i = Locking S_Wait" | (tl) "wsp_thread s i = Trying T_Load"
  proof (cases "wsp_thread s i")
    case (Locking p)
    with lx lw show ?thesis by (cases p) auto
  next
    case (Trying p)
    with tx tl show ?thesis by (cases p) auto
  qed (use step in simp_all)
  then show ?thesis
  proof cases
    case lx
    with step x show ?thesis
      by (intro conjI disjI2 exI [of _ x]) (auto intro: spin_moveI [of _ _ _ "Locking S_Wait"] split: if_splits)
  next
    case tx
    with step x show ?thesis
      by (cases "is_set x") (force intro: spin_moveI [of _ _ _ Outside])+
  next
    case lw
    with step obtain y m where y: "wm_load Acquire i Locked_flag k (wsp_mem s) = Some (y, m)"
      by (cases "wm_load Acquire i Locked_flag k (wsp_mem s)") auto
    with step lw show ?thesis
      by (intro conjI disjI1 exI [of _ y]) (auto intro: spin_moveI split: if_splits)
  next
    case tl
    with step obtain y m where y: "wm_load Acquire i Locked_flag k (wsp_mem s) = Some (y, m)"
      by (cases "wm_load Acquire i Locked_flag k (wsp_mem s)") auto
    with step tl show ?thesis
      by (intro conjI disjI1 exI [of _ y]) (auto intro: spin_moveI split: if_splits)
  qed
qed

lemma spin_move_excl:
  assumes "spin_move s i e t" "weak_spin_excl s own" "wsp_thread s i \<noteq> Inside" "wm_ok (wsp_mem t)"
    "wm_latest Locked_flag (wsp_mem t) = wm_latest Locked_flag (wsp_mem s)"
  shows "weak_spin_excl t own" "accepts exclusion_spec e own = Some own" "accepts guarded_spec e (own, d) = Some (own, d)"
  using assms excl_move [of "wsp_mem s" "wsp_thread s" own i] excl_inside [of "wsp_mem s" "wsp_thread s" own i]
  by (auto simp: spin_move_def)

lemma weak_spin_excl_step:
  assumes rel: "weak_spin_excl s own" and step: "weak_spin_step ord c s = Some (e, t)"
  shows "\<exists>own'. accepts exclusion_spec e own = Some own' \<and> weak_spin_excl t own'"
proof -
  have ok: "wm_ok (wsp_mem s)" using rel by (simp add: excl_def)
  show ?thesis
  proof (cases c)
    case (WLock i)
    then show ?thesis using step excl_move [OF rel, of i "Locking S_Exchange" "wsp_mem s"] ok by (auto split: if_splits)
  next
    case (WTryLock i)
    then show ?thesis using step excl_move [OF rel, of i "Trying T_Load" "wsp_mem s"] ok by (auto split: if_splits)
  next
    case (WUnlock i)
    then show ?thesis
      using step excl_own [OF rel, of "weak_Unlock i (wsp_mem s)" None i Outside] excl_inside [OF rel, of i] ok
      by (auto simp: weak_Unlock_def split: if_splits)
  next
    case (WUse i d)
    then show ?thesis
      using step rel excl_inside [OF rel, of i] excl_used [OF rel] by (auto simp: wm_plain_Some split: if_splits option.splits)
  next
    case (WStep i k)
    note out = weak_spin_step_cases [OF step [unfolded WStep]]
    from out consider (load) x where "wm_load Acquire i Locked_flag k (wsp_mem s) = Some (x, wsp_mem t)" "spin_move s i e t"
      | (exch) x where "wm_exchange ord i Locked_flag (Flag True) (wsp_mem s) = (x, wsp_mem t)"
        "if is_set x then spin_move s i e t else e = [Takes i] \<and> wsp_thread t = (wsp_thread s)(i := Inside)"
      by blast
    then show ?thesis
    proof cases
      case load
      then show ?thesis using spin_move_excl [OF load(2) rel] out ok wm_load_same [OF load(1)] by auto
    next
      case exch
      note x = wm_exchange_simps(1) [OF exch(1)] wm_exchange_latest [OF exch(1)]
      show ?thesis
      proof (cases own)
        case None
        then have "\<not> is_set x" using excl_flag [OF rel] x by simp
        then show ?thesis
          using exch(2) excl_own [OF rel, of "wsp_mem t" "Some i" i Inside] None x ok by auto
      next
        case (Some j)
        then have "wm_latest Locked_flag (wsp_mem s) = Flag True" using rel by (simp add: excl_def)
        then show ?thesis using exch(2) spin_move_excl [OF _ rel] out x ok by auto
      qed
    qed
  qed
qed

lemma weak_spin_rel_step:
  assumes ord: "acquires ord" and rel: "weak_spin_rel s a" and step: "weak_spin_step ord c s = Some (e, t)"
  shows "\<exists>b. accepts guarded_spec e a = Some b \<and> weak_spin_rel t b"
proof -
  obtain own d where a: "a = (own, d)" by (cases a)
  have ex: "weak_spin_excl s own" and obj: "wm_latest Guarded_object (wsp_mem s) = Object d"
    and cov: "covers (wsp_mem s) own" using rel by (auto simp: weak_spin_rel_def a)
  have ok: "wm_ok (wsp_mem s)" using ex by (simp add: excl_def)
  show ?thesis
  proof (cases c)
    case (WLock i)
    then show ?thesis using step excl_move [OF ex, of i "Locking S_Exchange" "wsp_mem s"] ok obj cov
      by (auto simp: a weak_spin_rel_def split: if_splits)
  next
    case (WTryLock i)
    then show ?thesis using step excl_move [OF ex, of i "Trying T_Load" "wsp_mem s"] ok obj cov
      by (auto simp: a weak_spin_rel_def split: if_splits)
  next
    case (WUnlock i)
    then show ?thesis
      using step excl_own [OF ex, of "weak_Unlock i (wsp_mem s)" None i Outside] excl_inside [OF ex, of i]
        covers_left [OF ok] cov obj ok
      by (auto simp: a weak_spin_rel_def weak_Unlock_def split: if_splits)
  next
    case (WUse i v)
    then have own: "own = Some i" using step excl_inside [OF ex, of i] by (auto split: if_splits)
    with cov have "wm_top Guarded_object (wsp_mem s) \<le> wm_view (wsp_mem s) i Guarded_object" by (simp add: covers_def)
    then have "wm_plain i Guarded_object (\<lambda>_. Object v) (wsp_mem s) =
      Some (Object d, wm_store Relaxed i Guarded_object (Object v) (wsp_mem s))" by (simp add: wm_plain_Some obj)
    with WUse step own show ?thesis
      using covers_used [OF ok] excl_used [OF ex] by (auto simp: a weak_spin_rel_def split: if_splits)
  next
    case (WStep i k)
    note out = weak_spin_step_cases [OF step [unfolded WStep]]
    from out consider (load) x where "wm_load Acquire i Locked_flag k (wsp_mem s) = Some (x, wsp_mem t)" "spin_move s i e t"
      | (exch) x where "wm_exchange ord i Locked_flag (Flag True) (wsp_mem s) = (x, wsp_mem t)"
        "if is_set x then spin_move s i e t else e = [Takes i] \<and> wsp_thread t = (wsp_thread s)(i := Inside)"
      by blast
    then show ?thesis
    proof cases
      case load
      then show ?thesis
        using spin_move_excl [OF load(2) ex] covers_load [OF load(1) cov] out ok wm_load_same [OF load(1)] obj
        by (auto simp: a weak_spin_rel_def)
    next
      case exch
      note x = wm_exchange_simps(1) [OF exch(1)] wm_exchange_latest [OF exch(1)]
      show ?thesis
      proof (cases own)
        case None
        then have "\<not> is_set x" using excl_flag [OF ex] x by simp
        then show ?thesis
          using exch(2) excl_own [OF ex, of "wsp_mem t" "Some i" i Inside] None x ok obj
            covers_taken [OF exch(1) _ ord] cov by (auto simp: a weak_spin_rel_def)
      next
        case (Some j)
        then have "wm_latest Locked_flag (wsp_mem s) = Flag True" using ex by (simp add: excl_def)
        then show ?thesis
          using exch(2) spin_move_excl [OF _ ex] out x ok obj covers_refused [OF exch(1)] cov Some
          by (auto simp: a weak_spin_rel_def)
      qed
    qed
  qed
qed

lemma weak_spin_new_rel: "weak_spin_rel (weak_spin_new d) (None, d)"
  by (simp add: weak_spin_rel_def weak_spin_new_def excl_def covers_def)

interpretation weak_spin_excludes: simulation "weak_spin_step ord" "\<lambda>s own. (\<exists>d. s = weak_spin_new d) \<and> own = None"
    weak_spin_excl exclusion_spec
  for ord
proof
  show "(\<exists>d. s = weak_spin_new d) \<and> a = None \<Longrightarrow> weak_spin_excl s a" for s :: "'a weak_spin" and a
    by (auto simp: weak_spin_new_def excl_def)
qed (rule weak_spin_excl_step)

text \<open>An order that acquires, whichever of the two it is.\<close>

definition acquire_step :: "bool \<Rightarrow> 'd weak_spin_choice \<Rightarrow> 'd weak_spin \<Rightarrow> ('d weak_spin_event list \<times> 'd weak_spin) option" where
  "acquire_step both = weak_spin_step (if both then AcqRel else Acquire)"

interpretation weak_spin_guards: simulation "acquire_step both" "\<lambda>s a. s = weak_spin_new (snd a) \<and> fst a = None"
    weak_spin_rel guarded_spec
  for both
proof
  show "s = weak_spin_new (snd a) \<and> fst a = None \<Longrightarrow> weak_spin_rel s a" for s :: "'a weak_spin" and a
    by (metis prod.collapse weak_spin_new_rel)
  show "\<exists>b. accepts guarded_spec e a = Some b \<and> weak_spin_rel t b"
    if "weak_spin_rel s a" "acquire_step both c s = Some (e, t)" for s :: "'a weak_spin" and a c e t
    by (rule weak_spin_rel_step [OF _ that [unfolded acquire_step_def]]) simp
qed

section \<open>The properties\<close>

text \<open>
  Property C27. With the order that the code has, owners exclude each other in every interleaving of \<open>Lock\<close>, \<open>TryLock\<close> and \<open>Unlock\<close>,
  whatever older writes of \<open>locked_\<close> the loads read: a thread takes the lock only when nobody has it, and only its owner
  leaves it and uses the object. Which value a load has read only decides whether the thread tries: its exchange takes the lock
  exactly when the lock is free then.
\<close>

theorem spin_excludes_weakly:
  assumes "reaches (weak_spin_step exchange_order) (weak_spin_new d) es t"
  shows "\<exists>own. accepts exclusion_spec es None = Some own \<and> (\<forall>i. wsp_thread t i = Inside \<longleftrightarrow> own = Some i) \<and>
    (\<forall>i k. wsp_thread t i = Locking S_Exchange \<or> wsp_thread t i = Trying T_Exchange \<longrightarrow>
      map_option (\<lambda>(e, u). (e = [Takes i], wsp_thread u i = Inside)) (weak_spin_step exchange_order (WStep i k) t) =
        Some (own = None, own = None))"
proof -
  obtain own where own: "accepts exclusion_spec es None = Some own" "weak_spin_excl t own"
    using weak_spin_excludes.simulates [OF _ assms, of None] by blast
  have "map_option (\<lambda>(e, u). (e = [Takes i], wsp_thread u i = Inside)) (weak_spin_step exchange_order (WStep i k) t) =
      Some (own = None, own = None)"
    if i: "wsp_thread t i = Locking S_Exchange \<or> wsp_thread t i = Trying T_Exchange" for i k
  proof -
    obtain x m where x: "wm_exchange exchange_order i Locked_flag (Flag True) (wsp_mem t) = (x, m)" by fastforce
    have "is_set x \<longleftrightarrow> own \<noteq> None" using wm_exchange_simps(1) [OF x] excl_flag [OF own(2)] by simp
    then show ?thesis using i x by (cases "own = None") auto
  qed
  with own excl_inside [OF own(2)] show ?thesis by blast
qed

text \<open>
  What another order would be worth. If the exchange of \<open>Lock\<close> and \<open>TryLock\<close>
  acquired, then in every interleaving and whatever stale writes the loads read, uses of the object would be
  free of data races and each would find what the last one, by whichever thread, has left.
\<close>

theorem spin_acquire_guards:
  fixes d :: 'd
  assumes "acquires ord" "reaches (weak_spin_step ord) (weak_spin_new d) es t"
  shows "\<exists>own d'. accepts guarded_spec es (None, d) = Some (own, d') \<and>
    (\<forall>i. wsp_thread t i = Inside \<longleftrightarrow> own = Some i) \<and> (\<forall>i. Races i \<notin> set es)"
proof -
  have "weak_spin_step ord = (acquire_step (ord = AcqRel) :: 'd weak_spin_choice \<Rightarrow> _)"
    using assms(1) by (cases ord) (simp_all add: acquire_step_def)
  then have "reaches (acquire_step (ord = AcqRel)) (weak_spin_new d) es t" using assms(2) by simp
  from weak_spin_guards.simulates [OF _ this, of "(None, d)"]
  obtain b where b: "accepts guarded_spec es (None, d) = Some b" "weak_spin_rel t b" by auto
  have "accepts guarded_spec es a = Some c \<Longrightarrow> Races i \<notin> set es" for es :: "'d weak_spin_event list" and a c i
    by (induction es arbitrary: a) (auto split: option.splits)
  with b show ?thesis by (cases b) (auto simp: weak_spin_rel_def excl_def)
qed

text \<open>
  Property C28. The code's exchange is a release operation and does not acquire: a thread that
  takes the lock after another one has left it has not seen the other's use of the object, and its own
  use is a data race. It is so for \<open>Lock\<close> when its first exchange succeeds, and for \<open>TryLock\<close> when its
  load reads a write of \<open>locked_\<close> older than the last one. A \<open>Lock\<close> that waited and read the last write is safe.
\<close>

theorem spin_release_races:
  assumes "i \<noteq> j"
  shows "map_option fst (run (weak_spin_step exchange_order)
      [WLock i, WStep i 0, WUse i x, WUnlock i, WLock j, WStep j 0, WUse j y] (weak_spin_new d)) =
      Some [Takes i, Uses i d x, Leaves i, Takes j, Races j] \<and>
    map_option fst (run (weak_spin_step exchange_order)
      [WLock i, WStep i 0, WUse i x, WUnlock i, WTryLock j, WStep j 0, WStep j 0, WUse j y] (weak_spin_new d)) =
      Some [Takes i, Uses i d x, Leaves i, Takes j, Races j] \<and>
    map_option fst (run (weak_spin_step exchange_order)
      [WLock i, WStep i 0, WLock j, WStep j 0, WUse i x, WUnlock i, WStep j 3, WStep j 0, WUse j y] (weak_spin_new d)) =
      Some [Takes i, Uses i d x, Leaves i, Takes j, Uses j x y]"
  using assms
  by (simp add: Let_def weak_spin_new_def exchange_order_def wm_new_def wm_exchange_def wm_load_def wm_plain_def wm_store_def
      wm_top_def wm_latest_def weak_Unlock_def)

section \<open>Concrete runs\<close>

text \<open>Three threads share the object; the second is still waiting at the end.\<close>

definition weak_spin_schedule :: "nat weak_spin_choice list" where
  "weak_spin_schedule = [WLock 0, WStep 0 0, WLock 1, WStep 1 0, WUse 0 7, WUse 0 8, WUnlock 0, WTryLock 2, WStep 2 0,
     WStep 2 0, WUse 2 9, WUnlock 2]"

definition weak_spin_events :: "nat weak_spin_event list" where
  "weak_spin_events = [Takes 0, Uses 0 6 7, Uses 0 7 8, Leaves 0, Takes 2, Uses 2 8 9, Leaves 2]"

lemma spin_excludes_weakly_witness:
  "\<exists>t. run (weak_spin_step exchange_order) [WLock 0, WStep 0 0, WTryLock 1, WStep 1 0] (weak_spin_new (6 :: nat)) = Some ([Takes 0], t) \<and>
     wsp_thread t 1 = Trying T_Exchange \<and>
     map_option (\<lambda>(e, u). (e = [Takes 1], wsp_thread u 1 = Inside)) (weak_spin_step exchange_order (WStep 1 0) t) = Some (False, False)"
proof -
  have "map_option (\<lambda>(e, t). (e, wsp_thread t 1)) (run (weak_spin_step exchange_order) [WLock 0, WStep 0 0, WTryLock 1, WStep 1 0]
      (weak_spin_new (6 :: nat))) = Some ([Takes 0], Trying T_Exchange)" by code_simp
  then obtain t where t: "run (weak_spin_step exchange_order) [WLock 0, WStep 0 0, WTryLock 1, WStep 1 0] (weak_spin_new (6 :: nat)) =
      Some ([Takes 0], t)" "wsp_thread t 1 = Trying T_Exchange" by auto
  have "map_option (\<lambda>(e, u). (e = [Takes 1], wsp_thread u 1 = Inside)) (weak_spin_step exchange_order (WStep 1 0) t) = Some (False, False)"
    using spin_excludes_weakly [OF run_reaches [OF t(1)]] t(2) by auto
  with t show ?thesis by blast
qed

lemma spin_acquire_guards_witness:
  "\<exists>t. reaches (weak_spin_step Acquire) (weak_spin_new 6) weak_spin_events t \<and>
     accepts guarded_spec weak_spin_events (None, 6) = Some (None, 9) \<and> wsp_thread t 1 \<noteq> Inside"
proof -
  have "map_option fst (run (weak_spin_step Acquire) weak_spin_schedule (weak_spin_new 6)) = Some weak_spin_events"
    by code_simp
  then obtain t where t: "run (weak_spin_step Acquire) weak_spin_schedule (weak_spin_new 6) = Some (weak_spin_events, t)"
    by auto
  have "accepts guarded_spec weak_spin_events (None, 6) = Some (None, 9)" by (simp add: weak_spin_events_def)
  with spin_acquire_guards [OF _ run_reaches [OF t]] run_reaches [OF t] show ?thesis by auto
qed

lemma spin_release_races_witness:
  "map_option fst (run (weak_spin_step exchange_order)
      [WLock 0, WStep 0 0, WUse 0 7, WUnlock 0, WLock 1, WStep 1 0, WUse 1 8] (weak_spin_new (6 :: nat))) =
     Some [Takes 0, Uses 0 6 7, Leaves 0, Takes 1, Races 1]"
  by (rule spin_release_races [THEN conjunct1]) simp

end
