(* ===== verification/Seq_Lock_Weak.thy ===== *)
theory Seq_Lock_Weak
  imports Seq_Lock_Atomic Weak_Memory
begin

text \<open>
  The sequence lock (lock/seq_lock.h) with the memory orders and the fences that the code has. The bytes
  of the protected object are written and read by relaxed accesses; it is the fences and the counter that keep a
  load from returning a mixture, whatever stale values its accesses read. What the loads and the stores
  access is given by \<open>weak_ops\<close>, of which \<open>SeqLockAtomic<T>\<close> is one instance here and the message of the
  multicast queue another.
\<close>

section \<open>The operations with their orders\<close>

text \<open>The counter, and a location for each part of the object that is accessed at once.\<close>

datatype 'p seq_loc = Seq_counter | Part 'p

datatype 'v seq_value = Count (count: counter) | Content (content_of: 'v)

type_synonym ('p, 'v) seq_mem = "('p seq_loc, 'v seq_value) weak_mem"

text \<open>
  The part that a load reads after the values it has read so far, if it reads on; what it returns; the
  writes of a store in their order; the objects that a store may be called with.
\<close>

record ('p, 'v, 'd) weak_ops =
  wo_next :: "'v list \<Rightarrow> 'p option"
  wo_result :: "'v list \<Rightarrow> 'd"
  wo_writes :: "'d \<Rightarrow> ('p \<times> 'v) list"
  wo_fits :: "'d \<Rightarrow> bool"

text \<open>
  A reader has \<open>seq0\<close>, which write of the counter that was, and the values it has read. A writer has the
  \<open>seq\<close> that \<open>Lock\<close> returned, the object and the number of writes it has made.
\<close>

datatype ('v, 'd) weak_seq_pc =
    WQ_Idle
  | WR_Seq0
  | WR_Copy counter nat "'v list"
  | WW_Lock 'd seq_lock_pc
  | WW_Copy counter 'd nat

datatype 'd weak_seq_event = WLoaded nat 'd nat nat | WStored nat 'd

text \<open>The acquire fence and the relaxed load of \<open>seq1\<close> that follows it are one step.\<close>

fun weak_Load_step :: "('p, 'v, 'd) weak_ops \<Rightarrow> nat \<Rightarrow> nat \<Rightarrow> ('v, 'd) weak_seq_pc \<Rightarrow> ('p, 'v) seq_mem \<Rightarrow>
    ('d weak_seq_event list \<times> ('v, 'd) weak_seq_pc \<times> ('p, 'v) seq_mem) option" where
  "weak_Load_step ops i k WR_Seq0 m =
     (case wm_load Acquire i Seq_counter k m of
        None \<Rightarrow> None
      | Some (seq0, m) \<Rightarrow> Some ([], WR_Copy (count seq0) k [], m))"
| "weak_Load_step ops i k (WR_Copy seq0 v0 loaded) m =
     (case wo_next ops loaded of
        Some p \<Rightarrow>
          (case wm_load Relaxed i (Part p) k m of
             None \<Rightarrow> None
           | Some (v, m) \<Rightarrow> Some ([], WR_Copy seq0 v0 (loaded @ [content_of v]), m))
      | None \<Rightarrow>
          (case wm_load Relaxed i Seq_counter k (wm_fence_acquire i m) of
             None \<Rightarrow> None
           | Some (seq1, m) \<Rightarrow>
               Some (if seq_IsLocked seq0 \<or> seq0 \<noteq> count seq1 then ([], WR_Seq0, m)
                     else ([WLoaded i (wo_result ops loaded) v0 k], WQ_Idle, m))))"
| "weak_Load_step ops i k pc m = None"

text \<open>
  \<open>Lock\<close>: the loads and the failing compare-exchange are relaxed, the successful one acquires; the release
  fence of \<open>Store\<close> follows it. A weak compare-exchange may fail whatever it reads.
\<close>

definition weak_Lock_load :: "nat \<Rightarrow> nat \<Rightarrow> ('p, 'v) seq_mem \<Rightarrow> (seq_lock_pc \<times> ('p, 'v) seq_mem) option" where
  "weak_Lock_load i k m =
     (case wm_load Relaxed i Seq_counter k m of
        None \<Rightarrow> None
      | Some (seq, m) \<Rightarrow> Some (if seq_IsLocked (count seq) then SL_Load else SL_Cas (count seq), m))"

fun weak_Store_step :: "('p, 'v, 'd) weak_ops \<Rightarrow> nat \<Rightarrow> bool \<Rightarrow> nat \<Rightarrow> ('v, 'd) weak_seq_pc \<Rightarrow> ('p, 'v) seq_mem \<Rightarrow>
    ('d weak_seq_event list \<times> ('v, 'd) weak_seq_pc \<times> ('p, 'v) seq_mem) option" where
  "weak_Store_step ops i weak k (WW_Lock d SL_Load) m =
     (case weak_Lock_load i k m of None \<Rightarrow> None | Some (p, m) \<Rightarrow> Some ([], WW_Lock d p, m))"
| "weak_Store_step ops i weak k (WW_Lock d (SL_Cas seq)) m =
     (if \<not> weak \<and> wm_latest Seq_counter m = Count seq
      then (let (_, m) = wm_exchange Acquire i Seq_counter (Count (seq + 1)) m
            in Some ([], WW_Copy seq d 0, wm_fence_release i m))
      else (case weak_Lock_load i k m of None \<Rightarrow> None | Some (p, m) \<Rightarrow> Some ([], WW_Lock d p, m)))"
| "weak_Store_step ops i weak k (WW_Copy seq d j) m =
     (if j < length (wo_writes ops d)
      then (let (p, v) = wo_writes ops d ! j
            in Some ([], WW_Copy seq d (Suc j), wm_store Relaxed i (Part p) (Content v) m))
      else Some ([WStored i d], WQ_Idle, wm_store Release i Seq_counter (Count (seq + 2)) m))"
| "weak_Store_step ops i weak k pc m = None"

record ('p, 'v, 'd) weak_seq_sys =
  wseq_mem :: "('p, 'v) seq_mem"
  wseq_pc :: "nat \<Rightarrow> ('v, 'd) weak_seq_pc"

datatype 'd weak_seq_choice = WQLoad nat | WQStore nat 'd | WQStep nat bool nat

fun weak_seq_step :: "('p, 'v, 'd) weak_ops \<Rightarrow> 'd weak_seq_choice \<Rightarrow> ('p, 'v, 'd) weak_seq_sys \<Rightarrow>
    ('d weak_seq_event list \<times> ('p, 'v, 'd) weak_seq_sys) option" where
  "weak_seq_step ops (WQLoad i) s =
     (if wseq_pc s i = WQ_Idle then Some ([], s\<lparr>wseq_pc := (wseq_pc s)(i := WR_Seq0)\<rparr>) else None)"
| "weak_seq_step ops (WQStore i d) s =
     (if wseq_pc s i = WQ_Idle \<and> wo_fits ops d then Some ([], s\<lparr>wseq_pc := (wseq_pc s)(i := WW_Lock d SL_Load)\<rparr>) else None)"
| "weak_seq_step ops (WQStep i weak k) s =
     (case weak_Load_step ops i k (wseq_pc s i) (wseq_mem s) of
        Some (e, pc, m) \<Rightarrow> Some (e, \<lparr>wseq_mem = m, wseq_pc = (wseq_pc s)(i := pc)\<rparr>)
      | None \<Rightarrow>
         (case weak_Store_step ops i weak k (wseq_pc s i) (wseq_mem s) of
            None \<Rightarrow> None
          | Some (e, pc, m) \<Rightarrow> Some (e, \<lparr>wseq_mem = m, wseq_pc = (wseq_pc s)(i := pc)\<rparr>)))"

fun weak_seq_initial :: "('p \<Rightarrow> 'v) \<Rightarrow> 'p seq_loc \<Rightarrow> 'v seq_value" where
  "weak_seq_initial c Seq_counter = Count 0"
| "weak_seq_initial c (Part p) = Content (c p)"

definition weak_seq_new :: "('p \<Rightarrow> 'v) \<Rightarrow> ('p, 'v, 'd) weak_seq_sys" where
  "weak_seq_new c = \<lparr>wseq_mem = wm_new (weak_seq_initial c), wseq_pc = (\<lambda>i. WQ_Idle)\<rparr>"

section \<open>What it promises\<close>

text \<open>
  The list of all objects stored, oldest first, and for each thread the newest one it has seen. A load
  returns one object of the list, none older than the thread has seen before, provided that fewer than
  \<open>2 ^ 32\<close> changes of the counter fell between its two looks.
\<close>

fun versions_spec :: "'d weak_seq_event \<Rightarrow> 'd list \<times> (nat \<Rightarrow> nat) \<Rightarrow> ('d list \<times> (nat \<Rightarrow> nat)) option" where
  "versions_spec (WLoaded i v v0 v1) (objs, seen) =
     (if v1 < v0 + 2 ^ 32 \<and> \<not> (even v0 \<and> seen i \<le> v0 div 2 \<and> v0 div 2 < length objs \<and> v = objs ! (v0 div 2)) then None
      else Some (objs, seen(i := v0 div 2)))"
| "versions_spec (WStored i d) (objs, seen) = Some (objs @ [d], seen(i := length objs))"

section \<open>The contents of the parts\<close>

fun weak_writing :: "('v, 'd) weak_seq_pc \<Rightarrow> bool" where
  "weak_writing (WW_Copy seq d j) \<longleftrightarrow> True"
| "weak_writing _ \<longleftrightarrow> False"

text \<open>A store leaves the parts that it does not write; a load of \<open>c\<close> has read \<open>loaded\<close>.\<close>

definition overwrite :: "('p \<times> 'v) list \<Rightarrow> ('p \<Rightarrow> 'v) \<Rightarrow> 'p \<Rightarrow> 'v" where
  "overwrite ws c p = (case map_of ws p of None \<Rightarrow> c p | Some x \<Rightarrow> x)"

definition loads_from :: "('v list \<Rightarrow> 'p option) \<Rightarrow> ('p \<Rightarrow> 'v) \<Rightarrow> 'v list \<Rightarrow> bool" where
  "loads_from next c loaded \<longleftrightarrow> (\<forall>j < length loaded. map_option c (next (take j loaded)) = Some (loaded ! j))"

text \<open>The parts that a store writes; how many of the stores up to the \<open>v\<close>-th have written a part, and what it holds then.\<close>

definition written :: "('p, 'v, 'd) weak_ops \<Rightarrow> 'd \<Rightarrow> 'p set" where
  "written ops d = fst ` set (wo_writes ops d)"

primrec writes_of :: "('p, 'v, 'd) weak_ops \<Rightarrow> 'd list \<Rightarrow> 'p \<Rightarrow> nat \<Rightarrow> nat" where
  "writes_of ops objs p 0 = 0"
| "writes_of ops objs p (Suc v) = writes_of ops objs p v + (if p \<in> written ops (objs ! Suc v) then 1 else 0)"

primrec holds :: "('p, 'v, 'd) weak_ops \<Rightarrow> ('p \<Rightarrow> 'v) \<Rightarrow> 'd list \<Rightarrow> nat \<Rightarrow> 'p \<Rightarrow> 'v" where
  "holds ops c objs 0 = c"
| "holds ops c objs (Suc v) = overwrite (wo_writes ops (objs ! Suc v)) (holds ops c objs v)"

lemma writes_of_append: "v < length objs \<Longrightarrow> writes_of ops (objs @ new) p v = writes_of ops objs p v"
  by (induction v) (simp_all add: nth_append)

lemma holds_append: "v < length objs \<Longrightarrow> holds ops c (objs @ new) v = holds ops c objs v"
  by (induction v) (simp_all add: nth_append)

lemma writes_of_mono: "v \<le> v' \<Longrightarrow> writes_of ops objs p v \<le> writes_of ops objs p v'"
  by (rule lift_Suc_mono_le) simp_all

lemma holds_same: "v \<le> v' \<Longrightarrow> writes_of ops objs p v = writes_of ops objs p v' \<Longrightarrow> holds ops c objs v p = holds ops c objs v' p"
proof (induction rule: dec_induct)
  case (step n)
  then have "writes_of ops objs p v = writes_of ops objs p n" "p \<notin> written ops (objs ! Suc n)"
    using writes_of_mono [of v n ops objs p] by (auto split: if_splits)
  moreover from this have "map_of (wo_writes ops (objs ! Suc n)) p = None" by (simp add: map_of_eq_None_iff written_def)
  ultimately show ?case using step.IH by (simp add: overwrite_def)
qed simp

section \<open>The invariant\<close>

text \<open>
  A thread with view \<open>view\<close> and with \<open>acq\<close> behind its loads, while the counter has been changed \<open>V\<close> times and \<open>objs\<close>
  has all complete objects; \<open>c\<close> is what the parts held first. A value that a reader has read is that of its
  version, or the next acquire fence shows it a later change of the counter.
\<close>

fun weak_thread_ok :: "('p, 'v, 'd) weak_ops \<Rightarrow> ('p \<Rightarrow> 'v) \<Rightarrow> nat \<Rightarrow> 'd list \<Rightarrow> 'p seq_loc view \<Rightarrow> 'p seq_loc view \<Rightarrow> nat \<Rightarrow>
    ('v, 'd) weak_seq_pc \<Rightarrow> bool" where
  "weak_thread_ok ops c V objs view acq seen (WR_Copy seq0 v0 loaded) \<longleftrightarrow>
     seq0 = of_nat v0 \<and> v0 \<le> V \<and> v0 \<le> view Seq_counter \<and> seen \<le> v0 div 2 \<and>
     (even v0 \<longrightarrow> (\<forall>p. writes_of ops objs p (v0 div 2) \<le> view (Part p)) \<and>
       (v0 < acq Seq_counter \<or> loads_from (wo_next ops) (holds ops c objs (v0 div 2)) loaded))"
| "weak_thread_ok ops c V objs view acq seen (WW_Lock d p) \<longleftrightarrow>
     wo_fits ops d \<and> (\<forall>seq. p = SL_Cas seq \<longrightarrow> \<not> seq_IsLocked seq)"
| "weak_thread_ok ops c V objs view acq seen (WW_Copy seq d j) \<longleftrightarrow> wo_fits ops d"
| "weak_thread_ok ops c V objs view acq seen pc \<longleftrightarrow> True"

text \<open>What the histories hold: \<open>objs\<close> is followed by the object that is being written, if any.\<close>

definition part_ok :: "('p, 'v, 'd) weak_ops \<Rightarrow> ('p \<Rightarrow> 'v) \<Rightarrow> 'd list \<Rightarrow> ('v seq_value \<times> 'p seq_loc view) list \<Rightarrow> 'p \<Rightarrow> bool" where
  "part_ok ops c objs hist p \<longleftrightarrow> (\<forall>k < length hist. \<forall>v < length objs.
     (writes_of ops objs p v = k \<longrightarrow> fst (hist ! k) = Content (holds ops c objs v p)) \<and>
     (writes_of ops objs p v < k \<longrightarrow> 2 * Suc v \<le> Suc (snd (hist ! k) Seq_counter)))"

definition parts_ok :: "('p, 'v, 'd) weak_ops \<Rightarrow> ('p \<Rightarrow> 'v) \<Rightarrow> 'd list \<Rightarrow> ('p, 'v) seq_mem \<Rightarrow> bool" where
  "parts_ok ops c objs m \<longleftrightarrow> (\<forall>p. part_ok ops c objs (wm_hist m (Part p)) p)"

definition counter_ok :: "('p, 'v, 'd) weak_ops \<Rightarrow> 'd list \<Rightarrow> ('p, 'v) seq_mem \<Rightarrow> bool" where
  "counter_ok ops objs m \<longleftrightarrow> (\<forall>v < length (wm_hist m Seq_counter). fst (wm_hist m Seq_counter ! v) = Count (of_nat v) \<and>
     (even v \<longrightarrow> (\<forall>p. writes_of ops objs p (v div 2) \<le> snd (wm_hist m Seq_counter ! v) (Part p))))"

text \<open>A writer inside, which has made the first \<open>n\<close> writes of \<open>d\<close> and has seen everything.\<close>

definition inside_ok :: "('p, 'v, 'd) weak_ops \<Rightarrow> ('p \<Rightarrow> 'v) \<Rightarrow> 'd list \<Rightarrow> ('p, 'v) seq_mem \<Rightarrow> nat \<Rightarrow> counter \<Rightarrow> 'd \<Rightarrow> nat \<Rightarrow> bool" where
  "inside_ok ops c objs m i seq d n \<longleftrightarrow> n \<le> length (wo_writes ops d) \<and> parts_ok ops c (objs @ [d]) m \<and>
     seq + 1 = of_nat (wm_top Seq_counter m) \<and>
     wm_view m i Seq_counter = wm_top Seq_counter m \<and> wm_rel m i Seq_counter = wm_top Seq_counter m \<and>
     (\<forall>p. wm_top (Part p) m = writes_of ops objs p (wm_top Seq_counter m div 2) +
            (if p \<in> fst ` set (take n (wo_writes ops d)) then 1 else 0) \<and>
        wm_view m i (Part p) = wm_top (Part p) m)"

text \<open>The lock is free and all parts are those of the last object, or one thread is inside.\<close>

definition turn_ok :: "('p, 'v, 'd) weak_ops \<Rightarrow> ('p \<Rightarrow> 'v) \<Rightarrow> 'd list \<Rightarrow> ('p, 'v) seq_mem \<Rightarrow> (nat \<Rightarrow> ('v, 'd) weak_seq_pc) \<Rightarrow> bool" where
  "turn_ok ops c objs m pc \<longleftrightarrow> Suc (wm_top Seq_counter m div 2) = length objs \<and>
     (if even (wm_top Seq_counter m)
      then (\<forall>i. \<not> weak_writing (pc i)) \<and> parts_ok ops c objs m \<and>
        (\<forall>p. wm_top (Part p) m = writes_of ops objs p (wm_top Seq_counter m div 2))
      else \<exists>i seq d n. pc i = WW_Copy seq d n \<and> (\<forall>i'. weak_writing (pc i') \<longrightarrow> i' = i) \<and> inside_ok ops c objs m i seq d n)"

definition weak_seq_rel :: "('p, 'v, 'd) weak_ops \<Rightarrow> ('p \<Rightarrow> 'v) \<Rightarrow> ('p, 'v, 'd) weak_seq_sys \<Rightarrow> 'd list \<times> (nat \<Rightarrow> nat) \<Rightarrow> bool" where
  "weak_seq_rel ops c s a \<longleftrightarrow> wm_wf (wseq_mem s) \<and> counter_ok ops (fst a) (wseq_mem s) \<and> turn_ok ops c (fst a) (wseq_mem s) (wseq_pc s) \<and>
     (\<forall>d \<in> set (fst a). wo_fits ops d) \<and>
     (\<forall>i. 2 * snd a i \<le> wm_view (wseq_mem s) i Seq_counter \<and>
        weak_thread_ok ops c (wm_top Seq_counter (wseq_mem s)) (fst a) (wm_view (wseq_mem s) i) (wm_acq (wseq_mem s) i) (snd a i) (wseq_pc s i))"

lemma turn_facts:
  assumes "turn_ok ops c objs m pc"
  shows "Suc (wm_top Seq_counter m div 2) = length objs" "\<exists>new. parts_ok ops c (objs @ new) m"
  using assms by (auto simp: turn_ok_def inside_ok_def split: if_splits intro: exI [of _ "[]"])

lemma thread_ok_mono:
  assumes "weak_thread_ok ops c V objs view acq seen pc" "V \<le> V'" "Suc (V div 2) = length objs"
  shows "weak_thread_ok ops c V' (objs @ new) view acq seen pc"
proof (cases pc)
  case (WR_Copy seq0 v0 loaded)
  have "v0 div 2 < length objs" if "v0 \<le> V" using that assms(3) div_le_mono [of v0 V 2] by linarith
  then show ?thesis using assms(1,2) WR_Copy by (auto simp: writes_of_append holds_append)
qed (use assms in auto)

lemma rel_facts:
  assumes "weak_seq_rel ops c s (objs, seen)"
  shows "wm_wf (wseq_mem s)" "counter_ok ops objs (wseq_mem s)" "turn_ok ops c objs (wseq_mem s) (wseq_pc s)" "\<forall>d \<in> set objs. wo_fits ops d"
    "2 * seen i \<le> wm_view (wseq_mem s) i Seq_counter"
    "wseq_pc s i = pc \<Longrightarrow> weak_thread_ok ops c (wm_top Seq_counter (wseq_mem s)) objs (wm_view (wseq_mem s) i) (wm_acq (wseq_mem s) i) (seen i) pc"
  using assms by (auto simp: weak_seq_rel_def)

lemma turn_inside:
  assumes "odd (wm_top Seq_counter m)" "pc i = WW_Copy seq d n" "\<And>i'. weak_writing (pc i') \<Longrightarrow> i' = i"
    "Suc (wm_top Seq_counter m div 2) = length objs" "inside_ok ops c objs m i seq d n"
  shows "turn_ok ops c objs m pc"
  using assms unfolding turn_ok_def by auto

text \<open>A new write of the counter.\<close>

lemma counter_ok_write:
  assumes "counter_ok ops objs m" "wm_hist m' Seq_counter = wm_hist m Seq_counter @ [(Count (of_nat n), w)]"
    "length (wm_hist m Seq_counter) = n" "even n \<Longrightarrow> \<forall>p. writes_of ops objs p (n div 2) \<le> w (Part p)"
  shows "counter_ok ops objs m'"
  unfolding counter_ok_def
proof (intro allI impI)
  fix v
  assume "v < length (wm_hist m' Seq_counter)"
  then consider "v < n" | "v = n" using assms(2,3) by fastforce
  then show "fst (wm_hist m' Seq_counter ! v) = Count (of_nat v) \<and>
     (even v \<longrightarrow> (\<forall>p. writes_of ops objs p (v div 2) \<le> snd (wm_hist m' Seq_counter ! v) (Part p)))"
  proof cases
    case 1
    then show ?thesis using assms(1,3) by (simp add: counter_ok_def assms(2) nth_append)
  next
    case 2
    then show ?thesis using assms(3,4) by (simp add: assms(2) nth_append)
  qed
qed

lemma counter_ok_more:
  assumes "counter_ok ops objs m" "wm_ok m" "Suc (wm_top Seq_counter m div 2) = length objs"
  shows "counter_ok ops (objs @ new) m"
proof -
  have "v div 2 < length objs" if "v < length (wm_hist m Seq_counter)" for v
    using that length_hist [OF assms(2), of Seq_counter] assms(3) div_le_mono [of v "wm_top Seq_counter m" 2] by linarith
  then show ?thesis using assms(1) by (simp add: counter_ok_def writes_of_append)
qed


text \<open>A new object to write, and a new write of a part.\<close>

lemma parts_ok_begin:
  assumes "parts_ok ops c objs m" "wm_ok m" "objs \<noteq> []" "\<And>p. wm_top (Part p) m = writes_of ops objs p (length objs - 1)"
    and hist: "\<And>p. wm_hist m' (Part p) = wm_hist m (Part p)"
  shows "parts_ok ops c (objs @ [d]) m'"
  unfolding parts_ok_def part_ok_def hist
proof (intro allI impI conjI)
  fix p k v
  assume k: "k < length (wm_hist m (Part p))" and v: "v < length (objs @ [d])"
  have top: "k \<le> writes_of ops objs p (length objs - 1)" using k assms(4) [of p] length_hist [OF assms(2)] by simp
  obtain n where n: "length objs = Suc n" using assms(3) by (cases objs) auto
  have old: "(writes_of ops objs p v' = k \<longrightarrow> fst (wm_hist m (Part p) ! k) = Content (holds ops c objs v' p)) \<and>
     (writes_of ops objs p v' < k \<longrightarrow> 2 * Suc v' \<le> Suc (snd (wm_hist m (Part p) ! k) Seq_counter))" if "v' < length objs" for v'
    using assms(1) k that by (simp add: parts_ok_def part_ok_def)
  have same: "writes_of ops (objs @ [d]) p n = writes_of ops objs p n" "holds ops c (objs @ [d]) n = holds ops c objs n"
    using n by (simp_all add: writes_of_append holds_append)
  show "fst (wm_hist m (Part p) ! k) = Content (holds ops c (objs @ [d]) v p)" if w: "writes_of ops (objs @ [d]) p v = k"
  proof (cases "v < length objs")
    case False
    then have "v = Suc n" using v n by simp
    then have "writes_of ops (objs @ [d]) p n = writes_of ops (objs @ [d]) p v" using w top n same by (simp split: if_splits)
    then have "holds ops c (objs @ [d]) n p = holds ops c (objs @ [d]) v p" "writes_of ops objs p n = k"
      using holds_same [of n v ops "objs @ [d]" p c] \<open>v = Suc n\<close> w same by simp_all
    then show ?thesis using old [of n] n same by simp
  qed (use old w in \<open>simp add: writes_of_append holds_append\<close>)
  show "2 * Suc v \<le> Suc (snd (wm_hist m (Part p) ! k) Seq_counter)" if w: "writes_of ops (objs @ [d]) p v < k"
  proof (cases "v < length objs")
    case False
    then have "v = Suc n" using v n by simp
    then show ?thesis using w top n same by (simp split: if_splits)
  qed (use old w in \<open>simp add: writes_of_append\<close>)
qed

lemma parts_ok_write:
  assumes parts: "parts_ok ops c (objs @ [d]) m" and ok: "wm_ok m" and objs: "objs \<noteq> []"
    and n: "n < length (wo_writes ops d)" "wo_writes ops d ! n = (p, x)" and dist: "distinct (map fst (wo_writes ops d))"
    and top: "wm_top (Part p) m = writes_of ops objs p (length objs - 1)"
    and hist: "wm_hist m' (Part p) = wm_hist m (Part p) @ [(Content x, w)]" "\<And>p'. p' \<noteq> p \<Longrightarrow> wm_hist m' (Part p') = wm_hist m (Part p')"
    and carried: "2 * length objs \<le> Suc (w Seq_counter)"
  shows "parts_ok ops c (objs @ [d]) m'"
  unfolding parts_ok_def
proof
  fix p'
  have old: "part_ok ops c (objs @ [d]) (wm_hist m (Part p')) p'" using parts by (simp add: parts_ok_def)
  show "part_ok ops c (objs @ [d]) (wm_hist m' (Part p')) p'"
  proof (cases "p' = p")
    case True
    obtain l where l: "length objs = Suc l" using objs by (cases objs) auto
    let ?K = "length (wm_hist m (Part p))"
    have K: "?K = Suc (writes_of ops objs p l)" using top l length_hist [OF ok] by simp
    have mem: "(p, x) \<in> set (wo_writes ops d)" using n nth_mem by metis
    then have map: "map_of (wo_writes ops d) p = Some x" by (rule map_of_is_SomeI [OF dist])
    have last: "writes_of ops (objs @ [d]) p (Suc l) = ?K" "holds ops c (objs @ [d]) (Suc l) p = x"
      using mem map l by (auto simp: K writes_of_append overwrite_def written_def nth_append intro: image_eqI [of _ _ "(p, x)"])
    have before: "v \<le> l" if "writes_of ops (objs @ [d]) p v < ?K" "v < length (objs @ [d])" for v
      using that last(1) l by (cases "v = Suc l") auto
    have after: "v = Suc l" if "writes_of ops (objs @ [d]) p v = ?K" "v < length (objs @ [d])" for v
    proof (rule ccontr)
      assume "v \<noteq> Suc l"
      then have "v \<le> l" using that(2) l by simp
      then have "writes_of ops (objs @ [d]) p v \<le> writes_of ops (objs @ [d]) p l" by (rule writes_of_mono)
      then show False using that(1) K l by (simp add: writes_of_append)
    qed
    show ?thesis unfolding part_ok_def True
    proof (intro allI impI)
      fix k v
      assume k: "k < length (wm_hist m' (Part p))" and v: "v < length (objs @ [d])"
      show "(writes_of ops (objs @ [d]) p v = k \<longrightarrow> fst (wm_hist m' (Part p) ! k) = Content (holds ops c (objs @ [d]) v p)) \<and>
        (writes_of ops (objs @ [d]) p v < k \<longrightarrow> 2 * Suc v \<le> Suc (snd (wm_hist m' (Part p) ! k) Seq_counter))"
      proof (cases "k = ?K")
        case True
        then show ?thesis using before [OF _ v] after [OF _ v] last carried l by (auto simp: hist)
      next
        case False
        then have "k < ?K" using k hist(1) by simp
        then show ?thesis using old v by (simp add: part_ok_def hist nth_append \<open>p' = p\<close>)
      qed
    qed
  qed (use old hist in simp)
qed

text \<open>A step that only reads: the histories stay, the views of one thread grow.\<close>

lemma rel_read:
  assumes rel: "weak_seq_rel ops c s (objs, seen)" and wf: "wm_wf m" and hist: "wm_hist m = wm_hist (wseq_mem s)"
    and views: "\<And>j. j \<noteq> i \<Longrightarrow> wm_view m j = wm_view (wseq_mem s) j \<and> wm_acq m j = wm_acq (wseq_mem s) j \<and> wm_rel m j = wm_rel (wseq_mem s) j"
    and pc: "\<not> weak_writing (wseq_pc s i)" "\<not> weak_writing pc"
    and ok: "weak_thread_ok ops c (wm_top Seq_counter (wseq_mem s)) objs (wm_view m i) (wm_acq m i) n pc"
    and n: "2 * n \<le> wm_view m i Seq_counter"
  shows "weak_seq_rel ops c \<lparr>wseq_mem = m, wseq_pc = (wseq_pc s)(i := pc)\<rparr> (objs, seen(i := n))"
proof -
  have top: "wm_top l m = wm_top l (wseq_mem s)" for l using hist by (simp add: wm_top_def)
  have "turn_ok ops c objs m ((wseq_pc s)(i := pc))"
  proof (cases "even (wm_top Seq_counter m)")
    case True
    then show ?thesis using rel pc by (auto simp: weak_seq_rel_def turn_ok_def top parts_ok_def hist)
  next
    case False
    then obtain i' seq d p where w: "wseq_pc s i' = WW_Copy seq d p" "\<forall>j. weak_writing (wseq_pc s j) \<longrightarrow> j = i'"
        "inside_ok ops c objs (wseq_mem s) i' seq d p"
      using rel by (auto simp: weak_seq_rel_def turn_ok_def top)
    have i': "i' \<noteq> i" using w(1) pc(1) by auto
    then have "inside_ok ops c objs m i' seq d p" using w(3) views by (simp add: inside_ok_def parts_ok_def top hist)
    then show ?thesis
      using False w i' pc(2) turn_facts(1) [OF rel_facts(3) [OF rel]] by (intro turn_inside) (auto simp: top split: if_splits)
  qed
  then show ?thesis
    using rel wf hist views ok n by (auto simp: weak_seq_rel_def counter_ok_def top)
qed

section \<open>Loads\<close>

lemma counter_load:
  assumes "counter_ok ops objs m" "wm_load ord i Seq_counter k m' = Some (x, m'')" "wm_hist m' = wm_hist m"
  shows "count x = of_nat k" "k \<le> wm_top Seq_counter m" "wm_view m' i Seq_counter \<le> k"
    "\<And>p. even k \<Longrightarrow> writes_of ops objs p (k div 2) \<le> snd (wm_hist m Seq_counter ! k) (Part p)"
  using assms(1,3) wm_load_Some [OF assms(2)] by (auto simp: counter_ok_def wm_top_def)

lemma load_others:
  assumes "wm_load ord i l k m = Some (x, m')" "j \<noteq> i"
  shows "wm_view m' j = wm_view m j \<and> wm_acq m' j = wm_acq m j \<and> wm_rel m' j = wm_rel m j"
  using wm_load_Some [OF assms(1)] assms(2) by simp

lemma rel_Seq0:
  assumes rel: "weak_seq_rel ops c s (objs, seen)" and pc: "wseq_pc s i = WR_Seq0"
    and ld: "wm_load Acquire i Seq_counter k (wseq_mem s) = Some (x, m)"
  shows "weak_seq_rel ops c \<lparr>wseq_mem = m, wseq_pc = (wseq_pc s)(i := WR_Copy (count x) k [])\<rparr> (objs, seen)"
proof -
  have c: "counter_ok ops objs (wseq_mem s)" and wf: "wm_wf (wseq_mem s)" and n: "2 * seen i \<le> wm_view (wseq_mem s) i Seq_counter"
    using rel by (auto simp: weak_seq_rel_def)
  note k = counter_load [OF c ld refl] and L = wm_load_Some [OF ld]
  have view: "wm_view m i = sup ((wm_view (wseq_mem s) i)(Seq_counter := k)) (snd (wm_hist (wseq_mem s) Seq_counter ! k))"
    using L by (simp add: Let_def)
  have "weak_seq_rel ops c \<lparr>wseq_mem = m, wseq_pc = (wseq_pc s)(i := WR_Copy (count x) k [])\<rparr> (objs, seen(i := seen i))"
  proof (rule rel_read [OF rel wm_wf_load [OF ld wf] _ load_others [OF ld]])
    show "weak_thread_ok ops c (wm_top Seq_counter (wseq_mem s)) objs (wm_view m i) (wm_acq m i) (seen i) (WR_Copy (count x) k [])"
      using k n by (auto simp: view le_supI2 loads_from_def)
    show "2 * seen i \<le> wm_view m i Seq_counter" using k(3) n by (auto simp: view le_supI1)
  qed (use L pc in auto)
  then show ?thesis by simp
qed

lemma loads_from_snoc:
  "loads_from next c (loaded @ [x]) \<longleftrightarrow> loads_from next c loaded \<and> map_option c (next loaded) = Some x"
  by (auto simp: loads_from_def nth_append less_Suc_eq)

lemma rel_part:
  assumes rel: "weak_seq_rel ops c s (objs, seen)" and pc: "wseq_pc s i = WR_Copy seq0 v0 loaded"
    and p: "wo_next ops loaded = Some p"
    and ld: "wm_load Relaxed i (Part p) k (wseq_mem s) = Some (x, m)"
  shows "weak_seq_rel ops c \<lparr>wseq_mem = m, wseq_pc = (wseq_pc s)(i := WR_Copy seq0 v0 (loaded @ [content_of x]))\<rparr> (objs, seen)"
proof -
  let ?m = "wseq_mem s" and ?v = "v0 div 2"
  have wf: "wm_wf ?m" and n: "2 * seen i \<le> wm_view ?m i Seq_counter"
    and ok: "weak_thread_ok ops c (wm_top Seq_counter ?m) objs (wm_view ?m i) (wm_acq ?m i) (seen i) (WR_Copy seq0 v0 loaded)"
    and turn: "turn_ok ops c objs ?m (wseq_pc s)"
    using rel_facts [OF rel] pc by blast+
  obtain new where parts: "parts_ok ops c (objs @ new) ?m" using turn_facts(2) [OF turn] by blast
  note L = wm_load_Some [OF ld]
  have k: "k < length (wm_hist ?m (Part p))" "wm_view ?m i (Part p) \<le> k" and x: "x = fst (wm_hist ?m (Part p) ! k)"
    using L by auto
  have view: "wm_view m i = (wm_view ?m i)(Part p := k)"
    and acq: "wm_acq m i = sup (wm_acq ?m i) (sup ((wm_view ?m i)(Part p := k)) (snd (wm_hist ?m (Part p) ! k)))"
    using L by simp_all
  have vlt: "?v < length objs"
    using ok turn_facts(1) [OF turn] div_le_mono [of v0 "wm_top Seq_counter ?m" 2] by auto
  have part: "(writes_of ops objs p ?v = k \<longrightarrow> x = Content (holds ops c objs ?v p)) \<and>
      (writes_of ops objs p ?v < k \<longrightarrow> 2 * Suc ?v \<le> Suc (snd (wm_hist ?m (Part p) ! k) Seq_counter))"
  proof -
    have "?v < length (objs @ new)" using vlt by simp
    then show ?thesis
      using parts k(1) unfolding parts_ok_def part_ok_def x
      by (metis writes_of_append [OF vlt, of ops new p] holds_append [OF vlt, of ops c new])
  qed
  have new: "v0 < wm_acq m i Seq_counter \<or> content_of x = holds ops c objs ?v p" if "even v0"
  proof (cases "k = writes_of ops objs p ?v")
    case True
    then show ?thesis using part by simp
  next
    case False
    have "writes_of ops objs p ?v \<le> wm_view ?m i (Part p)" using ok that by auto
    then have "writes_of ops objs p ?v < k" using False k(2) by linarith
    then have "2 * Suc ?v \<le> Suc (snd (wm_hist ?m (Part p) ! k) Seq_counter)" using part by blast
    then have "v0 < snd (wm_hist ?m (Part p) ! k) Seq_counter" using that by presburger
    then show ?thesis unfolding acq by (simp add: sup_nat_def less_max_iff_disj)
  qed
  have "weak_seq_rel ops c \<lparr>wseq_mem = m, wseq_pc = (wseq_pc s)(i := WR_Copy seq0 v0 (loaded @ [content_of x]))\<rparr> (objs, seen(i := seen i))"
  proof (rule rel_read [OF rel wm_wf_load [OF ld wf] _ load_others [OF ld]])
    have "wm_acq ?m i Seq_counter \<le> wm_acq m i Seq_counter" unfolding acq by (simp add: le_supI1)
    then have old: "v0 < wm_acq m i Seq_counter \<or> loads_from (wo_next ops) (holds ops c objs ?v) loaded" if "even v0"
      using ok that by auto
    have here: "writes_of ops objs p ?v \<le> k" if "even v0" using ok that k(2) order_trans by fastforce
    show "weak_thread_ok ops c (wm_top Seq_counter ?m) objs (wm_view m i) (wm_acq m i) (seen i) (WR_Copy seq0 v0 (loaded @ [content_of x]))"
      using ok old new here p by (auto simp: view loads_from_snoc)
    show "2 * seen i \<le> wm_view m i Seq_counter" using n by (simp add: view)
  qed (use L pc in auto)
  then show ?thesis by simp
qed


section \<open>Stores\<close>

lemma rel_Lock_load:
  assumes rel: "weak_seq_rel ops c s (objs, seen)" and pc: "wseq_pc s i = WW_Lock d p"
    and ld: "weak_Lock_load i k (wseq_mem s) = Some (p', m)"
  shows "weak_seq_rel ops c \<lparr>wseq_mem = m, wseq_pc = (wseq_pc s)(i := WW_Lock d p')\<rparr> (objs, seen)"
proof -
  obtain x where x: "wm_load Relaxed i Seq_counter k (wseq_mem s) = Some (x, m)"
    and p': "p' = (if seq_IsLocked (count x) then SL_Load else SL_Cas (count x))"
    using ld by (auto simp: weak_Lock_load_def split: option.splits)
  have wf: "wm_wf (wseq_mem s)" and n: "2 * seen i \<le> wm_view (wseq_mem s) i Seq_counter"
    and ok: "weak_thread_ok ops c (wm_top Seq_counter (wseq_mem s)) objs (wm_view (wseq_mem s) i) (wm_acq (wseq_mem s) i) (seen i) (WW_Lock d p)"
    using rel_facts [OF rel] pc by blast+
  have "weak_seq_rel ops c \<lparr>wseq_mem = m, wseq_pc = (wseq_pc s)(i := WW_Lock d p')\<rparr> (objs, seen(i := seen i))"
  proof (rule rel_read [OF rel wm_wf_load [OF x wf] _ load_others [OF x]])
    show "2 * seen i \<le> wm_view m i Seq_counter"
      using n le_funD [OF wm_load_view_mono [OF x], of i Seq_counter] by linarith
  qed (use wm_load_Some [OF x] pc ok p' in auto)
  then show ?thesis by simp
qed

lemma mono_others:
  assumes "weak_seq_rel ops c s (objs, seen)" "wm_top Seq_counter (wseq_mem s) \<le> V" "pc = (wseq_pc s) j"
  shows "weak_thread_ok ops c V (objs @ new) (wm_view (wseq_mem s) j) (wm_acq (wseq_mem s) j) (seen j) pc"
  using thread_ok_mono [OF rel_facts(6) [OF assms(1)] assms(2) turn_facts(1) [OF rel_facts(3) [OF assms(1)]]] assms(3) by simp

lemma latest_count: "counter_ok ops objs m \<Longrightarrow> wm_ok m \<Longrightarrow> wm_latest Seq_counter m = Count (of_nat (wm_top Seq_counter m))"
  using length_hist [of m Seq_counter] by (simp add: counter_ok_def wm_latest_def flip: wm_hist_last)

lemma rel_Cas:
  assumes rel: "weak_seq_rel ops c s (objs, seen)" and pc: "wseq_pc s i = WW_Lock d (SL_Cas seq)"
    and seq: "wm_latest Seq_counter (wseq_mem s) = Count seq"
    and ex: "wm_exchange Acquire i Seq_counter (Count (seq + 1)) (wseq_mem s) = (x, m)"
  shows "weak_seq_rel ops c \<lparr>wseq_mem = wm_fence_release i m, wseq_pc = (wseq_pc s)(i := WW_Copy seq d 0)\<rparr> (objs, seen)"
proof -
  let ?m = "wseq_mem s" and ?f = "wm_fence_release i m"
  let ?V = "wm_top Seq_counter ?m"
  note rf = rel_facts [OF rel]
  have ok: "wm_ok ?m" using rf(1) by (simp add: wm_wf_def)
  have wf': "wm_wf m" by (rule wm_wf_exchange [OF ex rf(1)])
  have V: "seq = of_nat ?V" using latest_count [OF rf(2) ok] seq by simp
  have d: "wo_fits ops d" "\<not> seq_IsLocked seq" using rf(6) [OF pc] by auto
  then have ev: "even ?V" using V seq_IsLocked_odd by simp
  note turn = rf(3) [unfolded turn_ok_def] ev
  have parts: "parts_ok ops c objs ?m" "Suc (?V div 2) = length objs" "\<And>j. \<not> weak_writing (wseq_pc s j)"
    "\<And>p. wm_top (Part p) ?m = writes_of ops objs p (?V div 2)" using turn by auto
  let ?w = "snd (last (wm_hist ?m Seq_counter))"
  note e = wm_exchange_simps [OF ex]
  have len: "length (wm_hist ?m Seq_counter) = Suc ?V" by (rule length_hist [OF ok])
  have "wm_top Seq_counter m = length (wm_hist ?m Seq_counter)" by (simp add: wm_top_def e(2))
  then have top: "wm_top Seq_counter m = Suc ?V" "wm_top (Part p) m = wm_top (Part p) ?m" for p
    using wm_exchange_latest(2) [OF ex, of "Part p"] len by simp_all
  have hist: "wm_hist m (Part p) = wm_hist ?m (Part p)" for p by (simp add: e(2))
  have cnt: "wm_hist m Seq_counter = wm_hist ?m Seq_counter @ [(Count (seq + 1), (sup (wm_rel ?m i) ?w)(Seq_counter := Suc ?V))]"
    by (simp add: e(2) len Let_def)
  have "counter_ok ops objs m"
    using counter_ok_write [OF rf(2), of m "Suc ?V"] cnt ev len V by (simp add: add.commute)
  have pv: "wm_view m i (Part p) = wm_top (Part p) m" for p
  proof -
    have "writes_of ops objs p (?V div 2) \<le> ?w (Part p)" using rf(2) ev wm_hist_last [OF ok, of Seq_counter] len by (auto simp: counter_ok_def)
    moreover have "?w (Part p) \<le> wm_view m i (Part p)" by (simp add: e(3))
    ultimately show ?thesis using parts(4) [of p] top(2) [of p] wm_wf_views(4) [OF wf', of i "Part p"] by linarith
  qed
  have vc: "wm_view m i Seq_counter = Suc ?V" by (simp add: e(3) len)
  have objs: "objs \<noteq> []" "length objs - 1 = ?V div 2" using parts(2) by auto
  have po: "parts_ok ops c (objs @ [d]) ?f" by (rule parts_ok_begin [OF parts(1) ok objs(1)]) (use parts(4) objs(2) hist in simp_all)
  have "inside_ok ops c objs ?f i seq d 0"
    unfolding inside_ok_def using po V vc pv parts(4) ev by (simp add: top add.commute)
  then have "turn_ok ops c objs ?f ((wseq_pc s)(i := WW_Copy seq d 0))"
    using ev parts(2,3) by (intro turn_inside) (auto simp: top split: if_splits)
  moreover have "2 * seen j \<le> wm_view ?f j Seq_counter" for j
    using rf(5) [of j] wm_wf_views(4) [OF rf(1), of j Seq_counter] by (auto simp: e(3) len)
  moreover have "weak_thread_ok ops c (Suc ?V) objs (wm_view ?f j) (wm_acq ?f j) (seen j) (((wseq_pc s)(i := WW_Copy seq d 0)) j)" for j
    using mono_others [OF rel, of "Suc ?V" "wseq_pc s j" j "[]"] d by (simp add: e(3,4))
  ultimately show ?thesis
    using rf(4) \<open>counter_ok ops objs m\<close> wm_wf_fence(2) [OF wf'] by (simp add: weak_seq_rel_def counter_ok_def top)
qed

lemma inside_facts:
  assumes rel: "weak_seq_rel ops c s (objs, seen)" and pc: "wseq_pc s i = WW_Copy seq d p"
  shows "odd (wm_top Seq_counter (wseq_mem s))" "\<And>j. weak_writing (wseq_pc s j) \<Longrightarrow> j = i"
    "Suc (wm_top Seq_counter (wseq_mem s) div 2) = length objs" "inside_ok ops c objs (wseq_mem s) i seq d p"
proof -
  have turn: "turn_ok ops c objs (wseq_mem s) (wseq_pc s)" by (rule rel_facts(3) [OF rel])
  have wr: "weak_writing (wseq_pc s i)" using pc by simp
  show odd: "odd (wm_top Seq_counter (wseq_mem s))" using turn wr unfolding turn_ok_def by metis
  show "Suc (wm_top Seq_counter (wseq_mem s) div 2) = length objs" by (rule turn_facts(1) [OF turn])
  obtain i' seq' d' p' where w: "wseq_pc s i' = WW_Copy seq' d' p'" "\<forall>j. weak_writing (wseq_pc s j) \<longrightarrow> j = i'"
    "inside_ok ops c objs (wseq_mem s) i' seq' d' p'" using turn odd unfolding turn_ok_def by auto
  have i: "i' = i" using w(2) wr by blast
  show "\<And>j. weak_writing (wseq_pc s j) \<Longrightarrow> j = i" using w(2) unfolding i by blast
  show "inside_ok ops c objs (wseq_mem s) i seq d p" using w(1,3) pc unfolding i by simp
qed

lemma rel_Copy:
  assumes rel: "weak_seq_rel ops c s (objs, seen)" and pc: "wseq_pc s i = WW_Copy seq d n" and lt: "n < length (wo_writes ops d)"
    and n: "wo_writes ops d ! n = (p, x)" and dist: "distinct (map fst (wo_writes ops d))"
  shows "weak_seq_rel ops c \<lparr>wseq_mem = wm_store Relaxed i (Part p) (Content x) (wseq_mem s),
     wseq_pc = (wseq_pc s)(i := WW_Copy seq d (Suc n))\<rparr> (objs, seen)"
proof -
  let ?m = "wseq_mem s" and ?s = "wm_store Relaxed i (Part p) (Content x) (wseq_mem s)"
  let ?V = "wm_top Seq_counter ?m" and ?done = "\<lambda>n. fst ` set (take n (wo_writes ops d))"
  note rf = rel_facts [OF rel] and I = inside_facts [OF rel pc]
  have In: "n \<le> length (wo_writes ops d)" "parts_ok ops c (objs @ [d]) ?m" "seq + 1 = of_nat ?V" "wm_view ?m i Seq_counter = ?V"
    "wm_rel ?m i Seq_counter = ?V"
    and tops: "\<And>p. wm_top (Part p) ?m = writes_of ops objs p (?V div 2) + (if p \<in> ?done n then 1 else 0)"
    "\<And>p. wm_view ?m i (Part p) = wm_top (Part p) ?m"
    using I(4) by (simp_all add: inside_ok_def)
  have ok: "wm_ok ?m" using rf(1) by (simp add: wm_wf_def)
  have top: "wm_top l ?s = (if l = Part p then Suc (wm_top l ?m) else wm_top l ?m)" for l by (simp add: wm_store_top [OF ok])
  have objs: "objs \<noteq> []" "length objs - 1 = ?V div 2" using I(3) by auto
  have more: "?done (Suc n) = insert p (?done n)" using lt n by (simp add: take_Suc_conv_app_nth)
  have new: "p \<notin> ?done n"
  proof
    assume "p \<in> ?done n"
    then obtain j where j: "j < n" "fst (wo_writes ops d ! j) = p" using lt by (auto simp: in_set_conv_nth)
    then show False using nth_eq_iff_index_eq [OF dist, of j n] n lt by simp
  qed
  have len: "length (wm_hist ?m (Part p)) = Suc (writes_of ops objs p (?V div 2))" using tops(1) [of p] new length_hist [OF ok] by simp
  have "2 * length objs \<le> Suc ?V" using I(1,3) by presburger
  then have po: "parts_ok ops c (objs @ [d]) ?s"
    using tops(1) [of p] new objs(2) In(5)
    by (intro parts_ok_write [OF In(2) ok objs(1) lt n dist, where w = "(wm_rel ?m i)(Part p := length (wm_hist ?m (Part p)))"]) simp_all
  have "wm_top (Part p') ?s = writes_of ops objs p' (?V div 2) + (if p' \<in> ?done (Suc n) then 1 else 0) \<and>
      wm_view ?s i (Part p') = wm_top (Part p') ?s" for p'
    using tops [of p'] len new by (cases "p' = p") (simp_all add: top more)
  then have "inside_ok ops c objs ?s i seq d (Suc n)"
    unfolding inside_ok_def using In po lt top [of Seq_counter] by simp
  then have "turn_ok ops c objs ?s ((wseq_pc s)(i := WW_Copy seq d (Suc n)))"
    using I(1-3) by (intro turn_inside) (auto simp: top split: if_splits)
  moreover have "weak_thread_ok ops c ?V objs (wm_view ?s j) (wm_acq ?s j) (seen j) (((wseq_pc s)(i := WW_Copy seq d (Suc n))) j)" for j
    using rf(6) [OF refl, of j] rf(6) [OF pc] by auto
  ultimately show ?thesis
    using rf(2,4,5) wm_wf_store [OF rf(1)] by (auto simp: weak_seq_rel_def counter_ok_def top)
qed

lemma rel_Unlock:
  assumes rel: "weak_seq_rel ops c s (objs, seen)" and pc: "wseq_pc s i = WW_Copy seq d n" and done_: "\<not> n < length (wo_writes ops d)"
  shows "weak_seq_rel ops c \<lparr>wseq_mem = wm_store Release i Seq_counter (Count (seq + 2)) (wseq_mem s),
     wseq_pc = (wseq_pc s)(i := WQ_Idle)\<rparr> (objs @ [d], seen(i := length objs))"
proof -
  let ?m = "wseq_mem s" and ?s = "wm_store Release i Seq_counter (Count (seq + 2)) (wseq_mem s)"
  let ?V = "wm_top Seq_counter ?m"
  note rf = rel_facts [OF rel] and I = inside_facts [OF rel pc]
  have In: "n \<le> length (wo_writes ops d)" "parts_ok ops c (objs @ [d]) ?m" "seq + 1 = of_nat ?V"
    and tops: "\<And>p. wm_top (Part p) ?m = writes_of ops objs p (?V div 2) + (if p \<in> fst ` set (take n (wo_writes ops d)) then 1 else 0)"
    "\<And>p. wm_view ?m i (Part p) = wm_top (Part p) ?m"
    using I(4) by (simp_all add: inside_ok_def)
  have ok: "wm_ok ?m" using rf(1) by (simp add: wm_wf_def)
  have top: "wm_top l ?s = (if l = Seq_counter then Suc ?V else wm_top l ?m)" for l by (simp add: wm_store_top [OF ok])
  have n: "n = length (wo_writes ops d)" using In(1) done_ by simp
  have half: "Suc ?V div 2 = Suc (?V div 2)" using I(1) by presburger
  have val: "seq + 2 = of_nat (Suc ?V)"
  proof -
    have "seq + 2 = (seq + 1) + 1" by simp
    then show ?thesis using In(3) by simp
  qed
  have len: "length (wm_hist ?m Seq_counter) = Suc ?V" by (rule length_hist [OF ok])
  have count: "wm_top (Part p) ?m = writes_of ops (objs @ [d]) p (Suc (?V div 2))" for p
  proof -
    have "?V div 2 < length objs" "(objs @ [d]) ! Suc (?V div 2) = d" using I(3) by (simp_all add: nth_append)
    then show ?thesis using tops(1) [of p] n by (simp only: writes_of.simps) (simp add: writes_of_append written_def)
  qed
  have "counter_ok ops (objs @ [d]) ?s"
  proof (rule counter_ok_write [OF counter_ok_more [OF rf(2) ok I(3)]])
    show "wm_hist ?s Seq_counter = wm_hist ?m Seq_counter @ [(Count (of_nat (Suc ?V)), (wm_view ?m i)(Seq_counter := Suc ?V))]"
      using len val by (simp del: of_nat_Suc)
  qed (use len half count tops(2) in \<open>auto simp del: writes_of.simps\<close>)
  moreover have "turn_ok ops c (objs @ [d]) ?s ((wseq_pc s)(i := WQ_Idle))"
  proof -
    have "parts_ok ops c (objs @ [d]) ?s" using In(2) by (simp add: parts_ok_def)
    moreover have "\<not> weak_writing (((wseq_pc s)(i := WQ_Idle)) j)" for j using I(2) [of j] by auto
    ultimately show ?thesis unfolding turn_ok_def using I(1,3) count half by (simp add: top del: writes_of.simps)
  qed
  moreover have "2 * (seen(i := length objs)) j \<le> wm_view ?s j Seq_counter" for j
    using rf(5) [of j] I(1,3) len by auto presburger
  moreover have "weak_thread_ok ops c (Suc ?V) (objs @ [d]) (wm_view ?s j) (wm_acq ?s j) ((seen(i := length objs)) j)
      (((wseq_pc s)(i := WQ_Idle)) j)" for j
    using mono_others [OF rel, of "Suc ?V" "wseq_pc s j" j "[d]"] by auto
  ultimately show ?thesis
    using rf(4) rf(6) [OF pc] wm_wf_store [OF rf(1)] by (auto simp: weak_seq_rel_def top)
qed


lemma weak_seq_call:
  assumes rel: "weak_seq_rel ops c s (objs, seen)" and pc: "wseq_pc s i = WQ_Idle" "pc = WR_Seq0 \<or> (\<exists>d. wo_fits ops d \<and> pc = WW_Lock d SL_Load)"
  shows "weak_seq_rel ops c (s\<lparr>wseq_pc := (wseq_pc s)(i := pc)\<rparr>) (objs, seen)"
proof -
  have "weak_seq_rel ops c \<lparr>wseq_mem = wseq_mem s, wseq_pc = (wseq_pc s)(i := pc)\<rparr> (objs, seen(i := seen i))"
    using rel_facts [OF rel] pc by (intro rel_read [OF rel]) auto
  then show ?thesis by (cases s) simp
qed

section \<open>The contract of the accesses\<close>

text \<open>The start, and the relation for the whole run.\<close>

definition weak_seq_start :: "('p, 'v, 'd) weak_ops \<Rightarrow> (('p \<Rightarrow> 'v) \<Rightarrow> 'd \<Rightarrow> bool) \<Rightarrow> ('p, 'v, 'd) weak_seq_sys \<Rightarrow> 'd list \<times> (nat \<Rightarrow> nat) \<Rightarrow> bool" where
  "weak_seq_start ops lays s a \<longleftrightarrow> (\<exists>c d. lays c d \<and> wo_fits ops d \<and> s = weak_seq_new c \<and> a = ([d], \<lambda>i. 0))"

definition weak_seq_sim :: "('p, 'v, 'd) weak_ops \<Rightarrow> (('p \<Rightarrow> 'v) \<Rightarrow> 'd \<Rightarrow> bool) \<Rightarrow> ('p, 'v, 'd) weak_seq_sys \<Rightarrow> 'd list \<times> (nat \<Rightarrow> nat) \<Rightarrow> bool" where
  "weak_seq_sim ops lays s a \<longleftrightarrow> (\<exists>c. fst a \<noteq> [] \<and> lays c (fst a ! 0) \<and> weak_seq_rel ops c s a)"

text \<open>
  \<open>lays c d\<close> says that the parts \<open>c\<close> hold the object \<open>d\<close>. A store writes no part twice and lays its object
  whatever was there, and a load that only reads what lays an object returns that object.
\<close>

locale weak_seqlocked =
  fixes ops :: "('p, 'v, 'd) weak_ops" and lays :: "('p \<Rightarrow> 'v) \<Rightarrow> 'd \<Rightarrow> bool"
  assumes writes_distinct: "wo_fits ops d \<Longrightarrow> distinct (map fst (wo_writes ops d))"
    and store_lays: "wo_fits ops d \<Longrightarrow> lays (overwrite (wo_writes ops d) c) d"
    and load_result: "lays c d \<Longrightarrow> loads_from (wo_next ops) c loaded \<Longrightarrow> wo_next ops loaded = None \<Longrightarrow> wo_result ops loaded = d"
begin

lemma holds_lays:
  assumes "lays c (objs ! 0)" "\<forall>d \<in> set objs. wo_fits ops d" "v < length objs"
  shows "lays (holds ops c objs v) (objs ! v)"
  using assms by (cases v) (simp_all add: store_lays)

lemma rel_Seq1:
  assumes rel: "weak_seq_rel ops c s (objs, seen)" and lays: "lays c (objs ! 0)" and pc: "wseq_pc s i = WR_Copy seq0 v0 loaded"
    and len: "wo_next ops loaded = None"
    and ld: "wm_load Relaxed i Seq_counter k (wm_fence_acquire i (wseq_mem s)) = Some (x, m)"
  shows "weak_seq_rel ops c \<lparr>wseq_mem = m, wseq_pc = (wseq_pc s)(i := WR_Seq0)\<rparr> (objs, seen)"
    "\<not> seq_IsLocked seq0 \<Longrightarrow> seq0 = count x \<Longrightarrow>
       versions_spec (WLoaded i (wo_result ops loaded) v0 k) (objs, seen) = Some (objs, seen(i := v0 div 2)) \<and>
       weak_seq_rel ops c \<lparr>wseq_mem = m, wseq_pc = (wseq_pc s)(i := WQ_Idle)\<rparr> (objs, seen(i := v0 div 2))"
proof -
  let ?m = "wseq_mem s"
  have wf: "wm_wf ?m" and n: "2 * seen i \<le> wm_view ?m i Seq_counter" and cnt: "counter_ok ops objs ?m"
    and ok: "weak_thread_ok ops c (wm_top Seq_counter ?m) objs (wm_view ?m i) (wm_acq ?m i) (seen i) (WR_Copy seq0 v0 loaded)"
    and turn: "turn_ok ops c objs ?m (wseq_pc s)" and objs: "\<forall>d \<in> set objs. wo_fits ops d"
    using rel_facts [OF rel] pc by blast+
  note L = wm_load_Some [OF ld] and k = counter_load [OF cnt ld wm_fence_simps(1)]
  have k': "wm_acq ?m i Seq_counter \<le> k" using k(3) by simp
  have view: "wm_view m i Seq_counter = k" using L by simp
  have acq: "wm_view ?m i Seq_counter \<le> wm_acq ?m i Seq_counter" using wm_wf_views [OF wf] by simp
  have read: "weak_seq_rel ops c \<lparr>wseq_mem = m, wseq_pc = (wseq_pc s)(i := pc)\<rparr> (objs, seen(i := n))"
    if "\<not> weak_writing pc" "\<And>V view acq. weak_thread_ok ops c V objs view acq n pc" "2 * n \<le> wm_view ?m i Seq_counter" for pc n
  proof (rule rel_read [OF rel wm_wf_load [OF ld wm_wf_fence(1) [OF wf]]])
    show "wm_view m j = wm_view ?m j \<and> wm_acq m j = wm_acq ?m j \<and> wm_rel m j = wm_rel ?m j" if "j \<noteq> i" for j
      using load_others [OF ld that] that by simp
    show "2 * n \<le> wm_view m i Seq_counter" using that(3) acq k' by (simp add: view)
  qed (use L pc that in auto)
  show "weak_seq_rel ops c \<lparr>wseq_mem = m, wseq_pc = (wseq_pc s)(i := WR_Seq0)\<rparr> (objs, seen)"
    using read [of WR_Seq0 "seen i"] n by simp
  assume unlocked: "\<not> seq_IsLocked seq0" and same: "seq0 = count x"
  have v0: "seq0 = of_nat v0" "v0 \<le> wm_view ?m i Seq_counter" "seen i \<le> v0 div 2" "v0 \<le> wm_top Seq_counter ?m" using ok by auto
  have ev: "even v0" using unlocked v0(1) seq_IsLocked_odd by simp
  have vlt: "v0 div 2 < length objs"
    using v0(4) turn_facts(1) [OF turn] div_le_mono [of v0 "wm_top Seq_counter ?m" 2] by linarith
  have "wo_result ops loaded = objs ! (v0 div 2)" if "k < v0 + 2 ^ 32"
  proof -
    have "(of_nat v0 :: counter) = of_nat k" using same v0(1) k(1) by simp
    then have "v0 mod 2 ^ 32 = k mod 2 ^ 32" by (rule counter_of_nat_eq)
    moreover have "v0 \<le> k" "k - v0 < 2 ^ 32" using that v0(2) acq k' by linarith+
    ultimately have "k = v0" using mod_window_eq [of v0 k "2 ^ 32"] by simp
    then have "loads_from (wo_next ops) (holds ops c objs (v0 div 2)) loaded" using ok ev k' by auto
    then show ?thesis using load_result [OF holds_lays [OF lays objs vlt]] len by blast
  qed
  then have "versions_spec (WLoaded i (wo_result ops loaded) v0 k) (objs, seen) = Some (objs, seen(i := v0 div 2))"
    using ev v0(3) vlt by simp
  moreover have "2 * (v0 div 2) \<le> wm_view ?m i Seq_counter" using v0(2) by linarith
  ultimately show "versions_spec (WLoaded i (wo_result ops loaded) v0 k) (objs, seen) = Some (objs, seen(i := v0 div 2)) \<and>
       weak_seq_rel ops c \<lparr>wseq_mem = m, wseq_pc = (wseq_pc s)(i := WQ_Idle)\<rparr> (objs, seen(i := v0 div 2))"
    using read [of WQ_Idle "v0 div 2"] by simp
qed

lemma weak_Load_step_rel:
  assumes rel: "weak_seq_rel ops c s (objs, seen)" and lays: "lays c (objs ! 0)"
    and step: "weak_Load_step ops i k (wseq_pc s i) (wseq_mem s) = Some (e, pc, m)"
  shows "\<exists>seen'. accepts versions_spec e (objs, seen) = Some (objs, seen') \<and>
    weak_seq_rel ops c \<lparr>wseq_mem = m, wseq_pc = (wseq_pc s)(i := pc)\<rparr> (objs, seen')"
proof (cases "wseq_pc s i")
  case WR_Seq0
  then show ?thesis using step rel_Seq0 [OF rel WR_Seq0] by (auto split: option.splits)
next
  case (WR_Copy seq0 v0 loaded)
  show ?thesis
  proof (cases "wo_next ops loaded")
    case (Some p)
    then show ?thesis using step WR_Copy rel_part [OF rel WR_Copy Some] by (auto split: option.splits)
  next
    case None
    then obtain x m' where ld: "wm_load Relaxed i Seq_counter k (wm_fence_acquire i (wseq_mem s)) = Some (x, m')"
      using step WR_Copy by (auto split: option.splits)
    note seq1 = rel_Seq1 [OF rel lays WR_Copy None ld]
    show ?thesis
    proof (cases "seq_IsLocked seq0 \<or> seq0 \<noteq> count x")
      case True
      then have "e = []" "pc = WR_Seq0" "m = m'" using step WR_Copy None ld by auto
      then show ?thesis using seq1(1) by auto
    next
      case out: False
      then have e: "e = [WLoaded i (wo_result ops loaded) v0 k]" "pc = WQ_Idle" "m = m'" using step WR_Copy None ld by auto
      from seq1(2) out have "versions_spec (WLoaded i (wo_result ops loaded) v0 k) (objs, seen) = Some (objs, seen(i := v0 div 2))"
        "weak_seq_rel ops c \<lparr>wseq_mem = m', wseq_pc = (wseq_pc s)(i := WQ_Idle)\<rparr> (objs, seen(i := v0 div 2))" by blast+
      then show ?thesis unfolding e by (simp del: versions_spec.simps)
    qed
  qed
qed (use step in simp_all)

lemma weak_Store_step_rel:
  assumes rel: "weak_seq_rel ops c s (objs, seen)" and step: "weak_Store_step ops i weak k (wseq_pc s i) (wseq_mem s) = Some (e, pc, m)"
  shows "\<exists>new seen'. accepts versions_spec e (objs, seen) = Some (objs @ new, seen') \<and>
    weak_seq_rel ops c \<lparr>wseq_mem = m, wseq_pc = (wseq_pc s)(i := pc)\<rparr> (objs @ new, seen')"
proof (cases "wseq_pc s i")
  case (WW_Lock d p)
  note load = rel_Lock_load [OF rel WW_Lock]
  show ?thesis
  proof (cases "\<exists>seq. p = SL_Cas seq \<and> \<not> weak \<and> wm_latest Seq_counter (wseq_mem s) = Count seq")
    case True
    then obtain seq where p: "p = SL_Cas seq" "\<not> weak" "wm_latest Seq_counter (wseq_mem s) = Count seq" by blast
    obtain x m' where ex: "wm_exchange Acquire i Seq_counter (Count (seq + 1)) (wseq_mem s) = (x, m')" by fastforce
    then have "e = []" "pc = WW_Copy seq d 0" "m = wm_fence_release i m'" using step WW_Lock p by auto
    then show ?thesis using rel_Cas [OF rel _ p(3) ex] WW_Lock p(1) by (auto intro: exI [of _ "[]"])
  next
    case False
    then have "(case weak_Lock_load i k (wseq_mem s) of None \<Rightarrow> None | Some (p, m) \<Rightarrow> Some ([], WW_Lock d p, m)) = Some (e, pc, m)"
      using step WW_Lock by (cases p) (auto split: if_splits)
    then show ?thesis using load by (auto split: option.splits intro: exI [of _ "[]"])
  qed
next
  case (WW_Copy seq d n)
  have dist: "distinct (map fst (wo_writes ops d))" using writes_distinct rel_facts(6) [OF rel WW_Copy] by simp
  show ?thesis
  proof (cases "n < length (wo_writes ops d)")
    case True
    obtain p x where p: "wo_writes ops d ! n = (p, x)" by (cases "wo_writes ops d ! n")
    then show ?thesis using step True rel_Copy [OF rel WW_Copy True p dist] WW_Copy by (auto intro: exI [of _ "[]"])
  next
    case False
    then show ?thesis using step rel_Unlock [OF rel WW_Copy False] WW_Copy by (auto intro: exI [of _ "[d]"])
  qed
qed (use step in simp_all)

lemma weak_seq_start_sim: "weak_seq_start ops lays s a \<Longrightarrow> weak_seq_sim ops lays s a"
  by (fastforce simp: weak_seq_start_def weak_seq_sim_def weak_seq_rel_def weak_seq_new_def wm_wf_new counter_ok_def turn_ok_def
      parts_ok_def part_ok_def)

lemma weak_seq_step_sim:
  assumes sim: "weak_seq_sim ops lays s a" and step: "weak_seq_step ops choice s = Some (e, t)"
  shows "\<exists>b. accepts versions_spec e a = Some b \<and> weak_seq_sim ops lays t b"
proof -
  obtain c objs seen where a: "a = (objs, seen)" "objs \<noteq> []" "lays c (objs ! 0)" and rel: "weak_seq_rel ops c s (objs, seen)"
    using sim by (cases a) (auto simp: weak_seq_sim_def)
  have "\<exists>new seen'. accepts versions_spec e (objs, seen) = Some (objs @ new, seen') \<and> weak_seq_rel ops c t (objs @ new, seen')"
  proof (cases choice)
    case (WQLoad i)
    then show ?thesis using step weak_seq_call [OF rel, of i WR_Seq0] by (auto split: if_splits intro: exI [of _ "[]"])
  next
    case (WQStore i d)
    then show ?thesis using step weak_seq_call [OF rel, of i "WW_Lock d SL_Load"] by (auto split: if_splits intro: exI [of _ "[]"])
  next
    case (WQStep i weak k)
    show ?thesis
    proof (cases "weak_Load_step ops i k (wseq_pc s i) (wseq_mem s)")
      case None
      then show ?thesis using step WQStep weak_Store_step_rel [OF rel, of i weak k] by (auto split: option.splits)
    next
      case (Some r)
      then show ?thesis
        using step WQStep weak_Load_step_rel [OF rel a(3), of i k] by (cases r) (auto intro: exI [of _ "[]"])
    qed
  qed
  then show ?thesis using a by (fastforce simp: weak_seq_sim_def nth_append)
qed

end

sublocale weak_seqlocked \<subseteq> weak_seq: simulation "weak_seq_step ops" "weak_seq_start ops lays" "weak_seq_sim ops lays" versions_spec
  by unfold_locales (fact weak_seq_start_sim, fact weak_seq_step_sim)

context weak_seqlocked
begin

text \<open>What the instances promise.\<close>

lemma weak_seq_versions:
  assumes "lays c d" "wo_fits ops d" "reaches (weak_seq_step ops) (weak_seq_new c) es t"
  shows "\<exists>objs seen. accepts versions_spec es ([d], \<lambda>i. 0) = Some (objs, seen) \<and>
    (\<forall>i. seen i < length objs) \<and> (\<forall>i j. weak_writing (wseq_pc t i) \<and> weak_writing (wseq_pc t j) \<longrightarrow> i = j)"
proof -
  have "weak_seq_start ops lays (weak_seq_new c) ([d], \<lambda>i. 0)" using assms by (auto simp: weak_seq_start_def)
  from weak_seq.simulates [OF this assms(3)] obtain objs seen c' where
    b: "accepts versions_spec es ([d], \<lambda>i. 0) = Some (objs, seen)" "weak_seq_rel ops c' t (objs, seen)"
    by (auto simp: weak_seq_sim_def)
  note rf = rel_facts [OF b(2)]
  have "seen i < length objs" for i
  proof -
    have "2 * seen i \<le> wm_top Seq_counter (wseq_mem t)" using rf(5) [of i] wm_wf_views(4) [OF rf(1), of i Seq_counter] by linarith
    then have "seen i \<le> wm_top Seq_counter (wseq_mem t) div 2" by linarith
    then show ?thesis using turn_facts(1) [OF rf(3)] by linarith
  qed
  moreover have "i = j" if w: "weak_writing (wseq_pc t i)" "weak_writing (wseq_pc t j)" for i j
  proof -
    obtain seq d p where "wseq_pc t i = WW_Copy seq d p" using w(1) by (cases "wseq_pc t i") auto
    from inside_facts(2) [OF b(2) this] w(2) show ?thesis by blast
  qed
  ultimately show ?thesis using b(1) by blast
qed

end


section \<open>SeqLockAtomic\<close>

text \<open>
  The parts are the accesses that \<open>atomic_memcpy\<close> makes to an object of \<open>sz\<close> bytes: loads and stores make the
  same ones, in order.
\<close>

definition sla_parts :: "nat \<Rightarrow> byte list \<Rightarrow> byte list list" where
  "sla_parts sz d = map (\<lambda>(off, len). take len (drop off d)) (memcpy_accesses sz)"

definition sla_weak_ops :: "nat \<Rightarrow> (nat, byte list, byte list) weak_ops" where
  "sla_weak_ops sz =
     \<lparr>wo_next = (\<lambda>loaded. if length loaded < length (memcpy_accesses sz) then Some (length loaded) else None),
      wo_result = concat,
      wo_writes = (\<lambda>d. enumerate 0 (sla_parts sz d)),
      wo_fits = (\<lambda>d. length d = sz)\<rparr>"

definition sla_weak_new :: "nat \<Rightarrow> byte list \<Rightarrow> (nat, byte list, byte list) weak_seq_sys" where
  "sla_weak_new sz d = weak_seq_new (\<lambda>j. sla_parts sz d ! j)"

definition sla_lays :: "nat \<Rightarrow> (nat \<Rightarrow> byte list) \<Rightarrow> byte list \<Rightarrow> bool" where
  "sla_lays sz c d \<longleftrightarrow> length d = sz \<and> (\<forall>j < length (memcpy_accesses sz). c j = sla_parts sz d ! j)"

lemma concat_sla_parts: "length d = sz \<Longrightarrow> concat (sla_parts sz d) = d"
proof -
  have "concat (map (\<lambda>(off, len). take len (drop off d)) as) = take (j - i) (drop i d)"
    if "adjacent i as j" "j \<le> length d" for i as j
    using that
  proof (induction i as j rule: adjacent.induct)
    case (2 i off len as j)
    then have le: "i + len \<le> j" using adjacent_le by auto
    have "take (j - i) (drop i d) = take (len + (j - (i + len))) (drop i d)" using le by simp
    also have "\<dots> = take len (drop i d) @ take (j - (i + len)) (drop (i + len) d)"
      by (simp add: take_add add.commute)
    finally show ?case using 2 by auto
  qed simp
  from this [OF memcpy_accesses_adjacent, of sz] show "length d = sz \<Longrightarrow> concat (sla_parts sz d) = d"
    by (simp add: sla_parts_def)
qed

interpretation sla_weak: weak_seqlocked "sla_weak_ops sz" "sla_lays sz" for sz
proof
  let ?ops = "sla_weak_ops sz" and ?n = "length (memcpy_accesses sz)"
  have len: "length (sla_parts sz d) = ?n" for d by (simp add: sla_parts_def)
  show "distinct (map fst (wo_writes ?ops d))" for d by (simp add: sla_weak_ops_def)
  show "sla_lays sz (overwrite (wo_writes ?ops d) c) d" if "wo_fits ?ops d" for d c
  proof -
    have "map_of (enumerate 0 (sla_parts sz d)) j = Some (sla_parts sz d ! j)" if "j < ?n" for j
      using that len [of d] by (intro map_of_is_SomeI) (simp_all add: in_set_enumerate_eq)
    then show ?thesis using that by (simp add: sla_lays_def overwrite_def sla_weak_ops_def del: map_of_eq_Some_iff)
  qed
  show "wo_result ?ops loaded = d"
    if c: "sla_lays sz c d" and l: "loads_from (wo_next ?ops) c loaded" and done_: "wo_next ?ops loaded = None" for c d loaded
  proof -
    have "loaded ! j = sla_parts sz d ! j" if "j < length loaded" for j
      using l c that by (auto simp: loads_from_def sla_weak_ops_def sla_lays_def split: if_splits)
    moreover have "length loaded \<le> ?n"
    proof (rule ccontr)
      assume "\<not> length loaded \<le> ?n"
      then have "map_option c (wo_next ?ops (take ?n loaded)) = Some (loaded ! ?n)" using l by (simp add: loads_from_def)
      then show False using \<open>\<not> length loaded \<le> ?n\<close> by (simp add: sla_weak_ops_def)
    qed
    ultimately have "loaded = sla_parts sz d"
      using done_ len [of d] by (intro nth_equalityI) (auto simp: sla_weak_ops_def split: if_splits)
    then show ?thesis using c concat_sla_parts [of d sz] by (simp add: sla_weak_ops_def sla_lays_def)
  qed
qed

text \<open>
  Property C19. The memory orders and fences of \<open>SeqLockAtomic\<close> are enough: in every execution by any number of threads, whatever
  stale writes their accesses read, a load returns one of the objects that were stored, whole, and
  never one older than the thread has loaded or stored before, as long as fewer than \<open>2 ^ 32\<close> changes of the
  counter fell between its two looks at it.
\<close>

theorem seq_fences_suffice:
  assumes "length d = sz" "reaches (weak_seq_step (sla_weak_ops sz)) (sla_weak_new sz d) es t"
  shows "\<exists>objs seen. accepts versions_spec es ([d], \<lambda>i. 0) = Some (objs, seen) \<and>
    (\<forall>i. seen i < length objs) \<and> (\<forall>i j. weak_writing (wseq_pc t i) \<and> weak_writing (wseq_pc t j) \<longrightarrow> i = j)"
proof (rule sla_weak.weak_seq_versions)
  show "sla_lays sz (\<lambda>j. sla_parts sz d ! j) d" using assms(1) by (simp add: sla_lays_def)
  show "wo_fits (sla_weak_ops sz) d" using assms(1) by (simp add: sla_weak_ops_def)
  show "reaches (weak_seq_step (sla_weak_ops sz)) (weak_seq_new (\<lambda>j. sla_parts sz d ! j)) es t"
    using assms(2) by (simp add: sla_weak_new_def)
qed

section \<open>A concrete run\<close>

text \<open>
  An object of nine bytes, which are a word and a byte. Thread 0 reads the new word and the old byte, notices it and
  starts again; thread 2 is still given the old object, whole, after the store is complete.
\<close>

definition weak_seq_schedule :: "byte list weak_seq_choice list" where
  "weak_seq_schedule =
     [WQLoad 0, WQStep 0 False 0, WQStore 1 (replicate 9 1), WQStep 1 False 0, WQStep 1 False 0, WQStep 1 False 0,
      WQStep 0 False 1, WQStep 1 False 0, WQStep 1 False 0, WQStep 0 False 0, WQStep 0 False 1,
      WQStep 0 False 2, WQStep 0 False 1, WQStep 0 False 1, WQStep 0 False 2,
      WQLoad 2, WQStep 2 False 0, WQStep 2 False 0, WQStep 2 False 0, WQStep 2 False 0]"

definition weak_seq_events :: "byte list weak_seq_event list" where
  "weak_seq_events = [WStored 1 (replicate 9 1), WLoaded 0 (replicate 9 1) 2 2, WLoaded 2 (replicate 9 0) 0 0]"

lemma seq_fences_suffice_witness:
  "\<exists>t objs seen. reaches (weak_seq_step (sla_weak_ops 9)) (sla_weak_new 9 (replicate 9 0)) weak_seq_events t \<and>
     accepts versions_spec weak_seq_events ([replicate 9 0], \<lambda>i. 0) = Some (objs, seen) \<and> seen 0 < length objs"
proof -
  have "map_option fst (run (weak_seq_step (sla_weak_ops 9)) weak_seq_schedule (sla_weak_new 9 (replicate 9 0))) = Some weak_seq_events"
    by code_simp
  then obtain t where "run (weak_seq_step (sla_weak_ops 9)) weak_seq_schedule (sla_weak_new 9 (replicate 9 0)) = Some (weak_seq_events, t)"
    by auto
  note t = run_reaches [OF this]
  have "length (replicate 9 (0 :: byte)) = 9" by simp
  from seq_fences_suffice [OF this t] t show ?thesis by blast
qed

end
