(* ===== verification/MPMC_Weak.thy ===== *)
theory MPMC_Weak
  imports MPMC_Lifetime Weak_Memory
begin

text \<open>
  \<open>BoundedMPMCQueue\<close> (queue/bounded_mp_mc_queue.h) with the memory orders that the code has: a generation is
  loaded by \<open>memory_order_acquire\<close> and stored by \<open>memory_order_release\<close>, the counters are changed by
  sequentially consistent read-modify-writes and read by acquire loads, and the storage of a slot is a
  plain object. A load may return a counter or a generation that is no longer the latest.
\<close>

section \<open>The operations in a weak memory\<close>

datatype mpmc_loc = Tail_counter | Head_counter | Gen nat | Cell nat

datatype 'a mpmc_value = Counter (counter_of: size_t) | Generation (generation_of: uint32) | Storage (storage_of: "'a storage")

type_synonym 'a mpmc_mem = "(mpmc_loc, 'a mpmc_value) weak_mem"

text \<open>Index and generation of a ticket in a buffer of \<open>n\<close> slots.\<close>

definition weak_GetIndex :: "size_t \<Rightarrow> size_t \<Rightarrow> nat" where
  "weak_GetIndex n i = unat (i AND (n - 1))"

definition weak_GetGeneration :: "size_t \<Rightarrow> size_t \<Rightarrow> uint32" where
  "weak_GetGeneration n i = ucast (i AND NOT (n - 1))"

text \<open>
  The accesses by thread \<open>i\<close>. Of a sequentially consistent operation only the acquire and release parts are used.
  A compare-exchange that fails, spuriously or not, is a load.
\<close>

definition weak_fetch_add :: "nat \<Rightarrow> mpmc_loc \<Rightarrow> 'a mpmc_mem \<Rightarrow> size_t \<times> 'a mpmc_mem" where
  "weak_fetch_add i l m =
     (let v = counter_of (wm_latest l m) in (v, snd (wm_exchange AcqRel i l (Counter (v + 1)) m)))"

definition weak_compare_exchange :: "nat \<Rightarrow> bool \<Rightarrow> nat \<Rightarrow> mpmc_loc \<Rightarrow> size_t \<Rightarrow> size_t \<Rightarrow> 'a mpmc_mem \<Rightarrow>
    (bool \<times> size_t \<times> 'a mpmc_mem) option" where
  "weak_compare_exchange i weak k l expected desired m =
     (if \<not> weak \<and> wm_latest l m = Counter expected
      then Some (True, expected, snd (wm_exchange AcqRel i l (Counter desired) m))
      else map_option (\<lambda>(v, m). (False, counter_of v, m)) (wm_load Acquire i l k m))"

definition weak_LoadGeneration :: "nat \<Rightarrow> nat \<Rightarrow> nat \<Rightarrow> 'a mpmc_mem \<Rightarrow> (uint32 \<times> 'a mpmc_mem) option" where
  "weak_LoadGeneration i k c m = map_option (\<lambda>(v, m). (generation_of v, m)) (wm_load Acquire i (Gen c) k m)"

definition weak_StoreGeneration :: "nat \<Rightarrow> nat \<Rightarrow> uint32 \<Rightarrow> 'a mpmc_mem \<Rightarrow> 'a mpmc_mem" where
  "weak_StoreGeneration i c g m = wm_store Release i (Gen c) (Generation g) m"

definition weak_LoadCounter :: "nat \<Rightarrow> nat \<Rightarrow> mpmc_loc \<Rightarrow> 'a mpmc_mem \<Rightarrow> (size_t \<times> 'a mpmc_mem) option" where
  "weak_LoadCounter i k l m = map_option (\<lambda>(v, m). (counter_of v, m)) (wm_load Acquire i l k m)"

text \<open>
  One access of an operation of thread \<open>i\<close> on a queue of \<open>n\<close> slots; a load reads the \<open>k\<close>-th write.
  \<open>Fault\<close> stands for a data race too.
\<close>

fun weak_Emplace_step :: "nat \<Rightarrow> nat \<Rightarrow> size_t \<Rightarrow> 'a mpmc_pc \<Rightarrow> 'a mpmc_mem \<Rightarrow>
    ('a mpmc_event list \<times> 'a mpmc_pc \<times> 'a mpmc_mem) option" where
  "weak_Emplace_step i k n (E_FetchAdd x) m =
     (let (tail, m) = weak_fetch_add i Tail_counter m in Some ([], E_Spin tail x, m))"
| "weak_Emplace_step i k n (E_Spin tail x) m =
     (let generation = 2 * weak_GetGeneration n tail
      in case weak_LoadGeneration i k (weak_GetIndex n tail) m of
           None \<Rightarrow> None
         | Some (g, m) \<Rightarrow> Some ([], if generation \<noteq> g then E_Spin tail x else E_Construct tail x, m))"
| "weak_Emplace_step i k n (E_Construct tail x) m =
     (case wm_plain i (Cell (weak_GetIndex n tail)) (\<lambda>_. Storage (Live x)) m of
        None \<Rightarrow> Some ([Fault], M_Idle, m)
      | Some (v, m) \<Rightarrow> Some (if storage_of v = Raw then [] else [Fault], E_StoreGen tail x, m))"
| "weak_Emplace_step i k n (E_StoreGen tail x) m =
     (let generation = 2 * weak_GetGeneration n tail
      in Some ([Enqueued tail x], M_Idle, weak_StoreGeneration i (weak_GetIndex n tail) (generation + 1) m))"
| "weak_Emplace_step i k n pc m = None"

fun weak_TryEmplace_step :: "nat \<Rightarrow> bool \<Rightarrow> nat \<Rightarrow> size_t \<Rightarrow> 'a mpmc_pc \<Rightarrow> 'a mpmc_mem \<Rightarrow>
    ('a mpmc_event list \<times> 'a mpmc_pc \<times> 'a mpmc_mem) option" where
  "weak_TryEmplace_step i weak k n (TE_LoadTail x) m =
     (case weak_LoadCounter i k Tail_counter m of
        None \<Rightarrow> None
      | Some (tail, m) \<Rightarrow> Some ([], TE_LoadGen tail x, m))"
| "weak_TryEmplace_step i weak k n (TE_LoadGen tail x) m =
     (let generation = 2 * weak_GetGeneration n tail
      in case weak_LoadGeneration i k (weak_GetIndex n tail) m of
           None \<Rightarrow> None
         | Some (g, m) \<Rightarrow> Some ([], if generation = g then TE_Cas tail x else TE_Reload tail x, m))"
| "weak_TryEmplace_step i weak k n (TE_Cas tail x) m =
     (case weak_compare_exchange i weak k Tail_counter tail (tail + 1) m of
        None \<Rightarrow> None
      | Some (ok, tail, m) \<Rightarrow> Some ([], if ok then E_Construct tail x else TE_LoadGen tail x, m))"
| "weak_TryEmplace_step i weak k n (TE_Reload tail x) m =
     (case weak_LoadCounter i k Tail_counter m of
        None \<Rightarrow> None
      | Some (new_tail, m) \<Rightarrow>
          Some (if tail = new_tail then ([TryEmplace_false], M_Idle, m) else ([], TE_LoadGen new_tail x, m)))"
| "weak_TryEmplace_step i weak k n pc m = None"

fun weak_Dequeue_step :: "nat \<Rightarrow> nat \<Rightarrow> size_t \<Rightarrow> 'a mpmc_pc \<Rightarrow> 'a mpmc_mem \<Rightarrow>
    ('a mpmc_event list \<times> 'a mpmc_pc \<times> 'a mpmc_mem) option" where
  "weak_Dequeue_step i k n D_FetchAdd m =
     (let (head, m) = weak_fetch_add i Head_counter m in Some ([], D_Spin head, m))"
| "weak_Dequeue_step i k n (D_Spin head) m =
     (let generation = 2 * weak_GetGeneration n head + 1
      in case weak_LoadGeneration i k (weak_GetIndex n head) m of
           None \<Rightarrow> None
         | Some (g, m) \<Rightarrow> Some ([], if generation \<noteq> g then D_Spin head else D_Move head, m))"
| "weak_Dequeue_step i k n (D_Move head) m =
     (case wm_plain i (Cell (weak_GetIndex n head))
             (\<lambda>v. case storage_of v of Live x \<Rightarrow> Storage Moved | _ \<Rightarrow> v) m of
        None \<Rightarrow> Some ([Fault], M_Idle, m)
      | Some (v, m) \<Rightarrow>
          (case storage_of v of
             Live element \<Rightarrow> Some ([Dequeued head element], D_Destroy head element, m)
           | _ \<Rightarrow> Some ([Fault], M_Idle, m)))"
| "weak_Dequeue_step i k n (D_Destroy head element) m =
     (case wm_plain i (Cell (weak_GetIndex n head)) (\<lambda>_. Storage Raw) m of
        None \<Rightarrow> Some ([Fault], M_Idle, m)
      | Some (v, m) \<Rightarrow>
          (case storage_of v of
             Raw \<Rightarrow> Some ([Fault], M_Idle, m)
           | _ \<Rightarrow> Some ([], D_StoreGen head element, m)))"
| "weak_Dequeue_step i k n (D_StoreGen head element) m =
     (let generation = 2 * weak_GetGeneration n head + 1
      in Some ([], M_Idle, weak_StoreGeneration i (weak_GetIndex n head) (generation + 1) m))"
| "weak_Dequeue_step i k n pc m = None"

fun weak_TryDequeue_step :: "nat \<Rightarrow> bool \<Rightarrow> nat \<Rightarrow> size_t \<Rightarrow> 'a mpmc_pc \<Rightarrow> 'a mpmc_mem \<Rightarrow>
    ('a mpmc_event list \<times> 'a mpmc_pc \<times> 'a mpmc_mem) option" where
  "weak_TryDequeue_step i weak k n TD_LoadHead m =
     (case weak_LoadCounter i k Head_counter m of
        None \<Rightarrow> None
      | Some (head, m) \<Rightarrow> Some ([], TD_LoadGen head, m))"
| "weak_TryDequeue_step i weak k n (TD_LoadGen head) m =
     (let generation = 2 * weak_GetGeneration n head + 1
      in case weak_LoadGeneration i k (weak_GetIndex n head) m of
           None \<Rightarrow> None
         | Some (g, m) \<Rightarrow> Some ([], if generation = g then TD_Cas head else TD_Reload head, m))"
| "weak_TryDequeue_step i weak k n (TD_Cas head) m =
     (case weak_compare_exchange i weak k Head_counter head (head + 1) m of
        None \<Rightarrow> None
      | Some (ok, head, m) \<Rightarrow> Some ([], if ok then D_Move head else TD_LoadGen head, m))"
| "weak_TryDequeue_step i weak k n (TD_Reload head) m =
     (case weak_LoadCounter i k Head_counter m of
        None \<Rightarrow> None
      | Some (new_head, m) \<Rightarrow>
          Some (if new_head = head then ([TryDequeue_false], M_Idle, m) else ([], TD_LoadGen new_head, m)))"
| "weak_TryDequeue_step i weak k n pc m = None"

record 'a weak_mpmc =
  wmq_size :: size_t
  wmq_mem :: "'a mpmc_mem"
  wmq_pc :: "nat \<Rightarrow> 'a mpmc_pc"

datatype 'a weak_mpmc_choice = WMCall nat "'a mpmc_request" | WMStep nat bool nat

fun weak_mpmc_thread :: "nat \<Rightarrow> bool \<Rightarrow> nat \<Rightarrow> size_t \<Rightarrow> 'a mpmc_pc \<Rightarrow> 'a mpmc_mem \<Rightarrow>
    ('a mpmc_event list \<times> 'a mpmc_pc \<times> 'a mpmc_mem) option" where
  "weak_mpmc_thread i weak k n pc m =
     (case weak_Emplace_step i k n pc m of Some r \<Rightarrow> Some r | None \<Rightarrow>
      (case weak_TryEmplace_step i weak k n pc m of Some r \<Rightarrow> Some r | None \<Rightarrow>
       (case weak_Dequeue_step i k n pc m of Some r \<Rightarrow> Some r | None \<Rightarrow> weak_TryDequeue_step i weak k n pc m)))"

fun weak_mpmc_step :: "'a weak_mpmc_choice \<Rightarrow> 'a weak_mpmc \<Rightarrow> ('a mpmc_event list \<times> 'a weak_mpmc) option" where
  "weak_mpmc_step (WMCall i r) s =
     (if wmq_pc s i = M_Idle then Some ([], s\<lparr>wmq_pc := (wmq_pc s)(i := mpmc_entry r)\<rparr>) else None)"
| "weak_mpmc_step (WMStep i weak k) s =
     (case weak_mpmc_thread i weak k (wmq_size s) (wmq_pc s i) (wmq_mem s) of
        None \<Rightarrow> None
      | Some (es, pc, m) \<Rightarrow> Some (es, s\<lparr>wmq_mem := m, wmq_pc := (wmq_pc s)(i := pc)\<rparr>))"

fun weak_mpmc_initial :: "mpmc_loc \<Rightarrow> 'a mpmc_value" where
  "weak_mpmc_initial (Gen c) = Generation 0"
| "weak_mpmc_initial (Cell c) = Storage Raw"
| "weak_mpmc_initial _ = Counter 0"

definition weak_mpmc_new :: "size_t \<Rightarrow> const_error + 'a weak_mpmc" where
  "weak_mpmc_new Capacity =
     (case mpmc_GetBufferSize Capacity of
        Inl e \<Rightarrow> Inl e
      | Inr n \<Rightarrow> Inr \<lparr>wmq_size = n, wmq_mem = wm_new weak_mpmc_initial, wmq_pc = (\<lambda>i. M_Idle)\<rparr>)"

section \<open>The queue that the latest writes make up\<close>

definition mpmc_of_mem :: "size_t \<Rightarrow> 'a mpmc_mem \<Rightarrow> 'a mpmc" where
  "mpmc_of_mem n m = \<lparr>mpmc_size = n,
     mpmc_buffer = map (\<lambda>c. \<lparr>slot_generation = generation_of (wm_latest (Gen c) m),
                             slot_data = storage_of (wm_latest (Cell c) m)\<rparr>) [0..<unat n],
     mpmc_head = counter_of (wm_latest Head_counter m), mpmc_tail = counter_of (wm_latest Tail_counter m)\<rparr>"

definition mpmc_of :: "'a weak_mpmc \<Rightarrow> 'a mpmc_sys" where
  "mpmc_of s = \<lparr>msys_queue = mpmc_of_mem (wmq_size s) (wmq_mem s), msys_pc = wmq_pc s,
     msys_tails = wm_top Tail_counter (wmq_mem s), msys_heads = wm_top Head_counter (wmq_mem s)\<rparr>"

text \<open>Fewer than \<open>2 ^ 31\<close> tickets have been drawn.\<close>

definition weak_mpmc_bounded :: "'a weak_mpmc \<Rightarrow> bool" where
  "weak_mpmc_bounded s \<longleftrightarrow> mpmc_bounded (mpmc_of s)"

section \<open>The invariant\<close>

text \<open>The value written at position \<open>k\<close> is \<open>k\<close>.\<close>

definition numbered :: "('v \<Rightarrow> nat) \<Rightarrow> 'l \<Rightarrow> ('l, 'v) weak_mem \<Rightarrow> bool" where
  "numbered f l m \<longleftrightarrow> (\<forall>k < length (wm_hist m l). f (fst (wm_hist m l ! k)) = k)"

text \<open>How often the storage has been accessed in each phase of the slot.\<close>

definition accesses :: "nat \<Rightarrow> nat" where
  "accesses ph = (if ph = 0 then 0 else if ph \<le> 2 then 1 else if ph = 3 then 2 else 3)"

text \<open>The slot that a thread is about to access or to release, and how many accesses to it the thread has seen.\<close>

fun held :: "'a mpmc_pc \<Rightarrow> (nat \<times> nat) option" where
  "held (E_StoreGen t x) = Some (unat t, 1)"
| "held (TD_Cas h) = Some (unat h, 1)"
| "held (D_Move h) = Some (unat h, 1)"
| "held (D_Destroy h x) = Some (unat h, 2)"
| "held (D_StoreGen h x) = Some (unat h, 3)"
| "held pc = None"

definition weak_mpmc_mem_ok :: "size_t \<Rightarrow> 'a mpmc_mem \<Rightarrow> bool" where
  "weak_mpmc_mem_ok n m \<longleftrightarrow> wm_wf m \<and>
     numbered (\<lambda>v. unat (counter_of v)) Tail_counter m \<and> numbered (\<lambda>v. unat (counter_of v)) Head_counter m \<and>
     (\<forall>l \<in> {Tail_counter, Head_counter}. \<exists>v. wm_latest l m = Counter v) \<and>
     (\<forall>c < unat n. numbered (\<lambda>v. unat (generation_of v)) (Gen c) m \<and>
        wm_top (Cell c) m = accesses (slot_phases (mpmc_of_mem n m) c) \<and>
        (1 < length (wm_hist m (Gen c)) \<longrightarrow> 1 \<le> snd (wm_hist m (Gen c) ! 1) (Cell c)))"

definition weak_pc_ok :: "nat \<Rightarrow> 'a mpmc_mem \<Rightarrow> 'a mpmc_pc \<Rightarrow> bool" where
  "weak_pc_ok i m pc \<longleftrightarrow> (\<forall>c k. held pc = Some (c, k) \<longrightarrow> k \<le> wm_view m i (Cell c))"

definition weak_mpmc_inv :: "'a weak_mpmc \<Rightarrow> bool" where
  "weak_mpmc_inv s \<longleftrightarrow> mpmc_inv (mpmc_of s) \<and> weak_mpmc_mem_ok (wmq_size s) (wmq_mem s) \<and>
     (\<forall>i. weak_pc_ok i (wmq_mem s) (wmq_pc s i))"


lemma mpmc_of_mem_simps [simp]:
  "mpmc_size (mpmc_of_mem n m) = n" "length (mpmc_buffer (mpmc_of_mem n m)) = unat n"
  "mpmc_head (mpmc_of_mem n m) = counter_of (wm_latest Head_counter m)"
  "mpmc_tail (mpmc_of_mem n m) = counter_of (wm_latest Tail_counter m)"
  "unat (mpmc_GetIndex (mpmc_of_mem n m) i) = weak_GetIndex n i"
  "mpmc_GetGeneration (mpmc_of_mem n m) i = weak_GetGeneration n i"
  by (simp_all add: mpmc_of_mem_def weak_GetIndex_def weak_GetGeneration_def mpmc_GetIndex_def mpmc_GetGeneration_def
      mpmc_GetIndexMask_def mpmc_GetGenerationMask_def)

lemma mpmc_of_mem_nth:
  "c < unat n \<Longrightarrow> mpmc_buffer (mpmc_of_mem n m) ! c =
     \<lparr>slot_generation = generation_of (wm_latest (Gen c) m), slot_data = storage_of (wm_latest (Cell c) m)\<rparr>"
  by (simp add: mpmc_of_mem_def)

lemma mpmc_of_mem_cong: "(\<And>l. wm_latest l m' = wm_latest l m) \<Longrightarrow> mpmc_of_mem n m' = mpmc_of_mem n m"
  by (simp add: mpmc_of_mem_def)

lemma phases_of_mem:
  "c < unat n \<Longrightarrow> slot_phases (mpmc_of_mem n m) c =
     slot_phase \<lparr>slot_generation = generation_of (wm_latest (Gen c) m), slot_data = storage_of (wm_latest (Cell c) m)\<rparr>"
  by (simp add: slot_phases_def mpmc_of_mem_nth)

text \<open>Writes to a slot and to a counter.\<close>

lemma mpmc_of_mem_slot:
  assumes "weak_GetIndex n u = c" "\<And>l. l \<noteq> Gen c \<Longrightarrow> l \<noteq> Cell c \<Longrightarrow> wm_latest l m' = wm_latest l m"
  shows "mpmc_of_mem n m' = mpmc_set_slot u
    \<lparr>slot_generation = generation_of (wm_latest (Gen c) m'), slot_data = storage_of (wm_latest (Cell c) m')\<rparr> (mpmc_of_mem n m)"
proof -
  have "mpmc_buffer (mpmc_of_mem n m') = (mpmc_buffer (mpmc_of_mem n m))[c :=
    \<lparr>slot_generation = generation_of (wm_latest (Gen c) m'), slot_data = storage_of (wm_latest (Cell c) m')\<rparr>]"
  proof (rule nth_equalityI)
    fix d assume "d < length (mpmc_buffer (mpmc_of_mem n m'))"
    then have "d < unat n" by simp
    then show "mpmc_buffer (mpmc_of_mem n m') ! d = (mpmc_buffer (mpmc_of_mem n m))[c :=
      \<lparr>slot_generation = generation_of (wm_latest (Gen c) m'), slot_data = storage_of (wm_latest (Cell c) m')\<rparr>] ! d"
      using assms(2) [of "Gen d"] assms(2) [of "Cell d"] by (cases "d = c") (simp_all add: mpmc_of_mem_nth)
  qed simp
  then show ?thesis
    using assms(2) by (simp add: mpmc_set_slot_def assms(1))
qed

lemma mpmc_of_mem_counter:
  assumes "\<And>l. l \<noteq> Tail_counter \<Longrightarrow> wm_latest l m' = wm_latest l m"
  shows "mpmc_of_mem n m' = (mpmc_of_mem n m)\<lparr>mpmc_tail := counter_of (wm_latest Tail_counter m')\<rparr>"
  using assms by (simp add: mpmc_of_mem_def)

lemma mpmc_of_mem_head:
  assumes "\<And>l. l \<noteq> Head_counter \<Longrightarrow> wm_latest l m' = wm_latest l m"
  shows "mpmc_of_mem n m' = (mpmc_of_mem n m)\<lparr>mpmc_head := counter_of (wm_latest Head_counter m')\<rparr>"
  using assms by (simp add: mpmc_of_mem_def)

section \<open>How the invariant is kept\<close>

lemma numbered_last:
  assumes "numbered f l m" "wm_ok m"
  shows "f (wm_latest l m) = wm_top l m"
  using assms(1) wm_hist_last [OF assms(2), of l] length_hist [OF assms(2), of l]
  by (auto simp: numbered_def wm_latest_def dest: spec [of _ "wm_top l m"])

lemma numbered_snoc:
  assumes "numbered f l m" "wm_hist m' l = wm_hist m l @ [(x, w)]" "f x = length (wm_hist m l)"
  shows "numbered f l m'"
  using assms by (auto simp: numbered_def nth_append less_Suc_eq)

lemma mem_ok_write:
  assumes ok: "weak_mpmc_mem_ok n m" and wf: "wm_wf m'"
    and h: "\<And>l'. wm_hist m' l' = (if l' = l then wm_hist m l @ [(x, w)] else wm_hist m l')"
    and counter: "l \<in> {Tail_counter, Head_counter} \<Longrightarrow> \<exists>v. x = Counter v \<and> unat v = length (wm_hist m l)"
    and gen: "\<And>c. l = Gen c \<Longrightarrow> c < unat n \<Longrightarrow> unat (generation_of x) = length (wm_hist m l) \<and> (length (wm_hist m l) = 1 \<longrightarrow> 1 \<le> w (Cell c))"
    and cell: "\<And>c. c < unat n \<Longrightarrow> l = Gen c \<or> l = Cell c \<Longrightarrow> wm_top (Cell c) m' = accesses (slot_phases (mpmc_of_mem n m') c)"
  shows "weak_mpmc_mem_ok n m'"
proof -
  have same: "wm_hist m' l' = wm_hist m l' \<and> wm_latest l' m' = wm_latest l' m \<and> wm_top l' m' = wm_top l' m \<and>
      (\<forall>f. numbered f l' m' = numbered f l' m)" if "l' \<noteq> l" for l'
    using h [of l'] that by (simp add: wm_latest_def wm_top_def numbered_def)
  have last: "wm_hist m' l = wm_hist m l @ [(x, w)]" "wm_latest l m' = x" using h [of l] by (simp_all add: wm_latest_def)
  have counters: "numbered (\<lambda>v. unat (counter_of v)) l' m' \<and> (\<exists>v. wm_latest l' m' = Counter v)"
    if l': "l' \<in> {Tail_counter, Head_counter}" for l'
  proof (cases "l' = l")
    case True
    obtain v where "x = Counter v" "unat v = length (wm_hist m l)" using counter l' True by auto
    moreover have "numbered (\<lambda>v. unat (counter_of v)) l m" using ok l' True by (auto simp: weak_mpmc_mem_ok_def)
    ultimately show ?thesis using True last numbered_snoc [OF _ last(1)] by auto
  next
    case False
    then show ?thesis using same ok l' by (auto simp: weak_mpmc_mem_ok_def)
  qed
  have slots: "numbered (\<lambda>v. unat (generation_of v)) (Gen c) m' \<and>
      wm_top (Cell c) m' = accesses (slot_phases (mpmc_of_mem n m') c) \<and>
      (1 < length (wm_hist m' (Gen c)) \<longrightarrow> 1 \<le> snd (wm_hist m' (Gen c) ! 1) (Cell c))" if c: "c < unat n" for c
  proof (intro conjI)
    have old: "numbered (\<lambda>v. unat (generation_of v)) (Gen c) m" "wm_top (Cell c) m = accesses (slot_phases (mpmc_of_mem n m) c)"
      "1 < length (wm_hist m (Gen c)) \<longrightarrow> 1 \<le> snd (wm_hist m (Gen c) ! 1) (Cell c)"
      using ok c by (auto simp: weak_mpmc_mem_ok_def)
    show "numbered (\<lambda>v. unat (generation_of v)) (Gen c) m'"
      using old(1) same [of "Gen c"] gen [OF _ c] numbered_snoc [OF _ last(1), of "\<lambda>v. unat (generation_of v)"]
      by (cases "l = Gen c") auto
    show "wm_top (Cell c) m' = accesses (slot_phases (mpmc_of_mem n m') c)"
    proof (cases "l = Gen c \<or> l = Cell c")
      case False
      then have "Gen c \<noteq> l" "Cell c \<noteq> l" by auto
      then show ?thesis using old(2) same [of "Gen c"] same [of "Cell c"] c by (simp add: phases_of_mem)
    qed (use cell c in blast)
    show "1 < length (wm_hist m' (Gen c)) \<longrightarrow> 1 \<le> snd (wm_hist m' (Gen c) ! 1) (Cell c)"
    proof (cases "l = Gen c")
      case True
      then have "wm_hist m (Gen c) \<noteq> []" using ok by (auto simp: weak_mpmc_mem_ok_def wm_wf_def wm_ok_def)
      then have "length (wm_hist m (Gen c)) = 1 \<or> 1 < length (wm_hist m (Gen c))" by (cases "wm_hist m (Gen c)") auto
      then show ?thesis using True old(3) gen [OF True c] last(1) by (auto simp: nth_append)
    next
      case False
      then show ?thesis using old(3) same [of "Gen c"] by simp
    qed
  qed
  show ?thesis using wf counters slots by (simp add: weak_mpmc_mem_ok_def)
qed

lemma weak_pc_ok_mono: "weak_pc_ok i m pc \<Longrightarrow> wm_view m i \<le> wm_view m' i \<Longrightarrow> weak_pc_ok i m' pc"
  unfolding weak_pc_ok_def le_fun_def by (meson order_trans)

lemma mem_ok_load:
  assumes "weak_mpmc_mem_ok n m" "wm_load ord i l k m = Some (v, m')"
  shows "weak_mpmc_mem_ok n m'" "mpmc_of_mem n m' = mpmc_of_mem n m"
proof -
  note ld = wm_load_Some [OF assms(2)] wm_load_same [OF assms(2)]
  show same: "mpmc_of_mem n m' = mpmc_of_mem n m" using ld by (intro mpmc_of_mem_cong) simp
  have "wm_wf m'" using wm_wf_load [OF assms(2)] assms(1) by (simp add: weak_mpmc_mem_ok_def)
  then show "weak_mpmc_mem_ok n m'" using assms(1) ld same by (simp add: weak_mpmc_mem_ok_def numbered_def)
qed

text \<open>A step that loads.\<close>

lemma weak_inv_load:
  assumes inv: "weak_mpmc_inv s" and ld: "wm_load ord i l k (wmq_mem s) = Some (v, m')"
    and t: "t = s\<lparr>wmq_mem := m', wmq_pc := (wmq_pc s)(i := pc')\<rparr>"
    and ok: "mpmc_pc_ok (mpmc_of_mem (wmq_size s) (wmq_mem s)) (wm_top Tail_counter (wmq_mem s)) (wm_top Head_counter (wmq_mem s)) pc'"
    and ticket: "enq_ticket pc' = None \<or> enq_ticket pc' = enq_ticket (wmq_pc s i)"
      "deq_ticket pc' = None \<or> deq_ticket pc' = deq_ticket (wmq_pc s i)" "busy_slot (wmq_pc s i) = None"
    and view: "weak_pc_ok i m' pc'"
  shows "weak_mpmc_inv t \<and> mpmc_cells (mpmc_of t) = mpmc_cells (mpmc_of s)"
proof -
  have mem: "weak_mpmc_mem_ok (wmq_size s) (wmq_mem s)" and pcs: "\<And>j. weak_pc_ok j (wmq_mem s) (wmq_pc s j)"
    and sc: "mpmc_inv (mpmc_of s)" using inv by (auto simp: weak_mpmc_inv_def)
  note kept = mem_ok_load [OF mem ld]
  have t': "mpmc_of t = (mpmc_of s)\<lparr>msys_pc := (msys_pc (mpmc_of s))(i := pc')\<rparr>"
    using kept(2) wm_load_same [OF ld] by (simp add: mpmc_of_def t)
  have "mpmc_inv (mpmc_of t)" unfolding t'
    using mpmc_inv_local [OF sc, of "wmq_pc s i" i pc'] ok ticket by (simp add: mpmc_of_def)
  moreover have "weak_pc_ok j m' (wmq_pc s j)" for j
    using weak_pc_ok_mono [OF pcs [of j] wm_load_view_mono [OF ld]] .
  ultimately show ?thesis using kept(1) view by (simp add: weak_mpmc_inv_def t' t) (simp add: mpmc_cells_def mpmc_of_def kept(2))
qed

text \<open>A step that writes: the same step of the queue that the latest writes make up.\<close>

lemma weak_inv_write:
  assumes inv: "weak_mpmc_inv s" and bound: "weak_mpmc_bounded t"
    and t: "t = s\<lparr>wmq_mem := m', wmq_pc := (wmq_pc s)(i := pc')\<rparr>"
    and step: "mpmc_step (MStep i False) (mpmc_of s) = Some (e, mpmc_of t)"
    and mem: "weak_mpmc_mem_ok (wmq_size s) m'" and mono: "\<And>j. wm_view (wmq_mem s) j \<le> wm_view m' j"
    and view: "weak_pc_ok i m' pc'"
  shows "weak_mpmc_inv t \<and> accepts ticket_spec e (mpmc_cells (mpmc_of s)) = Some (mpmc_cells (mpmc_of t))"
proof -
  have sc: "mpmc_inv (mpmc_of s)" and pcs: "\<And>j. weak_pc_ok j (wmq_mem s) (wmq_pc s j)"
    using inv by (auto simp: weak_mpmc_inv_def)
  have b: "mpmc_bounded_step (MStep i False) (mpmc_of s) = Some (e, mpmc_of t)"
    using step bound by (simp add: within_Some weak_mpmc_bounded_def)
  have "weak_pc_ok j m' (wmq_pc s j)" for j using pcs mono by (rule weak_pc_ok_mono)
  then show ?thesis
    using mpmc_inv_step [OF sc b] mpmc_refines [OF sc b] mem view by (simp add: weak_mpmc_inv_def t)
qed


section \<open>What loads tell\<close>

lemma weak_inv_parts:
  assumes "weak_mpmc_inv s"
  shows "mpmc_queue_ok (mpmc_of_mem (wmq_size s) (wmq_mem s)) (wm_top Tail_counter (wmq_mem s)) (wm_top Head_counter (wmq_mem s))"
    "mpmc_pc_ok (mpmc_of_mem (wmq_size s) (wmq_mem s)) (wm_top Tail_counter (wmq_mem s)) (wm_top Head_counter (wmq_mem s)) (wmq_pc s i)"
    "weak_mpmc_mem_ok (wmq_size s) (wmq_mem s)" "weak_pc_ok i (wmq_mem s) (wmq_pc s i)" "wm_wf (wmq_mem s)" "wm_ok (wmq_mem s)"
  using assms by (auto simp: weak_mpmc_inv_def mpmc_inv_def mpmc_of_def weak_mpmc_mem_ok_def wm_wf_def)

lemma weak_counter_load:
  assumes "weak_mpmc_mem_ok n m" "l \<in> {Tail_counter, Head_counter}" "wm_load ord i l k m = Some (v, m')"
  shows "unat (counter_of v) \<le> wm_top l m"
proof -
  have "k < length (wm_hist m l)" "v = fst (wm_hist m l ! k)" using wm_load_Some [OF assms(3)] by auto
  moreover have "numbered (\<lambda>v. unat (counter_of v)) l m" using assms(1,2) by (auto simp: weak_mpmc_mem_ok_def)
  ultimately show ?thesis by (auto simp: numbered_def wm_top_def)
qed

lemma weak_GetIndex_less:
  assumes "mpmc_queue_ok (mpmc_of_mem n m) nt nh"
  shows "weak_GetIndex n u < unat n" "unat u < unat n \<Longrightarrow> weak_GetIndex n u = unat u"
proof -
  have n: "pow2_size n" using assms by (simp add: mpmc_queue_ok_def)
  then have "weak_GetIndex n u = unat u mod unat n" by (simp add: weak_GetIndex_def unat_and_ring_mask)
  then show "weak_GetIndex n u < unat n" "unat u < unat n \<Longrightarrow> weak_GetIndex n u = unat u"
    using pow2_size_pos [OF n] by simp_all
qed

lemma weak_generation_load:
  assumes q: "mpmc_queue_ok (mpmc_of_mem n m) nt nh" and mem: "weak_mpmc_mem_ok n m" and u: "unat u < 2 ^ 31"
    and ld: "wm_load Acquire i (Gen (weak_GetIndex n u)) k m = Some (v, m')"
  shows "2 * weak_GetGeneration n u = generation_of v \<Longrightarrow> unat u < unat n"
    "2 * weak_GetGeneration n u + 1 = generation_of v \<Longrightarrow>
       unat u < unat n \<and> 2 \<le> slot_phases (mpmc_of_mem n m) (unat u) \<and> 1 \<le> wm_view m' i (Cell (unat u))"
proof -
  let ?c = "weak_GetIndex n u" and ?q = "mpmc_of_mem n m"
  note c = weak_GetIndex_less [OF q, of u]
  have k: "k < length (wm_hist m (Gen ?c))" "v = fst (wm_hist m (Gen ?c) ! k)"
    and view: "wm_view m' i = sup ((wm_view m i)(Gen ?c := k)) (snd (wm_hist m (Gen ?c) ! k))"
    using wm_load_Some [OF ld] by (auto simp: Let_def)
  have num: "numbered (\<lambda>v. unat (generation_of v)) (Gen ?c) m" and ok: "wm_ok m"
    and given: "1 < length (wm_hist m (Gen ?c)) \<longrightarrow> 1 \<le> snd (wm_hist m (Gen ?c) ! 1) (Cell ?c)"
    using mem c(1) by (auto simp: weak_mpmc_mem_ok_def wm_wf_def)
  have gv: "unat (generation_of v) = k" using num k by (simp add: numbered_def)
  have le: "slot_phase (mpmc_buffer ?q ! ?c) \<le> 5" using q c(1) by (simp add: mpmc_queue_ok_def slot_phases_def)
  have gen: "unat (slot_generation (mpmc_buffer ?q ! ?c)) = wm_top (Gen ?c) m"
    using numbered_last [OF num ok] c(1) by (simp add: mpmc_of_mem_nth)
  have k2: "k \<le> 2" using slot_phase_generation(3) [OF le] gen k(1) length_hist [OF ok] by simp
  have test: "pow2_size (mpmc_size ?q)" "8 \<le> unat (mpmc_size ?q)" using q by (simp_all add: mpmc_queue_ok_def)
  note far = ticket_generation(2) [OF test u, simplified] and near = ticket_generation(1) [OF test u, simplified]
  show n1: "unat u < unat n" if "2 * weak_GetGeneration n u = generation_of v"
  proof (rule ccontr)
    assume "\<not> unat u < unat n"
    then show False using far that gv k2 by simp
  qed
  assume r: "2 * weak_GetGeneration n u + 1 = generation_of v"
  have n2: "unat u < unat n"
  proof (rule ccontr)
    assume "\<not> unat u < unat n"
    then show False using far r gv k2 by simp
  qed
  then have "k = 1" using near r gv by simp
  then have len: "1 < length (wm_hist m (Gen ?c))" using k(1) by simp
  have "slot_generation (mpmc_buffer ?q ! ?c) \<noteq> 0" using gen len length_hist [OF ok] by auto
  then have "2 \<le> slot_phases ?q ?c" using slot_phase_generation(1) [OF le] by (simp add: slot_phases_def)
  moreover have "1 \<le> wm_view m' i (Cell ?c)" using given len by (simp add: view \<open>k = 1\<close> le_supI2)
  ultimately show "unat u < unat n \<and> 2 \<le> slot_phases ?q (unat u) \<and> 1 \<le> wm_view m' i (Cell (unat u))"
    using n2 c(2) by simp
qed

section \<open>What writes do\<close>

lemma weak_counter_write:
  assumes mem: "weak_mpmc_mem_ok n m" and l: "l \<in> {Tail_counter, Head_counter}" and b: "wm_top l m' < 2 ^ 31"
    and m': "m' = snd (wm_exchange AcqRel i l (Counter (counter_of (wm_latest l m) + 1)) m)"
  shows "weak_mpmc_mem_ok n m'" "wm_top l m' = Suc (wm_top l m)" "l' \<noteq> l \<Longrightarrow> wm_top l' m' = wm_top l' m"
    "wm_latest l' m' = (if l' = l then Counter (counter_of (wm_latest l m) + 1) else wm_latest l' m)"
    "wm_view m j \<le> wm_view m' j"
proof -
  let ?v = "counter_of (wm_latest l m)"
  obtain x where ex: "wm_exchange AcqRel i l (Counter (?v + 1)) m = (x, m')" using m' by (metis prod.collapse)
  have wf: "wm_wf m" and ok: "wm_ok m" and num: "numbered (\<lambda>v. unat (counter_of v)) l m"
    using mem l by (auto simp: weak_mpmc_mem_ok_def wm_wf_def)
  note hist = wm_exchange_simps(2) [OF ex]
  have top: "wm_top l m' = length (wm_hist m l)" using hist by (simp add: wm_top_def)
  have "unat ?v = wm_top l m" by (rule numbered_last [OF num ok])
  then have v1: "unat (?v + 1) = length (wm_hist m l)" using b top length_hist [OF ok] by (simp add: unat_word_ariths)
  show "weak_mpmc_mem_ok n m'"
    by (rule mem_ok_write [OF mem wm_wf_exchange [OF ex wf] hist]) (use l v1 in auto)
  show "wm_top l m' = Suc (wm_top l m)" using top length_hist [OF ok, of l] by simp
  show "l' \<noteq> l \<Longrightarrow> wm_top l' m' = wm_top l' m" by (rule wm_exchange_latest(2) [OF ex])
  show "wm_latest l' m' = (if l' = l then Counter (?v + 1) else wm_latest l' m)" by (rule wm_exchange_latest(1) [OF ex])
  show "wm_view m j \<le> wm_view m' j" by (rule wm_exchange_view_mono [OF ex wf])
qed

lemma weak_generation_write:
  assumes mem: "weak_mpmc_mem_ok n m" and c: "c < unat n" and m': "m' = weak_StoreGeneration i c g m"
    and g: "unat g = Suc (wm_top (Gen c) m)" and seen: "1 \<le> wm_view m i (Cell c)"
    and phase: "accesses (slot_phases (mpmc_of_mem n m') c) = accesses (slot_phases (mpmc_of_mem n m) c)"
  shows "weak_mpmc_mem_ok n m'"
proof -
  have wf: "wm_wf m" and ok: "wm_ok m" using mem by (auto simp: weak_mpmc_mem_ok_def wm_wf_def)
  have m: "m' = wm_store Release i (Gen c) (Generation g) m" by (simp add: m' weak_StoreGeneration_def)
  show ?thesis
  proof (rule mem_ok_write [OF mem])
    show "wm_wf m'" unfolding m by (rule wm_wf_store [OF wf])
    show "wm_hist m' l' = (if l' = Gen c then wm_hist m (Gen c) @
      [(Generation g, (wm_view m i)(Gen c := length (wm_hist m (Gen c))))] else wm_hist m l')" for l' by (simp add: m)
    show "wm_top (Cell d) m' = accesses (slot_phases (mpmc_of_mem n m') d)" if "Gen c = Gen d \<or> Gen c = Cell d" for d
      using that mem c phase by (auto simp: m wm_store_top [OF ok] weak_mpmc_mem_ok_def)
  qed (use g seen length_hist [OF ok] in auto)
qed

lemma weak_cell_write:
  assumes mem: "weak_mpmc_mem_ok n m" and c: "c < unat n" and m': "m' = wm_store Relaxed i (Cell c) x m"
    and phase: "accesses (slot_phases (mpmc_of_mem n m') c) = Suc (accesses (slot_phases (mpmc_of_mem n m) c))"
  shows "weak_mpmc_mem_ok n m'"
proof -
  have wf: "wm_wf m" and ok: "wm_ok m" using mem by (auto simp: weak_mpmc_mem_ok_def wm_wf_def)
  show ?thesis
  proof (rule mem_ok_write [OF mem])
    show "wm_wf m'" unfolding m' by (rule wm_wf_store [OF wf])
    show "wm_hist m' l' = (if l' = Cell c then wm_hist m (Cell c) @
      [(x, (wm_rel m i)(Cell c := length (wm_hist m (Cell c))))] else wm_hist m l')" for l' by (simp add: m')
    show "wm_top (Cell d) m' = accesses (slot_phases (mpmc_of_mem n m') d)" if "Cell c = Gen d \<or> Cell c = Cell d" for d
      using that mem c phase by (auto simp: m' wm_store_top [OF ok] weak_mpmc_mem_ok_def)
  qed auto
qed


section \<open>The steps\<close>

text \<open>What is to be shown of each: the invariant is kept, and the step is one of the row of cells.\<close>

definition weak_step_ok :: "'a weak_mpmc \<Rightarrow> 'a mpmc_event list \<Rightarrow> 'a weak_mpmc \<Rightarrow> bool" where
  "weak_step_ok s e t \<longleftrightarrow> weak_mpmc_inv t \<and> accepts ticket_spec e (mpmc_cells (mpmc_of s)) = Some (mpmc_cells (mpmc_of t))"

abbreviation with_thread :: "nat \<Rightarrow> 'a mpmc_pc \<Rightarrow> 'a mpmc_mem \<Rightarrow> 'a weak_mpmc \<Rightarrow> 'a weak_mpmc" where
  "with_thread i pc m s \<equiv> s\<lparr>wmq_mem := m, wmq_pc := (wmq_pc s)(i := pc)\<rparr>"

text \<open>A step that loads and may report that an operation found nothing to do.\<close>

lemma weak_load_step_ok:
  assumes "weak_mpmc_inv s" "wm_load ord i l k (wmq_mem s) = Some (v, m')"
    and "mpmc_pc_ok (mpmc_of_mem (wmq_size s) (wmq_mem s)) (wm_top Tail_counter (wmq_mem s)) (wm_top Head_counter (wmq_mem s)) pc'"
    and "enq_ticket pc' = None \<or> enq_ticket pc' = enq_ticket (wmq_pc s i)"
      "deq_ticket pc' = None \<or> deq_ticket pc' = deq_ticket (wmq_pc s i)" "busy_slot (wmq_pc s i) = None"
    and "weak_pc_ok i m' pc'" "e \<in> {[], [TryEmplace_false], [TryDequeue_false]}"
  shows "weak_step_ok s e (with_thread i pc' m' s)"
  using weak_inv_load [OF assms(1,2) refl assms(3-7)] assms(8) by (auto simp: weak_step_ok_def)

lemma weak_tail_step_ok:
  assumes inv: "weak_mpmc_inv s" and bound: "weak_mpmc_bounded (with_thread i pc' m' s)"
    and m': "m' = snd (wm_exchange AcqRel i Tail_counter (Counter (counter_of (wm_latest Tail_counter (wmq_mem s)) + 1)) (wmq_mem s))"
    and step: "mpmc_thread_step False (wmq_pc s i) (mpmc_of_mem (wmq_size s) (wmq_mem s)) =
      Some ([], pc', (mpmc_of_mem (wmq_size s) (wmq_mem s))\<lparr>mpmc_tail := counter_of (wm_latest Tail_counter (wmq_mem s)) + 1\<rparr>)"
    and held: "held pc' = None"
  shows "weak_step_ok s [] (with_thread i pc' m' s)"
proof -
  note mem = weak_inv_parts(3) [OF inv]
  have b: "wm_top Tail_counter m' < 2 ^ 31" using bound by (simp add: weak_mpmc_bounded_def mpmc_bounded_def mpmc_of_def)
  note w = weak_counter_write [OF mem _ b m', simplified]
  have q: "mpmc_of_mem (wmq_size s) m' =
      (mpmc_of_mem (wmq_size s) (wmq_mem s))\<lparr>mpmc_tail := counter_of (wm_latest Tail_counter (wmq_mem s)) + 1\<rparr>"
    using w(4) by (subst mpmc_of_mem_counter [of m' "wmq_mem s"]) auto
  have "mpmc_step (MStep i False) (mpmc_of s) = Some ([], mpmc_of (with_thread i pc' m' s))"
    using step w(2) w(3) [of Head_counter] by (simp del: mpmc_thread_step.simps add: mpmc_of_def q)
  from weak_inv_write [OF inv bound refl this w(1) w(5)] held show ?thesis by (simp add: weak_step_ok_def weak_pc_ok_def)
qed

lemma weak_head_step_ok:
  assumes inv: "weak_mpmc_inv s" and bound: "weak_mpmc_bounded (with_thread i pc' m' s)"
    and m': "m' = snd (wm_exchange AcqRel i Head_counter (Counter (counter_of (wm_latest Head_counter (wmq_mem s)) + 1)) (wmq_mem s))"
    and step: "mpmc_thread_step False (wmq_pc s i) (mpmc_of_mem (wmq_size s) (wmq_mem s)) =
      Some ([], pc', (mpmc_of_mem (wmq_size s) (wmq_mem s))\<lparr>mpmc_head := counter_of (wm_latest Head_counter (wmq_mem s)) + 1\<rparr>)"
    and held: "held pc' = None \<or> held pc' = held (wmq_pc s i)"
  shows "weak_step_ok s [] (with_thread i pc' m' s)"
proof -
  note mem = weak_inv_parts(3) [OF inv]
  have b: "wm_top Head_counter m' < 2 ^ 31" using bound by (simp add: weak_mpmc_bounded_def mpmc_bounded_def mpmc_of_def)
  note w = weak_counter_write [OF mem _ b m', simplified]
  have q: "mpmc_of_mem (wmq_size s) m' =
      (mpmc_of_mem (wmq_size s) (wmq_mem s))\<lparr>mpmc_head := counter_of (wm_latest Head_counter (wmq_mem s)) + 1\<rparr>"
    using w(4) by (subst mpmc_of_mem_head [of m' "wmq_mem s"]) auto
  have "weak_pc_ok i m' pc'"
    using held weak_pc_ok_mono [OF weak_inv_parts(4) [OF inv] w(5)] by (auto simp: weak_pc_ok_def)
  moreover have "mpmc_step (MStep i False) (mpmc_of s) = Some ([], mpmc_of (with_thread i pc' m' s))"
    using step w(2) w(3) [of Tail_counter] by (simp del: mpmc_thread_step.simps add: mpmc_of_def q)
  ultimately show ?thesis using weak_inv_write [OF inv bound refl _ w(1) w(5)] by (simp add: weak_step_ok_def)
qed


lemma weak_slot_step_ok:
  assumes inv: "weak_mpmc_inv s" and bound: "weak_mpmc_bounded (with_thread i pc' m' s)"
    and u: "unat u < unat (wmq_size s)"
    and m': "m' = wm_store ord i l x (wmq_mem s)" "l \<in> {Gen (unat u), Cell (unat u)}"
    and mem: "weak_mpmc_mem_ok (wmq_size s) m'"
    and step: "mpmc_thread_step False (wmq_pc s i) (mpmc_of_mem (wmq_size s) (wmq_mem s)) =
      Some (e, pc', mpmc_set_slot u \<lparr>slot_generation = generation_of (wm_latest (Gen (unat u)) m'),
        slot_data = storage_of (wm_latest (Cell (unat u)) m')\<rparr> (mpmc_of_mem (wmq_size s) (wmq_mem s)))"
    and view: "weak_pc_ok i m' pc'"
  shows "weak_step_ok s e (with_thread i pc' m' s)"
proof -
  have q: "mpmc_of_mem (wmq_size s) m' = mpmc_set_slot u \<lparr>slot_generation = generation_of (wm_latest (Gen (unat u)) m'),
        slot_data = storage_of (wm_latest (Cell (unat u)) m')\<rparr> (mpmc_of_mem (wmq_size s) (wmq_mem s))"
    using weak_GetIndex_less(2) [OF weak_inv_parts(1) [OF inv] u] m' by (intro mpmc_of_mem_slot) auto
  have "wm_top Tail_counter m' = wm_top Tail_counter (wmq_mem s)" "wm_top Head_counter m' = wm_top Head_counter (wmq_mem s)"
    using m' weak_inv_parts(6) [OF inv] by (auto simp: wm_store_top)
  then have "mpmc_step (MStep i False) (mpmc_of s) = Some (e, mpmc_of (with_thread i pc' m' s))"
    using step by (simp del: mpmc_thread_step.simps add: mpmc_of_def q)
  moreover have "wm_view (wmq_mem s) j \<le> wm_view m' j" for j
    unfolding m' by (rule wm_store_view_mono [OF weak_inv_parts(5) [OF inv]])
  ultimately show ?thesis using weak_inv_write [OF inv bound refl _ mem _ view] by (simp add: weak_step_ok_def)
qed

lemma weak_slot_facts:
  assumes "weak_mpmc_inv s" "unat u < unat (wmq_size s)"
  shows "weak_GetIndex (wmq_size s) u = unat u" "2 * weak_GetGeneration (wmq_size s) u = 0"
    "wm_top (Cell (unat u)) (wmq_mem s) = accesses (slot_phases (mpmc_of_mem (wmq_size s) (wmq_mem s)) (unat u))"
    "unat (generation_of (wm_latest (Gen (unat u)) (wmq_mem s))) = wm_top (Gen (unat u)) (wmq_mem s)"
    "mpmc_slot (mpmc_of_mem (wmq_size s) (wmq_mem s)) u =
       \<lparr>slot_generation = generation_of (wm_latest (Gen (unat u)) (wmq_mem s)), slot_data = storage_of (wm_latest (Cell (unat u)) (wmq_mem s))\<rparr>"
proof -
  note parts = weak_inv_parts [OF assms(1)]
  show i: "weak_GetIndex (wmq_size s) u = unat u" by (rule weak_GetIndex_less(2) [OF parts(1) assms(2)])
  show "2 * weak_GetGeneration (wmq_size s) u = 0" using mpmc_slot_near(2) [OF parts(1)] assms(2) by simp
  show "wm_top (Cell (unat u)) (wmq_mem s) = accesses (slot_phases (mpmc_of_mem (wmq_size s) (wmq_mem s)) (unat u))"
    using parts(3) assms(2) by (simp add: weak_mpmc_mem_ok_def)
  have "numbered (\<lambda>v. unat (generation_of v)) (Gen (unat u)) (wmq_mem s)" using parts(3) assms(2) by (simp add: weak_mpmc_mem_ok_def)
  then show "unat (generation_of (wm_latest (Gen (unat u)) (wmq_mem s))) = wm_top (Gen (unat u)) (wmq_mem s)"
    by (rule numbered_last [OF _ parts(6)])
  show "mpmc_slot (mpmc_of_mem (wmq_size s) (wmq_mem s)) u =
       \<lparr>slot_generation = generation_of (wm_latest (Gen (unat u)) (wmq_mem s)), slot_data = storage_of (wm_latest (Cell (unat u)) (wmq_mem s))\<rparr>"
    using assms(2) i by (simp add: mpmc_of_mem_nth)
qed

lemma weak_Emplace_ok:
  assumes inv: "weak_mpmc_inv s" and step: "weak_Emplace_step i k (wmq_size s) (wmq_pc s i) (wmq_mem s) = Some (e, pc', m')"
    and bound: "weak_mpmc_bounded (with_thread i pc' m' s)"
  shows "weak_step_ok s e (with_thread i pc' m' s)"
proof -
  let ?n = "wmq_size s" and ?m = "wmq_mem s" and ?q = "mpmc_of_mem (wmq_size s) (wmq_mem s)"
  note parts = weak_inv_parts [OF inv] and pc_ok = weak_inv_parts(2) [OF inv, of i] and view = weak_inv_parts(4) [OF inv, of i]
  show ?thesis
  proof (cases "wmq_pc s i")
    case (E_FetchAdd x)
    then have r: "e = []" "pc' = E_Spin (counter_of (wm_latest Tail_counter ?m)) x"
      "m' = snd (wm_exchange AcqRel i Tail_counter (Counter (counter_of (wm_latest Tail_counter ?m) + 1)) ?m)"
      using step by (simp_all add: weak_fetch_add_def Let_def)
    show ?thesis unfolding r(1) by (rule weak_tail_step_ok [OF inv bound r(3)]) (simp_all add: E_FetchAdd r(2) Let_def)
  next
    case (E_Spin u x)
    then obtain v where ld: "wm_load Acquire i (Gen (weak_GetIndex ?n u)) k ?m = Some (v, m')"
      and r: "e = []" "pc' = (if 2 * weak_GetGeneration ?n u \<noteq> generation_of v then E_Spin u x else E_Construct u x)"
      using step by (auto simp: weak_LoadGeneration_def Let_def split: option.splits)
    have "unat u < 2 ^ 31" using pc_ok parts(1) by (simp add: E_Spin mpmc_queue_ok_def)
    note test = weak_generation_load(1) [OF parts(1,3) this ld]
    show ?thesis unfolding r
      by (rule weak_load_step_ok [OF inv ld]) (use pc_ok test in \<open>auto simp: E_Spin weak_pc_ok_def\<close>)
  next
    case (E_Construct u x)
    then have u: "unat u < unat ?n" "slot_phases ?q (unat u) = 0" using pc_ok by auto
    note f = weak_slot_facts [OF inv u(1)]
    have sl: "generation_of (wm_latest (Gen (unat u)) ?m) = 0" "storage_of (wm_latest (Cell (unat u)) ?m) = Raw"
      using u by (simp_all add: phases_of_mem slot_phase_simps)
    have r: "e = []" "pc' = E_StoreGen u x" "m' = wm_store Relaxed i (Cell (unat u)) (Storage (Live x)) ?m"
      using step sl f(3) u(2) by (auto simp: E_Construct f(1) wm_plain_def accesses_def)
    have ph: "slot_phases (mpmc_of_mem ?n m') (unat u) = 1" using sl u(1) by (simp add: phases_of_mem r(3) slot_phase_def)
    have mem: "weak_mpmc_mem_ok ?n m'" by (rule weak_cell_write [OF parts(3) u(1) r(3)]) (simp add: ph u(2) accesses_def)
    show ?thesis
      by (rule weak_slot_step_ok [OF inv bound u(1) r(3) _ mem])
        (use sl f length_hist [OF parts(6)] in \<open>auto simp: E_Construct r slot_Construct_def weak_pc_ok_def\<close>)
  next
    case (E_StoreGen u x)
    then have u: "unat u < unat ?n" "slot_phases ?q (unat u) = 1" using pc_ok by auto
    note f = weak_slot_facts [OF inv u(1)]
    obtain y where sl: "generation_of (wm_latest (Gen (unat u)) ?m) = 0" "storage_of (wm_latest (Cell (unat u)) ?m) = Live y"
      using u by (auto simp: phases_of_mem slot_phase_simps)
    have r: "e = [Enqueued u x]" "pc' = M_Idle" "m' = weak_StoreGeneration i (unat u) 1 ?m"
      using step by (auto simp: E_StoreGen f(1,2) Let_def)
    have ph: "slot_phases (mpmc_of_mem ?n m') (unat u) = 2"
      using sl u(1) by (simp add: phases_of_mem r(3) slot_phase_def weak_StoreGeneration_def)
    have mem: "weak_mpmc_mem_ok ?n m'"
      by (rule weak_generation_write [OF parts(3) u(1) r(3)])
        (use f(4) sl view in \<open>simp_all add: ph u(2) accesses_def E_StoreGen weak_pc_ok_def\<close>)
    show ?thesis
      by (rule weak_slot_step_ok [OF inv bound u(1) r(3) [unfolded weak_StoreGeneration_def] _ mem])
        (use sl f in \<open>auto simp: E_StoreGen r slot_StoreGeneration_def weak_pc_ok_def weak_StoreGeneration_def Let_def\<close>)
  qed (use step in simp_all)
qed


lemma weak_TryEmplace_ok:
  assumes inv: "weak_mpmc_inv s" and step: "weak_TryEmplace_step i weak k (wmq_size s) (wmq_pc s i) (wmq_mem s) = Some (e, pc', m')"
    and bound: "weak_mpmc_bounded (with_thread i pc' m' s)"
  shows "weak_step_ok s e (with_thread i pc' m' s)"
proof -
  let ?n = "wmq_size s" and ?m = "wmq_mem s"
  note parts = weak_inv_parts [OF inv] and pc_ok = weak_inv_parts(2) [OF inv, of i]
  note counter = weak_counter_load [OF parts(3), of Tail_counter, simplified]
  show ?thesis
  proof (cases "wmq_pc s i")
    case (TE_LoadTail x)
    then obtain v where ld: "wm_load Acquire i Tail_counter k ?m = Some (v, m')" and r: "e = []" "pc' = TE_LoadGen (counter_of v) x"
      using step by (auto simp: weak_LoadCounter_def split: option.splits)
    show ?thesis unfolding r
      by (rule weak_load_step_ok [OF inv ld]) (use counter [OF ld] in \<open>auto simp: TE_LoadTail weak_pc_ok_def\<close>)
  next
    case (TE_LoadGen u x)
    then obtain v where ld: "wm_load Acquire i (Gen (weak_GetIndex ?n u)) k ?m = Some (v, m')"
      and r: "e = []" "pc' = (if 2 * weak_GetGeneration ?n u = generation_of v then TE_Cas u x else TE_Reload u x)"
      using step by (auto simp: weak_LoadGeneration_def Let_def split: option.splits)
    have "unat u < 2 ^ 31" using pc_ok parts(1) by (simp add: TE_LoadGen mpmc_queue_ok_def)
    note test = weak_generation_load(1) [OF parts(1,3) this ld]
    show ?thesis unfolding r
      by (rule weak_load_step_ok [OF inv ld]) (use pc_ok test in \<open>auto simp: TE_LoadGen weak_pc_ok_def\<close>)
  next
    case (TE_Cas u x)
    show ?thesis
    proof (cases "\<not> weak \<and> wm_latest Tail_counter ?m = Counter u")
      case True
      then have r: "e = []" "pc' = E_Construct u x" "u = counter_of (wm_latest Tail_counter ?m)"
        "m' = snd (wm_exchange AcqRel i Tail_counter (Counter (counter_of (wm_latest Tail_counter ?m) + 1)) ?m)"
        using step by (simp_all add: TE_Cas weak_compare_exchange_def)
      show ?thesis unfolding r(1)
        by (rule weak_tail_step_ok [OF inv bound r(4)]) (simp_all add: TE_Cas r(2) True)
    next
      case False
      then obtain v where ld: "wm_load Acquire i Tail_counter k ?m = Some (v, m')" and r: "e = []" "pc' = TE_LoadGen (counter_of v) x"
        using step by (auto simp: TE_Cas weak_compare_exchange_def split: option.splits if_splits)
      show ?thesis unfolding r
        by (rule weak_load_step_ok [OF inv ld]) (use counter [OF ld] in \<open>auto simp: TE_Cas weak_pc_ok_def\<close>)
    qed
  next
    case (TE_Reload u x)
    then obtain v where ld: "wm_load Acquire i Tail_counter k ?m = Some (v, m')"
      and r: "(e, pc') = (if u = counter_of v then ([TryEmplace_false], M_Idle) else ([], TE_LoadGen (counter_of v) x))"
      using step by (auto simp: weak_LoadCounter_def split: option.splits if_splits)
    show ?thesis
      by (rule weak_load_step_ok [OF inv ld]) (use counter [OF ld] r in \<open>auto simp: TE_Reload weak_pc_ok_def split: if_splits\<close>)
  qed (use step in simp_all)
qed

lemma weak_TryDequeue_ok:
  assumes inv: "weak_mpmc_inv s" and step: "weak_TryDequeue_step i weak k (wmq_size s) (wmq_pc s i) (wmq_mem s) = Some (e, pc', m')"
    and bound: "weak_mpmc_bounded (with_thread i pc' m' s)"
  shows "weak_step_ok s e (with_thread i pc' m' s)"
proof -
  let ?n = "wmq_size s" and ?m = "wmq_mem s"
  note parts = weak_inv_parts [OF inv] and pc_ok = weak_inv_parts(2) [OF inv, of i]
  note counter = weak_counter_load [OF parts(3), of Head_counter, simplified]
  show ?thesis
  proof (cases "wmq_pc s i")
    case TD_LoadHead
    then obtain v where ld: "wm_load Acquire i Head_counter k ?m = Some (v, m')" and r: "e = []" "pc' = TD_LoadGen (counter_of v)"
      using step by (auto simp: weak_LoadCounter_def split: option.splits)
    show ?thesis unfolding r
      by (rule weak_load_step_ok [OF inv ld]) (use counter [OF ld] in \<open>auto simp: TD_LoadHead weak_pc_ok_def\<close>)
  next
    case (TD_LoadGen u)
    then obtain v where ld: "wm_load Acquire i (Gen (weak_GetIndex ?n u)) k ?m = Some (v, m')"
      and r: "e = []" "pc' = (if 2 * weak_GetGeneration ?n u + 1 = generation_of v then TD_Cas u else TD_Reload u)"
      using step by (auto simp: weak_LoadGeneration_def Let_def split: option.splits)
    have "unat u < 2 ^ 31" using pc_ok parts(1) by (simp add: TD_LoadGen mpmc_queue_ok_def)
    note test = weak_generation_load(2) [OF parts(1,3) this ld]
    show ?thesis unfolding r
      by (rule weak_load_step_ok [OF inv ld]) (use pc_ok test in \<open>auto simp: TD_LoadGen weak_pc_ok_def\<close>)
  next
    case (TD_Cas u)
    show ?thesis
    proof (cases "\<not> weak \<and> wm_latest Head_counter ?m = Counter u")
      case True
      then have r: "e = []" "pc' = D_Move u" "u = counter_of (wm_latest Head_counter ?m)"
        "m' = snd (wm_exchange AcqRel i Head_counter (Counter (counter_of (wm_latest Head_counter ?m) + 1)) ?m)"
        using step by (simp_all add: TD_Cas weak_compare_exchange_def)
      show ?thesis unfolding r(1)
        by (rule weak_head_step_ok [OF inv bound r(4)]) (simp_all add: TD_Cas r(2) True)
    next
      case False
      then obtain v where ld: "wm_load Acquire i Head_counter k ?m = Some (v, m')" and r: "e = []" "pc' = TD_LoadGen (counter_of v)"
        using step by (auto simp: TD_Cas weak_compare_exchange_def split: option.splits if_splits)
      show ?thesis unfolding r
        by (rule weak_load_step_ok [OF inv ld]) (use counter [OF ld] in \<open>auto simp: TD_Cas weak_pc_ok_def\<close>)
    qed
  next
    case (TD_Reload u)
    then obtain v where ld: "wm_load Acquire i Head_counter k ?m = Some (v, m')"
      and r: "(e, pc') = (if counter_of v = u then ([TryDequeue_false], M_Idle) else ([], TD_LoadGen (counter_of v)))"
      using step by (auto simp: weak_LoadCounter_def split: option.splits if_splits)
    show ?thesis
      by (rule weak_load_step_ok [OF inv ld]) (use counter [OF ld] r in \<open>auto simp: TD_Reload weak_pc_ok_def split: if_splits\<close>)
  qed (use step in simp_all)
qed

lemma weak_Dequeue_ok:
  assumes inv: "weak_mpmc_inv s" and step: "weak_Dequeue_step i k (wmq_size s) (wmq_pc s i) (wmq_mem s) = Some (e, pc', m')"
    and bound: "weak_mpmc_bounded (with_thread i pc' m' s)"
  shows "weak_step_ok s e (with_thread i pc' m' s)"
proof -
  let ?n = "wmq_size s" and ?m = "wmq_mem s" and ?q = "mpmc_of_mem (wmq_size s) (wmq_mem s)"
  note parts = weak_inv_parts [OF inv] and pc_ok = weak_inv_parts(2) [OF inv, of i] and view = weak_inv_parts(4) [OF inv, of i]
  show ?thesis
  proof (cases "wmq_pc s i")
    case D_FetchAdd
    then have r: "e = []" "pc' = D_Spin (counter_of (wm_latest Head_counter ?m))"
      "m' = snd (wm_exchange AcqRel i Head_counter (Counter (counter_of (wm_latest Head_counter ?m) + 1)) ?m)"
      using step by (simp_all add: weak_fetch_add_def Let_def)
    show ?thesis unfolding r(1) by (rule weak_head_step_ok [OF inv bound r(3)]) (simp_all add: D_FetchAdd r(2) Let_def)
  next
    case (D_Spin u)
    then obtain v where ld: "wm_load Acquire i (Gen (weak_GetIndex ?n u)) k ?m = Some (v, m')"
      and r: "e = []" "pc' = (if 2 * weak_GetGeneration ?n u + 1 \<noteq> generation_of v then D_Spin u else D_Move u)"
      using step by (auto simp: weak_LoadGeneration_def Let_def split: option.splits)
    have "unat u < 2 ^ 31" using pc_ok parts(1) by (simp add: D_Spin mpmc_queue_ok_def)
    note test = weak_generation_load(2) [OF parts(1,3) this ld]
    show ?thesis unfolding r
      by (rule weak_load_step_ok [OF inv ld]) (use pc_ok test in \<open>auto simp: D_Spin weak_pc_ok_def\<close>)
  next
    case (D_Move u)
    then have u: "unat u < unat ?n" "slot_phases ?q (unat u) = 2" using pc_ok by auto
    note f = weak_slot_facts [OF inv u(1)]
    obtain y where sl: "generation_of (wm_latest (Gen (unat u)) ?m) = 1" "storage_of (wm_latest (Cell (unat u)) ?m) = Live y"
      using u by (auto simp: phases_of_mem slot_phase_simps)
    have r: "e = [Dequeued u y]" "pc' = D_Destroy u y" "m' = wm_store Relaxed i (Cell (unat u)) (Storage Moved) ?m"
      using step sl f(3) u(2) view by (auto simp: D_Move f(1) wm_plain_def accesses_def weak_pc_ok_def split: if_splits)
    have ph: "slot_phases (mpmc_of_mem ?n m') (unat u) = 3" using sl u(1) by (simp add: phases_of_mem r(3) slot_phase_def)
    have mem: "weak_mpmc_mem_ok ?n m'" by (rule weak_cell_write [OF parts(3) u(1) r(3)]) (simp add: ph u(2) accesses_def)
    show ?thesis
      by (rule weak_slot_step_ok [OF inv bound u(1) r(3) _ mem])
        (use sl f u(2) length_hist [OF parts(6), of "Cell (unat u)"]
          in \<open>auto simp: D_Move r slot_Move_def weak_pc_ok_def accesses_def\<close>)
  next
    case (D_Destroy u x)
    then have u: "unat u < unat ?n" "slot_phases ?q (unat u) = 3" using pc_ok by auto
    note f = weak_slot_facts [OF inv u(1)]
    have sl: "generation_of (wm_latest (Gen (unat u)) ?m) = 1" "storage_of (wm_latest (Cell (unat u)) ?m) = Moved"
      using u by (simp_all add: phases_of_mem slot_phase_simps)
    have r: "e = []" "pc' = D_StoreGen u x" "m' = wm_store Relaxed i (Cell (unat u)) (Storage Raw) ?m"
      using step sl f(3) u(2) view by (auto simp: D_Destroy f(1) wm_plain_def accesses_def weak_pc_ok_def split: if_splits)
    have ph: "slot_phases (mpmc_of_mem ?n m') (unat u) = 4" using sl u(1) by (simp add: phases_of_mem r(3) slot_phase_def)
    have mem: "weak_mpmc_mem_ok ?n m'" by (rule weak_cell_write [OF parts(3) u(1) r(3)]) (simp add: ph u(2) accesses_def)
    show ?thesis
      by (rule weak_slot_step_ok [OF inv bound u(1) r(3) _ mem])
        (use sl f u(2) length_hist [OF parts(6), of "Cell (unat u)"]
          in \<open>auto simp: D_Destroy r slot_Destroy_def weak_pc_ok_def accesses_def\<close>)
  next
    case (D_StoreGen u x)
    then have u: "unat u < unat ?n" "slot_phases ?q (unat u) = 4" using pc_ok by auto
    note f = weak_slot_facts [OF inv u(1)]
    have sl: "generation_of (wm_latest (Gen (unat u)) ?m) = 1" "storage_of (wm_latest (Cell (unat u)) ?m) = Raw"
      using u by (simp_all add: phases_of_mem slot_phase_simps)
    have r: "e = []" "pc' = M_Idle" "m' = weak_StoreGeneration i (unat u) 2 ?m"
      using step by (auto simp: D_StoreGen f(1,2) Let_def)
    have ph: "slot_phases (mpmc_of_mem ?n m') (unat u) = 5"
      using sl u(1) by (simp add: phases_of_mem r(3) slot_phase_def weak_StoreGeneration_def)
    have mem: "weak_mpmc_mem_ok ?n m'"
      by (rule weak_generation_write [OF parts(3) u(1) r(3)])
        (use f(4) sl view in \<open>simp_all add: ph u(2) accesses_def D_StoreGen weak_pc_ok_def\<close>)
    show ?thesis
      by (rule weak_slot_step_ok [OF inv bound u(1) r(3) [unfolded weak_StoreGeneration_def] _ mem])
        (use sl f in \<open>auto simp: D_StoreGen r slot_StoreGeneration_def weak_pc_ok_def weak_StoreGeneration_def Let_def\<close>)
  qed (use step in simp_all)
qed


lemma weak_mpmc_inv_step:
  assumes inv: "weak_mpmc_inv s" and step: "within weak_mpmc_bounded weak_mpmc_step c s = Some (e, t)"
  shows "weak_step_ok s e t"
proof -
  have st: "weak_mpmc_step c s = Some (e, t)" and bound: "weak_mpmc_bounded t" using step by (simp_all add: within_Some)
  show ?thesis
  proof (cases c)
    case (WMCall i r)
    with st have t: "e = []" "t = s\<lparr>wmq_pc := (wmq_pc s)(i := mpmc_entry r)\<rparr>" "wmq_pc s i = M_Idle" by (auto split: if_splits)
    have sc: "mpmc_of t = (mpmc_of s)\<lparr>msys_pc := (msys_pc (mpmc_of s))(i := mpmc_entry r)\<rparr>" by (simp add: t mpmc_of_def)
    have "mpmc_inv (mpmc_of t)" unfolding sc by (rule mpmc_inv_call) (use inv t in \<open>simp_all add: weak_mpmc_inv_def mpmc_of_def\<close>)
    moreover have "held (mpmc_entry r) = None" by (cases r) simp_all
    ultimately have "weak_mpmc_inv t" using inv by (simp add: weak_mpmc_inv_def t(2) weak_pc_ok_def)
    then show ?thesis by (simp add: weak_step_ok_def t(1) sc mpmc_cells_def)
  next
    case (WMStep i weak k)
    with st obtain pc' m' where th: "weak_mpmc_thread i weak k (wmq_size s) (wmq_pc s i) (wmq_mem s) = Some (e, pc', m')"
      and t: "t = with_thread i pc' m' s" by (auto simp del: weak_mpmc_thread.simps split: option.splits)
    note ok = weak_Emplace_ok [OF inv _ bound [unfolded t]] weak_TryEmplace_ok [OF inv _ bound [unfolded t]]
      weak_Dequeue_ok [OF inv _ bound [unfolded t]] weak_TryDequeue_ok [OF inv _ bound [unfolded t]]
    show ?thesis unfolding t
      using th ok by (simp only: weak_mpmc_thread.simps split: option.splits)
  qed
qed

lemma weak_mpmc_inv_new:
  assumes "weak_mpmc_new Capacity = Inr s"
  shows "weak_mpmc_inv s" "mpmc_cells (mpmc_of s) = replicate (unat (wmq_size s)) Free"
proof -
  obtain n where n: "mpmc_GetBufferSize Capacity = Inr n" using assms by (auto simp: weak_mpmc_new_def split: sum.splits)
  then have s: "s = \<lparr>wmq_size = n, wmq_mem = wm_new weak_mpmc_initial, wmq_pc = (\<lambda>i. M_Idle)\<rparr>"
    using assms by (simp add: weak_mpmc_new_def)
  have q: "mpmc_new Capacity = Inr (msys_queue (mpmc_of s))"
    using n by (auto simp: mpmc_new_def s mpmc_of_def mpmc_of_mem_def slot_new_def map_replicate_const)
  have "msys_pc (mpmc_of s) = (\<lambda>i. M_Idle)" "msys_tails (mpmc_of s) = 0" "msys_heads (mpmc_of s) = 0"
    by (simp_all add: mpmc_of_def s)
  then have init: "mpmc_init (mpmc_of s)" using q by (auto simp: mpmc_init_def)
  have "accesses (slot_phases (mpmc_of_mem n (wm_new weak_mpmc_initial)) c) = 0" if "c < unat n" for c
    using that by (simp add: phases_of_mem slot_phase_def accesses_def)
  then have "weak_mpmc_mem_ok n (wm_new weak_mpmc_initial)"
    by (auto simp: weak_mpmc_mem_ok_def wm_wf_new numbered_def)
  then show "weak_mpmc_inv s" using mpmc_inv_init [OF init] by (simp add: weak_mpmc_inv_def s weak_pc_ok_def)
  show "mpmc_cells (mpmc_of s) = replicate (unat (wmq_size s)) Free"
    using mpmc_init_cells [OF init] by (simp add: mpmc_of_def)
qed

section \<open>The properties\<close>

interpretation weak_mpmc: refinement "within weak_mpmc_bounded weak_mpmc_step"
    "\<lambda>s. \<exists>Capacity. weak_mpmc_new Capacity = Inr s" weak_mpmc_inv "\<lambda>s. mpmc_cells (mpmc_of s)" ticket_spec
  by unfold_locales (blast intro: weak_mpmc_inv_new dest: weak_mpmc_inv_step [unfolded weak_step_ok_def])+

lemma weak_mpmc_thread_tops:
  assumes "weak_mpmc_thread i weak k n pc m = Some (e, pc', m')"
  shows "length (wm_hist m l) \<le> length (wm_hist m' l)"
proof -
  have ex: "length (wm_hist m l) \<le> length (wm_hist (snd (wm_exchange ord i l' y m)) l)" for ord l' y
    using wm_exchange_simps(2) [of ord i l' y m "fst (wm_exchange ord i l' y m)" "snd (wm_exchange ord i l' y m)" l] by simp
  have ld: "length (wm_hist m'' l) = length (wm_hist m l)" if "wm_load ord i l' k m = Some (v, m'')" for ord l' v m''
    using wm_load_Some [OF that] by simp
  show ?thesis using assms
    by (cases pc) (auto simp: Let_def weak_fetch_add_def weak_LoadGeneration_def weak_StoreGeneration_def weak_LoadCounter_def
      weak_compare_exchange_def wm_plain_Some ex ld split: option.splits if_splits storage.splits)
qed


lemma weak_mpmc_bounded_mono:
  assumes "weak_mpmc_step c s = Some (e, t)" "weak_mpmc_bounded t"
  shows "weak_mpmc_bounded s"
proof (cases c)
  case (WMCall i r)
  then show ?thesis using assms by (auto simp: weak_mpmc_bounded_def mpmc_bounded_def mpmc_of_def split: if_splits)
next
  case (WMStep i weak k)
  with assms(1) obtain pc' m' where th: "weak_mpmc_thread i weak k (wmq_size s) (wmq_pc s i) (wmq_mem s) = Some (e, pc', m')"
    and t: "t = with_thread i pc' m' s" by (auto simp del: weak_mpmc_thread.simps split: option.splits)
  have "wm_top l (wmq_mem s) \<le> wm_top l m'" for l using weak_mpmc_thread_tops [OF th, of l] by (simp add: wm_top_def)
  from this [of Tail_counter] this [of Head_counter] show ?thesis
    using assms(2) by (simp add: weak_mpmc_bounded_def mpmc_bounded_def mpmc_of_def t)
qed

text \<open>
  Property C15. Release and acquire suffice: with the memory orders of the code, whatever stale counters and
  generations the threads read, every interleaving is a run of the row of one-shot cells; the threads never
  race on the storage of a slot, and construct, move and destroy an object only where there is none or one.
\<close>

theorem mpmc_release_acquire:
  assumes "weak_mpmc_new Capacity = Inr s" "reaches weak_mpmc_step s es t" "weak_mpmc_bounded t"
  shows "accepts ticket_spec es (replicate (unat (wmq_size s)) Free) = Some (mpmc_cells (mpmc_of t)) \<and> Fault \<notin> set es"
proof -
  have "reaches (within weak_mpmc_bounded weak_mpmc_step) s es t"
    using assms(2,3) by (rule reaches_within) (rule weak_mpmc_bounded_mono)
  then have "accepts ticket_spec es (mpmc_cells (mpmc_of s)) = Some (mpmc_cells (mpmc_of t))"
    using assms(1) by (intro weak_mpmc.refines_run) blast
  then have "accepts ticket_spec es (replicate (unat (wmq_size s)) Free) = Some (mpmc_cells (mpmc_of t))"
    by (simp add: weak_mpmc_inv_new(2) [OF assms(1)])
  then show ?thesis using accepts_history by blast
qed

section \<open>A concrete run\<close>

text \<open>
  The queue has eight slots. Thread 0 enqueues 7. Thread 2 reads the old generation of slot 0 and is told that
  there is nothing; thread 1 reads it too and waits, then takes the element. Thread 2 starts from the old
  head, finds the generation right and fails in the compare-exchange.
\<close>

definition weak_mpmc_example :: "nat weak_mpmc" where
  "weak_mpmc_example = \<lparr>wmq_size = 8, wmq_mem = wm_new weak_mpmc_initial, wmq_pc = (\<lambda>i. M_Idle)\<rparr>"

definition weak_mpmc_schedule :: "nat weak_mpmc_choice list" where
  "weak_mpmc_schedule =
     [WMCall 0 (Emplace 7), WMStep 0 False 0, WMStep 0 False 0, WMStep 0 False 0, WMStep 0 False 0,
      WMCall 2 TryDequeue, WMStep 2 False 0, WMStep 2 False 0, WMStep 2 False 0,
      WMCall 1 Dequeue, WMStep 1 False 0, WMStep 1 False 0, WMStep 1 False 1, WMStep 1 False 0, WMStep 1 False 0, WMStep 1 False 0,
      WMCall 2 TryDequeue, WMStep 2 False 0, WMStep 2 False 1, WMStep 2 False 1, WMStep 2 False 0, WMStep 2 False 1]"

lemma weak_mpmc_example_new: "weak_mpmc_new 3 = Inr weak_mpmc_example"
proof -
  have "mpmc_GetBufferSize 3 = Inr 8" by code_simp
  then show ?thesis by (simp add: weak_mpmc_new_def weak_mpmc_example_def)
qed

lemma mpmc_release_acquire_witness:
  "\<exists>t. reaches weak_mpmc_step weak_mpmc_example [Enqueued 0 7, TryDequeue_false, Dequeued 0 7, TryDequeue_false] t \<and>
     accepts ticket_spec [Enqueued 0 7, TryDequeue_false, Dequeued 0 7, TryDequeue_false] (replicate 8 Free) =
       Some (mpmc_cells (mpmc_of t))"
proof -
  have "map_option (\<lambda>(e, t). (e, wm_top Tail_counter (wmq_mem t), wm_top Head_counter (wmq_mem t)))
      (run weak_mpmc_step weak_mpmc_schedule weak_mpmc_example) =
    Some ([Enqueued 0 7, TryDequeue_false, Dequeued 0 7, TryDequeue_false], 1, 1)"
    by code_simp
  then obtain t where t: "run weak_mpmc_step weak_mpmc_schedule weak_mpmc_example =
      Some ([Enqueued 0 7, TryDequeue_false, Dequeued 0 7, TryDequeue_false], t)" "weak_mpmc_bounded t"
    by (auto simp: weak_mpmc_bounded_def mpmc_bounded_def mpmc_of_def)
  have n: "unat (wmq_size weak_mpmc_example) = 8" by (simp add: weak_mpmc_example_def)
  from mpmc_release_acquire [OF weak_mpmc_example_new run_reaches [OF t(1)] t(2)]
  show ?thesis unfolding n using run_reaches [OF t(1)] by blast
qed

end
