(* ===== verification/MPMC_Answers.thy ===== *)
theory MPMC_Answers
  imports MPMC_Lifetime
begin

text \<open>
  When \<open>TryEmplace\<close> and \<open>TryDequeue\<close> of \<open>BoundedMPMCQueue\<close> (queue/bounded_mp_mc_queue.h) return false: the
  moment during the call at which there was nothing to take, or no ticket left to give.
\<close>

section \<open>The last step of a thread\<close>

definition thread_of :: "'a mpmc_choice \<Rightarrow> nat" where
  "thread_of c = (case c of MCall i r \<Rightarrow> i | MStep i weak \<Rightarrow> i)"

lemma mpmc_step_other: "mpmc_step c s = Some (e, t) \<Longrightarrow> thread_of c \<noteq> i \<Longrightarrow> msys_pc t i = msys_pc s i"
  by (cases c) (auto simp: thread_of_def simp del: mpmc_thread_step.simps split: if_splits option.splits)

lemma mpmc_run_snoc:
  "run mpmc_step (cs @ [c]) s = Some (es, t) \<longleftrightarrow>
     (\<exists>es' e u. run mpmc_step cs s = Some (es', u) \<and> mpmc_step c u = Some (e, t) \<and> es = es' @ e)"
  by (auto simp: run_append simp del: mpmc_step.simps split: option.splits)

text \<open>A thread that is no longer where it started came there by a step of its own, and has made none since.\<close>

lemma mpmc_came_from:
  assumes "run mpmc_step cs s = Some (es, t)" "msys_pc t i \<noteq> msys_pc s i"
  shows "\<exists>cs1 c cs2 es1 es2 e u v. cs = cs1 @ c # cs2 \<and> run mpmc_step cs1 s = Some (es1, u) \<and> thread_of c = i \<and>
    mpmc_step c u = Some (e, v) \<and> run mpmc_step cs2 v = Some (es2, t) \<and> (\<forall>c' \<in> set cs2. thread_of c' \<noteq> i) \<and>
    msys_pc v i = msys_pc t i"
  using assms
proof (induction cs arbitrary: es t rule: rev_induct)
  case (snoc c cs)
  then obtain es' e w where w: "run mpmc_step cs s = Some (es', w)" "mpmc_step c w = Some (e, t)"
    by (auto simp: mpmc_run_snoc simp del: mpmc_step.simps)
  show ?case
  proof (cases "thread_of c = i")
    case True
    then have "cs @ [c] = cs @ c # [] \<and> run mpmc_step cs s = Some (es', w) \<and> thread_of c = i \<and>
      mpmc_step c w = Some (e, t) \<and> run mpmc_step [] t = Some ([], t) \<and> (\<forall>c' \<in> set []. thread_of c' \<noteq> i) \<and> msys_pc t i = msys_pc t i"
      using w by simp
    then show ?thesis by blast
  next
    case False
    then have pc: "msys_pc t i = msys_pc w i" by (rule mpmc_step_other [OF w(2)])
    from snoc.IH [OF w(1)] snoc.prems(2) pc obtain cs1 d cs2 es1 es2 e' u v where
      *: "cs = cs1 @ d # cs2" "run mpmc_step cs1 s = Some (es1, u)" "thread_of d = i" "mpmc_step d u = Some (e', v)"
        "run mpmc_step cs2 v = Some (es2, w)" "\<forall>c' \<in> set cs2. thread_of c' \<noteq> i" "msys_pc v i = msys_pc w i" by auto
    have "run mpmc_step (cs2 @ [c]) v = Some (es2 @ e, t)" using *(5) w(2) by (auto simp: mpmc_run_snoc simp del: mpmc_step.simps)
    moreover have "cs @ [c] = cs1 @ d # (cs2 @ [c])" "\<forall>c' \<in> set (cs2 @ [c]). thread_of c' \<noteq> i" using * False by auto
    moreover have "msys_pc v i = msys_pc t i" using *(7) pc by simp
    ultimately show ?thesis using *(2-4) by blast
  qed
qed simp

lemma mpmc_step_tickets: "mpmc_step c s = Some (e, t) \<Longrightarrow> msys_tails s \<le> msys_tails t \<and> msys_heads s \<le> msys_heads t"
  by (cases c) (auto simp del: mpmc_thread_step.simps split: if_splits option.splits)

lemma mpmc_reaches_tickets: "reaches mpmc_step s es t \<Longrightarrow> msys_tails s \<le> msys_tails t \<and> msys_heads s \<le> msys_heads t"
  by (induction rule: reaches.induct) (auto dest: mpmc_step_tickets)

section \<open>Where the reloads come from\<close>

lemma mpmc_before_TD_Reload:
  assumes "mpmc_step c u = Some (e, v)" "thread_of c = i" "msys_pc v i = TD_Reload h"
  shows "msys_pc u i = TD_LoadGen h \<and> msys_queue v = msys_queue u \<and>
    2 * mpmc_GetGeneration (msys_queue u) h + 1 \<noteq> slot_LoadGeneration (mpmc_slot (msys_queue u) h)"
proof (cases c)
  case (MCall j r)
  then show ?thesis using assms by (cases r) (auto simp: thread_of_def split: if_splits)
next
  case (MStep j weak)
  then have "j = i" using assms(2) by (simp add: thread_of_def)
  then show ?thesis using assms(1,3) MStep
    by (cases "msys_pc u i") (auto simp: Let_def split: if_splits option.splits)
qed

lemma mpmc_before_TE_Reload:
  assumes "mpmc_step c u = Some (e, v)" "thread_of c = i" "msys_pc v i = TE_Reload h x"
  shows "msys_pc u i = TE_LoadGen h x \<and> msys_queue v = msys_queue u \<and>
    2 * mpmc_GetGeneration (msys_queue u) h \<noteq> slot_LoadGeneration (mpmc_slot (msys_queue u) h)"
proof (cases c)
  case (MCall j r)
  then show ?thesis using assms by (cases r) (auto simp: thread_of_def split: if_splits)
next
  case (MStep j weak)
  then have "j = i" using assms(2) by (simp add: thread_of_def)
  then show ?thesis using assms(1,3) MStep
    by (cases "msys_pc u i") (auto simp: Let_def split: if_splits option.splits)
qed


lemma mpmc_run_inv:
  assumes "mpmc_init s" "run mpmc_step cs s = Some (es, u)" "reaches mpmc_step u fs t" "mpmc_bounded t"
  shows "mpmc_inv u" "msys_tails u \<le> msys_tails t" "msys_heads u \<le> msys_heads t"
proof -
  show le: "msys_tails u \<le> msys_tails t" "msys_heads u \<le> msys_heads t" using mpmc_reaches_tickets [OF assms(3)] by auto
  then have "mpmc_bounded u" using assms(4) by (simp add: mpmc_bounded_def)
  then show "mpmc_inv u" by (rule mpmc_reach_inv [OF assms(1) run_reaches [OF assms(2)]])
qed

text \<open>The generation that the thread has found, looked at again: the counter has not moved since.\<close>

lemma mpmc_last_look:
  assumes "mpmc_init s" "run mpmc_step cs s = Some (es, t)" "mpmc_bounded t" "msys_pc t i \<noteq> M_Idle"
  obtains cs1 c cs2 es1 e u v where "cs = cs1 @ c # cs2" "run mpmc_step cs1 s = Some (es1, u)" "thread_of c = i"
    "mpmc_step c u = Some (e, v)" "\<forall>c' \<in> set cs2. thread_of c' \<noteq> i" "msys_pc v i = msys_pc t i"
    "mpmc_inv u" "mpmc_inv t" "msys_tails u \<le> msys_tails t" "msys_heads u \<le> msys_heads t"
proof -
  have "msys_pc t i \<noteq> msys_pc s i" using assms(1,4) by (simp add: mpmc_init_def)
  from mpmc_came_from [OF assms(2) this] obtain cs1 c cs2 es1 es2 e u v where
    *: "cs = cs1 @ c # cs2" "run mpmc_step cs1 s = Some (es1, u)" "thread_of c = i" "mpmc_step c u = Some (e, v)"
      "run mpmc_step cs2 v = Some (es2, t)" "\<forall>c' \<in> set cs2. thread_of c' \<noteq> i" "msys_pc v i = msys_pc t i" by blast
  have "reaches mpmc_step u (e @ es2) t" by (rule reaches_trans [OF run_reaches [OF *(5)] reaches_one [where step = mpmc_step, OF *(4)]])
  from mpmc_run_inv [OF assms(1) *(2) this assms(3)] mpmc_run_inv(1) [OF assms(1,2) reaches_start assms(3)] * that
  show ?thesis by blast
qed

section \<open>The two answers\<close>

lemma mpmc_TryEmplace_false:
  assumes "mpmc_init s" "run mpmc_step cs s = Some (es, t)" "mpmc_bounded t" "mpmc_step (MStep i weak) t = Some ([TryEmplace_false], v)"
  shows "unat (mpmc_size (msys_queue t)) \<le> unat (mpmc_tail (msys_queue t))"
proof -
  obtain x where pc: "msys_pc t i = TE_Reload (mpmc_tail (msys_queue t)) x"
    using assms(4) by (cases "msys_pc t i") (auto simp: Let_def split: if_splits option.splits)
  obtain cs1 c cs2 es1 e u w where *: "cs = cs1 @ c # cs2" "run mpmc_step cs1 s = Some (es1, u)" "thread_of c = i"
    "mpmc_step c u = Some (e, w)" "msys_pc w i = msys_pc t i" "mpmc_inv u" "mpmc_inv t" "msys_tails u \<le> msys_tails t"
    by (rule mpmc_last_look [OF assms(1-3), of i]) (simp add: pc)
  note look = mpmc_before_TE_Reload [OF *(4,3), unfolded *(5), OF pc]
  have q: "mpmc_queue_ok (msys_queue u) (msys_tails u) (msys_heads u)" "unat (mpmc_tail (msys_queue t)) = msys_tails t"
    "unat (mpmc_tail (msys_queue t)) \<le> msys_tails u"
    using *(6,7) look by (auto simp: mpmc_inv_def mpmc_queue_ok_def dest!: spec [of _ i])
  have size: "mpmc_size (msys_queue t) = mpmc_size (msys_queue u)"
    using mpmc_reach_size [OF run_reaches [OF *(2)]] mpmc_reach_size [OF run_reaches [OF assms(2)]] by simp
  show "unat (mpmc_size (msys_queue t)) \<le> unat (mpmc_tail (msys_queue t))"
  proof (rule ccontr)
    assume near: "\<not> unat (mpmc_size (msys_queue t)) \<le> unat (mpmc_tail (msys_queue t))"
    then have "slot_phases (msys_queue u) (unat (mpmc_tail (msys_queue t))) = 0" "unat (mpmc_tail (msys_queue t)) < 2 ^ 31"
      using q *(8) size by (auto simp: mpmc_queue_ok_def)
    then show False using mpmc_generation_tests(1) [OF q(1)] look near size by simp
  qed
qed

text \<open>The last look at the slot is the step \<open>c\<close>, made in the state \<open>u\<close>.\<close>

lemma mpmc_TryDequeue_false:
  assumes "mpmc_init s" "run mpmc_step cs s = Some (es, t)" "mpmc_bounded t" "mpmc_step (MStep i weak) t = Some ([TryDequeue_false], v)"
  obtains cs1 c cs2 es1 u where "cs = cs1 @ c # cs2" "thread_of c = i" "\<forall>c' \<in> set cs2. thread_of c' \<noteq> i"
    "run mpmc_step cs1 s = Some (es1, u)" "mpmc_head (msys_queue u) = mpmc_head (msys_queue t)"
    "unat (mpmc_head (msys_queue u)) < unat (mpmc_size (msys_queue u)) \<longrightarrow> mpmc_cells u ! unat (mpmc_head (msys_queue u)) = Free"
proof -
  let ?h = "mpmc_head (msys_queue t)"
  have pc: "msys_pc t i = TD_Reload ?h"
    using assms(4) by (cases "msys_pc t i") (auto simp: Let_def split: if_splits option.splits)
  obtain cs1 c cs2 es1 e u w where *: "cs = cs1 @ c # cs2" "run mpmc_step cs1 s = Some (es1, u)" "thread_of c = i"
    "mpmc_step c u = Some (e, w)" "msys_pc w i = msys_pc t i" "mpmc_inv u" "mpmc_inv t" "msys_heads u \<le> msys_heads t"
    "\<forall>c' \<in> set cs2. thread_of c' \<noteq> i"
    by (rule mpmc_last_look [OF assms(1-3), of i]) (simp add: pc)
  note look = mpmc_before_TD_Reload [OF *(4,3), unfolded *(5), OF pc]
  have q: "mpmc_queue_ok (msys_queue u) (msys_tails u) (msys_heads u)" "unat ?h = msys_heads t" "unat ?h \<le> msys_heads u"
    using *(6,7) look by (auto simp: mpmc_inv_def mpmc_queue_ok_def dest!: spec [of _ i])
  then have head: "mpmc_head (msys_queue u) = ?h" and b: "unat ?h < 2 ^ 31"
    using *(8) by (auto simp: mpmc_queue_ok_def word_unat_eq_iff)
  have "mpmc_cells u ! unat ?h = Free" if near: "unat ?h < unat (mpmc_size (msys_queue u))"
  proof -
    have "slot_phases (msys_queue u) (unat ?h) \<le> 2" using q near *(8) by (auto simp: mpmc_queue_ok_def)
    then have ph: "slot_phases (msys_queue u) (unat ?h) \<le> 1" using mpmc_generation_tests(2) [OF q(1) b] look near by auto
    then have "slot_generation (mpmc_buffer (msys_queue u) ! unat ?h) = 0"
      using slot_phase_generation(1) [of "mpmc_buffer (msys_queue u) ! unat ?h"] by (simp add: slot_phases_def)
    then show ?thesis using near q(1) by (simp add: mpmc_cells_def mpmc_queue_ok_def cell_of_def)
  qed
  then show thesis using * head that [of cs1 c cs2 es1 u] by simp
qed

section \<open>The property\<close>

text \<open>
  Property C30. A false answer is true: \<open>TryEmplace\<close> returns false only when all tickets of the buffer have been
  drawn, and \<open>TryDequeue\<close> only when at some moment during the call, its last look at the slot, nothing
  had been published under the next ticket to dequeue.
\<close>

theorem mpmc_false_answers:
  assumes "mpmc_init s" "run mpmc_step cs s = Some (es, t)" "mpmc_bounded t" "mpmc_step (MStep i weak) t = Some ([a], v)"
  shows "(a = TryEmplace_false \<longrightarrow> unat (mpmc_size (msys_queue t)) \<le> unat (mpmc_tail (msys_queue t))) \<and>
    (a = TryDequeue_false \<longrightarrow> (\<exists>cs1 c cs2 es1 u. cs = cs1 @ c # cs2 \<and> thread_of c = i \<and> (\<forall>c' \<in> set cs2. thread_of c' \<noteq> i) \<and>
       run mpmc_step cs1 s = Some (es1, u) \<and> mpmc_head (msys_queue u) = mpmc_head (msys_queue t) \<and>
       (unat (mpmc_head (msys_queue u)) < unat (mpmc_size (msys_queue u)) \<longrightarrow>
          mpmc_cells u ! unat (mpmc_head (msys_queue u)) = Free)))"
  using mpmc_TryEmplace_false [OF assms(1-3)] mpmc_TryDequeue_false [OF assms(1-3)] assms(4) by metis

text \<open>
  Thread 1 looks at the first slot before anything is published in it; thread 0 publishes 7 before thread 1 returns.
\<close>

definition mpmc_false_schedule :: "nat mpmc_choice list" where
  "mpmc_false_schedule = [MCall 1 TryDequeue, MStep 1 False, MStep 1 False, MCall 0 (Emplace 7)] @ replicate 4 (MStep 0 False)"

lemma mpmc_false_answers_witness:
  "\<exists>es t cs1 c cs2 es1 u. run mpmc_step mpmc_false_schedule mpmc_sys_example = Some (es, t) \<and>
     mpmc_false_schedule = cs1 @ c # cs2 \<and> run mpmc_step cs1 mpmc_sys_example = Some (es1, u) \<and> mpmc_cells u ! 0 = Free"
proof -
  have "map_option (\<lambda>(es, t). (es, msys_tails t, msys_heads t, mpmc_head (msys_queue t), mpmc_size (msys_queue t),
      map_option fst (mpmc_step (MStep 1 False) t))) (run mpmc_step mpmc_false_schedule mpmc_sys_example) =
    Some ([Enqueued 0 7], 1, 0, 0, 8, Some [TryDequeue_false])"
    by code_simp
  then obtain t v where t: "run mpmc_step mpmc_false_schedule mpmc_sys_example = Some ([Enqueued 0 7], t)" "mpmc_bounded t"
    "mpmc_head (msys_queue t) = 0" "mpmc_step (MStep 1 False) t = Some ([TryDequeue_false], v)"
    by (auto simp: mpmc_bounded_def simp del: mpmc_step.simps)
  obtain cs1 c cs2 es1 u where *: "mpmc_false_schedule = cs1 @ c # cs2" "run mpmc_step cs1 mpmc_sys_example = Some (es1, u)"
      "mpmc_head (msys_queue u) = 0"
      "unat (mpmc_head (msys_queue u)) < unat (mpmc_size (msys_queue u)) \<longrightarrow> mpmc_cells u ! unat (mpmc_head (msys_queue u)) = Free"
    using mpmc_false_answers [OF mpmc_sys_example_init t(1,2,4)] t(3) by auto
  have "mpmc_size (msys_queue u) = 8"
    using mpmc_reach_size [OF run_reaches [OF *(2)]] by (simp add: mpmc_sys_example_def mpmc_example_def)
  then show ?thesis using t(1) * by auto
qed

end
