(* ===== verification/Multicast_Weak.thy ===== *)
theory Multicast_Weak
  imports Multicast_Message Seq_Lock_Weak
begin

text \<open>
  \<open>AtomicMulticastQueueMessage\<close> (queue/bounded_multicast_queue.h) with the memory orders and fences that
  the code has: an instance of the sequence lock of \<open>Seq_Lock_Weak\<close> whose parts are \<open>message_size_\<close> and the
  bytes of \<open>data_\<close>. Which bytes a load reads depends on the size that it has read, which may be stale.
\<close>

section \<open>The accesses of a message\<close>

text \<open>
  \<open>atomic_memcpy\<close> accesses the first bytes in units of eight. As messages of different lengths access the
  same bytes in different units, each byte is a part of its own here and a unit is eight parts: a load may
  find its bytes to be from different writes, which allows more than the code does.
\<close>

datatype msg_part = Size_part | Byte_part nat

datatype msg_value = Size_value (size_of_value: nat) | Byte_value (byte_of_value: byte)

text \<open>\<open>Load\<close> reads the size first, then as many bytes.\<close>

fun amsg_weak_next :: "msg_value list \<Rightarrow> msg_part option" where
  "amsg_weak_next [] = Some Size_part"
| "amsg_weak_next (sz # bytes) = (if length bytes < size_of_value sz then Some (Byte_part (length bytes)) else None)"

text \<open>The bytes of the message that was loaded: \<open>message_bytes\<close> of it.\<close>

definition amsg_weak_result :: "msg_value list \<Rightarrow> byte list" where
  "amsg_weak_result loaded = map byte_of_value (tl loaded)"

text \<open>\<open>Store\<close> writes the bytes of the object, then their number.\<close>

definition amsg_weak_writes :: "byte list \<Rightarrow> (msg_part \<times> msg_value) list" where
  "amsg_weak_writes object =
     map (\<lambda>j. (Byte_part j, Byte_value (object ! j))) [0..<length object] @ [(Size_part, Size_value (length object))]"

definition amsg_weak_ops :: "nat \<Rightarrow> (msg_part, msg_value, byte list) weak_ops" where
  "amsg_weak_ops Capacity =
     \<lparr>wo_next = amsg_weak_next, wo_result = amsg_weak_result, wo_writes = amsg_weak_writes, wo_fits = amsg_fits Capacity\<rparr>"

text \<open>Before the first store: \<open>data_\<close> and \<open>message_size_\<close> are zero.\<close>

fun amsg_weak_initial :: "msg_part \<Rightarrow> msg_value" where
  "amsg_weak_initial Size_part = Size_value 0"
| "amsg_weak_initial (Byte_part j) = Byte_value 0"

definition amsg_weak_new :: "(msg_part, msg_value, byte list) weak_seq_sys" where
  "amsg_weak_new = weak_seq_new amsg_weak_initial"

abbreviation amsg_weak_step :: "nat \<Rightarrow> byte list weak_seq_choice \<Rightarrow> (msg_part, msg_value, byte list) weak_seq_sys \<Rightarrow>
    (byte list weak_seq_event list \<times> (msg_part, msg_value, byte list) weak_seq_sys) option" where
  "amsg_weak_step Capacity \<equiv> weak_seq_step (amsg_weak_ops Capacity)"

section \<open>The contract\<close>

definition amsg_lays :: "(msg_part \<Rightarrow> msg_value) \<Rightarrow> byte list \<Rightarrow> bool" where
  "amsg_lays c object \<longleftrightarrow> c Size_part = Size_value (length object) \<and>
     (\<forall>j < length object. c (Byte_part j) = Byte_value (object ! j))"

lemma amsg_weak_writes_distinct: "distinct (map fst (amsg_weak_writes object))"
  by (auto simp: amsg_weak_writes_def comp_def distinct_map inj_on_def)

lemma amsg_overwrite_lays: "amsg_lays (overwrite (amsg_weak_writes object) c) object"
proof -
  have "map_of (amsg_weak_writes object) Size_part = Some (Size_value (length object))"
    by (rule map_of_is_SomeI [OF amsg_weak_writes_distinct]) (simp add: amsg_weak_writes_def)
  moreover have "map_of (amsg_weak_writes object) (Byte_part j) = Some (Byte_value (object ! j))" if "j < length object" for j
    by (rule map_of_is_SomeI [OF amsg_weak_writes_distinct]) (use that in \<open>simp add: amsg_weak_writes_def image_iff\<close>)
  ultimately show ?thesis by (simp add: amsg_lays_def overwrite_def)
qed

lemma amsg_load_result:
  assumes lays: "amsg_lays c object" and read: "loads_from amsg_weak_next c loaded" and done_: "amsg_weak_next loaded = None"
  shows "amsg_weak_result loaded = object"
proof -
  obtain sz bytes where l: "loaded = sz # bytes" using done_ by (cases loaded) auto
  have at: "map_option c (amsg_weak_next (take j loaded)) = Some (loaded ! j)" if "j < length loaded" for j
    using read that by (simp add: loads_from_def)
  have sz: "sz = Size_value (length object)" using at [of 0] l lays by (simp add: amsg_lays_def)
  have byte: "j < length object \<and> bytes ! j = Byte_value (object ! j)" if "j < length bytes" for j
    using at [of "Suc j"] that l sz lays by (auto simp: amsg_lays_def min_def split: if_splits)
  have "\<not> length bytes < length object" using done_ l sz by (auto split: if_splits)
  moreover have "length bytes \<le> length object"
    using byte [of "length bytes - 1"] by (cases "bytes = []") (auto simp: Suc_le_eq simp flip: length_greater_0_conv)
  ultimately show ?thesis using byte by (intro nth_equalityI) (simp_all add: amsg_weak_result_def l)
qed

interpretation amsg_weak: weak_seqlocked "amsg_weak_ops Capacity" amsg_lays for Capacity
  by unfold_locales (simp_all add: amsg_weak_ops_def amsg_weak_writes_distinct amsg_overwrite_lays amsg_load_result)

section \<open>The property\<close>

text \<open>
  Property C20. The memory orders and fences of \<open>AtomicMulticastQueueMessage\<close> are enough: in every execution by any number of threads,
  whatever stale sizes and bytes their accesses read, a load returns one of the messages that were
  stored, of its own length, and never one older than the thread has loaded or stored before, as long as
  fewer than \<open>2 ^ 32\<close> changes of the counter fell between its two looks at it.
\<close>

theorem message_fences_suffice:
  assumes "reaches (amsg_weak_step Capacity) amsg_weak_new es t"
  shows "\<exists>objs seen. accepts versions_spec es ([[]], \<lambda>i. 0) = Some (objs, seen) \<and>
    (\<forall>i. seen i < length objs) \<and> (\<forall>i j. weak_writing (wseq_pc t i) \<and> weak_writing (wseq_pc t j) \<longrightarrow> i = j)"
proof (rule amsg_weak.weak_seq_versions)
  show "amsg_lays amsg_weak_initial []" by (simp add: amsg_lays_def)
  show "wo_fits (amsg_weak_ops Capacity) []" by (simp add: amsg_weak_ops_def amsg_fits_def)
  show "reaches (amsg_weak_step Capacity) (weak_seq_new amsg_weak_initial) es t" using assms by (simp add: amsg_weak_new_def)
qed

text \<open>
  A message of two bytes and then one of a single byte. Thread 0 reads the old size with the new first byte and
  starts again; thread 2 is still given the longer message after the shorter one was stored.
\<close>

definition amsg_weak_schedule :: "byte list weak_seq_choice list" where
  "amsg_weak_schedule =
     [WQStore 1 [5, 6]] @ replicate 2 (WQStep 1 False 0) @ replicate 4 (WQStep 1 False 0) @
     [WQLoad 0, WQStep 0 False 2, WQStep 0 False 1,
      WQStore 1 [7], WQStep 1 False 2, WQStep 1 False 0, WQStep 1 False 0,
      WQStep 0 False 2, WQStep 0 False 1, WQStep 1 False 0, WQStep 1 False 0, WQStep 0 False 3,
      WQStep 0 False 4, WQStep 0 False 2, WQStep 0 False 2, WQStep 0 False 4,
      WQLoad 2, WQStep 2 False 2, WQStep 2 False 1, WQStep 2 False 1, WQStep 2 False 1, WQStep 2 False 2]"

definition amsg_weak_events :: "byte list weak_seq_event list" where
  "amsg_weak_events = [WStored 1 [5, 6], WStored 1 [7], WLoaded 0 [7] 4 4, WLoaded 2 [5, 6] 2 2]"

lemma message_fences_suffice_witness:
  "\<exists>t objs seen. reaches (amsg_weak_step 8) amsg_weak_new amsg_weak_events t \<and>
     accepts versions_spec amsg_weak_events ([[]], \<lambda>i. 0) = Some (objs, seen) \<and> seen 0 < length objs"
proof -
  have "map_option fst (run (amsg_weak_step 8) amsg_weak_schedule amsg_weak_new) = Some amsg_weak_events"
    by code_simp
  then obtain t where "run (amsg_weak_step 8) amsg_weak_schedule amsg_weak_new = Some (amsg_weak_events, t)" by auto
  note t = run_reaches [OF this]
  from message_fences_suffice [OF t] t show ?thesis by blast
qed

end
