(* ===== verification/Multicast_Weak_Queue.thy ===== *)
theory Multicast_Weak_Queue
  imports Multicast_Weak Multicast_Queue
begin

text \<open>
  \<open>BoundedMulticastQueue\<close> (queue/bounded_multicast_queue.h) over the messages of \<open>Multicast_Weak\<close>: the one
  \<open>Writer\<close> and the \<open>Reader\<close>s make their accesses to the cells one by one, with the memory orders of the code,
  and any of these accesses may read a stale value.
\<close>

section \<open>The queue over its cells\<close>

text \<open>
  Every cell is a memory of its own, so that nothing is learnt of one cell by an access to another: the
  code allows no more than that. Thread 0 is the writer, thread \<open>i + 1\<close> has the reader \<open>i\<close>. Where a thread is
  in its \<open>Store\<close> or \<open>Load\<close> is in the cell. \<open>mqw_undefined\<close> says that something undefined has happened,
  and \<open>mqw_written\<close> counts the writes for the statements.
\<close>

record mqw_sys =
  mqw_size :: size_t
  mqw_cells :: "(msg_part, msg_value, byte list) weak_seq_sys list"
  mqw_writer :: mq_writer
  mqw_readers :: "nat \<Rightarrow> mq_reader"
  mqw_written :: nat
  mqw_undefined :: bool

text \<open>\<open>GetIndexMask\<close> and \<open>GetSeqRightShiftValue\<close> depend on the size only.\<close>

definition mqw_queue :: "mqw_sys \<Rightarrow> mq" where
  "mqw_queue s = \<lparr>mq_size = mqw_size s, mq_buffer = []\<rparr>"

definition mqw_new :: "size_t \<Rightarrow> mqw_sys option" where
  "mqw_new MessagesCount =
     (case mq_GetBufferSize MessagesCount of
        None \<Rightarrow> None
      | Some n \<Rightarrow> Some \<lparr>mqw_size = n, mqw_cells = replicate (unat n) amsg_weak_new, mqw_writer = Writer_new 0,
                         mqw_readers = (\<lambda>i. Reader_new 0), mqw_written = 0, mqw_undefined = False\<rparr>)"

definition mqw_access :: "nat \<Rightarrow> nat \<Rightarrow> byte list weak_seq_choice \<Rightarrow> mqw_sys \<Rightarrow>
    (byte list weak_seq_event list \<times> mqw_sys) option" where
  "mqw_access Capacity j choice s =
     (if j < length (mqw_cells s)
      then (case amsg_weak_step Capacity choice (mqw_cells s ! j) of
              None \<Rightarrow> None
            | Some (e, cell) \<Rightarrow> Some (e, s\<lparr>mqw_cells := (mqw_cells s)[j := cell]\<rparr>))
      else Some ([], s\<lparr>mqw_undefined := True\<rparr>))"

text \<open>What \<open>Write\<close> does after its \<open>Store\<close> has returned.\<close>

fun weak_Write_end :: "byte list weak_seq_event list \<Rightarrow> mqw_sys \<Rightarrow> mq_event list \<times> mqw_sys" where
  "weak_Write_end [WStored i object] s =
     ([Wrote object],
      s\<lparr>mqw_writer := (mqw_writer s)\<lparr>wr_tail := (wr_tail (mqw_writer s) + 1) AND mq_GetIndexMask (mqw_queue s)\<rparr>,
        mqw_written := mqw_written s + 1\<rparr>)"
| "weak_Write_end e s = ([], s)"

text \<open>
  What \<open>TryRead\<close> and an iteration of \<open>Read\<close> do after \<open>Load\<close> has returned \<open>real_seq\<close>, which is the \<open>seq0\<close> of its last
  round.
\<close>

fun loaded_seq :: "(msg_value, byte list) weak_seq_pc \<Rightarrow> counter" where
  "loaded_seq (WR_Copy seq0 v0 loaded) = seq0"
| "loaded_seq pc = 0"

definition weak_Read_end :: "nat \<Rightarrow> counter \<Rightarrow> byte list \<Rightarrow> mqw_sys \<Rightarrow> mq_event list \<times> mqw_sys" where
  "weak_Read_end i real_seq bytes s =
     (let r = mqw_readers s i
      in case int32_sub real_seq (ucast (rd_expected_seq r)) of
           None \<Rightarrow> ([], s\<lparr>mqw_undefined := True\<rparr>)
         | Some result \<Rightarrow>
             if result = 0 then
               (case Reader_UpdateIndexes r (mqw_queue s) of
                  None \<Rightarrow> ([], s\<lparr>mqw_undefined := True\<rparr>)
                | Some r' \<Rightarrow> ([Got i bytes], s\<lparr>mqw_readers := (mqw_readers s)(i := r')\<rparr>))
             else if result > 0 then ([Late i], s)
             else ([Waited i], s))"

fun weak_Load_end :: "nat \<Rightarrow> counter \<Rightarrow> byte list weak_seq_event list \<Rightarrow> mqw_sys \<Rightarrow> mq_event list \<times> mqw_sys" where
  "weak_Load_end i real_seq [WLoaded i' bytes v0 v1] s = weak_Read_end i real_seq bytes s"
| "weak_Load_end i real_seq e s = ([], s)"

text \<open>
  A call of \<open>Write\<close>; an iteration of \<open>Read\<close> of reader \<open>i\<close>; the next access of the writer and of reader \<open>i\<close>; a copy
  of reader \<open>i\<close> over reader \<open>j\<close>, while neither is used.
\<close>

datatype mqw_choice = WMWrite "byte list" | WMRead nat | WMWriter bool nat | WMReader nat nat | WMCopy nat nat

definition reader_pc :: "nat \<Rightarrow> mqw_sys \<Rightarrow> (msg_value, byte list) weak_seq_pc" where
  "reader_pc i s = wseq_pc (mqw_cells s ! unat (rd_head (mqw_readers s i))) (Suc i)"

definition weak_Write_call :: "nat \<Rightarrow> byte list \<Rightarrow> mqw_sys \<Rightarrow> (mq_event list \<times> mqw_sys) option" where
  [simp]: "weak_Write_call Capacity object s =
     map_option (\<lambda>(e, s). ([], s)) (mqw_access Capacity (unat (wr_tail (mqw_writer s))) (WQStore 0 object) s)"

definition weak_Write_access :: "nat \<Rightarrow> bool \<Rightarrow> nat \<Rightarrow> mqw_sys \<Rightarrow> (mq_event list \<times> mqw_sys) option" where
  [simp]: "weak_Write_access Capacity weak k s =
     map_option (\<lambda>(e, s). weak_Write_end e s) (mqw_access Capacity (unat (wr_tail (mqw_writer s))) (WQStep 0 weak k) s)"

definition weak_Read_call :: "nat \<Rightarrow> nat \<Rightarrow> mqw_sys \<Rightarrow> (mq_event list \<times> mqw_sys) option" where
  [simp]: "weak_Read_call Capacity i s =
     map_option (\<lambda>(e, s). ([], s)) (mqw_access Capacity (unat (rd_head (mqw_readers s i))) (WQLoad (Suc i)) s)"

definition weak_Read_access :: "nat \<Rightarrow> nat \<Rightarrow> nat \<Rightarrow> mqw_sys \<Rightarrow> (mq_event list \<times> mqw_sys) option" where
  [simp]: "weak_Read_access Capacity i k s =
     map_option (\<lambda>(e, t). weak_Load_end i (loaded_seq (reader_pc i s)) e t)
       (mqw_access Capacity (unat (rd_head (mqw_readers s i))) (WQStep (Suc i) False k) s)"

definition weak_Reader_copy :: "nat \<Rightarrow> nat \<Rightarrow> mqw_sys \<Rightarrow> (mq_event list \<times> mqw_sys) option" where
  [simp]: "weak_Reader_copy i j s =
     (if reader_pc i s = WQ_Idle \<and> reader_pc j s = WQ_Idle
      then Some ([Copied i j], s\<lparr>mqw_readers := (mqw_readers s)(j := Reader_copy (mqw_readers s i))\<rparr>)
      else None)"

text \<open>One step of the whole queue.\<close>

fun mqw_step :: "nat \<Rightarrow> mqw_choice \<Rightarrow> mqw_sys \<Rightarrow> (mq_event list \<times> mqw_sys) option" where
  "mqw_step Capacity (WMWrite object) s = weak_Write_call Capacity object s"
| "mqw_step Capacity (WMRead i) s = weak_Read_call Capacity i s"
| "mqw_step Capacity (WMWriter weak k) s = weak_Write_access Capacity weak k s"
| "mqw_step Capacity (WMReader i k) s = weak_Read_access Capacity i k s"
| "mqw_step Capacity (WMCopy i j) s = weak_Reader_copy i j s"

section \<open>The specification\<close>

text \<open>
  The log of \<open>Multicast_Queue\<close>, as stale values allow it: a reader may wait although its message was written,
  and may still get it although it is late; it never gets another message, and is never told that it is late
  when it is not.
\<close>

fun weak_mq_spec :: "mq_event \<Rightarrow> mq_log \<Rightarrow> mq_log option" where
  "weak_mq_spec (Wrote d) l = Some (l\<lparr>log_messages := log_messages l @ [d]\<rparr>)"
| "weak_mq_spec (Got i d) l =
     (if log_position l i < length (log_messages l) \<and> d = log_messages l ! log_position l i
      then Some (l\<lparr>log_position := (log_position l)(i := Suc (log_position l i))\<rparr>) else None)"
| "weak_mq_spec (Late i) l =
     (if log_position l i + log_window l < length (log_messages l) then Some l else None)"
| "weak_mq_spec (Waited i) l = Some l"
| "weak_mq_spec (Copied i j) l = Some (l\<lparr>log_position := (log_position l)(j := log_position l i)\<rparr>)"

lemma weak_mq_spec_messages:
  "accepts weak_mq_spec es l = Some l' \<Longrightarrow> log_messages l' = log_messages l @ writes es \<and> log_window l' = log_window l"
proof (induction es arbitrary: l)
  case (Cons e es)
  then obtain l1 where l1: "weak_mq_spec e l = Some l1" "accepts weak_mq_spec es l1 = Some l'"
    by (auto split: option.splits)
  then show ?case using Cons.IH [OF l1(2)] by (cases e) (auto split: if_splits)
qed simp

lemma weak_mq_spec_reader_pos: "accepts weak_mq_spec es l = Some l' \<Longrightarrow> log_position l' = reader_pos es (log_position l)"
proof (induction es arbitrary: l)
  case (Cons e es)
  then obtain l1 where l1: "weak_mq_spec e l = Some l1" "accepts weak_mq_spec es l1 = Some l'"
    by (auto split: option.splits)
  then show ?case using Cons.IH [OF l1(2)] by (cases e) (auto simp: fun_upd_def split: if_splits)
qed simp

section \<open>What a step of a cell does\<close>

fun reading :: "('v, 'd) weak_seq_pc \<Rightarrow> bool" where
  "reading WR_Seq0 \<longleftrightarrow> True"
| "reading (WR_Copy seq0 v0 loaded) \<longleftrightarrow> True"
| "reading _ \<longleftrightarrow> False"

fun storing :: "('v, 'd) weak_seq_pc \<Rightarrow> bool" where
  "storing (WW_Lock d p) \<longleftrightarrow> True"
| "storing (WW_Copy seq d n) \<longleftrightarrow> True"
| "storing _ \<longleftrightarrow> False"

lemma seq_step_others: "weak_seq_step ops (WQStep i weak k) c = Some (e, t) \<Longrightarrow> j \<noteq> i \<Longrightarrow> wseq_pc t j = wseq_pc c j"
  by (auto split: option.splits simp del: weak_Load_step.simps weak_Store_step.simps)

lemma Store_step_not_reading: "reading pc \<Longrightarrow> weak_Store_step ops i weak k pc m = None"
  by (cases pc) simp_all

lemma Load_step_not_storing: "storing pc \<Longrightarrow> weak_Load_step ops i k pc m = None"
  by (cases pc) simp_all

lemma Load_step_cases:
  assumes "weak_Load_step ops i k pc m = Some (e, pc', m')"
  shows "e = [] \<and> reading pc' \<or>
    (\<exists>seq0 v0 loaded d x. e = [WLoaded i d v0 k] \<and> pc' = WQ_Idle \<and> pc = WR_Copy seq0 v0 loaded \<and>
       wm_load Relaxed i Seq_counter k (wm_fence_acquire i m) = Some (x, m'))"
proof (cases pc)
  case (WR_Copy seq0 v0 loaded)
  then show ?thesis using assms by (cases "wo_next ops loaded") (auto split: option.splits if_splits)
qed (use assms in \<open>auto split: option.splits\<close>)

lemma Store_step_cases:
  assumes "weak_Store_step ops i weak k pc m = Some (e, pc', m')"
  shows "e = [] \<and> storing pc' \<or> (\<exists>d. e = [WStored i d] \<and> pc' = WQ_Idle)"
proof (cases pc)
  case (WW_Lock d p)
  then show ?thesis using assms by (cases p) (auto split: option.splits if_splits prod.splits)
qed (use assms in \<open>auto split: if_splits prod.splits\<close>)

lemma reading_step:
  assumes sim: "weak_seq_sim ops lays c (objs, seen)" and pc: "reading (wseq_pc c i)"
    and step: "weak_seq_step ops (WQStep i weak k) c = Some (e, t)"
  shows "e = [] \<and> reading (wseq_pc t i) \<or>
    (\<exists>seq0 v0 loaded d. e = [WLoaded i d v0 k] \<and> wseq_pc t i = WQ_Idle \<and> wseq_pc c i = WR_Copy seq0 v0 loaded \<and>
       seq0 = of_nat v0 \<and> k \<le> 2 * length objs)"
proof -
  obtain b where rel: "weak_seq_rel ops b c (objs, seen)" using sim by (auto simp: weak_seq_sim_def)
  note rf = rel_facts [OF rel]
  obtain m where st: "weak_Load_step ops i k (wseq_pc c i) (wseq_mem c) = Some (e, wseq_pc t i, m)"
    using step Store_step_not_reading [OF pc, of ops i weak k "wseq_mem c"]
    by (auto split: option.splits simp del: weak_Load_step.simps)
  have top: "k \<le> 2 * length objs" if "wm_load Relaxed i Seq_counter k (wm_fence_acquire i (wseq_mem c)) = Some (x, m')" for x m'
    using counter_load(2) [OF rf(2) that wm_fence_simps(1)] turn_facts(1) [OF rf(3)] by linarith
  have ok: "seq0 = of_nat v0" if "wseq_pc c i = WR_Copy seq0 v0 loaded" for seq0 v0 loaded
    using rf(6) [OF that] by simp
  from Load_step_cases [OF st] show ?thesis
  proof (elim disjE exE conjE)
    fix seq0 v0 loaded d x
    assume "e = [WLoaded i d v0 k]" "wseq_pc t i = WQ_Idle" "wseq_pc c i = WR_Copy seq0 v0 loaded"
      "wm_load Relaxed i Seq_counter k (wm_fence_acquire i (wseq_mem c)) = Some (x, m)"
    then show ?thesis using top ok by blast
  qed simp
qed

lemma storing_step:
  assumes pc: "storing (wseq_pc c i)" and step: "weak_seq_step ops (WQStep i weak k) c = Some (e, t)"
  shows "e = [] \<and> storing (wseq_pc t i) \<or> (\<exists>d. e = [WStored i d] \<and> wseq_pc t i = WQ_Idle)"
proof -
  obtain m where "weak_Store_step ops i weak k (wseq_pc c i) (wseq_mem c) = Some (e, wseq_pc t i, m)"
    using step Load_step_not_storing [OF pc, of ops i k "wseq_mem c"]
    by (auto split: option.splits simp del: weak_Store_step.simps)
  then show ?thesis by (rule Store_step_cases)
qed

section \<open>The objects of a cell\<close>

text \<open>The empty object it starts with, and every \<open>N\<close>-th message of the log.\<close>

definition cell_objs :: "nat \<Rightarrow> nat \<Rightarrow> byte list list \<Rightarrow> byte list list" where
  "cell_objs N j msgs = [] # map (\<lambda>v. msgs ! (v * N + j)) [0..<cell_count N j (length msgs)]"

lemma cell_objs_length: "length (cell_objs N j msgs) = Suc (cell_count N j (length msgs))"
  by (simp add: cell_objs_def)

lemma cell_objs_nth: "v < cell_count N j (length msgs) \<Longrightarrow> cell_objs N j msgs ! Suc v = msgs ! (v * N + j)"
  by (simp add: cell_objs_def)

lemma cell_objs_snoc:
  assumes "j < N"
  shows "cell_objs N j (msgs @ [d]) = (if j = length msgs mod N then cell_objs N j msgs @ [d] else cell_objs N j msgs)"
proof -
  have old: "map (\<lambda>v. (msgs @ [d]) ! (v * N + j)) [0..<cell_count N j (length msgs)] =
      map (\<lambda>v. msgs ! (v * N + j)) [0..<cell_count N j (length msgs)]"
    using cell_count_less [OF assms] by (simp add: nth_append)
  have "length msgs div N * N + j = length msgs \<and> cell_count N j (length msgs) = length msgs div N" if "j = length msgs mod N"
    using cell_count_current [of N "length msgs"] assms that by simp
  then show ?thesis using old by (auto simp: cell_objs_def)
qed

lemma cell_objs_nil: "cell_objs N j [] = [[]]"
  by (simp add: cell_objs_def)

section \<open>The simulation\<close>

definition mqw_bounded :: "mqw_sys \<Rightarrow> bool" where
  "mqw_bounded s \<longleftrightarrow> mqw_written s div unat (mqw_size s) < 2 ^ 30 - 1"

text \<open>Which threads may be inside a cell: the writer at its tail, a reader at its head.\<close>

definition inside_cell :: "nat \<Rightarrow> nat \<Rightarrow> nat \<Rightarrow> (nat \<Rightarrow> nat) \<Rightarrow> nat \<Rightarrow> (msg_value, byte list) weak_seq_pc \<Rightarrow> bool" where
  "inside_cell N j W pos i pc \<longleftrightarrow> pc = WQ_Idle \<or> (i = 0 \<and> storing pc \<and> j = W mod N) \<or>
     (\<exists>r. i = Suc r \<and> reading pc \<and> j = pos r mod N)"

abbreviation cell_sim :: "nat \<Rightarrow> (msg_part, msg_value, byte list) weak_seq_sys \<Rightarrow> byte list list \<Rightarrow> bool" where
  "cell_sim Capacity c objs \<equiv> \<exists>seen. weak_seq_sim (amsg_weak_ops Capacity) amsg_lays c (objs, seen)"

definition mqw_cells_ok :: "nat \<Rightarrow> nat \<Rightarrow> (msg_part, msg_value, byte list) weak_seq_sys list \<Rightarrow> mq_log \<Rightarrow> bool" where
  "mqw_cells_ok Capacity N cells l \<longleftrightarrow> length cells = N \<and> (\<forall>j < N. cell_sim Capacity (cells ! j) (cell_objs N j (log_messages l)) \<and>
     (\<forall>i. inside_cell N j (length (log_messages l)) (log_position l) i (wseq_pc (cells ! j) i)))"

definition mqw_rel :: "nat \<Rightarrow> mqw_sys \<Rightarrow> mq_log \<Rightarrow> bool" where
  "mqw_rel Capacity s l \<longleftrightarrow> (let N = unat (mqw_size s); W = length (log_messages l) in
     pow2_size (mqw_size s) \<and> N < 2 ^ 32 \<and> log_window l = N \<and> mqw_written s = W \<and> \<not> mqw_undefined s \<and>
     mqw_writer s = \<lparr>wr_queue = Some 0, wr_tail = of_nat (W mod N)\<rparr> \<and>
     (\<forall>i. log_position l i \<le> W \<and> mqw_readers s i = reader_at N (log_position l i)) \<and>
     mqw_cells_ok Capacity N (mqw_cells s) l)"

lemma mqw_rel_facts:
  assumes "mqw_rel Capacity s l" "N = unat (mqw_size s)" "W = length (log_messages l)"
  shows "0 < N" "N < 2 ^ 64" "pow2_size (mqw_size s)" "mqw_cells_ok Capacity N (mqw_cells s) l" "log_window l = N"
    "length (mqw_cells s) = N" "mqw_written s = W"
    "unat (wr_tail (mqw_writer s)) = W mod N" "unat (rd_head (mqw_readers s i)) = log_position l i mod N"
    "log_position l i \<le> W" "mqw_readers s i = reader_at N (log_position l i)"
proof -
  show N: "0 < N" "N < 2 ^ 64" using assms(1,2) unat_lt64 [of "mqw_size s"] by (auto simp: mqw_rel_def Let_def pow2_size_pos)
  have small: "unat (of_nat (x mod N) :: size_t) = x mod N" for x
    using less_trans [OF mod_less_divisor [OF N(1)] N(2)] by (intro unat_of_nat_small) simp
  show "pow2_size (mqw_size s)" "mqw_cells_ok Capacity N (mqw_cells s) l" "log_window l = N" "length (mqw_cells s) = N" "mqw_written s = W"
    "log_position l i \<le> W" "mqw_readers s i = reader_at N (log_position l i)"
    using assms by (auto simp: mqw_rel_def Let_def mqw_cells_ok_def)
  show "unat (wr_tail (mqw_writer s)) = W mod N" "unat (rd_head (mqw_readers s i)) = log_position l i mod N"
    using assms small by (auto simp: mqw_rel_def Let_def reader_at_def)
qed

text \<open>A reader moved while it is not inside its cell.\<close>

lemma mqw_cells_moved:
  assumes ok: "mqw_cells_ok Capacity N cells l" and N: "0 < N"
    and idle: "wseq_pc (cells ! (log_position l r mod N)) (Suc r) = WQ_Idle"
  shows "mqw_cells_ok Capacity N cells (l\<lparr>log_position := (log_position l)(r := p)\<rparr>)"
proof -
  have "inside_cell N j W ((log_position l)(r := p)) i (wseq_pc (cells ! j) i)"
    if "inside_cell N j W (log_position l) i (wseq_pc (cells ! j) i)" for i j W
    using that idle by (auto simp: inside_cell_def)
  then show ?thesis using ok by (simp add: mqw_cells_ok_def)
qed

text \<open>One cell replaced.\<close>

lemma mqw_cells_put:
  assumes ok: "mqw_cells_ok Capacity N cells l" and j: "j < N" and sim: "cell_sim Capacity cell (cell_objs N j (log_messages l'))"
    and pcs: "\<And>i. inside_cell N j (length (log_messages l')) (log_position l') i (wseq_pc cell i)"
    and others: "\<And>j'. j' < N \<Longrightarrow> j' \<noteq> j \<Longrightarrow> cell_objs N j' (log_messages l') = cell_objs N j' (log_messages l)"
    and apart: "\<And>j' i pc. j' < N \<Longrightarrow> j' \<noteq> j \<Longrightarrow> inside_cell N j' (length (log_messages l)) (log_position l) i pc \<Longrightarrow>
      inside_cell N j' (length (log_messages l')) (log_position l') i pc"
  shows "mqw_cells_ok Capacity N (cells[j := cell]) l'"
  unfolding mqw_cells_ok_def
proof (intro conjI allI impI)
  show "length (cells[j := cell]) = N" using ok by (simp add: mqw_cells_ok_def)
  fix j' assume j': "j' < N"
  have at: "cells[j := cell] ! j' = (if j' = j then cell else cells ! j')" using ok j j' by (auto simp: mqw_cells_ok_def)
  have old: "cell_sim Capacity (cells ! j') (cell_objs N j' (log_messages l))"
    "\<And>i. inside_cell N j' (length (log_messages l)) (log_position l) i (wseq_pc (cells ! j') i)" using ok j' by (auto simp: mqw_cells_ok_def)
  show "cell_sim Capacity (cells[j := cell] ! j') (cell_objs N j' (log_messages l'))"
    unfolding at using sim old(1) others [OF j'] by simp
  show "inside_cell N j' (length (log_messages l')) (log_position l') i (wseq_pc (cells[j := cell] ! j') i)" for i
    unfolding at using pcs apart [OF j'] old(2) by simp
qed

text \<open>An access that only moves a thread on in its cell.\<close>

lemma mqw_rel_quiet:
  assumes rel: "mqw_rel Capacity s l" and j: "j < unat (mqw_size s)"
    and sim: "cell_sim Capacity cell (cell_objs (unat (mqw_size s)) j (log_messages l))"
    and same: "\<And>i'. i' \<noteq> i \<Longrightarrow> wseq_pc cell i' = wseq_pc (mqw_cells s ! j) i'"
    and pc: "inside_cell (unat (mqw_size s)) j (length (log_messages l)) (log_position l) i (wseq_pc cell i)"
  shows "mqw_rel Capacity (s\<lparr>mqw_cells := (mqw_cells s)[j := cell]\<rparr>) l"
proof -
  note R = mqw_rel_facts [OF rel refl refl]
  have "inside_cell (unat (mqw_size s)) j (length (log_messages l)) (log_position l) i' (wseq_pc cell i')" for i'
    using pc same [of i'] R(4) j by (cases "i' = i") (auto simp: mqw_cells_ok_def)
  then have "mqw_cells_ok Capacity (unat (mqw_size s)) ((mqw_cells s)[j := cell]) l" by (intro mqw_cells_put [OF R(4) j sim]) auto
  then show ?thesis using rel by (simp add: mqw_rel_def Let_def)
qed

text \<open>An access of a thread to its cell.\<close>

lemma mqw_access_Some:
  assumes acc: "mqw_access Capacity j choice s = Some (e, t)" and rel: "mqw_rel Capacity s l" and j: "j < unat (mqw_size s)"
  obtains cell objs seen seen' where "amsg_weak_step Capacity choice (mqw_cells s ! j) = Some (e, cell)"
    "t = s\<lparr>mqw_cells := (mqw_cells s)[j := cell]\<rparr>"
    "weak_seq_sim (amsg_weak_ops Capacity) amsg_lays (mqw_cells s ! j) (cell_objs (unat (mqw_size s)) j (log_messages l), seen)"
    "accepts versions_spec e (cell_objs (unat (mqw_size s)) j (log_messages l), seen) = Some (objs, seen')"
    "weak_seq_sim (amsg_weak_ops Capacity) amsg_lays cell (objs, seen')"
proof -
  note R = mqw_rel_facts [OF rel refl refl]
  obtain cell where c: "amsg_weak_step Capacity choice (mqw_cells s ! j) = Some (e, cell)" "t = s\<lparr>mqw_cells := (mqw_cells s)[j := cell]\<rparr>"
    using acc R(6) j by (auto simp: mqw_access_def simp del: weak_seq_step.simps split: option.splits)
  obtain seen where sim: "weak_seq_sim (amsg_weak_ops Capacity) amsg_lays (mqw_cells s ! j) (cell_objs (unat (mqw_size s)) j (log_messages l), seen)"
    using R(4) j by (auto simp: mqw_cells_ok_def)
  from amsg_weak.weak_seq.rel_step [OF sim c(1)] c sim that show ?thesis by (metis surj_pair)
qed

lemma mqw_call:
  assumes rel: "mqw_rel Capacity s l" and acc: "mqw_access Capacity j choice s = Some (e, t)" and j: "j < unat (mqw_size s)"
    and choice: "choice = WQLoad i \<and> (\<exists>r. i = Suc r \<and> j = log_position l r mod unat (mqw_size s)) \<or>
      (\<exists>d. choice = WQStore i d \<and> i = 0 \<and> j = length (log_messages l) mod unat (mqw_size s))"
  shows "mqw_rel Capacity t l"
proof -
  obtain cell objs seen seen' where c: "amsg_weak_step Capacity choice (mqw_cells s ! j) = Some (e, cell)"
    "t = s\<lparr>mqw_cells := (mqw_cells s)[j := cell]\<rparr>"
    "accepts versions_spec e (cell_objs (unat (mqw_size s)) j (log_messages l), seen) = Some (objs, seen')"
    "weak_seq_sim (amsg_weak_ops Capacity) amsg_lays cell (objs, seen')" using mqw_access_Some [OF acc rel j] by metis
  from c(1) choice have e: "e = []" "\<And>i'. i' \<noteq> i \<Longrightarrow> wseq_pc cell i' = wseq_pc (mqw_cells s ! j) i'"
    "inside_cell (unat (mqw_size s)) j (length (log_messages l)) (log_position l) i (wseq_pc cell i)"
    by (auto simp: inside_cell_def split: if_splits)
  then have "cell_sim Capacity cell (cell_objs (unat (mqw_size s)) j (log_messages l))" using c(3,4) by auto
  from mqw_rel_quiet [OF rel j this e(2,3)] show ?thesis by (simp add: c(2))
qed

section \<open>Steps of the writer\<close>

lemma mqw_writer_step:
  assumes rel: "mqw_rel Capacity s l" and step: "mqw_step Capacity (WMWriter weak k) s = Some (e, t)"
  shows "\<exists>l'. accepts weak_mq_spec e l = Some l' \<and> mqw_rel Capacity t l'"
proof -
  let ?N = "unat (mqw_size s)" and ?W = "length (log_messages l)"
  let ?j = "?W mod ?N"
  note R = mqw_rel_facts [OF rel refl refl]
  have j: "?j < ?N" using R(1) by simp
  obtain e' u where acc: "mqw_access Capacity ?j (WQStep 0 weak k) s = Some (e', u)" and et: "(e, t) = weak_Write_end e' u"
    using step R(8) by auto
  obtain cell objs seen seen' where c: "amsg_weak_step Capacity (WQStep 0 weak k) (mqw_cells s ! ?j) = Some (e', cell)"
    "u = s\<lparr>mqw_cells := (mqw_cells s)[?j := cell]\<rparr>"
    "accepts versions_spec e' (cell_objs ?N ?j (log_messages l), seen) = Some (objs, seen')"
    "weak_seq_sim (amsg_weak_ops Capacity) amsg_lays cell (objs, seen')"
    using mqw_access_Some [OF acc rel j] by metis
  have in_cell: "inside_cell ?N ?j ?W (log_position l) i (wseq_pc (mqw_cells s ! ?j) i)" for i
    using R(4) j by (auto simp: mqw_cells_ok_def)
  then have pc: "storing (wseq_pc (mqw_cells s ! ?j) 0)"
    using c(1) in_cell [of 0] by (auto simp: inside_cell_def)
  note same = seq_step_others [OF c(1)]
  from storing_step [OF pc c(1)] show ?thesis
  proof (elim disjE conjE exE)
    assume "e' = []" "storing (wseq_pc cell 0)"
    moreover from this have "mqw_rel Capacity u l"
      unfolding c(2) using c(3,4) by (intro mqw_rel_quiet [OF rel j _ same]) (auto simp: inside_cell_def)
    ultimately show ?thesis using et by simp
  next
    fix d
    assume e': "e' = [WStored 0 d]" and idle: "wseq_pc cell 0 = WQ_Idle"
    let ?l = "l\<lparr>log_messages := log_messages l @ [d]\<rparr>"
    have objs: "objs = cell_objs ?N ?j (log_messages ?l)" using c(3) e' j by (simp add: cell_objs_snoc)
    have "inside_cell ?N ?j (length (log_messages ?l)) (log_position ?l) i (wseq_pc cell i)" for i
      using in_cell [of i] same [of i] idle by (cases "i = 0") (auto simp: inside_cell_def)
    then have "mqw_cells_ok Capacity ?N ((mqw_cells s)[?j := cell]) ?l"
      using c(4) by (intro mqw_cells_put [OF R(4) j]) (auto simp: objs cell_objs_snoc inside_cell_def)
    moreover have "e = [Wrote d]" "t = s\<lparr>mqw_cells := (mqw_cells s)[?j := cell],
        mqw_writer := \<lparr>wr_queue = Some 0, wr_tail = of_nat (Suc ?W mod ?N)\<rparr>, mqw_written := Suc ?W\<rparr>"
      using et next_index_of_nat [OF R(3) refl, of ?W] R(7) rel
      by (simp_all add: e' c(2) mqw_rel_def Let_def mqw_queue_def mq_GetIndexMask_def)
    ultimately show ?thesis using rel by (auto simp: mqw_rel_def Let_def le_Suc_eq)
  qed
qed

section \<open>Steps of the readers\<close>

text \<open>What a load of the cell that reader \<open>i\<close> is at tells it.\<close>

lemma cell_version:
  assumes acc: "accepts versions_spec [WLoaded i' d v0 k] (cell_objs N j msgs, seen) = Some (objs, seen')"
    and k: "k \<le> 2 * length (cell_objs N j msgs)" and j: "j < N" and bound: "length msgs div N < 2 ^ 30 - 1"
  shows "even v0" "v0 div 2 \<le> cell_count N j (length msgs)" "d = cell_objs N j msgs ! (v0 div 2)" "objs = cell_objs N j msgs"
    "v0 < 2 ^ 31"
proof -
  have count: "cell_count N j (length msgs) \<le> Suc (length msgs div N)" by (rule cell_count_le [OF j])
  then have "k < v0 + 2 ^ 32" using k bound by (simp add: cell_objs_length)
  then show v: "even v0" "v0 div 2 \<le> cell_count N j (length msgs)" "d = cell_objs N j msgs ! (v0 div 2)" "objs = cell_objs N j msgs"
    using acc by (auto simp: cell_objs_length less_Suc_eq_le split: if_splits)
  obtain h where h: "v0 = 2 * h" using v(1) by (auto elim: evenE)
  then have "h \<le> Suc (length msgs div N)" using order_trans [OF v(2) count] by simp
  then show "v0 < 2 ^ 31" using bound h by simp
qed

lemma weak_Read_end_at:
  assumes r: "mqw_readers s i = reader_at N p" and N: "N = unat (mqw_size s)" "pow2_size (mqw_size s)" "N < 2 ^ 32"
    and p: "p \<le> length msgs" and bound: "length msgs div N < 2 ^ 30 - 1"
    and v: "even v0" "v0 div 2 \<le> cell_count N (p mod N) (length msgs)" "d = cell_objs N (p mod N) msgs ! (v0 div 2)" "v0 < 2 ^ 31"
  shows "weak_Read_end i (of_nat v0) d s =
    (if v0 div 2 = Suc (p div N) then ([Got i (msgs ! p)], s\<lparr>mqw_readers := (mqw_readers s)(i := reader_at N (Suc p))\<rparr>)
     else if Suc (p div N) < v0 div 2 then ([Late i], s) else ([Waited i], s))"
    "v0 div 2 = Suc (p div N) \<Longrightarrow> p < length msgs" "Suc (p div N) < v0 div 2 \<Longrightarrow> p + N < length msgs"
proof -
  have pos: "0 < N" using N(1,2) by (simp add: pow2_size_pos)
  have small: "2 + 2 * (p div N) < 2 ^ 31" using div_le_mono [OF p, of N] bound by simp
  have v0: "v0 = 2 * (v0 div 2)" using v(1) by simp
  have "rd_expected_seq (reader_at N p) = of_nat (2 + 2 * (p div N))" by (simp only: reader_at_def mq_reader.simps)
  then have sub: "int32_sub (of_nat v0) (ucast (rd_expected_seq (reader_at N p))) = Some (2 * (int (v0 div 2) - int (Suc (p div N))))"
    using int32_sub_small [OF v(4) small] v0 by simp
  have update: "Reader_UpdateIndexes (reader_at N p) (mqw_queue s) = Some (reader_at N (Suc p))"
    using Reader_UpdateIndexes_at [of "mqw_queue s" p] N small by (simp add: mqw_queue_def)
  note less = cell_count_less [OF mod_less_divisor [OF pos], of _ p "length msgs"]
  show lt: "p < length msgs" if "v0 div 2 = Suc (p div N)" using less [of "p div N"] v(2) that by simp
  show "p + N < length msgs" if "Suc (p div N) < v0 div 2"
  proof -
    have "Suc (p div N) * N + p mod N < length msgs" using less [of "Suc (p div N)"] v(2) that by simp
    moreover have "Suc (p div N) * N + p mod N = p + N" by (simp add: add.commute add.left_commute)
    ultimately show ?thesis by simp
  qed
  have d: "d = msgs ! p" if "v0 div 2 = Suc (p div N)"
    using cell_objs_nth [of "p div N" N "p mod N" msgs] v(2,3) that by simp
  show "weak_Read_end i (of_nat v0) d s =
    (if v0 div 2 = Suc (p div N) then ([Got i (msgs ! p)], s\<lparr>mqw_readers := (mqw_readers s)(i := reader_at N (Suc p))\<rparr>)
     else if Suc (p div N) < v0 div 2 then ([Late i], s) else ([Waited i], s))"
    using d by (auto simp: weak_Read_end_def r sub update Let_def simp del: of_nat_Suc of_nat_add)
qed

lemma mqw_Read_end:
  assumes rel: "mqw_rel Capacity s l" and N: "N = unat (mqw_size s)" and p: "p = log_position l i"
    and idle: "wseq_pc (mqw_cells s ! (p mod N)) (Suc i) = WQ_Idle"
    and bound: "length (log_messages l) div N < 2 ^ 30 - 1"
    and v: "even v0" "v0 div 2 \<le> cell_count N (p mod N) (length (log_messages l))"
      "d = cell_objs N (p mod N) (log_messages l) ! (v0 div 2)" "v0 < 2 ^ 31"
    and et: "(e, t) = weak_Read_end i (of_nat v0) d s"
  shows "\<exists>l'. accepts weak_mq_spec e l = Some l' \<and> mqw_rel Capacity t l'"
proof -
  note R = mqw_rel_facts [OF rel N refl]
  have "N < 2 ^ 32" using rel N by (simp add: mqw_rel_def Let_def)
  note at = weak_Read_end_at [OF R(11) [of i, folded p] N R(3) this R(10) [of i, folded p] bound v]
  note end_at = et [unfolded at(1)]
  show ?thesis
  proof (cases "v0 div 2 = Suc (p div N)")
    case True
    then have t: "e = [Got i (log_messages l ! p)]" "t = s\<lparr>mqw_readers := (mqw_readers s)(i := reader_at N (Suc p))\<rparr>"
      using end_at by simp_all
    have "mqw_cells_ok Capacity N (mqw_cells s) (l\<lparr>log_position := (log_position l)(i := Suc p)\<rparr>)"
      using mqw_cells_moved [OF R(4,1)] idle p by simp
    then show ?thesis using t at(2) [OF True] rel N p by (auto simp: mqw_rel_def Let_def)
  next
    case False
    then have "t = s" "e = (if Suc (p div N) < v0 div 2 then [Late i] else [Waited i])" using end_at by (simp_all split: if_splits)
    moreover have "log_position l i + log_window l < length (log_messages l)" if "Suc (p div N) < v0 div 2"
      using at(3) [OF that] R(5) p by simp
    ultimately show ?thesis using rel by (auto split: if_splits)
  qed
qed

lemma mqw_reader_step:
  assumes rel: "mqw_rel Capacity s l" and bound: "mqw_bounded s" and step: "mqw_step Capacity (WMReader i k) s = Some (e, t)"
  shows "\<exists>l'. accepts weak_mq_spec e l = Some l' \<and> mqw_rel Capacity t l'"
proof -
  let ?N = "unat (mqw_size s)" and ?W = "length (log_messages l)" and ?p = "log_position l i"
  let ?j = "?p mod ?N" and ?i = "Suc i"
  note R = mqw_rel_facts [OF rel refl refl]
  have j: "?j < ?N" using R(1) by simp
  obtain e' u where acc: "mqw_access Capacity ?j (WQStep ?i False k) s = Some (e', u)"
    and et: "(e, t) = weak_Load_end i (loaded_seq (reader_pc i s)) e' u"
    using step R(9) by auto
  obtain cell objs seen seen' where c: "amsg_weak_step Capacity (WQStep ?i False k) (mqw_cells s ! ?j) = Some (e', cell)"
    "u = s\<lparr>mqw_cells := (mqw_cells s)[?j := cell]\<rparr>"
    "weak_seq_sim (amsg_weak_ops Capacity) amsg_lays (mqw_cells s ! ?j) (cell_objs ?N ?j (log_messages l), seen)"
    "accepts versions_spec e' (cell_objs ?N ?j (log_messages l), seen) = Some (objs, seen')"
    "weak_seq_sim (amsg_weak_ops Capacity) amsg_lays cell (objs, seen')"
    using mqw_access_Some [OF acc rel j] by metis
  have in_cell: "inside_cell ?N ?j ?W (log_position l) i' (wseq_pc (mqw_cells s ! ?j) i')" for i'
    using R(4) j by (auto simp: mqw_cells_ok_def)
  then have pc: "reading (wseq_pc (mqw_cells s ! ?j) ?i)" using c(1) in_cell [of ?i] by (auto simp: inside_cell_def)
  note same = seq_step_others [OF c(1)]
  from reading_step [OF c(3) pc c(1)] show ?thesis
  proof (elim disjE conjE exE)
    assume "e' = []" "reading (wseq_pc cell ?i)"
    moreover from this have "mqw_rel Capacity u l"
      unfolding c(2) using c(4,5) by (intro mqw_rel_quiet [OF rel j _ same]) (auto simp: inside_cell_def)
    ultimately show ?thesis using et by simp
  next
    fix seq0 v0 loaded d
    assume e': "e' = [WLoaded ?i d v0 k]" and idle: "wseq_pc cell ?i = WQ_Idle"
      and before: "wseq_pc (mqw_cells s ! ?j) ?i = WR_Copy seq0 v0 loaded" "seq0 = of_nat v0"
      and k: "k \<le> 2 * length (cell_objs ?N ?j (log_messages l))"
    have b: "?W div ?N < 2 ^ 30 - 1" using bound R(7) by (simp add: mqw_bounded_def)
    note v = cell_version [OF c(4) [unfolded e'] k j b]
    have u: "mqw_rel Capacity u l"
      unfolding c(2) using v(4) c(5) idle by (intro mqw_rel_quiet [OF rel j _ same]) (auto simp: inside_cell_def)
    have size: "mqw_size u = mqw_size s" by (simp add: c(2))
    have "wseq_pc (mqw_cells u ! ?j) ?i = WQ_Idle" using idle j R(6) by (simp add: c(2))
    moreover have "(e, t) = weak_Read_end i (of_nat v0) d u" using et e' before R(9) by (simp add: reader_pc_def)
    ultimately show ?thesis using mqw_Read_end [OF u] b v(1,2,3,5) by (simp only: size)
  qed
qed

section \<open>All steps\<close>

lemma mqw_rel_copy:
  assumes rel: "mqw_rel Capacity s l" and step: "mqw_step Capacity (WMCopy i j) s = Some (e, t)"
  shows "\<exists>l'. accepts weak_mq_spec e l = Some l' \<and> mqw_rel Capacity t l'"
proof -
  note R = mqw_rel_facts [OF rel refl refl]
  have t: "e = [Copied i j]" "t = s\<lparr>mqw_readers := (mqw_readers s)(j := reader_at (unat (mqw_size s)) (log_position l i))\<rparr>"
    and idle: "reader_pc j s = WQ_Idle"
    using step R(11) [of i] by (auto simp: Reader_copy_def reader_at_def split: if_splits)
  then show ?thesis using mqw_cells_moved [OF R(4,1), of j] rel R(9) [of j]
    by (auto simp: mqw_rel_def Let_def reader_pc_def)
qed

lemma mqw_access_written: "mqw_access Capacity j choice s = Some (e, t) \<Longrightarrow> mqw_written t = mqw_written s \<and> mqw_size t = mqw_size s"
  by (auto simp: mqw_access_def simp del: weak_seq_step.simps split: option.splits if_splits)

lemma weak_Write_end_written: "(e, t) = weak_Write_end e' s \<Longrightarrow> mqw_written s \<le> mqw_written t \<and> mqw_size t = mqw_size s"
  by (cases "(e', s)" rule: weak_Write_end.cases) auto

lemma weak_Load_end_written: "(e, t) = weak_Load_end i x e' s \<Longrightarrow> mqw_written t = mqw_written s \<and> mqw_size t = mqw_size s"
  by (cases "(i, x, e', s)" rule: weak_Load_end.cases) (auto simp: weak_Read_end_def Let_def split: option.splits if_splits)

lemma mqw_step_written:
  assumes step: "mqw_step Capacity c s = Some (e, t)"
  shows "mqw_written s \<le> mqw_written t \<and> mqw_size t = mqw_size s"
proof (cases c)
  case (WMWriter weak k)
  then obtain e' u where "mqw_access Capacity (unat (wr_tail (mqw_writer s))) (WQStep 0 weak k) s = Some (e', u)"
    "(e, t) = weak_Write_end e' u" using step by auto
  then show ?thesis using mqw_access_written [of Capacity _ _ s e' u] weak_Write_end_written [of e t e' u] by simp
next
  case (WMReader i k)
  then obtain e' u where "mqw_access Capacity (unat (rd_head (mqw_readers s i))) (WQStep (Suc i) False k) s = Some (e', u)"
    "(e, t) = weak_Load_end i (loaded_seq (reader_pc i s)) e' u" using step by auto
  then show ?thesis using mqw_access_written [of Capacity _ _ s e' u] weak_Load_end_written [of e t i _ e' u] by simp
next
  case (WMCopy i j)
  then show ?thesis using step by (auto split: if_splits)
qed (use step in \<open>auto dest!: mqw_access_written\<close>)

lemma mqw_bounded_mono: "mqw_step Capacity c s = Some (e, t) \<Longrightarrow> mqw_bounded t \<Longrightarrow> mqw_bounded s"
  using mqw_step_written [of Capacity c s e t] div_le_mono [of "mqw_written s" "mqw_written t" "unat (mqw_size s)"]
  by (auto simp: mqw_bounded_def)

lemma mqw_rel_step:
  assumes rel: "mqw_rel Capacity s l" and step: "within mqw_bounded (mqw_step Capacity) c s = Some (e, t)"
  shows "\<exists>l'. accepts weak_mq_spec e l = Some l' \<and> mqw_rel Capacity t l'"
proof -
  have st: "mqw_step Capacity c s = Some (e, t)" and bound: "mqw_bounded s"
    using step mqw_bounded_mono by (auto simp: within_Some)
  note R = mqw_rel_facts [OF rel refl refl]
  show ?thesis
  proof (cases c)
    case (WMWrite object)
    then show ?thesis using st R(1,8) mqw_call [OF rel, of "length (log_messages l) mod unat (mqw_size s)" "WQStore 0 object" _ _ 0]
      by auto
  next
    case (WMRead i)
    then show ?thesis using st R(1,9) mqw_call [OF rel, of "log_position l i mod unat (mqw_size s)" "WQLoad (Suc i)" _ _ "Suc i"]
      by auto
  next
    case (WMWriter weak k)
    then show ?thesis using st mqw_writer_step [OF rel] by simp
  next
    case (WMReader i k)
    then show ?thesis using st mqw_reader_step [OF rel bound] by simp
  next
    case (WMCopy i j)
    then show ?thesis using st mqw_rel_copy [OF rel] by simp
  qed
qed

lemma mqw_new_rel:
  assumes "mqw_new MessagesCount = Some s" "unat (mqw_size s) < 2 ^ 32"
  shows "mqw_rel Capacity s (mq_log_new MessagesCount)"
proof -
  obtain n where n: "mq_GetBufferSize MessagesCount = Some n"
    "s = \<lparr>mqw_size = n, mqw_cells = replicate (unat n) amsg_weak_new, mqw_writer = Writer_new 0,
           mqw_readers = (\<lambda>i. Reader_new 0), mqw_written = 0, mqw_undefined = False\<rparr>"
    using assms(1) by (auto simp: mqw_new_def split: option.splits)
  have "weak_seq_start (amsg_weak_ops Capacity) amsg_lays amsg_weak_new ([[]], \<lambda>i. 0)"
    unfolding weak_seq_start_def amsg_weak_new_def
    by (intro exI [of _ amsg_weak_initial] exI [of _ "[]"]) (simp add: amsg_lays_def amsg_weak_ops_def amsg_fits_def)
  then have "cell_sim Capacity amsg_weak_new [[]]" using amsg_weak.weak_seq.rel_init by blast
  moreover have "wseq_pc amsg_weak_new i = WQ_Idle" for i by (simp add: amsg_weak_new_def weak_seq_new_def)
  moreover have "pow2_size n" using n(1) bit_ceil_pow2 by (simp add: mq_GetBufferSize_def)
  ultimately show ?thesis using n assms(2)
    by (simp add: mqw_rel_def mq_log_new_def mqw_cells_ok_def Writer_new_def Reader_new_def reader_at_def Let_def cell_objs_nil inside_cell_def)
qed

interpretation mqw_ref: simulation "within mqw_bounded (mqw_step Capacity)"
    "\<lambda>s l. mqw_new MessagesCount = Some s \<and> unat (mqw_size s) < 2 ^ 32 \<and> l = mq_log_new MessagesCount" "mqw_rel Capacity" weak_mq_spec
  for Capacity MessagesCount
  by unfold_locales (use mqw_new_rel mqw_rel_step in blast)+

section \<open>The property\<close>

text \<open>
  Property C22. The memory orders and fences of \<open>BoundedMulticastQueue\<close> are enough: in every interleaving of the accesses of
  its writer and its readers, whatever stale values they read, every message that a reader got is the one at its
  position in the order of the writes (it starts at 0, moves on with each message, and takes over the position of a reader
  that is copied over it), so that a reader that nothing was copied over has got a prefix of what was written. \<open>Read\<close> returns false only to
  a reader that is late by more than the buffer. No index leaves the buffer, the shift of \<open>UpdateIndexes\<close> is
  defined and no difference of two counters leaves \<open>int32_t\<close>. It holds until a cell was written \<open>2 ^ 30 - 1\<close> times. The bytes of a cell
  are locations of their own here, so nothing is said of units of different sizes on the same bytes.
\<close>

theorem mq_fences_suffice:
  assumes "mqw_new MessagesCount = Some s" "unat (mqw_size s) < 2 ^ 32" "reaches (mqw_step Capacity) s es t" "mqw_bounded t"
  shows "\<not> mqw_undefined t \<and>
    (\<exists>l. accepts weak_mq_spec es (mq_log_new MessagesCount) = Some l \<and> log_messages l = writes es \<and>
      log_position l = reader_pos es (\<lambda>i. 0) \<and>
      (\<forall>i. mqw_readers t i = reader_at (unat (mqw_size t)) (log_position l i))) \<and>
    (\<forall>i. gets_its_messages i es \<and> (never_assigned i es \<longrightarrow> gots i es = take (length (gots i es)) (writes es)))"
proof -
  have "reaches (within mqw_bounded (mqw_step Capacity)) s es t"
    using reaches_within [OF assms(3), of mqw_bounded] assms(4) mqw_bounded_mono by blast
  then obtain l where l: "accepts weak_mq_spec es (mq_log_new MessagesCount) = Some l" "mqw_rel Capacity t l"
    using mqw_ref.simulates assms(1,2) by blast
  have m: "log_messages l = writes es" "log_position l = reader_pos es (\<lambda>i. 0)"
    using weak_mq_spec_messages [OF l(1)] weak_mq_spec_reader_pos [OF l(1)] by (simp_all add: mq_log_new_def)
  have "gets_its_messages i es" for i
    by (rule spec_gets [OF l(1)]) (auto simp: mq_log_new_def weak_mq_spec_messages weak_mq_spec_reader_pos split: if_splits)
  then show ?thesis using l m gets_prefix by (auto simp: mqw_rel_def Let_def)
qed

text \<open>
  Two cells. Reader 0 reads [5] while the writer is in the other cell; reader 1 looks at the second cell after
  [6] was written there, sees the counter from before, and waits.
\<close>

definition mqw_schedule :: "mqw_choice list" where
  "mqw_schedule =
     [WMWrite [5]] @ replicate 5 (WMWriter False 0) @ [WMWrite [6], WMWriter False 0, WMWriter False 0] @
     [WMRead 0, WMReader 0 2, WMReader 0 1, WMReader 0 1, WMReader 0 2, WMCopy 0 1, WMWriter False 0, WMWriter False 0, WMWriter False 0,
      WMRead 1, WMReader 1 0, WMReader 1 0, WMReader 1 0]"

definition mqw_trace :: "mq_event list" where
  "mqw_trace = [Wrote [5], Got 0 [5], Copied 0 1, Wrote [6], Waited 1]"

lemma mq_fences_suffice_witness:
  "\<exists>s t. mqw_new 2 = Some s \<and> reaches (mqw_step 8) s mqw_trace t \<and> \<not> mqw_undefined t"
proof -
  have "map_option (\<lambda>s. unat (mqw_size s)) (mqw_new 2) = Some 2" by code_simp
  then obtain s where s: "mqw_new 2 = Some s" "unat (mqw_size s) = 2" by auto
  have "Option.bind (mqw_new 2) (\<lambda>s. map_option (\<lambda>(e, t). (e, mqw_written t, unat (mqw_size t))) (run (mqw_step 8) mqw_schedule s)) =
    Some (mqw_trace, 2, 2)" by code_simp
  then obtain t where t: "run (mqw_step 8) mqw_schedule s = Some (mqw_trace, t)" "mqw_written t = 2" "unat (mqw_size t) = 2"
    using s(1) by auto
  then have b: "mqw_bounded t" by (simp add: mqw_bounded_def)
  note reach = run_reaches [OF t(1)]
  have "unat (mqw_size s) < 2 ^ 32" using s(2) by simp
  from mq_fences_suffice [OF s(1) this reach b] s(1) reach show ?thesis by blast
qed

end
