(* ===== verification/Spec2Isabelle.thy ===== *)
theory Spec2Isabelle
  imports SPSC_Concurrent MPMC_Lifetime Locked_Stack Multicast_Queue Batched_Queue Huge_Pages Counted_Pointer
    Lock_Free_Liveness Shared_Ptr_Limits Atomic_Store Multicast_Object SPSC_Weak Spin_Lock_Weak Seq_Lock_Weak
    MPMC_Weak MPMC_Answers Multicast_Weak_Queue
begin

text \<open>
  Verification of the lock-free data structures: the queues of queue/, the stacks of stack/, the locks
  of lock/ and the helpers of utils/ (all header files; the library is templates over an element type
  \<open>T\<close>, which is the type variable \<open>'a\<close> of the theories). This theory holds nothing but the imports
  and this guide.

  \<^bold>\<open>How the program is modelled.\<close> A class is a \<open>record\<close>, machine integers are words of their width
  (\<open>size_t\<close> is \<open>64 word\<close>), and what raises, asserts or dereferences an invalid pointer is a value of an
  error or crash branch. Where one thread at a time runs an operation, the operation is a function on
  the record. Where threads run at once, an operation is a program: a datatype of program points with
  the local variables as arguments, and a step function whose every step makes one access to memory
  that another thread may touch, together with the local computation that follows it. A schedule picks
  which thread makes its next access; \<open>run\<close> and \<open>reaches\<close> (theory \<open>Prelude\<close>) put the steps together.
  Steps emit events at the accesses at which the operation takes effect, and the sequential
  specification accepts a list of events or does not.

  \<^bold>\<open>The interfaces.\<close> \<open>Prelude\<close> has the locales through which every concurrent component is proved:
  \<open>inv_system\<close> (an inductive invariant), \<open>refinement\<close> (an abstraction function to a specification)
  and \<open>simulation\<close> (a relation instead of a function). \<open>Bounded_Fifo\<close> extends the second to the contract
  \<open>fifo_implementation\<close> of a queue. \<open>Spin_Lock\<close> has \<open>mutex\<close>, what a client of a lock relies on, and
  \<open>Seq_Lock\<close> has \<open>seqlocked\<close>, what the protocol of the sequence lock asks of the accesses to what it
  protects; \<open>Seq_Lock_Weak\<close> has \<open>weak_seqlocked\<close>, the same in the weak memory, with a \<open>sublocale\<close> that
  gives the \<open>simulation\<close> for every instance. Each is interpreted on the model of the code that provides it: \<open>fifo_implementation\<close> on the
  SPSC queue, \<open>refinement\<close> on the MPMC queue (in both memories), \<open>mutex\<close> on the spin lock, \<open>seqlocked\<close> and \<open>weak_seqlocked\<close> on \<open>SeqLockAtomic\<close>
  and on the messages of the multicast queue, \<open>simulation\<close> on the spin lock, the multicast
  queue, the lock-free stack and, in the weak memory, the SPSC queue, the spin lock and the multicast queue; the locked stack is proved inside
  \<open>mutex\<close>, for any lock.

  \<^bold>\<open>Theories, what they model, and what their lemmas show.\<close>

  \<^item> \<open>Ring_Capacity\<close>: the constexpr \<open>GetBufferSize\<close>, of which queue/bounded_sp_sc_queue.h,
    queue/bounded_mp_mc_queue.h and queue/batched_bounded_sp_sc_queue.h hold a copy each. The size is
    the least power of two above \<open>max (Capacity + 1) 4\<close>, so at least 8, or the constant evaluation fails.

  \<^item> \<open>SPSC_Queue\<close> and \<open>SPSC_Concurrent\<close>: \<open>BoundedSPSCQueue\<close> (queue/bounded_sp_sc_queue.h). Sequentially
    the operations are those of a bounded FIFO. With one producer and one consumer, interleaved access
    by access, the queue is linearizable, free of data races on its buffer, and wait free.

  \<^item> \<open>Weak_Memory\<close>: a memory with release and acquire accesses instead of sequential consistency, as
    histories of writes and views of threads. \<open>SPSC_Weak\<close> is the SPSC queue on it: its memory orders are
    enough. \<open>Spin_Lock_Weak\<close> is the spin lock on it: with the order of its \<open>exchange\<close> owners still exclude each other,
    but what the lock protects is accessed in data races. \<open>Seq_Lock_Weak\<close> has
    the sequence lock on it, over any object that is read and written part by part with relaxed accesses, and
    \<open>SeqLockAtomic\<close>, for which its fences are enough; \<open>Multicast_Weak\<close> has \<open>AtomicMulticastQueueMessage\<close>, whose
    loads read as many bytes as a size says that may be stale, with each byte a location of its own, and
    \<open>Multicast_Weak_Queue\<close> the whole multicast queue, every access of its writer and its readers: every message that a
    reader gets is the one at its position, and no index, shift or difference of counters is out of range. Since each byte is a
    location, the units of different sizes through which atomic_memcpy.h may access the same bytes are not in these theories. \<open>MPMC_Weak\<close> is the MPMC
    queue on it: stale counters and generations only make operations wait or try again, and the slots are
    handed over without data races.

  \<^item> \<open>MPMC_Queue\<close>, \<open>MPMC_Lap\<close>, \<open>MPMC_Lifetime\<close> and \<open>MPMC_Answers\<close>: \<open>BoundedMPMCQueue\<close> (queue/bounded_mp_mc_queue.h).
    \<open>GetGeneration\<close> gives a ticket with its index bits cleared, while a slot counts up by one, so that
    a slot never matches a ticket of a second pass over the buffer. The invariant describes the first
    pass; from it the queue is a row of one-shot cells, elements are delivered at most once each, at
    most as many elements as there are slots are ever taken in, and an \<open>Emplace\<close> with a later ticket
    waits for ever. \<open>MPMC_Answers\<close> justifies the answer false of \<open>TryEmplace\<close> and \<open>TryDequeue\<close>. Bound: fewer than \<open>2 ^ 31\<close> tickets, below which the 32-bit generations are exact.

  \<^item> \<open>Spin_Lock\<close>: \<open>SpinLock\<close> (lock/spin_lock.h) and the dispatch of \<open>Lock\<close> (lock/lock.h): mutual
    exclusion for any number of threads.

  \<^item> \<open>Locked_Stack\<close>: \<open>UnboundedLockedStack\<close> (stack/unbounded_locked_stack.h) over any lock of the contract
    \<open>mutex\<close>; it is a sequential stack in every interleaving. \<open>std::stack\<close> is a list, \<open>std::mutex\<close> another
    instance of the contract. \<open>UnboundedSpinLockedStack\<close> is one whose lock was never constructed.

  \<^item> \<open>Atomic_Memcpy\<close>, \<open>Seq_Lock\<close> and \<open>Seq_Lock_Atomic\<close>: utils/atomic_memcpy.h and lock/seq_lock.h. The two
    copy loops are \<open>memcpy\<close>; \<open>SeqLockAtomic\<close> is an atomic register for any number of readers and writers
    provided that no load is overtaken by so many stores that the 32-bit counter comes round, and with
    \<open>2 ^ 31\<close> stores during a load the object that it returns is torn.

  \<^item> \<open>Multicast_Message\<close>, \<open>Multicast_Queue\<close> and \<open>Multicast_Object\<close>: queue/bounded_multicast_queue.h. A cell
    is a register of messages of varying length (an instance of \<open>seqlocked\<close>, which is why the queue can
    take its \<open>Load\<close> and \<open>Store\<close> as single steps); the queue with its one \<open>Writer\<close> and its \<open>Reader\<close>s is a log
    with a position for each reader. Bound: at most \<open>2 ^ 30 - 1\<close> writes to a cell, below which the
    sequence number of a cell does not come round.

  \<^item> \<open>Batched_Queue\<close>: \<open>BatchedBoundedSPSCQueue\<close> (queue/batched_bounded_sp_sc_queue.h), sequentially. Its ring
    of slots is that of the SPSC queue; inside a slot \<open>Emplace\<close> never moves the tail, so that one element
    is dequeued \<open>2 ^ 64\<close> times.

  \<^item> \<open>Huge_Pages\<close>: \<open>HugePageAllocator\<close> (utils/huge_pages.h), with \<open>mmap\<close> and \<open>munmap\<close> as arguments.
    \<open>deallocate\<close> unmaps less than \<open>allocate\<close> mapped.

  \<^item> \<open>Counted_Pointer\<close>: the packed words of stack/tmp/unbounded_lock_free_stack.h.

  \<^item> \<open>Atomic_Shared_Ptr\<close>, \<open>Shared_Ptr_Destructor\<close>, \<open>Shared_Ptr_Counts\<close>, \<open>Shared_Ptr_Steps\<close>, \<open>Shared_Ptr_Limits\<close> and \<open>Atomic_Store\<close>:
    stack/atomic_shared_ptr/atomic_shared_ptr.h. The memory \<open>mem\<close> holds control blocks, nodes and the
    packed word of the one \<open>AtomicSharedPtr\<close>; \<open>get_step\<close>, \<open>destroy_step\<close>, \<open>cas_step\<close> and \<open>store_step\<close> are the
    operations access by access. \<open>Shared_Ptr_Counts\<close> says what each program point owes and
    \<open>Shared_Ptr_Steps\<close> that every access keeps the accounts. \<open>Atomic_Store\<close> shows what an undisturbed
    store does, \<open>Shared_Ptr_Limits\<close> what goes wrong on the path that the code takes beyond 1000 simultaneous readers.
    \<open>Shared_Ptr_Destructor\<close> has \<open>~SharedPtr\<close> with its \<open>thread_local\<close> queue and flag and the nested
    destructors (\<open>destructor_step\<close>): it releases what the chain of \<open>unref_step\<close> does, in bounded native stack, and
    resets the flag.

  \<^item> \<open>Lock_Free_Stack\<close>: \<open>UnboundedLockFreeStack\<close> (stack/unbounded_lock_free_stack.h), the operations as programs
    over those of \<open>Atomic_Shared_Ptr\<close>. \<open>Lock_Free_Inv\<close> has the invariant, \<open>Lock_Free_Views\<close>,
    \<open>Lock_Free_Steps\<close> and \<open>Lock_Free_Access\<close> show that every access keeps it, and the other four use it:
    \<open>Lock_Free_Correct\<close> (linearizable, no access to freed memory, exact counts, one owner of a popped
    node), \<open>Lock_Free_Release\<close> (no leak, the destructor frees everything, the heap is well formed),
    \<open>Lock_Free_Solo\<close> and \<open>Lock_Free_Progress\<close> (a thread that runs alone returns: obstruction freedom),
    and \<open>Lock_Free_Liveness\<close> (lock freedom, by counting how often the packed word can change).

  \<^bold>\<open>Bounds of the lock-free stack.\<close> At most 500 threads: an operation reads the packed word through at
  most two \<open>FastSharedPtr\<close>s, so the local count stays at or below 1000 and the path behind it is not
  entered (\<open>Shared_Ptr_Limits\<close> shows that this path is wrong). \<open>lf_free\<close> takes the address of a node from the multiples of 16
  below \<open>2 ^ 34\<close>, so that there are fewer than \<open>2 ^ 30\<close> nodes at a time and a
  count, which the code converts to \<open>int\<close>, stays positive; the code never packs the address of a node, so that nothing else
  depends on which addresses these are. Addresses of control blocks have 48 bits,
  as the code assumes. Addresses are reused after they are freed, so that the ABA situations of the
  code are in the model. A block and its node are freed in one step with the decrement that found the
  count 1, which is earlier than in the code and so allows more reuse; then the block of \<open>prev_\<close> is released in the next
  step, where the code goes through its queue (\<open>destructor_releases\<close> shows that the two come to the same when the thread is
  not disturbed). Obstruction freedom and
  lock freedom are proved for a \<open>compare_exchange_weak\<close> that does not fail spuriously; the other theorems
  allow it to fail at any time.

  \<^bold>\<open>Not modelled.\<close> Except in the theories that have \<open>Weak\<close> in their names atomics are
  sequentially consistent, and fences and relaxed accesses are taken as such; nothing is claimed there about
  weaker orders. \<open>Weak_Memory\<close> has no load buffering (a load reads a write that has been made). \<open>Wait\<close>
  (utils/wait.h) is a hint to the processor or the scheduler; padding and alignment (utils/cache_line.h)
  are layout; the traits of queue/bounded_queue.h and stack/concurrent_stack.h are conditions on types.
  None of them changes a state. The comparison operators of \<open>HugePageAllocator\<close> are constants. The stack
  in stack/tmp/ is a draft: \<open>Push\<close> is empty and \<open>Pop\<close> calls a function that is declared nowhere. The
  benchmarks measure, one of them brings a stack of another author, and the tests are empty.
\<close>

end
